(* ===== verification/Prelude.thy ===== *)
theory Prelude
  imports Complex_Main "HOL-Library.AList"
begin

text \<open>
  Shared ground of the development: the dynamic Python values that the validators of the
  runtime inspect, the exceptions its components raise, results as sums, the generic facts on
  lists and the locale of step machines that the stateful components interpret.

  Conventions. A Python \<open>float\<close> that passed a finiteness check is a \<^typ>\<open>real\<close>: comparisons
  and arithmetic are exact, the rounding of binary64 and its overflow are not modelled. A
  \<open>float\<close> that has not been checked yet is a \<open>pyfloat\<close>, with the infinities and NaN. A Python
  \<open>int\<close> is an \<^typ>\<open>int\<close>. A \<open>str\<close> is a \<^typ>\<open>string\<close>, one \<^typ>\<open>char\<close> per code point. Every reading of
  a clock and every random draw is an argument of the operation that makes it. Log calls are
  left out.
\<close>

section \<open>Dynamic values\<close>

datatype pyfloat = Fin real | PosInf | NegInf | NaN

datatype pyval =
    PNone
  | PBool bool
  | PInt int
  | PFloat pyfloat
  | PStr string
  | PList "pyval list"
  | PDict "(string \<times> pyval) list"

fun finite_float :: "pyfloat \<Rightarrow> bool" where
  "finite_float (Fin _) = True"
| "finite_float _ = False"

text \<open>
  \<open>isinstance(v, (int, float)) and not isinstance(v, bool)\<close>, \<open>float(v)\<close> and \<open>math.isfinite\<close>
  in one step: the finite number a numeric value stands for.
\<close>

fun finite_number :: "pyval \<Rightarrow> real option" where
  "finite_number (PInt i) = Some (of_int i)"
| "finite_number (PFloat (Fin r)) = Some r"
| "finite_number _ = None"

text \<open>\<open>isinstance(v, int) and not isinstance(v, bool)\<close>.\<close>

fun plain_int :: "pyval \<Rightarrow> int option" where
  "plain_int (PInt i) = Some i"
| "plain_int _ = None"

fun is_dict :: "pyval \<Rightarrow> bool" where
  "is_dict (PDict _) = True"
| "is_dict _ = False"

text \<open>\<open>d.get(k)\<close> on a JSON object, \<open>None\<close> for a missing key.\<close>

fun pget :: "pyval \<Rightarrow> string \<Rightarrow> pyval" where
  "pget (PDict d) k = (case map_of d k of None \<Rightarrow> PNone | Some v \<Rightarrow> v)"
| "pget _ k = PNone"

section \<open>Strings\<close>

text \<open>
  \<open>str.isspace\<close>, \<open>str.strip\<close>, \<open>str.lower\<close> and \<open>" ".join(s.split())\<close> on the code points below 256.
\<close>

definition is_space :: "char \<Rightarrow> bool" where
  "is_space c = (let n = (of_char c :: nat) in
     (9 \<le> n \<and> n \<le> 13) \<or> (28 \<le> n \<and> n \<le> 32) \<or> n = 133 \<or> n = 160)"

definition py_strip :: "string \<Rightarrow> string" where
  "py_strip s = rev (dropWhile is_space (rev (dropWhile is_space s)))"

definition lower_char :: "char \<Rightarrow> char" where
  "lower_char c = (let n = (of_char c :: nat) in
     if (65 \<le> n \<and> n \<le> 90) \<or> (192 \<le> n \<and> n \<le> 222 \<and> n \<noteq> 215) then char_of (n + 32) else c)"

definition py_lower :: "string \<Rightarrow> string" where
  "py_lower s = map lower_char s"

fun split_words :: "string \<Rightarrow> string \<Rightarrow> string list" where
  "split_words acc [] = (if acc = [] then [] else [rev acc])"
| "split_words acc (c # s) =
     (if is_space c then (if acc = [] then split_words [] s else rev acc # split_words [] s)
      else split_words (c # acc) s)"

fun join_words :: "string \<Rightarrow> string list \<Rightarrow> string" where
  "join_words sep [] = []"
| "join_words sep [w] = w"
| "join_words sep (w # ws) = w @ sep @ join_words sep ws"

definition collapse_spaces :: "string \<Rightarrow> string" where
  "collapse_spaces s = join_words '' '' (split_words [] s)"

text \<open>\<open>pat in s\<close>.\<close>

fun is_infix :: "string \<Rightarrow> string \<Rightarrow> bool" where
  "is_infix pat [] = (pat = [])"
| "is_infix pat (c # s) = (take (length pat) (c # s) = pat \<or> is_infix pat s)"

definition is_digit :: "char \<Rightarrow> bool" where
  "is_digit c = (let n = (of_char c :: nat) in 48 \<le> n \<and> n \<le> 57)"

text \<open>\<open>Path(s).name\<close>: the last component that is neither empty nor a dot.\<close>

fun split_on :: "char \<Rightarrow> string \<Rightarrow> string \<Rightarrow> string list" where
  "split_on d acc [] = [rev acc]"
| "split_on d acc (c # s) = (if c = d then rev acc # split_on d [] s else split_on d (c # acc) s)"

definition path_name :: "string \<Rightarrow> string" where
  "path_name s = (case rev (filter (\<lambda>p. p \<noteq> [] \<and> p \<noteq> ''.'') (split_on (CHR ''/'') [] s)) of
     [] \<Rightarrow> [] | p # _ \<Rightarrow> p)"

section \<open>Exceptions and results\<close>

datatype py_exn =
    ValueError string
  | TypeError string
  | RuntimeError string
  | OSError string
  | TimeoutError string
  | CancelledError
  | CircuitOpen string
  | LoopDetected string
  | IdempotencyConflict
  | BudgetExceeded string
  | DispatchError string
  | TaskLedgerPersistenceError string
  | SessionPersistenceError string
  | PaymentAlreadyRedeemedError
  | RegistryCorruptError string
  | OtherError string string

text \<open>
  \<open>except Exception\<close> catches everything but \<open>asyncio.CancelledError\<close>, which derives from
  \<open>BaseException\<close>.
\<close>

definition is_Exception :: "py_exn \<Rightarrow> bool" where
  "is_Exception e \<longleftrightarrow> e \<noteq> CancelledError"

type_synonym 'a res = "py_exn + 'a"

text \<open>
  A Python method that reads and writes its object and may raise: the state it leaves behind
  is part of the outcome on the raising path too.
\<close>

type_synonym ('s, 'a) op = "'s \<Rightarrow> 'a res \<times> 's"

definition is_ok :: "'a res \<Rightarrow> bool" where
  "is_ok r \<longleftrightarrow> (\<exists>a. r = Inr a)"

lemma is_ok_simps [simp]: "is_ok (Inr a)" "\<not> is_ok (Inl e)"
  by (auto simp: is_ok_def)

text \<open>Sequencing of fallible pure steps: the first exception wins.\<close>

definition rbind :: "'a res \<Rightarrow> ('a \<Rightarrow> 'b res) \<Rightarrow> 'b res" where
  "rbind r f = (case r of Inl e \<Rightarrow> Inl e | Inr a \<Rightarrow> f a)"

definition guard :: "bool \<Rightarrow> py_exn \<Rightarrow> unit res" where
  "guard b e = (if b then Inr () else Inl e)"

lemma rbind_simps [simp]: "rbind (Inr a) f = f a" "rbind (Inl e) f = Inl e"
  by (auto simp: rbind_def)

lemma rbind_eq_Inr [simp]: "rbind r f = Inr b \<longleftrightarrow> (\<exists>a. r = Inr a \<and> f a = Inr b)"
  by (cases r) auto

lemma guard_eq_Inr [simp]: "guard b e = Inr u \<longleftrightarrow> b"
  by (auto simp: guard_def)

text \<open>\<open>float(v)\<close>; \<open>parse\<close> is the reading of a decimal literal, \<open>None\<close> when it raises.\<close>

fun to_float :: "(string \<Rightarrow> pyfloat option) \<Rightarrow> pyval \<Rightarrow> pyfloat res" where
  "to_float parse (PBool b) = Inr (Fin (if b then 1 else 0))"
| "to_float parse (PInt i) = Inr (Fin (of_int i))"
| "to_float parse (PFloat f) = Inr f"
| "to_float parse (PStr s) =
     (case parse s of Some f \<Rightarrow> Inr f | None \<Rightarrow> Inl (ValueError ''could not convert string to float''))"
| "to_float parse _ = Inl (TypeError ''float() argument must be a string or a real number'')"

text \<open>\<open>float\<close> of an integer raises beyond the largest finite value (rounding included).\<close>

definition int_float_limit :: int where
  "int_float_limit = 2 ^ 1024 - 2 ^ 970"

text \<open>\<open>bool(v)\<close>, and \<open>a or b\<close>.\<close>

fun truthy :: "pyval \<Rightarrow> bool" where
  "truthy PNone = False"
| "truthy (PBool b) = b"
| "truthy (PInt i) = (i \<noteq> 0)"
| "truthy (PFloat f) = (f \<noteq> Fin 0)"
| "truthy (PStr s) = (s \<noteq> [])"
| "truthy (PList xs) = (xs \<noteq> [])"
| "truthy (PDict d) = (d \<noteq> [])"

definition por :: "pyval \<Rightarrow> pyval \<Rightarrow> pyval" where
  "por a b = (if truthy a then a else b)"

section \<open>Collections of facts\<close>

named_theorems inv_intros \<open>preservation of component invariants\<close>
named_theorems norax_defs \<open>operations that unfold in a step proof\<close>

section \<open>Pairs\<close>

lemma fst_pairD: "fst p = a \<Longrightarrow> p = (a, snd p)"
  by auto

section \<open>Lists\<close>

text \<open>\<open>xs[-n:]\<close>: the last \<open>n\<close> items, all of them when there are fewer (\<open>n > 0\<close>).\<close>

definition lastn :: "nat \<Rightarrow> 'a list \<Rightarrow> 'a list" where
  "lastn n xs = drop (length xs - n) xs"

lemma length_lastn [simp]: "length (lastn n xs) = min n (length xs)"
  by (auto simp: lastn_def)

lemma lastn_all [simp]: "length xs \<le> n \<Longrightarrow> lastn n xs = xs"
  by (simp add: lastn_def)

lemma set_lastn_subset: "set (lastn n xs) \<subseteq> set xs"
  by (simp add: lastn_def set_drop_subset)

lemma lastn_append_right: "n \<le> length ys \<Longrightarrow> lastn n (xs @ ys) = lastn n ys"
  by (simp add: lastn_def)

lemma lastn_lastn: "k \<le> n \<Longrightarrow> lastn k (lastn n xs) = lastn k xs"
  by (cases "n \<le> length xs") (auto simp: lastn_def)

lemma lastn_snoc: "0 < w \<Longrightarrow> lastn w (lastn w xs @ [x]) = lastn w (xs @ [x])"
  by (cases "w \<le> length xs") (auto simp: lastn_def Suc_diff_le)

lemma foldl_invariant:
  assumes "P s" and "\<And>s x. P s \<Longrightarrow> x \<in> set xs \<Longrightarrow> P (f s x)"
  shows "P (foldl f s xs)"
  using assms by (induction xs arbitrary: s) auto

section \<open>White space\<close>

lemma strip_no_space: "list_all (\<lambda>c. \<not> is_space c) s \<Longrightarrow> py_strip s = s"
proof -
  assume "list_all (\<lambda>c. \<not> is_space c) s"
  then have a: "dropWhile is_space xs = xs" if "set xs \<subseteq> set s" for xs
    using that by (cases xs) (auto simp: list_all_iff)
  show ?thesis by (simp add: py_strip_def a)
qed

lemma py_strip_again [simp]: "py_strip (py_strip s) = py_strip s"
proof -
  define a where "a = dropWhile is_space s"
  define b where "b = rev (dropWhile is_space (rev a))"
  have "rev (rev a) = b @ rev (takeWhile is_space (rev a))" by (simp only: b_def rev_append [symmetric] takeWhile_dropWhile_id)
  then have a: "a = b @ rev (takeWhile is_space (rev a))" by simp
  have "a = [] \<or> \<not> is_space (hd a)" unfolding a_def by (metis hd_dropWhile)
  then have "b = [] \<or> \<not> is_space (hd b)" using a by (metis append_is_Nil_conv hd_append2)
  then have "dropWhile is_space b = b" by (simp add: dropWhile_eq_self_iff)
  then show ?thesis by (simp add: py_strip_def a_def [symmetric] b_def [symmetric]) (simp add: b_def dropWhile_idem)
qed

lemma py_strip_Nil [simp]: "py_strip [] = []"
  by (simp add: py_strip_def)

text \<open>Splitting at white space undoes joining with single blanks.\<close>

definition words_ok :: "string list \<Rightarrow> bool" where
  "words_ok ws \<longleftrightarrow> list_all (\<lambda>w. w \<noteq> [] \<and> list_all (\<lambda>c. \<not> is_space c) w) ws"

lemma split_words_ok: "list_all (\<lambda>c. \<not> is_space c) acc \<Longrightarrow> words_ok (split_words acc s)"
proof (induction acc s rule: split_words.induct)
  case (2 acc c s)
  then show ?case by (cases "is_space c"; cases "acc = []") (simp_all add: words_ok_def)
qed (simp add: words_ok_def)

lemma split_words_word: "list_all (\<lambda>c. \<not> is_space c) w \<Longrightarrow> split_words acc (w @ s) = split_words (rev w @ acc) s"
  by (induction w arbitrary: acc) simp_all

lemma split_join: "words_ok ws \<Longrightarrow> split_words [] (join_words '' '' ws) = ws"
proof (induction "'' ''" ws rule: join_words.induct)
  case (2 w)
  then show ?case using split_words_word [of w "[]" "[]"] by (simp add: words_ok_def)
next
  case (3 w v ws)
  have sp: "is_space (CHR '' '')" by (simp add: is_space_def)
  from 3 have w: "w \<noteq> []" "list_all (\<lambda>c. \<not> is_space c) w" "words_ok (v # ws)" by (auto simp: words_ok_def)
  then show ?case using 3(1) split_words_word [OF w(2), of "[]" "'' '' @ join_words '' '' (v # ws)"] sp by simp
qed simp

lemma collapse_fixed: "collapse_spaces (collapse_spaces s) = collapse_spaces s"
  using split_join [OF split_words_ok, of "[]" s] by (simp add: collapse_spaces_def)

lemma join_words_Cons: "join_words sep (w # ws) = w @ (if ws = [] then [] else sep @ join_words sep ws)"
  by (cases ws) auto

lemma collapse_length: "length (join_words '' '' (split_words acc s)) \<le> length acc + length s"
proof (induction acc s rule: split_words.induct)
  case (2 acc c s)
  then show ?case by (auto simp: join_words_Cons)
qed auto

lemma collapse_chars: "set (join_words '' '' (split_words acc s)) \<subseteq> set acc \<union> set s \<union> {CHR '' ''}"
proof (induction acc s rule: split_words.induct)
  case (2 acc c s)
  then show ?case by (auto simp: join_words_Cons)
qed auto

section \<open>Step machines\<close>

text \<open>
  The contract every stateful component meets: its operations, as one step function over an
  event type, keep an invariant as long as the environment's part of the event (clock
  readings, random draws, arguments of the caller) satisfies \<open>ok\<close>. What a run keeps is then
  proved once.
\<close>

locale machine =
  fixes step :: "'s \<Rightarrow> 'e \<Rightarrow> 's"
    and inv :: "'s \<Rightarrow> bool"
    and ok :: "'e \<Rightarrow> bool"
  assumes step_inv: "inv s \<Longrightarrow> ok e \<Longrightarrow> inv (step s e)"
begin

lemma run_inv: "inv s \<Longrightarrow> list_all ok es \<Longrightarrow> inv (foldl step s es)"
  by (induction es arbitrary: s) (auto intro: step_inv)

lemma run_prefix_inv:
  "inv s \<Longrightarrow> list_all ok es \<Longrightarrow> inv (foldl step s (take n es))"
  by (rule run_inv) (auto simp: list_all_iff dest: in_set_takeD)

end

end
