(* ===== verification/PyDict.thy ===== *)
theory PyDict
  imports Prelude
begin

text \<open>
  Python's \<open>dict\<close> and \<open>OrderedDict\<close>: association lists with distinct keys in insertion order.
  Assigning to a present key keeps its position, a new key goes to the end, \<open>move_to_end\<close> and
  \<open>popitem(last=False)\<close> are those of \<open>OrderedDict\<close>. The locale \<open>dict_like\<close> is the interface the
  components use; it is interpreted on the association lists.
\<close>

type_synonym ('k, 'v) dict = "('k \<times> 'v) list"

fun dset :: "'k \<Rightarrow> 'v \<Rightarrow> ('k, 'v) dict \<Rightarrow> ('k, 'v) dict" where
  "dset k v [] = [(k, v)]"
| "dset k v (p # d) = (if fst p = k then (k, v) # d else p # dset k v d)"

definition ddel :: "'k \<Rightarrow> ('k, 'v) dict \<Rightarrow> ('k, 'v) dict" where
  "ddel k d = filter (\<lambda>p. fst p \<noteq> k) d"

definition dkeys :: "('k, 'v) dict \<Rightarrow> 'k list" where
  "dkeys d = map fst d"

definition dvals :: "('k, 'v) dict \<Rightarrow> 'v list" where
  "dvals d = map snd d"

definition dict_ok :: "('k, 'v) dict \<Rightarrow> bool" where
  "dict_ok d \<longleftrightarrow> distinct (map fst d)"

definition move_to_end :: "'k \<Rightarrow> ('k, 'v) dict \<Rightarrow> ('k, 'v) dict" where
  "move_to_end k d = (case map_of d k of None \<Rightarrow> d | Some v \<Rightarrow> ddel k d @ [(k, v)])"

text \<open>\<open>dict.update\<close> with the pairs of another dict, and \<open>dict.setdefault\<close>.\<close>

definition dupdate :: "('k, 'v) dict \<Rightarrow> ('k, 'v) dict \<Rightarrow> ('k, 'v) dict" where
  "dupdate d e = foldl (\<lambda>d (k, v). dset k v d) d e"

definition dsetdefault :: "'k \<Rightarrow> 'v \<Rightarrow> ('k, 'v) dict \<Rightarrow> ('k, 'v) dict" where
  "dsetdefault k v d = (case map_of d k of None \<Rightarrow> d @ [(k, v)] | Some _ \<Rightarrow> d)"

text \<open>\<open>data.get(key, default)\<close>.\<close>

definition get_or :: "(string, pyval) dict \<Rightarrow> string \<Rightarrow> pyval \<Rightarrow> pyval" where
  "get_or d k dflt = (case map_of d k of Some v \<Rightarrow> v | None \<Rightarrow> dflt)"

section \<open>Facts\<close>

lemma map_of_dset [simp]: "map_of (dset k v d) = (map_of d)(k \<mapsto> v)"
  by (induction d) auto

lemma fst_set_dset [simp]: "fst ` set (dset k v d) = insert k (fst ` set d)"
  by (induction d) (auto simp: image_iff)

lemma dset_not_Nil [simp]: "dset k v d \<noteq> []"
  by (cases d) auto

lemma dict_ok_Nil [simp]: "dict_ok []"
  by (simp add: dict_ok_def)

lemma dict_ok_dset [simp, intro]: "dict_ok d \<Longrightarrow> dict_ok (dset k v d)"
  unfolding dict_ok_def by (induction d) auto

lemma map_of_ddel [simp]: "map_of (ddel k d) = (map_of d)(k := None)"
  by (induction d) (auto simp: ddel_def)

lemma dict_ok_ddel [simp, intro]: "dict_ok d \<Longrightarrow> dict_ok (ddel k d)"
  by (simp add: dict_ok_def ddel_def distinct_map_filter)

lemma set_ddel [simp]: "set (ddel k d) = {p \<in> set d. fst p \<noteq> k}"
  by (auto simp: ddel_def)

lemma length_dset: "length (dset k v d) = (if k \<in> fst ` set d then length d else Suc (length d))"
  by (induction d) auto

lemma length_ddel_le: "length (ddel k d) \<le> length d"
  by (simp add: ddel_def)

lemma dset_absent: "k \<notin> fst ` set d \<Longrightarrow> dset k v d = d @ [(k, v)]"
  by (induction d) auto

lemma ddel_absent [simp]: "k \<notin> fst ` set d \<Longrightarrow> ddel k d = d"
  by (auto simp: ddel_def filter_id_conv image_iff)

lemma map_of_None_iff: "map_of d k = None \<longleftrightarrow> k \<notin> fst ` set d"
  by (induction d) auto

lemma map_of_in_dom: "map_of d k = Some v \<Longrightarrow> k \<in> fst ` set d"
  by (metis map_of_None_iff option.distinct(1))

lemma dict_ok_map_of: "dict_ok d \<Longrightarrow> (k, v) \<in> set d \<longleftrightarrow> map_of d k = Some v"
  by (auto simp: dict_ok_def)

lemma length_ddel: "dict_ok d \<Longrightarrow> k \<in> fst ` set d \<Longrightarrow> Suc (length (ddel k d)) = length d"
proof (induction d)
  case (Cons p d)
  show ?case
  proof (cases "fst p = k")
    case True
    with Cons.prems have "k \<notin> fst ` set d"
      by (simp add: dict_ok_def)
    then have "filter (\<lambda>q. fst q \<noteq> k) d = d"
      using ddel_absent [of k d] by (simp add: ddel_def)
    with True show ?thesis by (simp add: ddel_def)
  next
    case False
    with Cons show ?thesis by (auto simp: dict_ok_def ddel_def)
  qed
qed simp

lemma set_dset_subset: "set (dset k v d) \<subseteq> insert (k, v) (set d)"
  by (induction d) auto

lemma set_dset: "dict_ok d \<Longrightarrow> set (dset k v d) = insert (k, v) {p \<in> set d. fst p \<noteq> k}"
  by (induction d) (force simp: dict_ok_def)+

lemma dvals_dset: "set (dvals (dset k v d)) \<subseteq> insert v (set (dvals d))"
  using set_dset_subset [of k v d] by (force simp: dvals_def)

lemma dict_ok_tl [simp, intro]: "dict_ok d \<Longrightarrow> dict_ok (tl d)"
  by (cases d) (auto simp: dict_ok_def)

lemma dict_ok_filter [simp, intro]: "dict_ok d \<Longrightarrow> dict_ok (filter P d)"
  by (simp add: dict_ok_def distinct_map_filter)

lemma dict_ok_drop [simp, intro]: "dict_ok d \<Longrightarrow> dict_ok (drop n d)"
  by (simp add: dict_ok_def distinct_drop drop_map [symmetric])

lemma dict_ok_append_new:
  "dict_ok d \<Longrightarrow> k \<notin> fst ` set d \<Longrightarrow> dict_ok (d @ [(k, v)])"
  by (auto simp: dict_ok_def)

lemma map_of_append_new:
  "k \<notin> fst ` set d \<Longrightarrow> map_of (d @ [(k, v)]) = (map_of d)(k \<mapsto> v)"
  by (metis dset_absent map_of_dset)

lemma dict_ok_move_to_end [simp, intro]: "dict_ok d \<Longrightarrow> dict_ok (move_to_end k d)"
  by (auto simp: move_to_end_def dict_ok_append_new image_iff split: option.splits)

lemma map_of_move_to_end [simp]: "map_of (move_to_end k d) = map_of d"
proof (cases "map_of d k")
  case (Some v)
  have "k \<notin> fst ` set (ddel k d)" by (auto simp: image_iff)
  then have "map_of (ddel k d @ [(k, v)]) = (map_of (ddel k d))(k \<mapsto> v)"
    by (rule map_of_append_new)
  then have "map_of (move_to_end k d) = (map_of d)(k \<mapsto> v)"
    unfolding move_to_end_def Some option.case by simp
  with Some show ?thesis by (simp add: fun_upd_idem)
qed (simp add: move_to_end_def)

lemma length_move_to_end [simp]: "dict_ok d \<Longrightarrow> length (move_to_end k d) = length d"
  by (simp add: move_to_end_def length_ddel map_of_in_dom split: option.splits)

lemma set_move_to_end [simp]: "dict_ok d \<Longrightarrow> set (move_to_end k d) = set d"
  by (auto simp: move_to_end_def dict_ok_map_of split: option.splits)

lemma map_of_filter_fst: "map_of (filter (\<lambda>p. P (fst p)) d) k = (if P k then map_of d k else None)"
  by (induction d) auto

lemma map_of_filter: "dict_ok d \<Longrightarrow>
  map_of (filter P d) k = (case map_of d k of None \<Rightarrow> None | Some v \<Rightarrow> if P (k, v) then Some v else None)"
  by (induction d) (auto simp: dict_ok_def map_of_None_iff image_iff split: option.splits)

lemma dict_ok_dupdate [simp, intro]: "dict_ok d \<Longrightarrow> dict_ok (dupdate d e)"
  unfolding dupdate_def by (rule foldl_invariant) auto

lemma map_of_dupdate: "dict_ok e \<Longrightarrow> map_of (dupdate d e) = map_of d ++ map_of e"
  unfolding dupdate_def
proof (induction e arbitrary: d)
  case (Cons p e)
  obtain k v where p: "p = (k, v)" by force
  with Cons.prems have "map_of e k = None"
    by (auto simp: dict_ok_def map_of_None_iff)
  with p Cons show ?case
    by (auto simp: dict_ok_def fun_eq_iff map_add_def split: option.splits)
qed simp

lemma dict_ok_dsetdefault [simp, intro]: "dict_ok d \<Longrightarrow> dict_ok (dsetdefault k v d)"
  by (auto simp: dsetdefault_def dict_ok_append_new map_of_None_iff split: option.splits)

section \<open>The interface\<close>

locale dict_like =
  fixes empty :: "'d"
    and lookup :: "'d \<Rightarrow> 'k \<Rightarrow> 'v option"
    and update :: "'k \<Rightarrow> 'v \<Rightarrow> 'd \<Rightarrow> 'd"
    and delete :: "'k \<Rightarrow> 'd \<Rightarrow> 'd"
    and keys :: "'d \<Rightarrow> 'k list"
    and wf :: "'d \<Rightarrow> bool"
  assumes lookup_empty: "lookup empty k = None"
    and lookup_update: "wf d \<Longrightarrow> lookup (update k v d) k' = (if k' = k then Some v else lookup d k')"
    and lookup_delete: "wf d \<Longrightarrow> lookup (delete k d) k' = (if k' = k then None else lookup d k')"
    and keys_lookup: "wf d \<Longrightarrow> k \<in> set (keys d) \<longleftrightarrow> lookup d k \<noteq> None"
    and distinct_keys: "wf d \<Longrightarrow> distinct (keys d)"
    and wf_empty: "wf empty"
    and wf_update: "wf d \<Longrightarrow> wf (update k v d)"
    and wf_delete: "wf d \<Longrightarrow> wf (delete k d)"
begin

lemma keys_update: "wf d \<Longrightarrow> set (keys (update k v d)) = insert k (set (keys d))"
  by (auto simp: keys_lookup wf_update lookup_update split: if_splits)

lemma keys_delete: "wf d \<Longrightarrow> set (keys (delete k d)) = set (keys d) - {k}"
  by (auto simp: keys_lookup wf_delete lookup_delete split: if_splits)

lemma size_update:
  assumes "wf d"
  shows "length (keys (update k v d)) = (if lookup d k = None then Suc (length (keys d)) else length (keys d))"
proof -
  have "length (keys (update k v d)) = card (insert k (set (keys d)))"
    using assms by (metis distinct_card distinct_keys keys_update wf_update)
  also have "\<dots> = (if k \<in> set (keys d) then card (set (keys d)) else Suc (card (set (keys d))))"
    by (simp add: insert_absorb)
  finally show ?thesis
    using assms by (auto simp: keys_lookup distinct_card distinct_keys)
qed

lemma size_delete:
  assumes "wf d"
  shows "length (keys (delete k d)) = (if lookup d k = None then length (keys d) else length (keys d) - 1)"
proof -
  have "length (keys (delete k d)) = card (set (keys d) - {k})"
    using assms by (metis distinct_card distinct_keys keys_delete wf_delete)
  also have "\<dots> = (if k \<in> set (keys d) then card (set (keys d)) - 1 else card (set (keys d)))"
    by simp
  finally show ?thesis
    using assms by (auto simp: keys_lookup distinct_card distinct_keys)
qed

text \<open>Two writes to different keys commute, as far as any reader can tell.\<close>

lemma update_commute:
  "wf d \<Longrightarrow> k \<noteq> k' \<Longrightarrow> lookup (update k v (update k' v' d)) x = lookup (update k' v' (update k v d)) x"
  by (simp add: lookup_update wf_update)

text \<open>A table updated at most at one key keeps a per-entry invariant.\<close>

lemma update_entries:
  assumes "wf d" and "\<And>x. lookup d k' = Some x \<Longrightarrow> P k' x" and "P k v"
    and "lookup (update k v d) k' = Some y"
  shows "P k' y"
  using assms by (auto simp: lookup_update split: if_splits)

end

interpretation pydict: dict_like "[]" map_of dset ddel dkeys dict_ok
  by unfold_locales
    (auto simp: dkeys_def map_of_None_iff [symmetric] dict_ok_def [symmetric] image_iff map_of_eq_None_iff)

end
