(* ===== verification/Breaker_Contract.thy ===== *)
theory Breaker_Contract
  imports Prelude
begin

text \<open>
  What the callers of a circuit breaker rely on, whichever of the program's two breakers it is:
  while the breaker is open and its deadline has not passed, nothing that is reported to it and
  no question put to it lets a call through or moves the deadline. Events that carry a clock
  reading give it through \<open>clock\<close>.
\<close>

locale breaker = machine step inv ok
  for step :: "'s \<Rightarrow> 'e \<Rightarrow> 's" and inv :: "'s \<Rightarrow> bool" and ok :: "'e \<Rightarrow> bool" +
  fixes admits :: "real \<Rightarrow> 's \<Rightarrow> bool"
    and open_until :: "'s \<Rightarrow> real option"
    and clock :: "'e \<Rightarrow> real option"
  assumes closed_to_calls: "inv s \<Longrightarrow> open_until s = Some d \<Longrightarrow> now < d \<Longrightarrow> \<not> admits now s"
    and deadline_kept: "inv s \<Longrightarrow> ok e \<Longrightarrow> open_until s = Some d \<Longrightarrow> (\<And>t. clock e = Some t \<Longrightarrow> t < d)
      \<Longrightarrow> open_until (step s e) = Some d"
begin

definition before :: "real \<Rightarrow> 'e \<Rightarrow> bool" where
  "before d e \<longleftrightarrow> (\<forall>t. clock e = Some t \<longrightarrow> t < d)"

lemma outage_deadline:
  "inv s \<Longrightarrow> open_until s = Some d \<Longrightarrow> list_all ok es \<Longrightarrow> list_all (before d) es
    \<Longrightarrow> open_until (foldl step s es) = Some d"
proof (induction es arbitrary: s)
  case (Cons e es)
  then have "open_until (step s e) = Some d" and "inv (step s e)"
    by (auto simp: before_def intro: deadline_kept step_inv)
  with Cons show ?case by simp
qed simp

lemma outage_no_admission:
  assumes "inv s" and "open_until s = Some d" and "list_all ok es" and "list_all (before d) es" and "now < d"
  shows "\<not> admits now (foldl step s es)"
  using assms outage_deadline closed_to_calls run_inv by blast

end

end
