(* ===== verification/Circuit_Breaker.thy ===== *)
theory Circuit_Breaker
  imports PyDict Breaker_Contract
begin

text \<open>
  \<open>norax/runtime/circuit_breaker.py\<close>: the per-tool circuit breaker and its registry. The agent
  loop asks \<open>can_execute\<close> before a tool call and reports the outcome. \<open>now\<close> is the value of
  \<open>time.monotonic()\<close> at the call, \<open>jitter\<close> the draw of \<open>random.uniform(-0.2, 0.2)\<close>. The error
  texts, which are only logged, are left out. The locale \<open>breaker\<close> is what a caller of any
  breaker of the program may rely on; the sliding-window breaker interprets it too.
\<close>

section \<open>State\<close>

datatype circuit_state = CLOSED | OPEN | HALF_OPEN

record circuit_config =
  failure_threshold :: int
  success_threshold :: int
  cooldown_sec :: real
  max_cooldown_sec :: real
  half_open_max_calls :: int

record circuit =
  cb_name :: string
  cb_config :: circuit_config
  cb_state :: circuit_state
  cb_consecutive_failures :: int
  cb_consecutive_successes :: int
  cb_opened_at :: real
  cb_cooldown :: real
  cb_half_open_in_flight :: int
  cb_total_failures :: int
  cb_total_successes :: int
  cb_total_rejected :: int

datatype cb_reason =
    Reason_ok
  | Circuit_open real \<comment> \<open>the remaining cooldown\<close>
  | Probe_in_flight

section \<open>Operations\<close>

definition positive_int_field :: "string \<Rightarrow> pyval \<Rightarrow> int res" where
  "positive_int_field name value =
     (case plain_int value of
        Some i \<Rightarrow> if i < 1 then Inl (ValueError (name @ '' must be a positive integer'')) else Inr i
      | None \<Rightarrow> Inl (ValueError (name @ '' must be a positive integer'')))"

definition finite_nonneg_field :: "string \<Rightarrow> pyval \<Rightarrow> real res" where
  "finite_nonneg_field name value =
     (case finite_number value of
        Some r \<Rightarrow> if r < 0 then Inl (ValueError (name @ '' must be a finite non-negative number'')) else Inr r
      | None \<Rightarrow> Inl (ValueError (name @ '' must be a finite non-negative number'')))"

text \<open>\<open>CircuitConfig.__post_init__\<close> on the five raw field values.\<close>

definition circuit_config_init :: "pyval \<Rightarrow> pyval \<Rightarrow> pyval \<Rightarrow> pyval \<Rightarrow> pyval \<Rightarrow> circuit_config res" where
  "circuit_config_init ft st cd mcd homc =
     rbind (positive_int_field ''failure_threshold'' ft) (\<lambda>ft'.
     rbind (positive_int_field ''success_threshold'' st) (\<lambda>st'.
     rbind (positive_int_field ''half_open_max_calls'' homc) (\<lambda>homc'.
     rbind (finite_nonneg_field ''cooldown_sec'' cd) (\<lambda>cd'.
     rbind (finite_nonneg_field ''max_cooldown_sec'' mcd) (\<lambda>mcd'.
       if mcd' < cd' then Inl (ValueError ''max_cooldown_sec must be at least cooldown_sec'')
       else Inr \<lparr>failure_threshold = ft', success_threshold = st', cooldown_sec = cd',
                 max_cooldown_sec = mcd', half_open_max_calls = homc'\<rparr>)))))"

definition default_circuit_config :: circuit_config where
  "default_circuit_config = \<lparr>failure_threshold = 5, success_threshold = 2, cooldown_sec = 60,
     max_cooldown_sec = 600, half_open_max_calls = 1\<rparr>"

definition new_circuit :: "string \<Rightarrow> circuit_config \<Rightarrow> circuit" where
  "new_circuit name config = \<lparr>cb_name = name, cb_config = config, cb_state = CLOSED,
     cb_consecutive_failures = 0, cb_consecutive_successes = 0, cb_opened_at = 0, cb_cooldown = 0,
     cb_half_open_in_flight = 0, cb_total_failures = 0, cb_total_successes = 0, cb_total_rejected = 0\<rparr>"

definition can_execute :: "real \<Rightarrow> circuit \<Rightarrow> (bool \<times> cb_reason) \<times> circuit" where
  "can_execute now c =
     (let elapsed = now - cb_opened_at c in
      if cb_state c = OPEN \<and> \<not> elapsed \<ge> cb_cooldown c then
        ((False, Circuit_open (cb_cooldown c - elapsed)),
         c\<lparr>cb_total_rejected := cb_total_rejected c + 1\<rparr>)
      else
        let c1 = (if cb_state c = OPEN
                  then c\<lparr>cb_state := HALF_OPEN, cb_half_open_in_flight := 0, cb_consecutive_successes := 0\<rparr>
                  else c)
        in if cb_state c1 = HALF_OPEN \<and> cb_half_open_in_flight c1 \<ge> half_open_max_calls (cb_config c1) then
             ((False, Probe_in_flight), c1\<lparr>cb_total_rejected := cb_total_rejected c1 + 1\<rparr>)
           else if cb_state c1 = HALF_OPEN then
             ((True, Reason_ok), c1\<lparr>cb_half_open_in_flight := cb_half_open_in_flight c1 + 1\<rparr>)
           else ((True, Reason_ok), c1))"

definition record_success :: "circuit \<Rightarrow> circuit" where
  "record_success c0 =
     (let c = c0\<lparr>cb_total_successes := cb_total_successes c0 + 1\<rparr> in
      if cb_state c = HALF_OPEN then
        let c1 = c\<lparr>cb_half_open_in_flight := max 0 (cb_half_open_in_flight c - 1),
                   cb_consecutive_successes := cb_consecutive_successes c + 1\<rparr>
        in if cb_consecutive_successes c1 \<ge> success_threshold (cb_config c1)
           then c1\<lparr>cb_state := CLOSED, cb_consecutive_failures := 0, cb_consecutive_successes := 0,
                   cb_cooldown := 0\<rparr>
           else c1
      else c\<lparr>cb_consecutive_failures := 0\<rparr>)"

definition open_circuit :: "real \<Rightarrow> real \<Rightarrow> circuit \<Rightarrow> circuit" where
  "open_circuit now jitter c =
     (let cfg = cb_config c;
          base = (if cb_cooldown c \<le> 0 then cooldown_sec cfg
                  else min (cb_cooldown c * (3/2)) (max_cooldown_sec cfg))
      in c\<lparr>cb_state := OPEN, cb_opened_at := now,
           cb_cooldown := min (max_cooldown_sec cfg) (max (cooldown_sec cfg) (base * (1 + jitter)))\<rparr>)"

definition record_failure :: "real \<Rightarrow> real \<Rightarrow> circuit \<Rightarrow> circuit" where
  "record_failure now jitter c0 =
     (let c = c0\<lparr>cb_total_failures := cb_total_failures c0 + 1,
                 cb_consecutive_failures := cb_consecutive_failures c0 + 1\<rparr> in
      if cb_state c = OPEN then c
      else if cb_state c = HALF_OPEN then
        open_circuit now jitter (c\<lparr>cb_half_open_in_flight := max 0 (cb_half_open_in_flight c - 1)\<rparr>)
      else if cb_consecutive_failures c \<ge> failure_threshold (cb_config c) then open_circuit now jitter c
      else c)"

definition abandon_probe :: "circuit \<Rightarrow> circuit" where
  "abandon_probe c =
     (if cb_state c = HALF_OPEN
      then c\<lparr>cb_half_open_in_flight := max 0 (cb_half_open_in_flight c - 1)\<rparr> else c)"

definition reset_circuit :: "circuit \<Rightarrow> circuit" where
  "reset_circuit c = c\<lparr>cb_state := CLOSED, cb_consecutive_failures := 0,
     cb_consecutive_successes := 0, cb_half_open_in_flight := 0, cb_cooldown := 0\<rparr>"

lemmas cb_defs = can_execute_def record_success_def open_circuit_def record_failure_def
  abandon_probe_def reset_circuit_def Let_def

datatype cb_event =
    CanExecute real
  | RecordSuccess
  | RecordFailure real real
  | AbandonProbe
  | Reset

fun cb_step :: "circuit \<Rightarrow> cb_event \<Rightarrow> circuit" where
  "cb_step c (CanExecute now) = snd (can_execute now c)"
| "cb_step c RecordSuccess = record_success c"
| "cb_step c (RecordFailure now jitter) = record_failure now jitter c"
| "cb_step c AbandonProbe = abandon_probe c"
| "cb_step c Reset = reset_circuit c"

section \<open>Registry\<close>

text \<open>The circuits by tool name; \<open>check\<close> and the reporting operations create one on first use.\<close>

type_synonym cb_registry = "(string, circuit) dict"

definition get_or_create :: "string \<Rightarrow> circuit_config option \<Rightarrow> cb_registry \<Rightarrow> circuit \<times> cb_registry" where
  "get_or_create name config reg =
     (case map_of reg name of
        Some c \<Rightarrow> (c, reg)
      | None \<Rightarrow>
          let c = new_circuit name (case config of Some cfg \<Rightarrow> cfg | None \<Rightarrow> default_circuit_config)
          in (c, dset name c reg))"

definition registry_check :: "real \<Rightarrow> string \<Rightarrow> cb_registry \<Rightarrow> (bool \<times> cb_reason) \<times> cb_registry" where
  "registry_check now name reg =
     (let (c, reg1) = get_or_create name None reg; (r, c') = can_execute now c
      in (r, dset name c' reg1))"

definition registry_record_success :: "string \<Rightarrow> cb_registry \<Rightarrow> cb_registry" where
  "registry_record_success name reg =
     (let (c, reg1) = get_or_create name None reg in dset name (record_success c) reg1)"

definition registry_record_failure :: "real \<Rightarrow> real \<Rightarrow> string \<Rightarrow> cb_registry \<Rightarrow> cb_registry" where
  "registry_record_failure now jitter name reg =
     (let (c, reg1) = get_or_create name None reg in dset name (record_failure now jitter c) reg1)"

definition registry_abandon_probe :: "string \<Rightarrow> cb_registry \<Rightarrow> cb_registry" where
  "registry_abandon_probe name reg =
     (let (c, reg1) = get_or_create name None reg in dset name (abandon_probe c) reg1)"

definition reset_all :: "cb_registry \<Rightarrow> cb_registry" where
  "reset_all reg = map (\<lambda>(k, c). (k, reset_circuit c)) reg"

datatype reg_event = RegCheck real | RegSuccess | RegFailure real real | RegAbandon

fun reg_step :: "cb_registry \<Rightarrow> string \<times> reg_event \<Rightarrow> cb_registry" where
  "reg_step reg (n, RegCheck now) = snd (registry_check now n reg)"
| "reg_step reg (n, RegSuccess) = registry_record_success n reg"
| "reg_step reg (n, RegFailure now jitter) = registry_record_failure now jitter n reg"
| "reg_step reg (n, RegAbandon) = registry_abandon_probe n reg"

section \<open>Invariant\<close>

definition config_ok :: "circuit_config \<Rightarrow> bool" where
  "config_ok cfg \<longleftrightarrow> 1 \<le> failure_threshold cfg \<and> 1 \<le> success_threshold cfg
     \<and> 1 \<le> half_open_max_calls cfg \<and> 0 \<le> cooldown_sec cfg \<and> cooldown_sec cfg \<le> max_cooldown_sec cfg"

definition cb_inv :: "circuit \<Rightarrow> bool" where
  "cb_inv c \<longleftrightarrow> config_ok (cb_config c)
     \<and> 0 \<le> cb_half_open_in_flight c
     \<and> cb_half_open_in_flight c \<le> half_open_max_calls (cb_config c)
     \<and> 0 \<le> cb_consecutive_failures c
     \<and> (cb_state c = CLOSED \<longrightarrow> cb_consecutive_failures c < failure_threshold (cb_config c))
     \<and> (cb_state c = HALF_OPEN \<longrightarrow> 0 \<le> cb_consecutive_successes c
          \<and> cb_consecutive_successes c < success_threshold (cb_config c))
     \<and> (cb_state c \<noteq> CLOSED \<longrightarrow> cooldown_sec (cb_config c) \<le> cb_cooldown c
          \<and> cb_cooldown c \<le> max_cooldown_sec (cb_config c))"

fun cb_event_ok :: "cb_event \<Rightarrow> bool" where
  "cb_event_ok (RecordFailure _ j) = (- (1/5) \<le> j \<and> j \<le> 1/5)"
| "cb_event_ok _ = True"

lemma circuit_config_init_ok: "circuit_config_init ft st cd mcd homc = Inr cfg \<Longrightarrow> config_ok cfg"
  by (auto simp: circuit_config_init_def config_ok_def positive_int_field_def finite_nonneg_field_def
      split: option.splits if_splits)

lemma new_circuit_inv [inv_intros]: "config_ok cfg \<Longrightarrow> cb_inv (new_circuit n cfg)"
  by (auto simp: cb_inv_def new_circuit_def config_ok_def)

lemma default_config_ok [simp]: "config_ok default_circuit_config"
  by (simp add: config_ok_def default_circuit_config_def)

lemma open_circuit_cooldown:
  "config_ok (cb_config c) \<Longrightarrow> cooldown_sec (cb_config c) \<le> cb_cooldown (open_circuit t j c)
     \<and> cb_cooldown (open_circuit t j c) \<le> max_cooldown_sec (cb_config c)"
  by (auto simp: open_circuit_def Let_def config_ok_def)

lemma open_circuit_frame [simp]:
  "cb_config (open_circuit t j c) = cb_config c" "cb_state (open_circuit t j c) = OPEN"
  "cb_half_open_in_flight (open_circuit t j c) = cb_half_open_in_flight c"
  "cb_consecutive_failures (open_circuit t j c) = cb_consecutive_failures c"
  "cb_opened_at (open_circuit t j c) = t"
  by (simp_all add: open_circuit_def Let_def)

lemma can_execute_inv [inv_intros]: "cb_inv c \<Longrightarrow> cb_inv (snd (can_execute t c))"
  by (cases "cb_state c") (auto simp: can_execute_def Let_def cb_inv_def config_ok_def)

lemma record_success_inv [inv_intros]: "cb_inv c \<Longrightarrow> cb_inv (record_success c)"
  by (cases "cb_state c") (auto simp: record_success_def Let_def cb_inv_def config_ok_def)

lemma record_failure_inv [inv_intros]: "cb_inv c \<Longrightarrow> cb_inv (record_failure t j c)"
  using open_circuit_cooldown [of "c\<lparr>cb_total_failures := x, cb_consecutive_failures := y\<rparr>" t j for x y]
    open_circuit_cooldown [of "c\<lparr>cb_total_failures := x, cb_consecutive_failures := y, cb_half_open_in_flight := z\<rparr>" t j for x y z]
  by (cases "cb_state c") (auto simp: record_failure_def Let_def cb_inv_def)

lemma abandon_probe_inv [inv_intros]: "cb_inv c \<Longrightarrow> cb_inv (abandon_probe c)"
  by (auto simp: abandon_probe_def cb_inv_def)

lemma reset_circuit_inv [inv_intros]: "cb_inv c \<Longrightarrow> cb_inv (reset_circuit c)"
  by (auto simp: reset_circuit_def cb_inv_def config_ok_def)

interpretation cbm: machine cb_step cb_inv cb_event_ok
proof
  fix c e assume "cb_inv c" and "cb_event_ok e"
  then show "cb_inv (cb_step c e)"
    by (cases e) (auto intro: inv_intros)
qed

section \<open>The breaker contract\<close>

fun cb_event_clock :: "cb_event \<Rightarrow> real option" where
  "cb_event_clock (CanExecute t) = Some t"
| "cb_event_clock (RecordFailure t _) = Some t"
| "cb_event_clock _ = None"

definition cb_open_until :: "circuit \<Rightarrow> real option" where
  "cb_open_until c = (if cb_state c = OPEN then Some (cb_opened_at c + cb_cooldown c) else None)"

definition cb_outcome_event :: "cb_event \<Rightarrow> bool" where
  "cb_outcome_event e \<longleftrightarrow> cb_event_ok e \<and> e \<noteq> Reset"

interpretation cbb: breaker cb_step cb_inv cb_outcome_event
  "\<lambda>now c. fst (fst (can_execute now c))" cb_open_until cb_event_clock
proof
  fix c e assume "cb_inv c" and "cb_outcome_event e"
  then show "cb_inv (cb_step c e)" by (simp add: cb_outcome_event_def cbm.step_inv)
next
  fix c d and now :: real
  assume "cb_open_until c = Some d" and "now < d"
  then show "\<not> fst (fst (can_execute now c))"
    by (auto simp: cb_open_until_def can_execute_def split: if_splits)
next
  fix c e d
  assume "cb_outcome_event e" and "cb_open_until c = Some d"
    and "\<And>t. cb_event_clock e = Some t \<Longrightarrow> t < d"
  then show "cb_open_until (cb_step c e) = Some d"
    by (cases e) (auto simp: cb_open_until_def cb_defs cb_outcome_event_def split: if_splits)
qed

section \<open>Properties\<close>

text \<open>
  C34 A breaker created by the registry keeps, over any run of checks, outcomes, abandoned
  probes and resets with jitter draws in the documented range, its well-formedness: the
  half-open slot counter stays between 0 and the configured number of probes, a closed breaker
  has fewer consecutive failures than its threshold, and an open one has a cooldown between
  the configured base and cap.
\<close>

theorem circuit_run_invariant:
  assumes "circuit_config_init ft st cd mcd homc = Inr cfg" and "list_all cb_event_ok es"
  shows "cb_inv (foldl cb_step (new_circuit name cfg) es)"
  using assms by (intro cbm.run_inv new_circuit_inv circuit_config_init_ok)

theorem circuit_run_invariant_witness:
  "cb_inv (foldl cb_step (new_circuit ''web'' \<lparr>failure_threshold = 1, success_threshold = 1, cooldown_sec = 10,
     max_cooldown_sec = 20, half_open_max_calls = 1\<rparr>) [RecordFailure 3 0, CanExecute 14, RecordSuccess])"
  by (rule circuit_run_invariant [of "PInt 1" "PInt 1" "PInt 10" "PFloat (Fin 20)" "PInt 1"])
    (auto simp: circuit_config_init_def positive_int_field_def finite_nonneg_field_def)

text \<open>
  While a breaker is open and its cooldown has not elapsed, no sequence of checks, late
  successes, late failures and abandoned probes lets a call through, and the deadline
  \<open>opened_at + cooldown\<close> does not move: reports of calls that were already in flight neither
  shorten nor extend the outage.
\<close>

lemma circuit_fails_fast:
  assumes "cb_inv c" and "cb_state c = OPEN" and "d = cb_opened_at c + cb_cooldown c"
    and "list_all cb_outcome_event es" and "\<forall>e \<in> set es. \<forall>t. cb_event_clock e = Some t \<longrightarrow> t < d"
    and "now < d"
  shows "cb_state (foldl cb_step c es) = OPEN
    \<and> cb_opened_at (foldl cb_step c es) + cb_cooldown (foldl cb_step c es) = d
    \<and> \<not> fst (fst (can_execute now (foldl cb_step c es)))"
proof -
  have o: "cb_open_until c = Some d" using assms by (simp add: cb_open_until_def)
  have b: "list_all (cbb.before d) es" using assms by (auto simp: list_all_iff cbb.before_def)
  have "cb_open_until (foldl cb_step c es) = Some d"
    using assms o b by (intro cbb.outage_deadline)
  then have "cb_state (foldl cb_step c es) = OPEN
    \<and> cb_opened_at (foldl cb_step c es) + cb_cooldown (foldl cb_step c es) = d"
    by (auto simp: cb_open_until_def split: if_splits)
  moreover have "\<not> fst (fst (can_execute now (foldl cb_step c es)))"
    using assms o b by (intro cbb.outage_no_admission)
  ultimately show ?thesis by simp
qed

lemma circuit_fails_fast_witness:
  "let c = (new_circuit ''web'' default_circuit_config)\<lparr>cb_state := OPEN, cb_opened_at := 100, cb_cooldown := 60\<rparr>;
       c' = foldl cb_step c [RecordFailure 120 0, CanExecute 130, RecordSuccess]
   in \<not> fst (fst (can_execute 159 c'))"
proof -
  let ?c = "(new_circuit ''web'' default_circuit_config)\<lparr>cb_state := OPEN, cb_opened_at := 100, cb_cooldown := 60\<rparr>"
  have "cb_inv ?c" by (simp add: cb_inv_def new_circuit_def default_circuit_config_def config_ok_def)
  then have "\<not> fst (fst (can_execute 159 (foldl cb_step ?c [RecordFailure 120 0, CanExecute 130, RecordSuccess])))"
    using circuit_fails_fast [of ?c 160 "[RecordFailure 120 0, CanExecute 130, RecordSuccess]" 159]
    by (auto simp: cb_outcome_event_def)
  then show ?thesis by (simp add: Let_def)
qed

subsection \<open>Recovery\<close>

lemma half_open_round:
  assumes "cb_inv c" and "cb_state c = HALF_OPEN" and "cb_half_open_in_flight c = 0"
    and "t \<ge> 0" and "cb_consecutive_successes c + 1 < success_threshold (cb_config c)"
  shows "fst (fst (can_execute t c))
    \<and> (let c' = cb_step (cb_step c (CanExecute t)) RecordSuccess in
       cb_state c' = HALF_OPEN \<and> cb_half_open_in_flight c' = 0 \<and> cb_config c' = cb_config c
       \<and> cb_consecutive_successes c' = cb_consecutive_successes c + 1)"
  using assms by (simp add: cb_defs cb_inv_def config_ok_def)

fun probe_rounds :: "real list \<Rightarrow> cb_event list" where
  "probe_rounds [] = []"
| "probe_rounds (t # ts) = CanExecute t # RecordSuccess # probe_rounds ts"

lemma half_open_closes:
  assumes "cb_inv c" and "cb_state c = HALF_OPEN" and "cb_half_open_in_flight c = 0"
    and "int (length ts) = success_threshold (cb_config c) - cb_consecutive_successes c"
  shows "cb_state (foldl cb_step c (probe_rounds ts)) = CLOSED
    \<and> cb_consecutive_failures (foldl cb_step c (probe_rounds ts)) = 0"
  using assms
proof (induction ts arbitrary: c)
  case Nil
  then show ?case by (auto simp: cb_inv_def)
next
  case (Cons t ts)
  let ?c = "cb_step (cb_step c (CanExecute t)) RecordSuccess"
  show ?case
  proof (cases "ts = []")
    case True
    with Cons.prems have "cb_consecutive_successes c + 1 = success_threshold (cb_config c)" by simp
    with Cons.prems True show ?thesis by (simp add: cb_defs cb_inv_def config_ok_def)
  next
    case False
    have "0 < length ts" using False by simp
    with Cons.prems(4) have "cb_consecutive_successes c + 1 < success_threshold (cb_config c)"
      by (auto simp del: length_greater_0_conv)
    with Cons.prems have "cb_state ?c = HALF_OPEN \<and> cb_half_open_in_flight ?c = 0
        \<and> cb_config ?c = cb_config c \<and> cb_consecutive_successes ?c = cb_consecutive_successes c + 1"
      by (simp add: cb_defs cb_inv_def config_ok_def)
    moreover have "cb_inv ?c" using Cons.prems(1) by (auto intro: inv_intros)
    ultimately show ?thesis using Cons.IH [of ?c] Cons.prems(4) by simp
  qed
qed

text \<open>
  Recovery: an open breaker whose cooldown has elapsed admits the next call, and when as
  many successive probes as \<open>success_threshold\<close> succeed, one after the other, it is closed
  again with its failure count at zero.
\<close>

lemma circuit_recovers:
  assumes "cb_inv c" and "cb_state c = OPEN" and "t \<ge> cb_opened_at c + cb_cooldown c"
    and "int (length (t # ts)) = success_threshold (cb_config c)"
  shows "fst (fst (can_execute t c)) \<and> cb_state (foldl cb_step c (probe_rounds (t # ts))) = CLOSED
    \<and> cb_consecutive_failures (foldl cb_step c (probe_rounds (t # ts))) = 0"
proof -
  let ?h = "c\<lparr>cb_state := HALF_OPEN, cb_half_open_in_flight := 0, cb_consecutive_successes := 0\<rparr>"
  have adm: "fst (fst (can_execute t c))" and same: "can_execute t c = can_execute t ?h"
    using assms by (auto simp: can_execute_def Let_def cb_inv_def config_ok_def)
  have "cb_inv ?h" using assms by (auto simp: cb_inv_def config_ok_def)
  then have "cb_state (foldl cb_step ?h (probe_rounds (t # ts))) = CLOSED
    \<and> cb_consecutive_failures (foldl cb_step ?h (probe_rounds (t # ts))) = 0"
    using assms by (intro half_open_closes) auto
  with adm same show ?thesis by simp
qed

lemma circuit_recovers_witness:
  "let c = (new_circuit ''web'' default_circuit_config)\<lparr>cb_state := OPEN, cb_opened_at := 100, cb_cooldown := 60\<rparr>
   in cb_state (foldl cb_step c (probe_rounds [160, 161])) = CLOSED"
proof -
  let ?c = "(new_circuit ''web'' default_circuit_config)\<lparr>cb_state := OPEN, cb_opened_at := 100, cb_cooldown := 60\<rparr>"
  have "cb_inv ?c" by (simp add: cb_inv_def new_circuit_def default_circuit_config_def config_ok_def)
  then have "cb_state (foldl cb_step ?c (probe_rounds [160, 161])) = CLOSED"
    using circuit_recovers [of ?c 160 "[161]"] by (simp add: new_circuit_def default_circuit_config_def)
  then show ?thesis by (simp add: Let_def)
qed

subsection \<open>The registry as independent circuits\<close>

fun reg_event_of :: "reg_event \<Rightarrow> cb_event" where
  "reg_event_of (RegCheck t) = CanExecute t"
| "reg_event_of RegSuccess = RecordSuccess"
| "reg_event_of (RegFailure t j) = RecordFailure t j"
| "reg_event_of RegAbandon = AbandonProbe"

definition circuit_or_new :: "cb_registry \<Rightarrow> string \<Rightarrow> circuit" where
  "circuit_or_new reg n = (case map_of reg n of Some c \<Rightarrow> c | None \<Rightarrow> new_circuit n default_circuit_config)"

lemma get_or_create_result:
  "get_or_create n None reg = (c, reg') \<Longrightarrow> c = circuit_or_new reg n
     \<and> (\<forall>m. m \<noteq> n \<longrightarrow> map_of reg' m = map_of reg m)"
  by (auto simp: get_or_create_def circuit_or_new_def Let_def split: option.splits)

lemma reg_step_lookup:
  "map_of (reg_step reg (n, e)) m =
     (if m = n then Some (cb_step (circuit_or_new reg n) (reg_event_of e)) else map_of reg m)"
  by (cases e) (auto simp: registry_check_def registry_record_success_def registry_record_failure_def
      registry_abandon_probe_def Let_def split: prod.splits dest: get_or_create_result)

definition events_of :: "string \<Rightarrow> (string \<times> reg_event) list \<Rightarrow> cb_event list" where
  "events_of n es = map (reg_event_of \<circ> snd) (filter (\<lambda>e. fst e = n) es)"

lemma registry_run:
  "circuit_or_new (foldl reg_step reg es) n = foldl cb_step (circuit_or_new reg n) (events_of n es)"
proof (induction es arbitrary: reg)
  case (Cons e es)
  obtain m ev where e: "e = (m, ev)" by force
  have "circuit_or_new (reg_step reg e) n =
      (if m = n then cb_step (circuit_or_new reg n) (reg_event_of ev) else circuit_or_new reg n)"
    by (simp add: e circuit_or_new_def [of "reg_step reg (m, ev)"] reg_step_lookup)
      (simp add: circuit_or_new_def)
  then show ?case by (simp add: Cons.IH e events_of_def)
qed (simp add: events_of_def)

text \<open>
  The registry is a family of independent breakers: after any interleaving of operations on
  any tools, the circuit of tool \<open>n\<close> is the one a lone breaker reaches on the operations that
  name \<open>n\<close>, in their order, so an outage of one tool never opens another's circuit.
\<close>

lemma registry_refines_circuits:
  "map_of (foldl reg_step [] es) n =
     (if n \<in> fst ` set es then Some (foldl cb_step (new_circuit n default_circuit_config) (events_of n es))
      else None)"
proof -
  have present: "map_of (foldl reg_step reg es) n \<noteq> None \<longleftrightarrow> n \<in> fst ` set es \<or> map_of reg n \<noteq> None" for reg
  proof (induction es arbitrary: reg)
    case (Cons e es)
    then show ?case by (cases e) (auto simp: reg_step_lookup)
  qed simp
  show ?thesis
  proof (cases "n \<in> fst ` set es")
    case True
    with present [of "[]"] obtain c where c: "map_of (foldl reg_step [] es) n = Some c" by auto
    then have "c = circuit_or_new (foldl reg_step [] es) n" by (simp add: circuit_or_new_def)
    also have "\<dots> = foldl cb_step (new_circuit n default_circuit_config) (events_of n es)"
      using registry_run [of "[]" es n] by (simp add: circuit_or_new_def)
    finally show ?thesis using True c by simp
  next
    case False
    then show ?thesis using present [of "[]"] by auto
  qed
qed

text \<open>
  The half-open limit counts slots, not calls: a success reported by a call that was
  admitted while the breaker was still closed frees the slot of the running probe, so with
  \<open>half_open_max_calls = 1\<close> two probes can be in flight at once.
\<close>

lemma stale_success_frees_probe_slot:
  "let c = foldl cb_step (new_circuit ''web'' (default_circuit_config\<lparr>failure_threshold := 1\<rparr>))
             [CanExecute 0, CanExecute 0, RecordFailure 1 0, CanExecute 100]
   in cb_state c = HALF_OPEN \<and> cb_half_open_in_flight c = 1 \<and> half_open_max_calls (cb_config c) = 1
      \<and> \<not> fst (fst (can_execute 101 c)) \<and> fst (fst (can_execute 101 (cb_step c RecordSuccess)))"
  by (simp add: cb_defs new_circuit_def default_circuit_config_def)

end
