(* ===== verification/Obs_Circuit.thy ===== *)
theory Obs_Circuit
  imports Circuit_Breaker
begin

text \<open>
  \<open>norax/observability/circuit.py\<close>: the sliding-window breaker around outbound calls. \<open>now\<close> is
  the reading of \<open>time.monotonic()\<close>. \<open>before_call\<close> raises \<open>CircuitOpen\<close>; the outcome is reported
  with \<open>on_success\<close>, \<open>on_failure\<close> or \<open>on_abandoned\<close>. It meets the same contract as the breaker
  of the tool loop.
\<close>

section \<open>State and operations\<close>

record obs_breaker =
  ob_name :: string
  ob_window :: real
  ob_threshold :: int
  ob_open_seconds :: real
  ob_failures :: "real list"
  ob_state :: circuit_state
  ob_opened_at :: real
  ob_probe :: bool

fun nonempty_name :: "pyval \<Rightarrow> string option" where
  "nonempty_name (PStr s) = (if py_strip s = [] then None else Some s)"
| "nonempty_name _ = None"

definition obs_init :: "pyval \<Rightarrow> pyval \<Rightarrow> pyval \<Rightarrow> pyval \<Rightarrow> obs_breaker res" where
  "obs_init name window threshold open_secs =
     (case nonempty_name name of
        None \<Rightarrow> Inl (ValueError ''circuit name must be non-empty'')
      | Some n \<Rightarrow>
     (case plain_int threshold of
        None \<Rightarrow> Inl (ValueError ''failure_threshold must be a positive integer'')
      | Some th \<Rightarrow>
        if th < 1 then Inl (ValueError ''failure_threshold must be a positive integer'')
        else
     (case finite_number window of
        None \<Rightarrow> Inl (ValueError ''window_seconds must be a finite number'')
      | Some w \<Rightarrow>
        if w < 0 \<or> w = 0 then Inl (ValueError ''window_seconds must be a finite positive number'')
        else
     (case finite_number open_secs of
        None \<Rightarrow> Inl (ValueError ''open_seconds must be a finite number'')
      | Some os \<Rightarrow>
        if os < 0 then Inl (ValueError ''open_seconds must be a finite non-negative number'')
        else Inr \<lparr>ob_name = n, ob_window = w, ob_threshold = th, ob_open_seconds = os,
                  ob_failures = [], ob_state = CLOSED, ob_opened_at = 0, ob_probe = False\<rparr>))))"

definition prune :: "real \<Rightarrow> real \<Rightarrow> real list \<Rightarrow> real list" where
  "prune now window fs = dropWhile (\<lambda>f. f < now - window) fs"

definition maybe_transition :: "real \<Rightarrow> obs_breaker \<Rightarrow> obs_breaker" where
  "maybe_transition now b =
     (if ob_state b = OPEN \<and> now - ob_opened_at b \<ge> ob_open_seconds b
      then b\<lparr>ob_state := HALF_OPEN, ob_probe := False\<rparr> else b)"

definition obs_state :: "real \<Rightarrow> obs_breaker \<Rightarrow> circuit_state \<times> obs_breaker" where
  "obs_state now b = (let b' = maybe_transition now b in (ob_state b', b'))"

definition before_call :: "real \<Rightarrow> (obs_breaker, unit) op" where
  "before_call now b0 =
     (let b = maybe_transition now b0 in
      if ob_state b = OPEN then (Inl (CircuitOpen (ob_name b @ '' is open'')), b)
      else if ob_state b = HALF_OPEN then
        if ob_probe b then (Inl (CircuitOpen (ob_name b @ '' half-open probe is already in flight'')), b)
        else (Inr (), b\<lparr>ob_probe := True\<rparr>)
      else (Inr (), b))"

definition on_success :: "obs_breaker \<Rightarrow> obs_breaker" where
  "on_success b =
     (if ob_state b = HALF_OPEN
      then b\<lparr>ob_state := CLOSED, ob_probe := False, ob_failures := []\<rparr> else b)"

definition trip :: "real \<Rightarrow> obs_breaker \<Rightarrow> obs_breaker" where
  "trip now b = b\<lparr>ob_state := OPEN, ob_opened_at := now, ob_probe := False\<rparr>"

definition on_failure :: "real \<Rightarrow> obs_breaker \<Rightarrow> obs_breaker" where
  "on_failure now b0 =
     (let b = b0\<lparr>ob_failures := prune now (ob_window b0) (ob_failures b0 @ [now])\<rparr> in
      if ob_state b = OPEN then b
      else if ob_state b = HALF_OPEN then trip now (b\<lparr>ob_probe := False\<rparr>)
      else if int (length (ob_failures b)) \<ge> ob_threshold b then trip now b
      else b)"

definition on_abandoned :: "obs_breaker \<Rightarrow> obs_breaker" where
  "on_abandoned b = (if ob_state b = HALF_OPEN then b\<lparr>ob_probe := False\<rparr> else b)"

datatype obs_event =
    ReadState real
  | BeforeCall real
  | OnSuccess
  | OnFailure real
  | OnAbandoned

fun obs_step :: "obs_breaker \<Rightarrow> obs_event \<Rightarrow> obs_breaker" where
  "obs_step b (ReadState t) = snd (obs_state t b)"
| "obs_step b (BeforeCall t) = snd (before_call t b)"
| "obs_step b OnSuccess = on_success b"
| "obs_step b (OnFailure t) = on_failure t b"
| "obs_step b OnAbandoned = on_abandoned b"

fun obs_clock :: "obs_event \<Rightarrow> real option" where
  "obs_clock (ReadState t) = Some t"
| "obs_clock (BeforeCall t) = Some t"
| "obs_clock (OnFailure t) = Some t"
| "obs_clock _ = None"

lemmas obs_defs = maybe_transition_def obs_state_def before_call_def on_success_def trip_def
  on_failure_def on_abandoned_def Let_def

definition obs_inv :: "obs_breaker \<Rightarrow> bool" where
  "obs_inv b \<longleftrightarrow> 1 \<le> ob_threshold b \<and> 0 < ob_window b \<and> 0 \<le> ob_open_seconds b
     \<and> (ob_probe b \<longrightarrow> ob_state b = HALF_OPEN)
     \<and> (ob_state b = CLOSED \<longrightarrow> int (length (ob_failures b)) < ob_threshold b)"

definition obs_open_until :: "obs_breaker \<Rightarrow> real option" where
  "obs_open_until b = (if ob_state b = OPEN then Some (ob_opened_at b + ob_open_seconds b) else None)"

lemma obs_init_inv: "obs_init n w t os = Inr b \<Longrightarrow> obs_inv b \<and> ob_state b = CLOSED \<and> ob_failures b = []"
  by (auto simp: obs_init_def obs_inv_def split: option.splits if_splits)

lemma length_prune: "length (prune t w fs) \<le> length fs"
  by (simp add: prune_def length_dropWhile_le)

lemma obs_step_inv: "obs_inv b \<Longrightarrow> obs_inv (obs_step b e)"
  by (cases e) (auto simp: obs_inv_def obs_defs)

interpretation obsb: breaker obs_step obs_inv "\<lambda>_. True"
  "\<lambda>now b. is_ok (fst (before_call now b))" obs_open_until obs_clock
proof
  fix b e assume "obs_inv b"
  then show "obs_inv (obs_step b e)" by (rule obs_step_inv)
next
  fix b d and now :: real
  assume "obs_open_until b = Some d" and "now < d"
  then show "\<not> is_ok (fst (before_call now b))"
    by (auto simp: obs_open_until_def obs_defs split: if_splits)
next
  fix b e d
  assume "obs_open_until b = Some d" and "\<And>t. obs_clock e = Some t \<Longrightarrow> t < d"
  then show "obs_open_until (obs_step b e) = Some d"
    by (cases e) (auto simp: obs_open_until_def obs_defs split: if_splits)
qed

section \<open>The sliding window\<close>

lemma prune_sorted: "sorted fs \<Longrightarrow> prune t w fs = filter (\<lambda>f. t - w \<le> f) fs"
  unfolding prune_def
proof (induction fs)
  case (Cons f fs)
  show ?case
  proof (cases "f < t - w")
    case True
    with Cons show ?thesis by simp
  next
    case False
    with Cons.prems have "\<forall>x \<in> set fs. t - w \<le> x" by fastforce
    then have "filter (\<lambda>f. t - w \<le> f) fs = fs" by (rule filter_True)
    with False show ?thesis by simp
  qed
qed simp

definition in_window :: "real \<Rightarrow> real \<Rightarrow> real list \<Rightarrow> nat" where
  "in_window t w fs = length (filter (\<lambda>f. t - w \<le> f) fs)"

lemma on_failure_window:
  assumes "sorted (fs @ [t])" and "ob_failures b = filter (\<lambda>f. (if fs = [] then t else last fs) - ob_window b \<le> f) fs"
  shows "ob_failures (on_failure t b) = filter (\<lambda>f. t - ob_window b \<le> f) (fs @ [t])"
proof -
  have "ob_failures (on_failure t b) = prune t (ob_window b) (ob_failures b @ [t])"
    by (simp add: on_failure_def trip_def Let_def)
  also have "sorted (ob_failures b @ [t])"
    using assms by (auto simp: sorted_append sorted_filter [where f = "\<lambda>x. x", simplified])
  then have "prune t (ob_window b) (ob_failures b @ [t]) = filter (\<lambda>f. t - ob_window b \<le> f) (ob_failures b @ [t])"
    by (rule prune_sorted)
  also have "\<dots> = filter (\<lambda>f. t - ob_window b \<le> f) (fs @ [t])"
  proof -
    have "(if fs = [] then t else last fs) \<le> t" using assms(1) by (auto simp: sorted_append)
    then have "filter (\<lambda>f. t - ob_window b \<le> f) (ob_failures b) = filter (\<lambda>f. t - ob_window b \<le> f) fs"
      unfolding assms(2) filter_filter by (intro filter_cong) auto
    then show ?thesis by simp
  qed
  finally show ?thesis .
qed

lemma on_failure_frame [simp]:
  "ob_window (on_failure t b) = ob_window b" "ob_threshold (on_failure t b) = ob_threshold b"
  by (simp_all add: on_failure_def trip_def Let_def)

lemma on_failure_state:
  "ob_state (on_failure t b) =
     (if ob_state b \<noteq> CLOSED \<or> ob_threshold b \<le> int (length (ob_failures (on_failure t b))) then OPEN else CLOSED)"
  by (cases "ob_state b") (auto simp: on_failure_def trip_def Let_def)

definition window_overflow :: "obs_breaker \<Rightarrow> real list \<Rightarrow> bool" where
  "window_overflow b ts \<longleftrightarrow>
     (\<exists>k < length ts. ob_threshold b \<le> int (in_window (ts ! k) (ob_window b) (take (Suc k) ts)))"

lemma failures_run:
  assumes "obs_inv b" and "ob_state b = CLOSED" and "ob_failures b = []" and "sorted ts"
  defines "b' \<equiv> foldl (\<lambda>b t. on_failure t b) b ts"
  shows "ob_window b' = ob_window b \<and> ob_threshold b' = ob_threshold b
    \<and> (ts \<noteq> [] \<longrightarrow> ob_failures b' = filter (\<lambda>f. last ts - ob_window b \<le> f) ts)
    \<and> (ts = [] \<longrightarrow> ob_failures b' = [])
    \<and> ob_state b' = (if window_overflow b ts then OPEN else CLOSED)"
  using assms(4) unfolding b'_def
proof (induction ts rule: rev_induct)
  case Nil
  then show ?case using assms by (simp add: window_overflow_def)
next
  case (snoc t ts)
  let ?b = "foldl (\<lambda>b t. on_failure t b) b ts"
  have srt: "sorted ts" using snoc.prems by (simp add: sorted_append)
  note IH = snoc.IH [OF srt]
  have w: "ob_window ?b = ob_window b" and th: "ob_threshold ?b = ob_threshold b"
    and st: "ob_state ?b = (if window_overflow b ts then OPEN else CLOSED)"
    using IH by blast+
  have "ob_failures ?b = filter (\<lambda>f. (if ts = [] then t else last ts) - ob_window ?b \<le> f) ts"
    using IH by (cases "ts = []") auto
  then have f: "ob_failures (on_failure t ?b) = filter (\<lambda>f. t - ob_window b \<le> f) (ts @ [t])"
    using snoc.prems by (subst on_failure_window [of ts]) (simp_all only: w)
  have ov: "window_overflow b (ts @ [t]) \<longleftrightarrow>
      window_overflow b ts \<or> ob_threshold b \<le> int (in_window t (ob_window b) (ts @ [t]))"
  proof -
    let ?P = "\<lambda>k. ob_threshold b \<le> int (in_window ((ts @ [t]) ! k) (ob_window b) (take (Suc k) (ts @ [t])))"
    have "(\<exists>k < Suc (length ts). ?P k) \<longleftrightarrow> (\<exists>k < length ts. ?P k) \<or> ?P (length ts)"
      by (auto simp only: less_Suc_eq)
    moreover have "?P k \<longleftrightarrow> ob_threshold b \<le> int (in_window (ts ! k) (ob_window b) (take (Suc k) ts))"
      if "k < length ts" for k using that by (simp add: nth_append Suc_le_eq)
    moreover have "?P (length ts) \<longleftrightarrow> ob_threshold b \<le> int (in_window t (ob_window b) (ts @ [t]))" by simp
    ultimately show ?thesis unfolding window_overflow_def length_append_singleton by blast
  qed
  have "ob_state (on_failure t ?b) = (if window_overflow b (ts @ [t]) then OPEN else CLOSED)"
    unfolding on_failure_state f ov in_window_def st th by (cases "window_overflow b ts") simp_all
  moreover have "foldl (\<lambda>b t. on_failure t b) b (ts @ [t]) = on_failure t ?b" by simp
  moreover have "last (ts @ [t]) = t" and "ts @ [t] \<noteq> []" by simp_all
  ultimately show ?case using f w th by (simp only: on_failure_frame simp_thms)
qed

section \<open>Properties\<close>

text \<open>
  The window breaker opens exactly when some failure is the last of at least
  \<open>failure_threshold\<close> failures within \<open>window_seconds\<close>: for a fresh breaker and any failures
  at non-decreasing times, the pruned deque decides as if the whole failure history had been
  kept and counted.
\<close>

lemma window_breaker_trips_exactly:
  assumes "obs_init name w th os = Inr b" and "sorted ts"
  shows "ob_state (foldl (\<lambda>b t. on_failure t b) b ts) = OPEN \<longleftrightarrow>
    (\<exists>k < length ts. ob_threshold b \<le>
       int (length (filter (\<lambda>f. ts ! k - ob_window b \<le> f) (take (Suc k) ts))))"
proof -
  have "obs_inv b" "ob_state b = CLOSED" "ob_failures b = []"
    using obs_init_inv [OF assms(1)] by auto
  then have "ob_state (foldl (\<lambda>b t. on_failure t b) b ts) = (if window_overflow b ts then OPEN else CLOSED)"
    using failures_run assms(2) by blast
  then show ?thesis by (simp add: window_overflow_def in_window_def)
qed

lemma window_breaker_trips_exactly_witness:
  "ob_state (foldl (\<lambda>b t. on_failure t b)
     \<lparr>ob_name = ''rpc'', ob_window = 30, ob_threshold = 2, ob_open_seconds = 30, ob_failures = [],
      ob_state = CLOSED, ob_opened_at = 0, ob_probe = False\<rparr> [0, 40, 60]) = OPEN"
  by (subst window_breaker_trips_exactly [of "PStr ''rpc''" "PInt 30" "PInt 2" "PInt 30"])
    (auto simp: obs_init_def py_strip_def is_space_def intro!: exI [of _ 2])

text \<open>
  An open window breaker raises \<open>CircuitOpen\<close> on every call before its deadline, whatever
  outcomes of calls in flight are reported meanwhile, and those reports leave the deadline
  where it is.
\<close>

lemma window_breaker_fails_fast:
  assumes "obs_inv b" and "ob_state b = OPEN" and "d = ob_opened_at b + ob_open_seconds b"
    and "\<forall>e \<in> set es. \<forall>t. obs_clock e = Some t \<longrightarrow> t < d" and "now < d"
  shows "fst (before_call now (foldl obs_step b es)) = Inl (CircuitOpen (ob_name (foldl obs_step b es) @ '' is open''))
    \<and> ob_opened_at (foldl obs_step b es) + ob_open_seconds (foldl obs_step b es) = d"
proof -
  have "obs_open_until b = Some d" using assms by (simp add: obs_open_until_def)
  moreover have "list_all (obsb.before d) es" using assms by (auto simp: list_all_iff obsb.before_def)
  ultimately have "obs_open_until (foldl obs_step b es) = Some d"
    using assms by (intro obsb.outage_deadline) (auto simp: list_all_iff)
  then show ?thesis using assms(5)
    by (auto simp: obs_open_until_def before_call_def maybe_transition_def Let_def split: if_splits)
qed

lemma window_breaker_fails_fast_witness:
  "let b = \<lparr>ob_name = ''rpc'', ob_window = 30, ob_threshold = 2, ob_open_seconds = 30, ob_failures = [],
      ob_state = OPEN, ob_opened_at = 10, ob_probe = False\<rparr>
   in \<not> is_ok (fst (before_call 35 (foldl obs_step b [OnFailure 20, OnSuccess, BeforeCall 30])))"
proof -
  let ?b = "\<lparr>ob_name = ''rpc'', ob_window = 30, ob_threshold = 2, ob_open_seconds = 30, ob_failures = [],
      ob_state = OPEN, ob_opened_at = 10, ob_probe = False\<rparr>"
  have "obs_inv ?b" by (simp add: obs_inv_def)
  then have "fst (before_call 35 (foldl obs_step ?b [OnFailure 20, OnSuccess, BeforeCall 30])) =
      Inl (CircuitOpen (ob_name (foldl obs_step ?b [OnFailure 20, OnSuccess, BeforeCall 30]) @ '' is open''))"
    using window_breaker_fails_fast [of ?b 40 "[OnFailure 20, OnSuccess, BeforeCall 30]" 35] by simp
  then show ?thesis by (simp add: Let_def)
qed

end
