(* ===== verification/Backoff.thy ===== *)
theory Backoff
  imports Prelude
begin

text \<open>
  \<open>norax/runtime/backoff.py\<close> and \<open>norax/observability/retry.py\<close>: the exponential backoff and the
  two retry loops. The operation that is retried is a parameter: \<open>outcome i\<close> is what its
  \<open>i\<close>-th call returns or raises, \<open>retry_on\<close> the test of the \<open>except\<close> clause, \<open>rnd i\<close> the \<open>i\<close>-th draw
  of \<open>random.random()\<close> (in \<open>[0, 1)\<close>) or \<open>random.uniform\<close>. A retry loop returns its result
  together with the delays it slept. The observer callback, whose exceptions are swallowed,
  has no effect on either and is left out.
\<close>

section \<open>ExponentialBackoff\<close>

record backoff =
  bo_base :: real
  bo_factor :: real
  bo_max_delay :: real
  bo_jitter :: real
  bo_attempt :: nat

text \<open>
  One value of the generator under \<open>any\<close>: the finite number, or the exception. \<open>isinstance\<close> of
  \<open>bool\<close> is tested first.
\<close>

definition backoff_param :: "(string \<Rightarrow> pyfloat option) \<Rightarrow> pyval \<Rightarrow> real res" where
  "backoff_param parse v =
     (case v of PBool _ \<Rightarrow> Inl (ValueError ''backoff parameters must be finite numbers'')
      | _ \<Rightarrow> rbind (to_float parse v) (\<lambda>f.
          case f of Fin r \<Rightarrow> Inr r | _ \<Rightarrow> Inl (ValueError ''backoff parameters must be finite numbers'')))"

definition backoff_init :: "(string \<Rightarrow> pyfloat option) \<Rightarrow> pyval \<Rightarrow> pyval \<Rightarrow> pyval \<Rightarrow> pyval \<Rightarrow> backoff res" where
  "backoff_init parse base factor max_delay jitter =
     rbind (backoff_param parse base) (\<lambda>b.
     rbind (backoff_param parse factor) (\<lambda>f.
     rbind (backoff_param parse max_delay) (\<lambda>m.
     rbind (backoff_param parse jitter) (\<lambda>j.
       if b < 0 \<or> f \<le> 0 \<or> m < 0
       then Inl (ValueError ''base/max_delay must be non-negative and factor must be positive'')
       else if \<not> (0 \<le> j \<and> j \<le> 1) then Inl (ValueError ''jitter must be between 0 and 1'')
       else Inr \<lparr>bo_base = b, bo_factor = f, bo_max_delay = m, bo_jitter = j, bo_attempt = 0\<rparr>))))"

text \<open>
  The end of the binary64 range: \<open>**\<close> raises \<open>OverflowError\<close> from there on, a product becomes
  infinite. Both make the delay fall back to \<open>max_delay\<close>.
\<close>

definition float_limit :: real where
  "float_limit = 2 ^ 1024"

definition raw_delay :: "backoff \<Rightarrow> real" where
  "raw_delay b =
     (let p = bo_factor b ^ bo_attempt b in
      if p \<ge> float_limit then bo_max_delay b
      else let raw = bo_base b * p in if raw \<ge> float_limit then bo_max_delay b else raw)"

definition next_delay :: "real \<Rightarrow> backoff \<Rightarrow> real \<times> backoff" where
  "next_delay r b =
     (let capped = min (raw_delay b) (bo_max_delay b);
          jittered = capped * (1 - bo_jitter b + r * 2 * bo_jitter b)
      in (min (bo_max_delay b) (max 0 jittered), b\<lparr>bo_attempt := Suc (bo_attempt b)\<rparr>))"

definition backoff_reset :: "backoff \<Rightarrow> backoff" where
  "backoff_reset b = b\<lparr>bo_attempt := 0\<rparr>"

section \<open>retry_with_backoff\<close>

function retry_loop :: "(nat \<Rightarrow> 'a res) \<Rightarrow> (py_exn \<Rightarrow> bool) \<Rightarrow> (nat \<Rightarrow> real) \<Rightarrow> nat \<Rightarrow> nat \<Rightarrow> backoff
    \<Rightarrow> 'a res \<times> real list" where
  "retry_loop outcome retry_on rnd max_retries attempt b =
     (case outcome attempt of
        Inr a \<Rightarrow> (Inr a, [])
      | Inl e \<Rightarrow>
          if \<not> retry_on e then (Inl e, [])
          else if attempt \<ge> max_retries then (Inl e, [])
          else let (d, b') = next_delay (rnd attempt) b;
                   (r, ds) = retry_loop outcome retry_on rnd max_retries (Suc attempt) b'
               in (r, d # ds))"
  by pat_completeness auto
termination
  by (relation "measure (\<lambda>(_, _, _, m, a, _). m - a)") auto

declare retry_loop.simps [simp del]

definition retry_with_backoff :: "(string \<Rightarrow> pyfloat option) \<Rightarrow> (nat \<Rightarrow> 'a res) \<Rightarrow> (py_exn \<Rightarrow> bool) \<Rightarrow> (nat \<Rightarrow> real)
    \<Rightarrow> pyval \<Rightarrow> pyval \<Rightarrow> pyval \<Rightarrow> pyval \<Rightarrow> 'a res \<times> real list" where
  "retry_with_backoff parse outcome retry_on rnd max_retries base max_delay jitter =
     (case plain_int max_retries of
        None \<Rightarrow> (Inl (ValueError ''max_retries must be a non-negative integer''), [])
      | Some m \<Rightarrow>
          if m < 0 then (Inl (ValueError ''max_retries must be a non-negative integer''), [])
          else (case backoff_init parse base (PFloat (Fin 2)) max_delay jitter of
                  Inl e \<Rightarrow> (Inl e, [])
                | Inr b \<Rightarrow> retry_loop outcome retry_on rnd (nat m) 0 b))"

section \<open>with_retry\<close>

text \<open>
  \<open>norax/observability/retry.py\<close>: a fixed schedule of delays in milliseconds. \<open>should_retry\<close> is
  \<open>\<lambda>_. True\<close> when the caller gave none.
\<close>

fun with_retry_loop :: "(nat \<Rightarrow> 'a res) \<Rightarrow> (py_exn \<Rightarrow> bool) \<Rightarrow> (py_exn \<Rightarrow> bool) \<Rightarrow> (nat \<Rightarrow> real) \<Rightarrow> nat \<Rightarrow> real list
    \<Rightarrow> 'a res \<times> real list" where
  "with_retry_loop fn retriable should_retry jit attempt [] =
     (fn attempt, [])"
| "with_retry_loop fn retriable should_retry jit attempt (d # ds) =
     (case fn attempt of
        Inr a \<Rightarrow> (Inr a, [])
      | Inl e \<Rightarrow>
          if \<not> retriable e then (Inl e, [])
          else if \<not> should_retry e then (Inl e, [])
          else let (r, ws) = with_retry_loop fn retriable should_retry jit (Suc attempt) ds
               in (r, max 0 ((d + jit attempt) / 1000) # ws))"

fun retry_delays :: "(string \<Rightarrow> pyfloat option) \<Rightarrow> pyval list \<Rightarrow> real list option" where
  "retry_delays parse [] = Some []"
| "retry_delays parse (v # vs) =
     (case to_float parse v of Inr (Fin r) \<Rightarrow>
        if r < 0 then None else map_option ((#) r) (retry_delays parse vs)
      | _ \<Rightarrow> None)"

definition with_retry :: "(string \<Rightarrow> pyfloat option) \<Rightarrow> (nat \<Rightarrow> 'a res) \<Rightarrow> (py_exn \<Rightarrow> bool) \<Rightarrow> (py_exn \<Rightarrow> bool)
    \<Rightarrow> (real \<Rightarrow> nat \<Rightarrow> real) \<Rightarrow> pyval list \<Rightarrow> pyval \<Rightarrow> 'a res \<times> real list" where
  "with_retry parse fn retriable should_retry uniform delays_ms jitter_ms =
     (case (retry_delays parse delays_ms, retry_delays parse [jitter_ms]) of
        (Some ds, Some [j]) \<Rightarrow> with_retry_loop fn retriable should_retry (uniform j) 0 ds
      | _ \<Rightarrow> (Inl (ValueError ''retry delays and jitter must be finite non-negative numbers''), []))"

section \<open>Facts\<close>

definition backoff_ok :: "backoff \<Rightarrow> bool" where
  "backoff_ok b \<longleftrightarrow> 0 \<le> bo_base b \<and> 0 < bo_factor b \<and> 0 \<le> bo_max_delay b \<and> 0 \<le> bo_jitter b \<and> bo_jitter b \<le> 1"

lemma backoff_init_ok: "backoff_init parse b f m j = Inr bo \<Longrightarrow> backoff_ok bo \<and> bo_attempt bo = 0"
  by (auto simp: backoff_init_def backoff_ok_def split: if_splits)

lemma next_delay_ok: "backoff_ok b \<Longrightarrow> backoff_ok (snd (next_delay r b))"
  by (simp add: next_delay_def backoff_ok_def Let_def)

lemma next_delay_max [simp]: "bo_max_delay (snd (next_delay r b)) = bo_max_delay b"
  by (simp add: next_delay_def Let_def)

lemma next_delay_range: "backoff_ok b \<Longrightarrow> 0 \<le> fst (next_delay r b) \<and> fst (next_delay r b) \<le> bo_max_delay b"
  by (auto simp: next_delay_def backoff_ok_def Let_def)

lemma raw_delay_nonneg: "backoff_ok b \<Longrightarrow> 0 \<le> raw_delay b"
  by (auto simp: raw_delay_def backoff_ok_def Let_def)

text \<open>The first attempt, at or after \<open>i\<close>, whose outcome ends the loop.\<close>

definition ends_at :: "(nat \<Rightarrow> 'a res) \<Rightarrow> (py_exn \<Rightarrow> bool) \<Rightarrow> nat \<Rightarrow> nat \<Rightarrow> bool" where
  "ends_at outcome retry_on m k \<longleftrightarrow> k = m \<or> (case outcome k of Inr _ \<Rightarrow> True | Inl e \<Rightarrow> \<not> retry_on e)"

lemma retry_loop_result:
  assumes "i \<le> k" and "k \<le> m" and "ends_at outcome retry_on m k"
    and "\<And>l. i \<le> l \<Longrightarrow> l < k \<Longrightarrow> \<not> ends_at outcome retry_on m l" and "backoff_ok b"
  shows "fst (retry_loop outcome retry_on rnd m i b) = outcome k
    \<and> length (snd (retry_loop outcome retry_on rnd m i b)) = k - i
    \<and> (\<forall>d \<in> set (snd (retry_loop outcome retry_on rnd m i b)). 0 \<le> d \<and> d \<le> bo_max_delay b)"
  using assms
proof (induction "k - i" arbitrary: i b)
  case 0
  then have "i = k" by simp
  with 0 show ?case
    by (auto simp: retry_loop.simps [of outcome retry_on rnd m k] ends_at_def split: sum.splits if_splits)
next
  case (Suc n)
  then have lt: "i < k" by simp
  with Suc.prems(2,4) have "\<not> ends_at outcome retry_on m i" by auto
  then obtain e where e: "outcome i = Inl e" "retry_on e" "i \<noteq> m"
    by (auto simp: ends_at_def split: sum.splits)
  obtain d b' where d: "next_delay (rnd i) b = (d, b')" by force
  have b': "backoff_ok b'" "bo_max_delay b' = bo_max_delay b"
    using next_delay_ok [OF Suc.prems(5), of "rnd i"] next_delay_max [of "rnd i" b] d by auto
  have dr: "0 \<le> d \<and> d \<le> bo_max_delay b"
    using next_delay_range [OF Suc.prems(5), of "rnd i"] d by simp
  have "fst (retry_loop outcome retry_on rnd m (Suc i) b') = outcome k
    \<and> length (snd (retry_loop outcome retry_on rnd m (Suc i) b')) = k - Suc i
    \<and> (\<forall>d \<in> set (snd (retry_loop outcome retry_on rnd m (Suc i) b')). 0 \<le> d \<and> d \<le> bo_max_delay b')"
    using Suc.prems Suc.hyps(2) lt b' by (intro Suc.hyps(1)) auto
  moreover have "retry_loop outcome retry_on rnd m i b =
      (fst (retry_loop outcome retry_on rnd m (Suc i) b'), d # snd (retry_loop outcome retry_on rnd m (Suc i) b'))"
    using e lt Suc.prems(2) d
    by (subst retry_loop.simps) (simp add: case_prod_beta)
  ultimately show ?case using dr b' lt by auto
qed

lemma with_retry_loop_result:
  "\<exists>k \<le> length ds. fst (with_retry_loop fn retriable should_retry jit i ds) = fn (i + k)
     \<and> length (snd (with_retry_loop fn retriable should_retry jit i ds)) = k
     \<and> (\<forall>l < k. \<exists>e. fn (i + l) = Inl e \<and> retriable e \<and> should_retry e)
     \<and> (k = length ds \<or> is_ok (fn (i + k)) \<or> (\<exists>e. fn (i + k) = Inl e \<and> \<not> (retriable e \<and> should_retry e)))"
proof (induction ds arbitrary: i)
  case (Cons d ds)
  consider (ok) a where "fn i = Inr a" | (stop) e where "fn i = Inl e" "\<not> (retriable e \<and> should_retry e)"
    | (retry) e where "fn i = Inl e" "retriable e" "should_retry e"
    by (cases "fn i") auto
  then show ?case
  proof cases
    case ok
    then show ?thesis by (intro exI [of _ 0]) auto
  next
    case stop
    then show ?thesis by (intro exI [of _ 0]) auto
  next
    case retry
    from Cons.IH [of "Suc i"] obtain k where k: "k \<le> length ds"
      "fst (with_retry_loop fn retriable should_retry jit (Suc i) ds) = fn (Suc i + k)"
      "length (snd (with_retry_loop fn retriable should_retry jit (Suc i) ds)) = k"
      "\<forall>l < k. \<exists>e. fn (Suc i + l) = Inl e \<and> retriable e \<and> should_retry e"
      "k = length ds \<or> is_ok (fn (Suc i + k)) \<or> (\<exists>e. fn (Suc i + k) = Inl e \<and> \<not> (retriable e \<and> should_retry e))"
      by blast
    have "\<exists>e. fn (i + l) = Inl e \<and> retriable e \<and> should_retry e" if "l < Suc k" for l
      using that k(4) retry by (cases l) auto
    with k retry show ?thesis
      by (intro exI [of _ "Suc k"]) (auto simp: case_prod_beta)
  qed
qed auto

section \<open>Properties\<close>

text \<open>
  \<open>retry_with_backoff\<close> with accepted parameters always ends, after at most \<open>max_retries + 1\<close>
  calls: its result is that of the first call that succeeds, raises an exception outside
  \<open>retry_on\<close>, or is the last one allowed; it sleeps exactly once between consecutive calls,
  and every delay lies between 0 and \<open>max_delay\<close>.
\<close>

lemma retry_with_backoff_outcome:
  assumes "0 \<le> m" and "backoff_init parse base (PFloat (Fin 2)) max_delay jitter = Inr b"
  shows "\<exists>k \<le> nat m. fst (retry_with_backoff parse outcome retry_on rnd (PInt m) base max_delay jitter) = outcome k
    \<and> (\<forall>l < k. \<exists>e. outcome l = Inl e \<and> retry_on e)
    \<and> (k = nat m \<or> is_ok (outcome k) \<or> (\<exists>e. outcome k = Inl e \<and> \<not> retry_on e))
    \<and> length (snd (retry_with_backoff parse outcome retry_on rnd (PInt m) base max_delay jitter)) = k
    \<and> (\<forall>d \<in> set (snd (retry_with_backoff parse outcome retry_on rnd (PInt m) base max_delay jitter)).
         0 \<le> d \<and> d \<le> bo_max_delay b)"
proof -
  define k where "k = (LEAST k. ends_at outcome retry_on (nat m) k)"
  have e: "ends_at outcome retry_on (nat m) (nat m)" by (simp add: ends_at_def)
  have k: "ends_at outcome retry_on (nat m) k" and km: "k \<le> nat m"
    unfolding k_def using e by (rule LeastI, rule Least_le)
  have least: "\<not> ends_at outcome retry_on (nat m) l" if "l < k" for l
    using that not_less_Least unfolding k_def by blast
  have "retry_with_backoff parse outcome retry_on rnd (PInt m) base max_delay jitter =
      retry_loop outcome retry_on rnd (nat m) 0 b"
    using assms by (simp add: retry_with_backoff_def)
  moreover note retry_loop_result [OF _ km k, of 0 b rnd] backoff_init_ok [OF assms(2)] least
  moreover have "\<exists>e. outcome l = Inl e \<and> retry_on e" if "l < k" for l
    using least [OF that] by (cases "outcome l") (auto simp: ends_at_def)
  moreover have "k = nat m \<or> is_ok (outcome k) \<or> (\<exists>e. outcome k = Inl e \<and> \<not> retry_on e)"
    using k by (auto simp: ends_at_def split: sum.splits)
  ultimately show ?thesis using km by auto
qed

lemma retry_with_backoff_outcome_witness:
  "length (snd (retry_with_backoff (\<lambda>_. None) (\<lambda>i. if i = 2 then Inr ''done'' else Inl (TimeoutError ''t''))
     is_Exception (\<lambda>_. 1/2) (PInt 3) (PInt 1) (PInt 60) (PFloat (Fin (1/4))))) \<le> 3"
  using retry_with_backoff_outcome [of 3 "\<lambda>_. None" "PInt 1" "PInt 60" "PFloat (Fin (1/4))"
      "\<lparr>bo_base = 1, bo_factor = 2, bo_max_delay = 60, bo_jitter = 1/4, bo_attempt = 0\<rparr>"
      "\<lambda>i. if i = 2 then Inr ''done'' else Inl (TimeoutError ''t'')" is_Exception "\<lambda>_. 1/2"]
  by (auto simp: backoff_init_def backoff_param_def)

text \<open>
  A fresh backoff's \<open>n\<close>-th delay stays within the jitter band around the capped exponential
  \<open>min (base * factor ^ n) max_delay\<close>, for every draw in \<open>[0, 1]\<close> and as long as the power is
  within the floating-point range.
\<close>

lemma backoff_delay_band:
  assumes "backoff_ok b" and "0 \<le> r" and "r \<le> 1" and "bo_factor b ^ bo_attempt b < float_limit"
    and "bo_base b * bo_factor b ^ bo_attempt b < float_limit"
  defines "c \<equiv> min (bo_base b * bo_factor b ^ bo_attempt b) (bo_max_delay b)"
  shows "c * (1 - bo_jitter b) \<le> fst (next_delay r b)
    \<and> fst (next_delay r b) \<le> min (bo_max_delay b) (c * (1 + bo_jitter b))"
proof -
  have c: "min (raw_delay b) (bo_max_delay b) = c" and c0: "0 \<le> c" and cm: "c \<le> bo_max_delay b"
    using assms by (auto simp: raw_delay_def Let_def backoff_ok_def)
  have j: "0 \<le> bo_jitter b" "bo_jitter b \<le> 1" using assms by (auto simp: backoff_ok_def)
  let ?f = "1 - bo_jitter b + r * 2 * bo_jitter b"
  have "0 \<le> r * bo_jitter b" "r * bo_jitter b \<le> bo_jitter b"
    using assms(2,3) j by (auto simp: mult_left_le_one_le)
  then have "1 - bo_jitter b \<le> ?f" and "?f \<le> 1 + bo_jitter b" and "0 \<le> 1 - bo_jitter b" using j by linarith+
  then have lo: "c * (1 - bo_jitter b) \<le> c * ?f" and hi: "c * ?f \<le> c * (1 + bo_jitter b)"
    and z: "0 \<le> c * ?f" using c0 by (auto intro: mult_left_mono)
  have "c * (1 - bo_jitter b) \<le> c" using c0 j by (simp add: mult_left_le)
  then have "c * (1 - bo_jitter b) \<le> bo_max_delay b" using cm by linarith
  then show ?thesis using lo hi z c by (simp add: next_delay_def Let_def)
qed

lemma backoff_delay_band_witness:
  "fst (next_delay 1 \<lparr>bo_base = 1, bo_factor = 2, bo_max_delay = 60, bo_jitter = 1/4, bo_attempt = 3\<rparr>) \<le> 10"
  using backoff_delay_band [of "\<lparr>bo_base = 1, bo_factor = 2, bo_max_delay = 60, bo_jitter = 1/4, bo_attempt = 3\<rparr>" 1]
  by (simp add: backoff_ok_def float_limit_def)

text \<open>
  \<open>with_retry\<close> on an accepted schedule makes at most one call more than the schedule has
  delays and returns what its last call returned or raised; every earlier call failed with an
  exception that is retriable and that \<open>should_retry\<close> accepted.
\<close>

lemma with_retry_outcome:
  assumes "retry_delays parse delays = Some ds" and "retry_delays parse [jitter] = Some [j]"
  shows "\<exists>k \<le> length ds. fst (with_retry parse fn retriable should_retry uniform delays jitter) = fn k
     \<and> length (snd (with_retry parse fn retriable should_retry uniform delays jitter)) = k
     \<and> (\<forall>l < k. \<exists>e. fn l = Inl e \<and> retriable e \<and> should_retry e)
     \<and> (k = length ds \<or> is_ok (fn k) \<or> (\<exists>e. fn k = Inl e \<and> \<not> (retriable e \<and> should_retry e)))"
  using with_retry_loop_result [of ds fn retriable should_retry "uniform j" 0] assms
  by (simp add: with_retry_def)

lemma with_retry_outcome_witness:
  "length (snd (with_retry (\<lambda>_. None) (\<lambda>_. Inl (TimeoutError ''t'') :: unit res) is_Exception (\<lambda>_. True) (\<lambda>_ _. 0)
     [PInt 1000, PInt 3000, PInt 8000] (PInt 500))) \<le> 3"
  using with_retry_outcome [of "\<lambda>_. None" "[PInt 1000, PInt 3000, PInt 8000]" "[1000, 3000, 8000]" "PInt 500" 500
     "\<lambda>_. Inl (TimeoutError ''t'') :: unit res" is_Exception "\<lambda>_. True" "\<lambda>_ _. 0"]
  by auto

end
