(* ===== verification/Idempotency.thy ===== *)
theory Idempotency
  imports PyDict
begin

text \<open>
  \<open>norax/dispatch/idempotency.py\<close>: the bounded, expiring cache of completed calls. \<open>now\<close> is the
  reading of \<open>time.monotonic()\<close>. Results are values, so the deep copies are the identity. The
  locale \<open>call_cache\<close> is what the dispatcher relies on.
\<close>

section \<open>State and operations\<close>

record idem_entry =
  ie_result :: pyval
  ie_ts :: real
  ie_scope :: "string option"

record idem_cache =
  ic_ttl_seconds :: real
  ic_max_entries :: nat
  ic_store :: "(string, idem_entry) dict"

definition idem_init :: "real \<Rightarrow> int \<Rightarrow> idem_cache" where
  "idem_init ttl maxe = \<lparr>ic_ttl_seconds = min 86400 (max 1 ttl),
     ic_max_entries = nat (min 100000 (max 1 maxe)), ic_store = []\<rparr>"

definition live_entry :: "string \<Rightarrow> real \<Rightarrow> idem_cache \<Rightarrow> idem_entry option \<times> idem_cache" where
  "live_entry rid now c =
     (case map_of (ic_store c) rid of
        Some e \<Rightarrow> if now - ie_ts e > ic_ttl_seconds c then (None, c\<lparr>ic_store := ddel rid (ic_store c)\<rparr>)
                  else (Some e, c)
      | None \<Rightarrow> (None, c))"

definition idem_get :: "real \<Rightarrow> string \<Rightarrow> string option \<Rightarrow> (idem_cache, pyval option) op" where
  "idem_get now rid scope c0 =
     (let (e, c) = live_entry rid now c0 in
      case e of
        None \<Rightarrow> (Inr None, c)
      | Some e \<Rightarrow>
          if ie_scope e \<noteq> scope then (Inl IdempotencyConflict, c)
          else (Inr (Some (ie_result e)), c\<lparr>ic_store := move_to_end rid (ic_store c)\<rparr>))"

text \<open>The loop that pops the oldest entries until there is room.\<close>

fun evict :: "nat \<Rightarrow> (string, idem_entry) dict \<Rightarrow> (string, idem_entry) dict" where
  "evict m [] = []"
| "evict m (p # d) = (if length (p # d) \<ge> m then evict m d else p # d)"

definition idem_put :: "real \<Rightarrow> string \<Rightarrow> pyval \<Rightarrow> string option \<Rightarrow> (idem_cache, unit) op" where
  "idem_put now rid result scope c0 =
     (let (e, c) = live_entry rid now c0 in
      case e of
        Some e \<Rightarrow> if ie_scope e \<noteq> scope then (Inl IdempotencyConflict, c) else (Inr (), c)
      | None \<Rightarrow> (Inr (), c\<lparr>ic_store := dset rid \<lparr>ie_result = result, ie_ts = now, ie_scope = scope\<rparr>
                                        (evict (ic_max_entries c) (ic_store c))\<rparr>))"

datatype idem_event = IdemGet real string "string option" | IdemPut real string pyval "string option"

fun idem_step :: "idem_cache \<Rightarrow> idem_event \<Rightarrow> idem_cache" where
  "idem_step c (IdemGet now rid scope) = snd (idem_get now rid scope c)"
| "idem_step c (IdemPut now rid result scope) = snd (idem_put now rid result scope c)"

fun idem_key :: "idem_event \<Rightarrow> string" where
  "idem_key (IdemGet _ rid _) = rid"
| "idem_key (IdemPut _ rid _ _) = rid"

fun idem_time :: "idem_event \<Rightarrow> real" where
  "idem_time (IdemGet now _ _) = now"
| "idem_time (IdemPut now _ _ _) = now"

section \<open>Invariant\<close>

definition idem_inv :: "idem_cache \<Rightarrow> bool" where
  "idem_inv c \<longleftrightarrow> dict_ok (ic_store c) \<and> 1 \<le> ic_max_entries c \<and> 1 \<le> ic_ttl_seconds c
     \<and> length (ic_store c) \<le> ic_max_entries c"

lemma idem_init_inv: "idem_inv (idem_init ttl m)"
  by (auto simp: idem_inv_def idem_init_def)

lemma evict_drop: "1 \<le> m \<Longrightarrow> evict m d = drop (Suc (length d) - m) d"
proof (induction m d rule: evict.induct)
  case (2 m p d)
  show ?case
  proof (cases "length (p # d) \<ge> m")
    case True
    then have "Suc (length (p # d)) - m = Suc (Suc (length d) - m)" by simp
    with True 2 show ?thesis by simp
  next
    case False
    then show ?thesis by simp
  qed
qed simp

lemma live_entry_inv: "idem_inv c \<Longrightarrow> live_entry rid now c = (e, c') \<Longrightarrow> idem_inv c'"
proof -
  assume inv: "idem_inv c" and l: "live_entry rid now c = (e, c')"
  have "c' = c \<or> c' = c\<lparr>ic_store := ddel rid (ic_store c)\<rparr>"
    using l by (cases "map_of (ic_store c) rid") (auto simp: live_entry_def split: if_splits)
  then show ?thesis
    using inv length_ddel_le [of rid "ic_store c"] by (auto simp: idem_inv_def)
qed

lemma live_entry_None:
  "live_entry rid now c = (None, c') \<Longrightarrow> rid \<notin> fst ` set (ic_store c')"
proof -
  assume l: "live_entry rid now c = (None, c')"
  show ?thesis
  proof (cases "map_of (ic_store c) rid")
    case None
    then have "c' = c" using l by (simp add: live_entry_def)
    then show ?thesis using None map_of_None_iff [of "ic_store c" rid] by simp
  next
    case (Some e)
    then have "c' = c\<lparr>ic_store := ddel rid (ic_store c)\<rparr>"
      using l by (simp add: live_entry_def split: if_splits)
    then show ?thesis by (simp add: image_iff)
  qed
qed

lemma idem_get_inv: "idem_inv c \<Longrightarrow> idem_inv (snd (idem_get now rid scope c))"
proof -
  assume inv: "idem_inv c"
  obtain e c' where l: "live_entry rid now c = (e, c')" by force
  have c': "idem_inv c'" using live_entry_inv [OF inv l] .
  then have "idem_inv (c'\<lparr>ic_store := move_to_end rid (ic_store c')\<rparr>)" by (simp add: idem_inv_def)
  with c' l show ?thesis by (cases e) (simp_all add: idem_get_def)
qed

lemma idem_put_inv:
  assumes "idem_inv c"
  shows "idem_inv (snd (idem_put now rid result scope c))"
proof -
  obtain e c' where l: "live_entry rid now c = (e, c')" by force
  have c': "idem_inv c'" using live_entry_inv [OF assms l] .
  show ?thesis
  proof (cases e)
    case (Some x)
    with l c' show ?thesis by (simp add: idem_put_def)
  next
    case None
    let ?d = "evict (ic_max_entries c') (ic_store c')"
    have d: "?d = drop (Suc (length (ic_store c')) - ic_max_entries c') (ic_store c')"
      using c' by (simp add: evict_drop idem_inv_def)
    have "Suc (length ?d) \<le> ic_max_entries c'" using c' unfolding d idem_inv_def length_drop by arith
    moreover have "dict_ok ?d" using c' unfolding d by (simp add: idem_inv_def)
    ultimately show ?thesis using l None c' by (simp add: idem_put_def idem_inv_def length_dset)
  qed
qed

interpretation icm: machine idem_step idem_inv "\<lambda>_. True"
proof
  fix c e assume "idem_inv c"
  then show "idem_inv (idem_step c e)" by (cases e) (auto intro: idem_get_inv idem_put_inv)
qed

section \<open>What the dispatcher relies on\<close>

locale call_cache =
  fixes get :: "real \<Rightarrow> 'k \<Rightarrow> 'scope \<Rightarrow> 'c \<Rightarrow> 'v option res \<times> 'c"
    and put :: "real \<Rightarrow> 'k \<Rightarrow> 'v \<Rightarrow> 'scope \<Rightarrow> 'c \<Rightarrow> unit res \<times> 'c"
    and inv :: "'c \<Rightarrow> bool"
    and fresh :: "real \<Rightarrow> real \<Rightarrow> 'c \<Rightarrow> bool" \<comment> \<open>an entry of the first time is alive at the second\<close>
  assumes get_inv: "inv c \<Longrightarrow> inv (snd (get t k s c))"
    and put_inv: "inv c \<Longrightarrow> inv (snd (put t k v s c))"
    and put_then_get: "inv c \<Longrightarrow> fst (get t k s c) = Inr None \<Longrightarrow> fresh t t' c \<Longrightarrow>
      fst (get t' k s' (snd (put t k v s (snd (get t k s c))))) =
        (if s = s' then Inr (Some v) else Inl IdempotencyConflict)"
    and miss_stores: "fst (get t k s c) = Inr None \<Longrightarrow> fst (put t k v s (snd (get t k s c))) = Inr ()"
begin

text \<open>A call that missed the cache and stored its result is answered from the cache, and the
  same identifier with another scope is a conflict.\<close>

lemma stored_result_replayed:
  assumes "inv c" and "fst (get t k s c) = Inr None" and "fresh t t' c"
  shows "fst (get t' k s (snd (put t k v s (snd (get t k s c))))) = Inr (Some v)"
    and "s' \<noteq> s \<Longrightarrow> fst (get t' k s' (snd (put t k v s (snd (get t k s c))))) = Inl IdempotencyConflict"
  using put_then_get [OF assms] by auto

end

lemma idem_miss:
  assumes "fst (idem_get now rid scope c) = Inr None"
  shows "\<exists>c'. live_entry rid now c = (None, c') \<and> snd (idem_get now rid scope c) = c'"
  using assms by (auto simp: idem_get_def Let_def split: prod.splits option.splits if_splits)

lemma live_entry_again:
  "live_entry rid now c = (None, c') \<Longrightarrow> live_entry rid now' c' = (None, c')"
  by (drule live_entry_None) (auto simp: live_entry_def map_of_None_iff [symmetric])

lemma idem_put_after_miss:
  assumes "live_entry rid now c = (None, c')"
  shows "idem_put t rid v scope c' = (Inr (), c'\<lparr>ic_store :=
      dset rid \<lparr>ie_result = v, ie_ts = t, ie_scope = scope\<rparr> (evict (ic_max_entries c') (ic_store c'))\<rparr>)"
  using live_entry_again [OF assms, of t] by (simp add: idem_put_def)

lemma live_entry_ttl [simp]: "live_entry rid now c = (e, c') \<Longrightarrow> ic_ttl_seconds c' = ic_ttl_seconds c"
  by (auto simp: live_entry_def split: option.splits if_splits)

interpretation icc: call_cache idem_get idem_put idem_inv "\<lambda>t t' c. t' - t \<le> ic_ttl_seconds c"
proof
  fix c t k and s s' :: "string option" and t' v
  assume "idem_inv c" and miss: "fst (idem_get t k s c) = Inr None" and fr: "t' - t \<le> ic_ttl_seconds c"
  obtain c' where l: "live_entry k t c = (None, c')" "snd (idem_get t k s c) = c'"
    using idem_miss [OF miss] by blast
  show "fst (idem_get t' k s' (snd (idem_put t k v s (snd (idem_get t k s c))))) =
      (if s = s' then Inr (Some v) else Inl IdempotencyConflict)"
    unfolding l(2) idem_put_after_miss [OF l(1)]
    using fr l(1) by (auto simp: idem_get_def live_entry_def)
next
  fix t k c and s :: "string option" and v
  assume "fst (idem_get t k s c) = Inr None"
  then show "fst (idem_put t k v s (snd (idem_get t k s c))) = Inr ()"
    using idem_miss idem_put_after_miss by (metis fst_conv)
qed (auto intro: idem_get_inv idem_put_inv)

section \<open>Survival of a stored result\<close>

text \<open>The entry of \<open>rid\<close> is present, and every key behind it in the order is in \<open>T\<close>.\<close>

definition kept :: "string \<Rightarrow> idem_entry \<Rightarrow> nat \<Rightarrow> real \<Rightarrow> string set \<Rightarrow> idem_cache \<Rightarrow> bool" where
  "kept rid e m ttl T c \<longleftrightarrow> idem_inv c \<and> ic_max_entries c = m \<and> ic_ttl_seconds c = ttl
     \<and> (\<exists>pre post. ic_store c = pre @ (rid, e) # post \<and> fst ` set post \<subseteq> T)"

lemma keptI:
  "idem_inv c \<Longrightarrow> ic_max_entries c = m \<Longrightarrow> ic_ttl_seconds c = ttl
    \<Longrightarrow> ic_store c = pre @ (rid, e) # post \<Longrightarrow> fst ` set post \<subseteq> T \<Longrightarrow> kept rid e m ttl T c"
  unfolding kept_def by blast

lemma kept_lookup: "kept rid e m ttl T c \<Longrightarrow> map_of (ic_store c) rid = Some e"
  by (auto simp: kept_def idem_inv_def dict_ok_def map_add_def map_of_eq_None_iff split: option.splits)

lemma ddel_append: "ddel k (xs @ ys) = ddel k xs @ ddel k ys"
  by (simp add: ddel_def)

lemma ddel_Cons: "ddel k (p # d) = (if fst p = k then ddel k d else p # ddel k d)"
  by (simp add: ddel_def)

lemma kept_del:
  assumes "kept rid e m ttl T c" and "k \<noteq> rid"
  shows "kept rid e m ttl T (c\<lparr>ic_store := ddel k (ic_store c)\<rparr>)"
proof -
  from assms obtain pre post where s: "ic_store c = pre @ (rid, e) # post" "fst ` set post \<subseteq> T"
    by (auto simp: kept_def)
  have "ddel k (ic_store c) = ddel k pre @ (rid, e) # ddel k post"
    using assms(2) s(1) by (simp add: ddel_append ddel_Cons)
  moreover have "fst ` set (ddel k post) \<subseteq> T" using s(2) by auto
  moreover have "idem_inv (c\<lparr>ic_store := ddel k (ic_store c)\<rparr>)"
    using assms(1) length_ddel_le [of k "ic_store c"] by (simp add: kept_def idem_inv_def)
  ultimately show ?thesis
    using assms(1) by (intro keptI [of _ _ _ "ddel k pre" _ _ "ddel k post"]) (simp_all add: kept_def)
qed

lemma kept_append:
  assumes "kept rid e m ttl T c" and "k \<notin> fst ` set (ic_store c)"
    and "idem_inv (c\<lparr>ic_store := ic_store c @ [(k, x)]\<rparr>)"
  shows "kept rid e m ttl (insert k T) (c\<lparr>ic_store := ic_store c @ [(k, x)]\<rparr>)"
proof -
  from assms obtain pre post where s: "ic_store c = pre @ (rid, e) # post" "fst ` set post \<subseteq> T"
    by (auto simp: kept_def)
  then have "ic_store c @ [(k, x)] = pre @ (rid, e) # (post @ [(k, x)])" and "fst ` set (post @ [(k, x)]) \<subseteq> insert k T"
    by auto
  with assms show ?thesis
    by (intro keptI [of _ _ _ pre _ _ "post @ [(k, x)]"]) (simp_all add: kept_def)
qed

lemma kept_drop:
  assumes "kept rid e m ttl T c" and "k \<notin> fst ` set (ic_store c)" and "finite T" and "card (insert k T) < m"
  shows "kept rid e m ttl T (c\<lparr>ic_store := drop (Suc (length (ic_store c)) - m) (ic_store c)\<rparr>)"
proof -
  from assms obtain pre post where s: "ic_store c = pre @ (rid, e) # post" "fst ` set post \<subseteq> T"
    by (auto simp: kept_def)
  have inv: "dict_ok (ic_store c)" "length (ic_store c) \<le> m" using assms(1) by (auto simp: kept_def idem_inv_def)
  let ?n = "Suc (length (ic_store c)) - m"
  have "?n \<le> length pre"
  proof (rule ccontr)
    assume "\<not> ?n \<le> length pre"
    with inv(2) have "pre = []" and l: "Suc (length post) = m" unfolding s(1) by (cases pre; simp)+
    have "card (insert k (fst ` set post)) \<le> card (insert k T)"
      using s(2) assms(3) by (intro card_mono) auto
    moreover have "card (insert k (fst ` set post)) = Suc (length post)"
      using assms(2) inv(1) distinct_card [of "map fst post"] unfolding s(1)
      by (simp add: dict_ok_def image_Un)
    ultimately show False using l assms(4) by simp
  qed
  then have "drop ?n (ic_store c) = drop ?n pre @ (rid, e) # post" unfolding s(1) by simp
  moreover have "idem_inv (c\<lparr>ic_store := drop ?n (ic_store c)\<rparr>)"
    using assms(1) by (auto simp: kept_def idem_inv_def)
  ultimately show ?thesis
    using assms(1) s(2) by (intro keptI [of _ _ _ "drop ?n pre" _ _ post]) (simp_all add: kept_def)
qed

lemma kept_step:
  assumes k: "kept rid e m ttl T c" and "finite T" and "card (insert (idem_key ev) T) < m" and ne: "idem_key ev \<noteq> rid"
  shows "kept rid e m ttl (insert (idem_key ev) T) (idem_step c ev)"
proof -
  let ?k = "idem_key ev"
  have mono: "kept rid e m ttl T d \<Longrightarrow> kept rid e m ttl (insert ?k T) d" for d by (auto simp: kept_def)
  obtain x c' where l: "live_entry ?k (idem_time ev) c = (x, c')" by force
  have c': "kept rid e m ttl T c'"
    using l k kept_del [OF k ne] by (cases "map_of (ic_store c) ?k") (auto simp: live_entry_def split: if_splits)
  have inv: "idem_inv (idem_step c ev)" using k by (auto simp: kept_def intro: icm.step_inv)
  show ?thesis
  proof (cases ev)
    case (IdemGet now rid' scope)
    show ?thesis
    proof (cases "\<exists>y. x = Some y \<and> ie_scope y = scope")
      case True
      then obtain y where y: "x = Some y" "ie_scope y = scope" by blast
      have m: "map_of (ic_store c') rid' = Some y"
        using l y(1) IdemGet by (cases "map_of (ic_store c) rid'") (auto simp: live_entry_def split: if_splits)
      let ?d = "c'\<lparr>ic_store := ddel rid' (ic_store c')\<rparr>"
      have st: "idem_step c ev = ?d\<lparr>ic_store := ic_store ?d @ [(rid', y)]\<rparr>"
        using l y m IdemGet by (simp add: idem_get_def move_to_end_def)
      have "kept rid e m ttl T ?d" using kept_del [OF c' ne] IdemGet by simp
      then have "kept rid e m ttl (insert rid' T) (?d\<lparr>ic_store := ic_store ?d @ [(rid', y)]\<rparr>)"
        using inv st by (intro kept_append) (auto simp: image_iff)
      then show ?thesis using st IdemGet by simp
    next
      case False
      then have "idem_step c ev = c'" using l IdemGet by (cases x) (auto simp: idem_get_def)
      then show ?thesis using c' mono by simp
    qed
  next
    case (IdemPut now rid' v scope)
    show ?thesis
    proof (cases x)
      case None
      have nin: "rid' \<notin> fst ` set (ic_store c')" using l None IdemPut by (auto dest: live_entry_None)
      let ?d = "c'\<lparr>ic_store := drop (Suc (length (ic_store c')) - m) (ic_store c')\<rparr>"
      have d: "kept rid e m ttl T ?d" using c' nin assms(2,3) IdemPut by (intro kept_drop) auto
      have nd: "rid' \<notin> fst ` set (ic_store ?d)" using nin by (auto dest: in_set_dropD)
      have m1: "ic_max_entries c' = m" "1 \<le> m" using c' by (auto simp: kept_def idem_inv_def)
      then have st: "idem_step c ev = ?d\<lparr>ic_store := ic_store ?d @
          [(rid', \<lparr>ie_result = v, ie_ts = now, ie_scope = scope\<rparr>)]\<rparr>"
        using l None IdemPut nd by (simp add: idem_put_def evict_drop dset_absent)
      have "kept rid e m ttl (insert rid' T) (idem_step c ev)"
        unfolding st using d nd inv st by (intro kept_append) auto
      then show ?thesis using IdemPut by simp
    next
      case (Some y)
      then have "idem_step c ev = c'" using l IdemPut by (auto simp: idem_put_def)
      then show ?thesis using c' mono by simp
    qed
  qed
qed

text \<open>A read or a write under the same identifier keeps the entry as long as it is alive.\<close>

lemma kept_own:
  assumes k: "kept rid e m ttl T c" and "idem_key ev = rid" and live: "idem_time ev - ie_ts e \<le> ttl"
  shows "kept rid e m ttl T (idem_step c ev)"
proof -
  have m: "map_of (ic_store c) rid = Some e" by (rule kept_lookup [OF k])
  have l: "live_entry rid (idem_time ev) c = (Some e, c)" using m live k by (simp add: live_entry_def kept_def)
  have inv: "idem_inv (idem_step c ev)" using k by (auto simp: kept_def intro: icm.step_inv)
  show ?thesis
  proof (cases ev)
    case (IdemGet now rid' scope)
    show ?thesis
    proof (cases "ie_scope e = scope")
      case True
      have st: "idem_step c ev = c\<lparr>ic_store := ddel rid (ic_store c) @ [(rid, e)]\<rparr>"
        using l m IdemGet True assms(2) by (simp add: idem_get_def move_to_end_def)
      show ?thesis by (rule keptI [OF inv, where pre = "ddel rid (ic_store c)" and post = "[]"]) (use k st in \<open>simp_all add: kept_def\<close>)
    next
      case False
      then have "idem_step c ev = c" using l IdemGet assms(2) by (simp add: idem_get_def)
      then show ?thesis using k by simp
    qed
  next
    case (IdemPut now rid' v scope)
    have eq: "rid' = rid" using assms(2) IdemPut by simp
    have "live_entry rid now c = (Some e, c)" using l by (simp only: IdemPut idem_time.simps)
    then have "idem_put now rid v scope c = (if ie_scope e \<noteq> scope then (Inl IdempotencyConflict, c) else (Inr (), c))"
      by (simp only: idem_put_def Let_def prod.case option.case)
    then have "idem_step c ev = c" by (simp only: IdemPut eq idem_step.simps) simp
    then show ?thesis using k by simp
  qed
qed

lemma kept_run:
  assumes "kept rid e m ttl T c" and "finite T" and "card (T \<union> (set (map idem_key es) - {rid})) < m"
    and "\<forall>ev \<in> set es. idem_key ev = rid \<longrightarrow> idem_time ev - ie_ts e \<le> ttl"
  shows "kept rid e m ttl (T \<union> (set (map idem_key es) - {rid})) (foldl idem_step c es)"
  using assms
proof (induction es arbitrary: T c)
  case (Cons ev es)
  show ?case
  proof (cases "idem_key ev = rid")
    case True
    then have "kept rid e m ttl T (idem_step c ev)" using Cons.prems by (intro kept_own) auto
    then show ?thesis using Cons.IH [of T "idem_step c ev"] Cons.prems True by simp
  next
    case False
    have "card (insert (idem_key ev) T) \<le> card (T \<union> (set (map idem_key (ev # es)) - {rid}))"
      using Cons.prems(2) False by (intro card_mono) auto
    then have "kept rid e m ttl (insert (idem_key ev) T) (idem_step c ev)"
      using Cons.prems False by (intro kept_step) auto
    moreover have "insert (idem_key ev) T \<union> (set (map idem_key es) - {rid}) = T \<union> (set (map idem_key (ev # es)) - {rid})"
      using False by auto
    ultimately show ?thesis
      using Cons.IH [of "insert (idem_key ev) T" "idem_step c ev"] Cons.prems by simp
  qed
qed simp

lemma live_entry_frame:
  "ic_max_entries (snd (live_entry rid now c)) = ic_max_entries c"
  "ic_ttl_seconds (snd (live_entry rid now c)) = ic_ttl_seconds c"
  by (cases "map_of (ic_store c) rid"; simp add: live_entry_def)+

lemma put_kept:
  assumes "idem_inv c" and "live_entry rid t c = (None, c')"
  shows "kept rid \<lparr>ie_result = v, ie_ts = t, ie_scope = scope\<rparr> (ic_max_entries c) (ic_ttl_seconds c) {}
     (snd (idem_put t rid v scope c'))"
proof -
  have c': "idem_inv c'" "ic_max_entries c' = ic_max_entries c" "ic_ttl_seconds c' = ic_ttl_seconds c"
    using live_entry_inv [OF assms] live_entry_frame [of rid t c] assms(2) by auto
  let ?d = "evict (ic_max_entries c') (ic_store c')"
  have "rid \<notin> fst ` set ?d"
    using live_entry_None [OF assms(2)] c'(1) by (auto simp: evict_drop idem_inv_def dest: in_set_dropD)
  then have "ic_store (snd (idem_put t rid v scope c')) =
      ?d @ (rid, \<lparr>ie_result = v, ie_ts = t, ie_scope = scope\<rparr>) # []"
    unfolding idem_put_after_miss [OF assms(2)] by (simp add: dset_absent)
  moreover have "idem_inv (snd (idem_put t rid v scope c'))" using c'(1) by (rule idem_put_inv)
  ultimately show ?thesis
    using c'(2,3) by (intro keptI) (simp_all add: idem_put_after_miss [OF assms(2)])
qed

section \<open>Properties\<close>

text \<open>
  A stored result survives other traffic: once a request missed the cache and stored its
  result, any run of reads and writes leaves it in place as long as fewer than \<open>max_entries\<close> other
  identifiers were used and those under its own come within the time to live, and within that time
  the same request with the same scope reads back exactly that result while another scope is
  refused as a conflict.
\<close>

lemma stored_result_survives:
  fixes v :: pyval
  assumes "idem_inv c" and "fst (idem_get t rid scope c) = Inr None"
    and "\<forall>ev \<in> set es. idem_key ev = rid \<longrightarrow> idem_time ev - t \<le> ic_ttl_seconds c"
    and "card (set (map idem_key es) - {rid}) < ic_max_entries c" and "t' - t \<le> ic_ttl_seconds c"
  defines "c' \<equiv> foldl idem_step (snd (idem_put t rid v scope (snd (idem_get t rid scope c)))) es"
  shows "fst (idem_get t' rid scope' c') = (if scope' = scope then Inr (Some v) else Inl IdempotencyConflict)"
proof -
  obtain c1 where l: "live_entry rid t c = (None, c1)" "snd (idem_get t rid scope c) = c1"
    using idem_miss [OF assms(2)] by blast
  have k: "kept rid \<lparr>ie_result = v, ie_ts = t, ie_scope = scope\<rparr> (ic_max_entries c) (ic_ttl_seconds c)
      ({} \<union> (set (map idem_key es) - {rid})) c'"
    unfolding c'_def l(2) using put_kept [OF assms(1) l(1)] assms(3,4) by (intro kept_run) auto
  then have "map_of (ic_store c') rid = Some \<lparr>ie_result = v, ie_ts = t, ie_scope = scope\<rparr>"
    and "ic_ttl_seconds c' = ic_ttl_seconds c" using kept_lookup [OF k] k by (simp_all add: kept_def)
  then show ?thesis using assms(5) by (auto simp: idem_get_def live_entry_def)
qed

lemma stored_result_survives_witness:
  "fst (idem_get 20 ''r1'' None
     (foldl idem_step (snd (idem_put 10 ''r1'' (PInt 7) None (snd (idem_get 10 ''r1'' None (idem_init 300 2)))))
       [IdemPut 11 ''r2'' PNone None, IdemGet 12 ''r2'' None])) = Inr (Some (PInt 7))"
  using stored_result_survives [where c = "idem_init 300 2" and t = 10 and rid = "''r1''" and scope = None
      and es = "[IdemPut 11 ''r2'' PNone None, IdemGet 12 ''r2'' None]" and t' = 20 and v = "PInt 7" and scope' = None]
  by (simp add: idem_init_inv) (simp add: idem_init_def idem_get_def live_entry_def)

text \<open>
  The cache never holds more entries than \<open>max_entries\<close> nor two for one identifier, whatever
  the run of reads and writes and whatever settings it was built with.
\<close>

lemma cache_bounded:
  "dict_ok (ic_store (foldl idem_step (idem_init ttl m) es))
   \<and> length (ic_store (foldl idem_step (idem_init ttl m) es))
       \<le> ic_max_entries (foldl idem_step (idem_init ttl m) es)"
  using icm.run_inv [OF idem_init_inv, of es] by (simp add: idem_inv_def list_all_iff)

end
