(* ===== verification/Budget.thy ===== *)
theory Budget
  imports PyDict
begin

text \<open>
  \<open>norax/dispatch/budget.py\<close>: daily usage per caller and the zone it puts the caller in. A date
  is its ordinal, an \<^typ>\<open>int\<close>; \<open>today\<close> is the caller's argument or \<open>date.today()\<close>. The guidance
  texts are constructors carrying the utilization they print.
\<close>

section \<open>Zones\<close>

datatype zone = Green | Yellow | Red | Hard_block

fun zone_rank :: "zone \<Rightarrow> nat" where
  "zone_rank Green = 0"
| "zone_rank Yellow = 1"
| "zone_rank Red = 2"
| "zone_rank Hard_block = 3"

lemma zone_rank_inj: "zone_rank a = zone_rank b \<Longrightarrow> a = b"
  by (cases a; cases b) auto

text \<open>Zones are ordered by severity.\<close>

instantiation zone :: linorder
begin

definition less_eq_zone :: "zone \<Rightarrow> zone \<Rightarrow> bool" where
  "less_eq_zone a b \<longleftrightarrow> zone_rank a \<le> zone_rank b"

definition less_zone :: "zone \<Rightarrow> zone \<Rightarrow> bool" where
  "less_zone a b \<longleftrightarrow> zone_rank a < zone_rank b"

instance
  by standard (auto simp: less_eq_zone_def less_zone_def intro: zone_rank_inj)

end

section \<open>Caps and usage\<close>

record caps =
  cap_usd :: pyfloat
  cap_input_tokens :: int
  cap_requests :: int

definition nonneg_int_field :: "pyval \<Rightarrow> int res" where
  "nonneg_int_field v =
     (case plain_int v of Some i \<Rightarrow> if i < 0 then Inl (ValueError ''must be a non-negative integer'') else Inr i
      | None \<Rightarrow> Inl (ValueError ''must be a non-negative integer''))"

definition cap_usd_field :: "(string \<Rightarrow> pyfloat option) \<Rightarrow> pyval \<Rightarrow> pyfloat res" where
  "cap_usd_field parse v =
     (let err = ValueError ''usd_per_day must be non-negative or positive infinity'' in
      case v of PBool _ \<Rightarrow> Inl err
      | _ \<Rightarrow> (case to_float parse v of
               Inl _ \<Rightarrow> Inl err
             | Inr (Fin r) \<Rightarrow> if r < 0 then Inl err else Inr (Fin r)
             | Inr PosInf \<Rightarrow> Inr PosInf
             | Inr _ \<Rightarrow> Inl err))"

definition caps_init :: "(string \<Rightarrow> pyfloat option) \<Rightarrow> pyval \<Rightarrow> pyval \<Rightarrow> pyval \<Rightarrow> caps res" where
  "caps_init parse usd tokens requests =
     rbind (cap_usd_field parse usd) (\<lambda>u.
     rbind (nonneg_int_field tokens) (\<lambda>t.
     rbind (nonneg_int_field requests) (\<lambda>r.
       Inr \<lparr>cap_usd = u, cap_input_tokens = t, cap_requests = r\<rparr>)))"

definition uncapped :: caps where
  "uncapped = \<lparr>cap_usd = PosInf, cap_input_tokens = 0, cap_requests = 0\<rparr>"

definition default_caps :: "(string, caps) dict" where
  "default_caps = [(''owner'', uncapped), (''admin'', uncapped), (''user'', uncapped), (''guest'', uncapped)]"

record usage =
  us_day :: int
  us_usd :: real
  us_input_tokens :: int
  us_requests :: int

definition new_usage :: "int \<Rightarrow> usage" where
  "new_usage day = \<lparr>us_day = day, us_usd = 0, us_input_tokens = 0, us_requests = 0\<rparr>"

record enforcer =
  be_caps :: "(string, caps) dict"
  be_usage :: "(string, usage) dict"

definition enforcer_init :: "(string, caps) dict \<Rightarrow> enforcer res" where
  "enforcer_init cs =
     (if map_of cs ''guest'' = None then Inl (ValueError ''budget caps must define the guest fallback tier'')
      else if \<exists>t \<in> set (dkeys cs). t \<notin> set (dkeys default_caps) then Inl (ValueError ''unknown budget tier'')
      else Inr \<lparr>be_caps = cs, be_usage = []\<rparr>)"

definition bucket :: "string \<Rightarrow> int \<Rightarrow> enforcer \<Rightarrow> usage \<times> enforcer" where
  "bucket caller today b =
     (case map_of (be_usage b) caller of
        Some u \<Rightarrow> if us_day u \<noteq> today
                   then (new_usage today, b\<lparr>be_usage := dset caller (new_usage today) (be_usage b)\<rparr>)
                   else (u, b)
      | None \<Rightarrow> (new_usage today, b\<lparr>be_usage := dset caller (new_usage today) (be_usage b)\<rparr>))"

section \<open>Assessment\<close>

datatype dimension = Requests | Input_tokens | Usd | No_dimension

fun finite_cap :: "pyfloat \<Rightarrow> real option" where
  "finite_cap (Fin r) = (if r > 0 then Some r else None)"
| "finite_cap _ = None"

definition ratios :: "usage \<Rightarrow> caps \<Rightarrow> (real \<times> dimension) list" where
  "ratios u c =
     (if cap_requests c > 0 then [(of_int (us_requests u) / of_int (cap_requests c), Requests)] else [])
   @ (if cap_input_tokens c > 0 then [(of_int (us_input_tokens u) / of_int (cap_input_tokens c), Input_tokens)] else [])
   @ (case finite_cap (cap_usd c) of Some m \<Rightarrow> [(us_usd u / m, Usd)] | None \<Rightarrow> [])"

text \<open>\<open>max\<close> with a key keeps the first of the largest.\<close>

fun first_max :: "(real \<times> dimension) list \<Rightarrow> real \<times> dimension" where
  "first_max [] = (0, No_dimension)"
| "first_max [p] = p"
| "first_max (p # q # ps) = (if fst q > fst p then first_max (q # ps) else first_max (p # ps))"

definition utilization :: "usage \<Rightarrow> caps \<Rightarrow> real \<times> dimension" where
  "utilization u c = first_max (ratios u c)"

fun used_of :: "usage \<Rightarrow> dimension \<Rightarrow> real" where
  "used_of u Requests = of_int (us_requests u)"
| "used_of u Input_tokens = of_int (us_input_tokens u)"
| "used_of u Usd = us_usd u"
| "used_of u No_dimension = 0"

fun cap_of :: "caps \<Rightarrow> dimension \<Rightarrow> pyfloat" where
  "cap_of c Requests = Fin (of_int (cap_requests c))"
| "cap_of c Input_tokens = Fin (of_int (cap_input_tokens c))"
| "cap_of c Usd = cap_usd c"
| "cap_of c No_dimension = Fin 0"

datatype guidance =
    Owner_unlimited
  | No_cap_configured
  | Budget_healthy
  | Trim_outputs real
  | Read_only_tools real
  | Budget_exhausted

record budget_zone =
  bz_zone :: zone
  bz_tier :: string
  bz_utilization :: real
  bz_limit_kind :: "dimension option"
  bz_used :: real
  bz_cap :: pyfloat
  bz_guidance :: guidance

definition free_zone :: "string \<Rightarrow> guidance \<Rightarrow> budget_zone" where
  "free_zone tier g = \<lparr>bz_zone = Green, bz_tier = tier, bz_utilization = 0, bz_limit_kind = None,
     bz_used = 0, bz_cap = Fin 0, bz_guidance = g\<rparr>"

definition caps_for :: "enforcer \<Rightarrow> string \<Rightarrow> caps" where
  "caps_for b tier =
     (case map_of (be_caps b) tier of Some c \<Rightarrow> c
      | None \<Rightarrow> (case map_of (be_caps b) ''guest'' of Some c \<Rightarrow> c | None \<Rightarrow> uncapped))"

definition no_cap :: "caps \<Rightarrow> bool" where
  "no_cap c \<longleftrightarrow> cap_requests c = 0 \<and> cap_input_tokens c = 0 \<and> (cap_usd c = Fin 0 \<or> cap_usd c = PosInf)"

definition zone_for :: "string \<Rightarrow> real \<Rightarrow> zone" where
  "zone_for tier util =
     (if util < 80/100 then Green
      else if util < 95/100 then Yellow
      else if util < 1 \<or> tier \<in> {''admin'', ''user''} then Red
      else Hard_block)"

definition guidance_for :: "string \<Rightarrow> real \<Rightarrow> guidance" where
  "guidance_for tier util =
     (case zone_for tier util of Green \<Rightarrow> Budget_healthy | Yellow \<Rightarrow> Trim_outputs util
      | Red \<Rightarrow> Read_only_tools util | Hard_block \<Rightarrow> Budget_exhausted)"

definition assess :: "string \<Rightarrow> string \<Rightarrow> int \<Rightarrow> enforcer \<Rightarrow> budget_zone \<times> enforcer" where
  "assess caller tier today b =
     (if tier = ''owner'' then (free_zone tier Owner_unlimited, b)
      else let c = caps_for b tier in
      if no_cap c then (free_zone tier No_cap_configured, b)
      else let (u, b') = bucket caller today b; (util, dim) = utilization u c in
        (\<lparr>bz_zone = zone_for tier util, bz_tier = tier, bz_utilization = util, bz_limit_kind = Some dim,
          bz_used = used_of u dim, bz_cap = cap_of c dim, bz_guidance = guidance_for tier util\<rparr>, b'))"

definition can_use_tools :: "budget_zone \<Rightarrow> bool" where
  "can_use_tools z \<longleftrightarrow> bz_zone z \<noteq> Hard_block"

definition read_only :: "budget_zone \<Rightarrow> bool" where
  "read_only z \<longleftrightarrow> bz_zone z = Red"

definition should_downgrade_model :: "budget_zone \<Rightarrow> bool" where
  "should_downgrade_model z \<longleftrightarrow> bz_zone z \<in> {Yellow, Red}"

definition tool_output_cap :: "budget_zone \<Rightarrow> nat option" where
  "tool_output_cap z =
     (if bz_zone z = Green then None
      else if bz_zone z = Yellow then Some 4000
      else if bz_zone z = Red then Some 2000
      else Some 0)"

definition budget_check :: "string \<Rightarrow> string \<Rightarrow> int \<Rightarrow> (enforcer, unit) op" where
  "budget_check caller tier today b =
     (let (z, b') = assess caller tier today b in
      if bz_zone z = Hard_block then (Inl (BudgetExceeded caller), b') else (Inr (), b'))"

section \<open>Recording\<close>

definition record_usage :: "string \<Rightarrow> pyval \<Rightarrow> pyval \<Rightarrow> pyval \<Rightarrow> int \<Rightarrow> (enforcer, unit) op" where
  "record_usage caller usd tokens requests today b =
     (case finite_number usd of
        None \<Rightarrow> (Inl (ValueError ''usd usage must be a finite non-negative number''), b)
      | Some x \<Rightarrow>
        if x < 0 then (Inl (ValueError ''usd usage must be a finite non-negative number''), b)
        else (case nonneg_int_field tokens of
                Inl e \<Rightarrow> (Inl e, b)
              | Inr t \<Rightarrow> (case nonneg_int_field requests of
                  Inl e \<Rightarrow> (Inl e, b)
                | Inr r \<Rightarrow>
                    let (u, b') = bucket caller today b in
                    (Inr (), b'\<lparr>be_usage := dset caller
                       (u\<lparr>us_usd := us_usd u + x, us_input_tokens := us_input_tokens u + t,
                          us_requests := us_requests u + r\<rparr>) (be_usage b')\<rparr>))))"

definition snapshot :: "string \<Rightarrow> int \<Rightarrow> enforcer \<Rightarrow> usage \<times> enforcer" where
  "snapshot caller today b = bucket caller today b"

section \<open>Facts\<close>

text \<open>What \<open>caller\<close> has used on \<open>today\<close>, as any later reading sees it.\<close>

definition used_today :: "enforcer \<Rightarrow> string \<Rightarrow> int \<Rightarrow> usage" where
  "used_today b caller today = fst (bucket caller today b)"

lemma bucket_caps [simp]: "be_caps (snd (bucket caller today b)) = be_caps b"
  by (auto simp: bucket_def split: option.splits)

lemma bucket_lookup: "map_of (be_usage (snd (bucket caller today b))) c =
    (if c = caller then Some (used_today b caller today) else map_of (be_usage b) c)"
  by (auto simp: bucket_def used_today_def split: option.splits)

lemma used_today_bucket [simp]: "used_today (snd (bucket caller today b)) c today = used_today b c today"
  by (auto simp: used_today_def bucket_def split: option.splits)

lemma used_today_other: "c \<noteq> caller \<Longrightarrow>
    used_today (b\<lparr>be_usage := dset caller u (be_usage b)\<rparr>) c d = used_today b c d"
  by (auto simp: used_today_def bucket_def split: option.splits)

lemma used_today_same: "us_day u = today \<Longrightarrow>
    used_today (b\<lparr>be_usage := dset caller u (be_usage b)\<rparr>) caller today = u"
  by (auto simp: used_today_def bucket_def)

lemma used_today_day [simp]: "us_day (used_today b c today) = today"
  by (auto simp: used_today_def bucket_def new_usage_def split: option.splits)

lemma caps_for_cong: "be_caps b = be_caps b' \<Longrightarrow> caps_for b = caps_for b'"
  by (rule ext) (simp add: caps_for_def split: option.split)

lemma assess_zone: "bz_zone (fst (assess caller tier today b)) =
    (if tier = ''owner'' \<or> no_cap (caps_for b tier) then Green
     else zone_for tier (fst (utilization (used_today b caller today) (caps_for b tier))))"
  by (auto simp: assess_def free_zone_def used_today_def Let_def split: prod.splits)

lemma first_max_in: "ps \<noteq> [] \<Longrightarrow> first_max ps \<in> set ps"
  by (induction ps rule: first_max.induct) auto

lemma first_max_all: "\<forall>p \<in> set ps. fst p \<le> fst (first_max ps)"
  by (induction ps rule: first_max.induct) auto

lemma first_max_ge: "p \<in> set ps \<Longrightarrow> fst p \<le> fst (first_max ps)"
  using first_max_all by blast

lemma first_max_mono:
  assumes "list_all2 (\<lambda>p q. fst p \<le> fst q) ps qs"
  shows "fst (first_max ps) \<le> fst (first_max qs)"
proof (cases "ps = []")
  case False
  then have "first_max ps \<in> set ps" by (rule first_max_in)
  then obtain i where "i < length ps" "first_max ps = ps ! i" by (auto simp: in_set_conv_nth)
  with assms have "qs ! i \<in> set qs" "fst (first_max ps) \<le> fst (qs ! i)"
    by (auto simp: list_all2_conv_all_nth)
  then show ?thesis using first_max_ge by fastforce
qed (use assms in auto)

lemma record_usage_effect:
  assumes "record_usage caller usd tokens requests today b = (Inr (), b')"
  shows "be_caps b' = be_caps b"
    and "us_usd (used_today b caller today) \<le> us_usd (used_today b' caller today)"
    and "us_input_tokens (used_today b caller today) \<le> us_input_tokens (used_today b' caller today)"
    and "us_requests (used_today b caller today) \<le> us_requests (used_today b' caller today)"
    and "c \<noteq> caller \<Longrightarrow> used_today b' c d = used_today b c d"
proof -
  from assms obtain x t r where f: "finite_number usd = Some x" "0 \<le> x" "plain_int tokens = Some t" "0 \<le> t"
      "plain_int requests = Some r" "0 \<le> r"
    by (auto simp: record_usage_def nonneg_int_field_def split: option.splits if_splits)
  note n = f(2,4,6)
  have b': "b' = (snd (bucket caller today b))\<lparr>be_usage := dset caller
        ((used_today b caller today)\<lparr>us_usd := us_usd (used_today b caller today) + x,
          us_input_tokens := us_input_tokens (used_today b caller today) + t,
          us_requests := us_requests (used_today b caller today) + r\<rparr>) (be_usage (snd (bucket caller today b)))\<rparr>"
    using assms f by (simp add: record_usage_def nonneg_int_field_def used_today_def case_prod_beta)
  show "be_caps b' = be_caps b" unfolding b' by simp
  show "us_usd (used_today b caller today) \<le> us_usd (used_today b' caller today)"
    "us_input_tokens (used_today b caller today) \<le> us_input_tokens (used_today b' caller today)"
    "us_requests (used_today b caller today) \<le> us_requests (used_today b' caller today)"
    unfolding b' using n by (simp_all add: used_today_same)
  have "map_of (be_usage b') c = map_of (be_usage b) c" if "c \<noteq> caller"
    unfolding b' using that bucket_lookup [of caller today b c] by simp
  then show "c \<noteq> caller \<Longrightarrow> used_today b' c d = used_today b c d"
    by (simp add: used_today_def bucket_def split: option.splits)
qed

lemma zone_for_mono: "u \<le> v \<Longrightarrow> zone_for tier u \<le> zone_for tier v"
  by (auto simp: zone_for_def less_eq_zone_def)

definition nonneg_caps :: "enforcer \<Rightarrow> bool" where
  "nonneg_caps b \<longleftrightarrow> (\<forall>c \<in> set (dvals (be_caps b)). 0 \<le> cap_requests c \<and> 0 \<le> cap_input_tokens c
     \<and> (case cap_usd c of Fin r \<Rightarrow> 0 \<le> r | PosInf \<Rightarrow> True | _ \<Rightarrow> False))"

lemma caps_init_nonneg:
  "caps_init parse u t r = Inr c \<Longrightarrow> 0 \<le> cap_requests c \<and> 0 \<le> cap_input_tokens c
     \<and> (case cap_usd c of Fin r \<Rightarrow> 0 \<le> r | PosInf \<Rightarrow> True | _ \<Rightarrow> False)"
  by (auto simp: caps_init_def nonneg_int_field_def cap_usd_field_def Let_def
      split: option.splits if_splits pyval.splits sum.splits pyfloat.splits)

lemma utilization_mono:
  assumes "us_usd u \<le> us_usd v" and "us_input_tokens u \<le> us_input_tokens v" and "us_requests u \<le> us_requests v"
  shows "fst (utilization u c) \<le> fst (utilization v c)"
  unfolding utilization_def
proof (rule first_max_mono)
  have "0 < m" if "finite_cap (cap_usd c) = Some m" for m
    using that by (cases "cap_usd c") (auto split: if_splits)
  then show "list_all2 (\<lambda>p q. fst p \<le> fst q) (ratios u c) (ratios v c)"
    unfolding ratios_def using assms
    by (intro list_all2_appendI) (auto simp: divide_right_mono split: option.splits)
qed

section \<open>Properties\<close>

text \<open>
  Hard blocking is exact: with caps that passed their constructor's checks, \<open>check\<close> raises
  \<open>BudgetExceeded\<close> for a caller exactly when the tier is none of owner, admin and user and the
  usage of the day has reached some configured (positive, finite) cap of that tier.
\<close>

lemma budget_check_blocks_exactly:
  assumes "nonneg_caps b" and "map_of (be_caps b) ''guest'' \<noteq> None"
  shows "\<not> is_ok (fst (budget_check caller tier today b)) \<longleftrightarrow>
    tier \<notin> {''owner'', ''admin'', ''user''} \<and>
    (let u = used_today b caller today; c = caps_for b tier in
       (0 < cap_requests c \<and> cap_requests c \<le> us_requests u)
     \<or> (0 < cap_input_tokens c \<and> cap_input_tokens c \<le> us_input_tokens u)
     \<or> (\<exists>m. cap_usd c = Fin m \<and> 0 < m \<and> m \<le> us_usd u))"
proof -
  let ?u = "used_today b caller today" and ?c = "caps_for b tier"
  have mem: "?c \<in> set (dvals (be_caps b))"
    using assms(2) by (force simp: caps_for_def dvals_def split: option.splits dest: map_of_SomeD)
  then have cn: "0 \<le> cap_requests ?c" "0 \<le> cap_input_tokens ?c" "case cap_usd ?c of Fin r \<Rightarrow> 0 \<le> r | PosInf \<Rightarrow> True | _ \<Rightarrow> False"
    using assms(1) by (auto simp: nonneg_caps_def)
  let ?over = "(0 < cap_requests ?c \<and> cap_requests ?c \<le> us_requests ?u)
     \<or> (0 < cap_input_tokens ?c \<and> cap_input_tokens ?c \<le> us_input_tokens ?u)
     \<or> (\<exists>m. cap_usd ?c = Fin m \<and> 0 < m \<and> m \<le> us_usd ?u)"
  have ex: "(\<exists>p \<in> set (ratios ?u ?c). 1 \<le> fst p) \<longleftrightarrow> ?over"
    by (cases "cap_usd ?c") (auto simp: ratios_def le_divide_eq)
  have nc: "no_cap ?c \<longleftrightarrow> ratios ?u ?c = []"
    using cn by (cases "cap_usd ?c") (auto simp: no_cap_def ratios_def)
  have "1 \<le> fst (utilization ?u ?c) \<longleftrightarrow> (\<exists>p \<in> set (ratios ?u ?c). 1 \<le> fst p)" if "ratios ?u ?c \<noteq> []"
    using first_max_in [OF that] first_max_ge by (fastforce simp: utilization_def)
  then have "bz_zone (fst (assess caller tier today b)) = Hard_block \<longleftrightarrow>
      tier \<notin> {''owner'', ''admin'', ''user''} \<and> ?over"
    using nc ex unfolding assess_zone zone_for_def by (cases "ratios ?u ?c = []") auto
  then show ?thesis by (simp add: budget_check_def Let_def case_prod_beta)
qed

lemma budget_check_blocks_exactly_witness:
  "let b = \<lparr>be_caps = [(''guest'', \<lparr>cap_usd = PosInf, cap_input_tokens = 0, cap_requests = 2\<rparr>)],
            be_usage = [(''ann'', \<lparr>us_day = 7, us_usd = 0, us_input_tokens = 9, us_requests = 2\<rparr>)]\<rparr>
   in \<not> is_ok (fst (budget_check ''ann'' ''guest'' 7 b))"
  unfolding Let_def
  by (subst budget_check_blocks_exactly)
    (auto simp: nonneg_caps_def dvals_def caps_for_def used_today_def bucket_def)

text \<open>
  Usage only escalates within a day and stays with its caller: after any accepted
  \<open>record\<close> for a caller, the caller's zone on that day, in every tier, is at least as severe as
  before, and the zone of every other caller on every day is unchanged.
\<close>

lemma record_never_relaxes_zone:
  assumes "record_usage caller usd tokens requests today b = (Inr (), b')"
  shows "bz_zone (fst (assess caller tier today b)) \<le> bz_zone (fst (assess caller tier today b'))
    \<and> (c \<noteq> caller \<longrightarrow> bz_zone (fst (assess c tier d b')) = bz_zone (fst (assess c tier d b)))"
proof -
  note e = record_usage_effect [OF assms]
  have cc: "caps_for b' = caps_for b" using e(1) by (intro caps_for_cong)
  have "bz_zone (fst (assess caller tier today b)) \<le> bz_zone (fst (assess caller tier today b'))"
    unfolding assess_zone cc using zone_for_mono [OF utilization_mono [OF e(2,3,4)]] by auto
  moreover have "bz_zone (fst (assess c tier d b')) = bz_zone (fst (assess c tier d b))" if "c \<noteq> caller"
    unfolding assess_zone cc using that by (simp add: e(5))
  ultimately show ?thesis by blast
qed

lemma record_never_relaxes_zone_witness:
  "let b = \<lparr>be_caps = [(''guest'', \<lparr>cap_usd = PosInf, cap_input_tokens = 0, cap_requests = 10\<rparr>)], be_usage = []\<rparr>;
       b' = snd (record_usage ''ann'' (PInt 0) (PInt 0) (PInt 9) 7 b)
   in bz_zone (fst (assess ''ann'' ''guest'' 7 b)) \<le> bz_zone (fst (assess ''ann'' ''guest'' 7 b'))"
proof -
  let ?b = "\<lparr>be_caps = [(''guest'', \<lparr>cap_usd = PosInf, cap_input_tokens = 0, cap_requests = 10\<rparr>)], be_usage = []\<rparr>"
  have "record_usage ''ann'' (PInt 0) (PInt 0) (PInt 9) 7 ?b = (Inr (), snd (record_usage ''ann'' (PInt 0) (PInt 0) (PInt 9) 7 ?b))"
    by (simp add: record_usage_def nonneg_int_field_def bucket_def)
  then show ?thesis unfolding Let_def by (rule record_never_relaxes_zone [THEN conjunct1])
qed

end
