(* ===== verification/Loop_Guard.thy ===== *)
theory Loop_Guard
  imports Prelude
begin

text \<open>
  \<open>norax/dispatch/loop_guard.py\<close>: detection of repeated and alternating tool calls on a bounded
  history of call fingerprints. The fingerprint of a call, the first 12 hex digits of the
  SHA-256 of its JSON text, is a parameter: the guard only compares fingerprints.
\<close>

record loop_guard =
  lg_repeat_threshold :: nat
  lg_pingpong_min_cycles :: nat
  lg_window :: nat
  lg_history :: "string list"

text \<open>\<open>__post_init__\<close>; the three settings are the values of \<open>int(...)\<close>.\<close>

definition loop_guard_init :: "int \<Rightarrow> int \<Rightarrow> int \<Rightarrow> loop_guard" where
  "loop_guard_init repeat_threshold pingpong_min_cycles window =
     (let r = max 2 repeat_threshold; p = max 2 pingpong_min_cycles; required = max r (p * 2)
      in \<lparr>lg_repeat_threshold = nat r, lg_pingpong_min_cycles = nat p,
          lg_window = nat (max required window), lg_history = []\<rparr>)"

text \<open>\<open>len(set(tail)) == 1\<close> and the alternation test on the tail.\<close>

definition all_same :: "string list \<Rightarrow> bool" where
  "all_same tail = (length (remdups tail) = 1)"

definition alternates :: "string list \<Rightarrow> bool" where
  "alternates tail = (let a = tail ! 0; b = tail ! 1 in
     a \<noteq> b \<and> (\<forall>i \<in> set [0..<length tail]. tail ! i = (if even i then a else b)))"

definition observe :: "(string \<Rightarrow> pyval \<Rightarrow> string) \<Rightarrow> string \<Rightarrow> pyval \<Rightarrow> (loop_guard, unit) op" where
  "observe fingerprint tool args g0 =
     (let g = g0\<lparr>lg_history := lastn (lg_window g0) (lg_history g0 @ [fingerprint tool args])\<rparr>;
          h = lg_history g;
          need = lg_pingpong_min_cycles g * 2
      in if length h \<ge> lg_repeat_threshold g \<and> all_same (lastn (lg_repeat_threshold g) h)
         then (Inl (LoopDetected ''repeat''), g)
         else if length h \<ge> need \<and> alternates (lastn need h)
         then (Inl (LoopDetected ''ping_pong''), g)
         else (Inr (), g))"

definition loop_guard_reset :: "loop_guard \<Rightarrow> loop_guard" where
  "loop_guard_reset g = g\<lparr>lg_history := []\<rparr>"

section \<open>Facts\<close>

definition lg_ok :: "loop_guard \<Rightarrow> bool" where
  "lg_ok g \<longleftrightarrow> 2 \<le> lg_repeat_threshold g \<and> 2 \<le> lg_pingpong_min_cycles g
     \<and> lg_repeat_threshold g \<le> lg_window g \<and> lg_pingpong_min_cycles g * 2 \<le> lg_window g"

lemma loop_guard_init_ok: "lg_ok (loop_guard_init r p w)"
  by (auto simp: lg_ok_def loop_guard_init_def Let_def)

text \<open>The verdict on a call history that is never cut.\<close>

definition repeats :: "nat \<Rightarrow> string list \<Rightarrow> bool" where
  "repeats r xs \<longleftrightarrow> r \<le> length xs \<and> (\<forall>x \<in> set (lastn r xs). x = last xs)"

definition ping_pongs :: "nat \<Rightarrow> string list \<Rightarrow> bool" where
  "ping_pongs k xs \<longleftrightarrow> 2 * k \<le> length xs \<and> alternates (lastn (2 * k) xs)"

definition verdict :: "loop_guard \<Rightarrow> string list \<Rightarrow> unit res" where
  "verdict g xs =
     (if repeats (lg_repeat_threshold g) xs then Inl (LoopDetected ''repeat'')
      else if ping_pongs (lg_pingpong_min_cycles g) xs then Inl (LoopDetected ''ping_pong'')
      else Inr ())"

lemma last_lastn: "0 < n \<Longrightarrow> xs \<noteq> [] \<Longrightarrow> last (lastn n xs) = last xs"
  by (auto simp: lastn_def)

lemma all_same_iff: "xs \<noteq> [] \<Longrightarrow> all_same xs \<longleftrightarrow> (\<forall>x \<in> set xs. x = last xs)"
proof -
  assume "xs \<noteq> []"
  have "all_same xs \<longleftrightarrow> card (set xs) = 1" by (simp add: all_same_def length_remdups_card_conv)
  also have "\<dots> \<longleftrightarrow> (\<exists>y. set xs = {y})" by (simp add: card_1_singleton_iff)
  also have "\<dots> \<longleftrightarrow> (\<forall>x \<in> set xs. x = last xs)" using \<open>xs \<noteq> []\<close> last_in_set by fastforce
  finally show ?thesis .
qed

lemma observe_verdict:
  assumes "lg_ok g" and "lg_history g = lastn (lg_window g) xs"
  shows "fst (observe fp tool args g) = verdict g (xs @ [fp tool args])
    \<and> lg_history (snd (observe fp tool args g)) = lastn (lg_window g) (xs @ [fp tool args])"
proof -
  let ?x = "fp tool args" and ?w = "lg_window g" and ?r = "lg_repeat_threshold g"
  let ?k = "lg_pingpong_min_cycles g" and ?ys = "xs @ [fp tool args]"
  have w: "0 < ?w" "0 < ?r" "?r \<le> ?w" "2 * ?k \<le> ?w" using assms(1) by (auto simp: lg_ok_def)
  have h: "lastn ?w (lg_history g @ [?x]) = lastn ?w ?ys"
    using w unfolding assms(2) by (simp add: lastn_snoc)
  have "?r \<le> length (lastn ?w ?ys) \<and> all_same (lastn ?r (lastn ?w ?ys)) \<longleftrightarrow> repeats ?r ?ys"
  proof (cases "?r \<le> length ?ys")
    case True
    then have "lastn ?r ?ys \<noteq> []" using w by (metis length_0_conv length_lastn min_def not_gr0)
    then show ?thesis using True w by (simp add: lastn_lastn repeats_def all_same_iff last_lastn)
  qed (auto simp: repeats_def)
  moreover have "2 * ?k \<le> length (lastn ?w ?ys) \<and> alternates (lastn (2 * ?k) (lastn ?w ?ys)) \<longleftrightarrow> ping_pongs ?k ?ys"
    using w by (auto simp: lastn_lastn ping_pongs_def)
  ultimately show ?thesis using h by (auto simp: observe_def Let_def verdict_def mult.commute)
qed

lemma observe_frame [simp]:
  "lg_window (snd (observe fp t a g)) = lg_window g"
  "lg_repeat_threshold (snd (observe fp t a g)) = lg_repeat_threshold g"
  "lg_pingpong_min_cycles (snd (observe fp t a g)) = lg_pingpong_min_cycles g"
  by (auto simp: observe_def Let_def)

definition observe_all :: "(string \<Rightarrow> pyval \<Rightarrow> string) \<Rightarrow> loop_guard \<Rightarrow> (string \<times> pyval) list \<Rightarrow> loop_guard" where
  "observe_all fp g calls = foldl (\<lambda>g (t, a). snd (observe fp t a g)) g calls"

lemma observe_all_history:
  assumes "lg_ok g" and "lg_history g = []"
  shows "lg_history (observe_all fp g calls) = lastn (lg_window g) (map (\<lambda>(t, a). fp t a) calls)
    \<and> lg_window (observe_all fp g calls) = lg_window g
    \<and> lg_repeat_threshold (observe_all fp g calls) = lg_repeat_threshold g
    \<and> lg_pingpong_min_cycles (observe_all fp g calls) = lg_pingpong_min_cycles g"
proof (induction calls rule: rev_induct)
  case Nil
  then show ?case using assms by (simp add: observe_all_def lastn_def)
next
  case (snoc c calls)
  obtain t a where c: "c = (t, a)" by force
  let ?g = "observe_all fp g calls"
  have "lg_ok ?g" using assms snoc by (simp add: lg_ok_def)
  moreover have "observe_all fp g (calls @ [c]) = snd (observe fp t a ?g)"
    by (simp add: observe_all_def c)
  ultimately show ?case
    using observe_verdict [of ?g "map (\<lambda>(t, a). fp t a) calls" fp t a] snoc by (simp add: c)
qed

section \<open>Properties\<close>

text \<open>
  The bounded history loses nothing: after any sequence of calls, raised on or not, the
  guard's answer to the next call is the one computed on the complete history of fingerprints.
  It raises \<open>repeat\<close> exactly when the last \<open>repeat_threshold\<close> fingerprints are equal, otherwise
  \<open>ping_pong\<close> exactly when the last \<open>2 * pingpong_min_cycles\<close> alternate between two different
  ones, otherwise it lets the call pass.
\<close>

lemma loop_guard_unbounded_history:
  fixes r p w :: int
  defines "g \<equiv> loop_guard_init r p w"
  shows "fst (observe fp tool args (observe_all fp g calls)) =
    (let xs = map (\<lambda>(t, a). fp t a) calls @ [fp tool args] in
     if repeats (lg_repeat_threshold g) xs then Inl (LoopDetected ''repeat'')
     else if ping_pongs (lg_pingpong_min_cycles g) xs then Inl (LoopDetected ''ping_pong'')
     else Inr ())"
proof -
  let ?xs = "map (\<lambda>(t, a). fp t a) calls" and ?g = "observe_all fp g calls"
  have g: "lg_ok g" "lg_history g = []"
    using loop_guard_init_ok by (auto simp: g_def loop_guard_init_def Let_def)
  note h = observe_all_history [OF g, of fp calls]
  then have "lg_ok ?g" using g(1) by (simp add: lg_ok_def)
  then have "fst (observe fp tool args ?g) = verdict ?g (?xs @ [fp tool args])"
    using observe_verdict h by metis
  then show ?thesis using h by (simp add: verdict_def Let_def)
qed

end
