(* ===== verification/Risk.thy ===== *)
theory Risk
  imports PyDict
begin

text \<open>
  \<open>norax/dispatch/risk.py\<close> and \<open>norax/dispatch/router.py\<close>: the authorization of one exact tool
  call. What lies outside the program is a parameter, collected in \<open>risk_env\<close>: the regular
  expression engine (each pattern as its search function, giving the matched text), the shell
  lexer, \<open>str\<close> of a non-string argument, the file system's path resolution, and the three
  environment variables the gate reads. A resolved path is the list of its components after the
  root.
\<close>

section \<open>Tool names\<close>

definition external_tool_map :: "(string, string) dict" where
  "external_tool_map =
    [(''shell'', ''shell''), (''bash'', ''shell''), (''run_terminal_cmd'', ''shell''),
     (''run_command'', ''shell''), (''execute_command'', ''shell''), (''run'', ''shell''),
     (''terminal'', ''shell''), (''cmd'', ''shell''), (''execute'', ''exec''),
     (''read_file'', ''read''), (''write_file'', ''write''), (''list_directory'', ''list_dir''),
     (''search'', ''search_memory''), (''websearch'', ''web_search'')]"

definition normalize_tool_name :: "string \<Rightarrow> string" where
  "normalize_tool_name name =
     (let key = py_strip name in
      if key = [] then key
      else let lower = map (\<lambda>c. if c = CHR ''-'' then CHR ''_'' else c) (py_lower key) in
        case map_of external_tool_map lower of Some t \<Rightarrow> t | None \<Rightarrow> lower)"

section \<open>Tiers and tables\<close>

datatype risk_tier = T0 | T1 | T2

definition tool_risk :: "(string, risk_tier) dict" where
  "tool_risk =
    [(''read'', T0), (''list_dir'', T0), (''web_fetch'', T0), (''web_search'', T0),
     (''deep_research'', T1), (''search_memory'', T0), (''memory_search'', T0), (''status'', T0),
     (''repo_explore'', T0), (''write'', T1), (''write_chunk'', T1), (''edit'', T1),
     (''append_memory'', T1), (''message_send'', T1), (''schedule_reminder'', T1), (''exec'', T2),
     (''shell'', T2), (''delete'', T2), (''gateway_config_patch'', T2), (''subagent_spawn'', T2),
     (''browser'', T2), (''sandbox_exec'', T2)]"

definition tier_allow :: "(string, risk_tier set) dict" where
  "tier_allow = [(''guest'', {T0}), (''user'', {T0, T1}), (''admin'', {T0, T1}), (''owner'', {T0, T1, T2})]"

definition shell_tools :: "string set" where
  "shell_tools = {''exec'', ''shell'', ''remote_exec'', ''sandbox_exec''}"

definition local_path_fields :: "(string, string list) dict" where
  "local_path_fields =
    [(''read'', [''path'']), (''list_dir'', [''path'']), (''repo_explore'', [''root'']),
     (''deep_research'', [''out_dir'']), (''write'', [''path'']), (''write_chunk'', [''path'']),
     (''edit'', [''path'']), (''append_memory'', [''path'']), (''message_send'', [''files''])]"

definition sensitive_path_parts :: "string set" where
  "sensitive_path_parts = {''.git'', ''.gnupg'', ''.ssh'', ''secrets''}"

definition sensitive_filenames :: "string set" where
  "sensitive_filenames = {''credentials'', ''credentials.json'', ''id_dsa'', ''id_ecdsa'', ''id_ed25519'',
     ''id_rsa'', ''known_hosts''}"

definition sensitive_suffixes :: "string list" where
  "sensitive_suffixes = [''.key'', ''.p12'', ''.pfx'', ''.pem'']"

datatype risk_reason =
    Reason_ok
  | Dangerous_pattern string
  | Tier_denied string risk_tier string
  | No_root_configured
  | Invalid_path string
  | Outside_roots string
  | Sensitive_path string

record risk_decision =
  rd_allowed :: bool
  rd_tier :: risk_tier
  rd_reason :: risk_reason
  rd_hit :: "string option"

record risk_env =
  re_destructive :: "(string \<Rightarrow> string option) list" \<comment> \<open>the destructive command patterns\<close>
  re_dangerous :: "(string \<Rightarrow> string option) list" \<comment> \<open>the dangerous patterns\<close>
  re_shlex :: "string \<Rightarrow> string list option" \<comment> \<open>None when the lexer raises\<close>
  re_str :: "pyval \<Rightarrow> string" \<comment> \<open>str of a value that is not a string\<close>
  re_resolve :: "string \<Rightarrow> string list option" \<comment> \<open>None when resolving raises\<close>
  re_workspace :: string
  re_extra_roots :: "string list" \<comment> \<open>the extra roots, split at the path separator\<close>
  re_cwd :: string
  re_allow_sensitive :: string

section \<open>Command checks\<close>

definition str_of :: "risk_env \<Rightarrow> pyval \<Rightarrow> string" where
  "str_of env v = (case v of PStr s \<Rightarrow> s | _ \<Rightarrow> re_str env v)"

fun first_hit :: "(string \<Rightarrow> string option) list \<Rightarrow> string \<Rightarrow> string option" where
  "first_hit [] text = None"
| "first_hit (p # ps) text = (case p text of Some m \<Rightarrow> Some m | None \<Rightarrow> first_hit ps text)"

definition dangerous_command_hit :: "risk_env \<Rightarrow> string \<Rightarrow> string option" where
  "dangerous_command_hit env text = map_option (\<lambda>m. take 240 (py_strip m)) (first_hit (re_destructive env) text)"

definition operator_token :: "string \<Rightarrow> bool" where
  "operator_token tok \<longleftrightarrow> tok \<noteq> [] \<and> list_all (\<lambda>c. c \<in> set '';&|<>'') tok"

definition is_inert_literal_inspection :: "risk_env \<Rightarrow> string \<Rightarrow> bool" where
  "is_inert_literal_inspection env text =
     (if is_infix ''$('' text \<or> is_infix [CHR 0x60] text \<or> is_infix ''<('' text \<or> is_infix ''>('' text then False
      else case re_shlex env text of
        None \<Rightarrow> False
      | Some [] \<Rightarrow> False
      | Some (t # ts) \<Rightarrow>
          if list_ex operator_token (t # ts) then False
          else let executable = py_lower (path_name t);
                   executable' = (if executable = ''command'' \<and> ts \<noteq> [] then py_lower (path_name (hd ts)) else executable)
               in executable' \<in> {''echo'', ''grep'', ''printf'', ''rg''})"

section \<open>Path checks\<close>

fun add_root :: "risk_env \<Rightarrow> string list list \<Rightarrow> string list \<Rightarrow> string list list" where
  "add_root env roots [] = roots"
| "add_root env roots (v # vs) =
     (case re_resolve env v of
        None \<Rightarrow> add_root env roots vs
      | Some r \<Rightarrow> add_root env (if r \<in> set roots then roots else roots @ [r]) vs)"

definition non_owner_roots :: "risk_env \<Rightarrow> string list list" where
  "non_owner_roots env =
     add_root env [] ((if re_workspace env \<noteq> [] then re_workspace env else re_cwd env)
                      # filter (\<lambda>v. py_strip v \<noteq> []) (re_extra_roots env))"

definition ends_with :: "string \<Rightarrow> string \<Rightarrow> bool" where
  "ends_with s suf \<longleftrightarrow> length suf \<le> length s \<and> drop (length s - length suf) s = suf"

definition starts_with :: "string \<Rightarrow> string \<Rightarrow> bool" where
  "starts_with s pre \<longleftrightarrow> take (length pre) s = pre"

definition is_sensitive_non_owner_path :: "risk_env \<Rightarrow> string list \<Rightarrow> bool" where
  "is_sensitive_non_owner_path env path =
     (if py_lower (py_strip (re_allow_sensitive env)) \<in> {''1'', ''true'', ''yes'', ''on''} then False
      else let parts = map py_lower path; name = (if path = [] then [] else py_lower (last path)) in
        if \<exists>p \<in> set parts. p \<in> sensitive_path_parts then True
        else if name = ''.env'' \<or> (starts_with name ''.env.''
               \<and> \<not> list_ex (ends_with name) [''.example'', ''.sample'', ''.template'']) then True
        else name \<in> sensitive_filenames \<or> list_ex (ends_with name) sensitive_suffixes)"

definition field_paths :: "string \<Rightarrow> pyval \<Rightarrow> string \<Rightarrow> string list" where
  "field_paths tool args field =
     (let v0 = pget args field;
          v = (if v0 = PNone \<and> (tool, field) \<in> {(''list_dir'', ''path''), (''repo_explore'', ''root'')}
               then PStr ''.'' else v0)
      in case v of
           PStr s \<Rightarrow> if py_strip s \<noteq> [] then [s] else []
         | PList xs \<Rightarrow> if field = ''files''
             then concat (map (\<lambda>x. case x of PStr s \<Rightarrow> if py_strip s \<noteq> [] then [s] else [] | _ \<Rightarrow> []) xs) else []
         | _ \<Rightarrow> [])"

definition local_paths :: "string \<Rightarrow> pyval \<Rightarrow> string list" where
  "local_paths tool args =
     concat (map (field_paths tool args)
       (case map_of local_path_fields tool of None \<Rightarrow> [] | Some fs \<Rightarrow> fs))"

definition under_root :: "string list \<Rightarrow> string list \<Rightarrow> bool" where
  "under_root rt path \<longleftrightarrow> take (length rt) path = rt"

fun first_path_denial :: "risk_env \<Rightarrow> string list list \<Rightarrow> string list \<Rightarrow> risk_reason option" where
  "first_path_denial env roots [] = None"
| "first_path_denial env roots (raw # raws) =
     (case re_resolve env raw of
        None \<Rightarrow> Some (Invalid_path raw)
      | Some p \<Rightarrow>
          if \<not> list_ex (\<lambda>r. under_root r p) roots then Some (Outside_roots raw)
          else if is_sensitive_non_owner_path env p then Some (Sensitive_path raw)
          else first_path_denial env roots raws)"

definition non_owner_path_denial :: "risk_env \<Rightarrow> string \<Rightarrow> pyval \<Rightarrow> risk_reason option" where
  "non_owner_path_denial env tool args =
     (let roots = non_owner_roots env in
      if roots = [] then Some No_root_configured
      else first_path_denial env roots (local_paths tool args))"

section \<open>The gate\<close>

definition classify :: "string \<Rightarrow> risk_tier" where
  "classify tool = (case map_of tool_risk tool of Some t \<Rightarrow> t | None \<Rightarrow> T2)"

definition command_text :: "risk_env \<Rightarrow> pyval \<Rightarrow> string" where
  "command_text env args = str_of env (por (por (pget args ''command'') (pget args ''cmd'')) (PStr []))"

definition allowed_tiers :: "string \<Rightarrow> risk_tier set" where
  "allowed_tiers sender = (case map_of tier_allow sender of Some a \<Rightarrow> a | None \<Rightarrow> {T0})"

definition deny :: "string \<Rightarrow> risk_reason \<Rightarrow> string option \<Rightarrow> risk_decision" where
  "deny tool r h = \<lparr>rd_allowed = False, rd_tier = classify tool, rd_reason = r, rd_hit = h\<rparr>"

definition allow :: "string \<Rightarrow> risk_decision" where
  "allow tool = \<lparr>rd_allowed = True, rd_tier = classify tool, rd_reason = Reason_ok, rd_hit = None\<rparr>"

definition risk_check :: "risk_env \<Rightarrow> string \<Rightarrow> pyval \<Rightarrow> string \<Rightarrow> risk_decision" where
  "risk_check env tool args sender =
     (let text = command_text env args;
          hit = (if tool \<in> shell_tools then dangerous_command_hit env text else None);
          danger = (if tool \<in> shell_tools \<and> \<not> is_inert_literal_inspection env text
                    then first_hit (re_dangerous env) text else None)
      in if hit \<noteq> None \<and> hit \<noteq> Some [] then deny tool (Dangerous_pattern (the hit)) hit
         else if danger \<noteq> None then deny tool (Dangerous_pattern (the danger)) danger
         else if classify tool \<notin> allowed_tiers sender then deny tool (Tier_denied sender (classify tool) tool) None
         else if sender \<noteq> ''owner'' then
           (case non_owner_path_denial env tool args of Some r \<Rightarrow> deny tool r None | None \<Rightarrow> allow tool)
         else allow tool)"

section \<open>Facts\<close>

lemma deny_allow_simps [simp]:
  "\<not> rd_allowed (deny t r h)" "rd_allowed (allow t)" "rd_tier (deny t r h) = classify t" "rd_tier (allow t) = classify t"
  by (simp_all add: deny_def allow_def)

lemma risk_check_tier [simp]: "rd_tier (risk_check env tool args sender) = classify tool"
  by (auto simp: risk_check_def Let_def split: option.splits)

lemma first_hit_None: "first_hit ps text = None \<longleftrightarrow> (\<forall>p \<in> set ps. p text = None)"
  by (induction ps) (auto split: option.splits)

lemma first_hit_Some: "first_hit ps text = Some m \<Longrightarrow> \<exists>p \<in> set ps. p text = Some m"
  by (induction ps) (auto split: option.splits)

lemma first_path_denial_None:
  "first_path_denial env roots raws = None \<longleftrightarrow>
    (\<forall>raw \<in> set raws. \<exists>p. re_resolve env raw = Some p \<and> (\<exists>r \<in> set roots. under_root r p)
       \<and> \<not> is_sensitive_non_owner_path env p)"
  by (induction raws) (auto simp: list_ex_iff split: option.splits)

lemma risk_check_allowed:
  "rd_allowed (risk_check env tool args sender) \<longleftrightarrow>
    (tool \<in> shell_tools \<longrightarrow> dangerous_command_hit env (command_text env args) \<in> {None, Some []})
    \<and> (tool \<in> shell_tools \<and> \<not> is_inert_literal_inspection env (command_text env args)
         \<longrightarrow> first_hit (re_dangerous env) (command_text env args) = None)
    \<and> classify tool \<in> allowed_tiers sender
    \<and> (sender \<noteq> ''owner'' \<longrightarrow> non_owner_path_denial env tool args = None)"
  by (auto simp: risk_check_def Let_def split: option.splits if_splits)

lemma allowed_tiers_owner: "classify tool \<in> allowed_tiers s \<Longrightarrow> classify tool \<in> allowed_tiers ''owner''"
  by (cases "classify tool") (auto simp: allowed_tiers_def tier_allow_def)

lemma allowed_tiers_T2: "T2 \<in> allowed_tiers s \<longleftrightarrow> s = ''owner''"
  by (auto simp: allowed_tiers_def tier_allow_def split: if_splits)

section \<open>Properties\<close>

text \<open>
  C35 What the gate lets through. When a call is allowed, its tier is one the sender may use. A shell command
  that is not an inert inspection matches none of the dangerous patterns. Of the destructive patterns, which
  the code tries in their order until one matches, none matches a shell command at all, or the first one that does
  returns a fragment that is blank after stripping, and then the later ones are not tried; so none matches
  when no pattern ever returns a blank fragment. For a sender other than the owner every local path the call names
  resolves below a configured root to a path that is not sensitive.
\<close>

theorem risk_check_sound:
  assumes "rd_allowed (risk_check env tool args sender)"
  shows "classify tool \<in> allowed_tiers sender
    \<and> (tool \<in> shell_tools \<and> \<not> is_inert_literal_inspection env (command_text env args)
         \<longrightarrow> (\<forall>p \<in> set (re_dangerous env). p (command_text env args) = None))
    \<and> (tool \<in> shell_tools \<longrightarrow>
         (\<forall>m. first_hit (re_destructive env) (command_text env args) = Some m \<longrightarrow> py_strip m = []))
    \<and> (tool \<in> shell_tools
         \<and> (\<forall>p \<in> set (re_destructive env). \<forall>m. p (command_text env args) = Some m \<longrightarrow> py_strip m \<noteq> [])
         \<longrightarrow> (\<forall>p \<in> set (re_destructive env). p (command_text env args) = None))
    \<and> (sender \<noteq> ''owner'' \<longrightarrow> (\<forall>raw \<in> set (local_paths tool args). \<exists>path. re_resolve env raw = Some path
         \<and> (\<exists>rt \<in> set (non_owner_roots env). under_root rt path)
         \<and> \<not> is_sensitive_non_owner_path env path))"
proof -
  from assms have a: "tool \<in> shell_tools \<Longrightarrow> dangerous_command_hit env (command_text env args) \<in> {None, Some []}"
    and b: "tool \<in> shell_tools \<Longrightarrow> \<not> is_inert_literal_inspection env (command_text env args)
         \<Longrightarrow> first_hit (re_dangerous env) (command_text env args) = None"
    and c: "classify tool \<in> allowed_tiers sender"
    and d: "sender \<noteq> ''owner'' \<Longrightarrow> non_owner_path_denial env tool args = None"
    unfolding risk_check_allowed by blast+
  have "py_strip m = []" if "tool \<in> shell_tools" "first_hit (re_destructive env) (command_text env args) = Some m" for m
    using a [OF that(1)] that(2) by (auto simp: dangerous_command_hit_def)
  moreover from this have "\<forall>p \<in> set (re_destructive env). p (command_text env args) = None"
    if "tool \<in> shell_tools"
      "\<forall>p \<in> set (re_destructive env). \<forall>m. p (command_text env args) = Some m \<longrightarrow> py_strip m \<noteq> []"
    using that first_hit_Some [of "re_destructive env" "command_text env args"]
    by (metis first_hit_None not_None_eq)
  moreover have "\<forall>raw \<in> set (local_paths tool args). \<exists>path. re_resolve env raw = Some path
         \<and> (\<exists>rt \<in> set (non_owner_roots env). under_root rt path)
         \<and> \<not> is_sensitive_non_owner_path env path" if "sender \<noteq> ''owner''"
    using d [OF that] by (auto simp: non_owner_path_denial_def Let_def first_path_denial_None split: if_splits)
  ultimately show ?thesis using b c by (auto simp: first_hit_None)
qed

definition demo_env :: risk_env where
  "demo_env = \<lparr>re_destructive = [], re_dangerous = [], re_shlex = (\<lambda>s. Some [s]), re_str = (\<lambda>_. []),
     re_resolve = (\<lambda>s. Some (filter (\<lambda>p. p \<noteq> []) (split_on (CHR ''/'') [] s))),
     re_workspace = ''/ws'', re_extra_roots = [], re_cwd = ''/'', re_allow_sensitive = []\<rparr>"

theorem risk_check_sound_witness:
  "\<exists>path. re_resolve demo_env ''/ws/a.txt'' = Some path
     \<and> (\<exists>rt \<in> set (non_owner_roots demo_env). under_root rt path)
     \<and> \<not> is_sensitive_non_owner_path demo_env path"
proof -
  let ?args = "PDict [(''path'', PStr ''/ws/a.txt'')]"
  have "rd_allowed (risk_check demo_env ''read'' ?args ''guest'')" by code_simp
  from risk_check_sound [OF this]
  have "\<forall>raw \<in> set (local_paths ''read'' ?args). \<exists>path. re_resolve demo_env raw = Some path
     \<and> (\<exists>rt \<in> set (non_owner_roots demo_env). under_root rt path)
     \<and> \<not> is_sensitive_non_owner_path demo_env path" by simp
  moreover have "''/ws/a.txt'' \<in> set (local_paths ''read'' ?args)" by code_simp
  ultimately show ?thesis by blast
qed

text \<open>
  Authority is monotone in the sender and closed by default: whatever any sender may do the
  owner may do with the same arguments, and a tool outside the risk table is refused to
  everybody but the owner, as is every tool of tier T2.
\<close>

lemma risk_owner_dominates:
  "(rd_allowed (risk_check env tool args sender) \<longrightarrow> rd_allowed (risk_check env tool args ''owner''))
   \<and> (map_of tool_risk tool \<in> {None, Some T2} \<longrightarrow> sender \<noteq> ''owner''
        \<longrightarrow> \<not> rd_allowed (risk_check env tool args sender))"
proof -
  have "rd_allowed (risk_check env tool args sender) \<longrightarrow> rd_allowed (risk_check env tool args ''owner'')"
    unfolding risk_check_allowed using allowed_tiers_owner by blast
  moreover have "classify tool = T2" if "map_of tool_risk tool \<in> {None, Some T2}"
    using that by (auto simp: classify_def)
  ultimately show ?thesis unfolding risk_check_allowed using allowed_tiers_T2 by auto
qed

lemma risk_owner_dominates_witness:
  "\<not> rd_allowed (risk_check demo_env ''new_tool'' (PDict []) ''admin'')"
  using risk_owner_dominates [of demo_env "''new_tool''" "PDict []" "''admin''"]
  by (simp add: tool_risk_def)

end
