(* ===== verification/Tool_Args.thy ===== *)
theory Tool_Args
  imports PyDict
begin

text \<open>
  \<open>norax/dispatch/input_coercion.py\<close> and the argument repair of \<open>norax/dispatch/tools.py\<close>
  (\<open>normalize_tool_args\<close> and the checks of an \<open>exec\<close> command), which run before the
  authorization of a call. The reading of a decimal literal by \<open>float\<close> is the parameter
  \<open>parse\<close>; \<open>int\<close> of a string and \<open>shlex.join\<close> are written out.
\<close>

section \<open>Coercions\<close>

text \<open>Digits with single underscores between them, as \<open>int\<close> accepts them.\<close>

fun digits_value :: "int \<Rightarrow> string \<Rightarrow> int option" where
  "digits_value acc [] = Some acc"
| "digits_value acc (c # s) =
     (if is_digit c then digits_value (10 * acc + int (of_char c) - 48) s
      else if c = CHR ''_'' then
        (case s of d # s' \<Rightarrow> if is_digit d then digits_value (10 * acc + int (of_char d) - 48) s' else None
         | [] \<Rightarrow> None)
      else None)"

definition unsigned_int :: "string \<Rightarrow> int option" where
  "unsigned_int s =
     (if length (filter is_digit s) > 4300 then None
      else case s of c # s' \<Rightarrow> if is_digit c then digits_value 0 s else None | [] \<Rightarrow> None)"

definition py_int :: "string \<Rightarrow> int option" where
  "py_int s = (case s of
       [] \<Rightarrow> None
     | c # s' \<Rightarrow> if c = CHR ''-'' then map_option uminus (unsigned_int s')
                else if c = CHR ''+'' then unsigned_int s' else unsigned_int s)"

definition integral_float :: "pyfloat \<Rightarrow> int option" where
  "integral_float f = (case f of Fin r \<Rightarrow> if of_int \<lfloor>r\<rfloor> = r then Some \<lfloor>r\<rfloor> else None | _ \<Rightarrow> None)"

definition coerce_int :: "(string \<Rightarrow> pyfloat option) \<Rightarrow> pyval \<Rightarrow> int option \<Rightarrow> int option" where
  "coerce_int parse v dflt =
     (case v of
        PInt i \<Rightarrow> Some i
      | PFloat f \<Rightarrow> (case integral_float f of Some i \<Rightarrow> Some i | None \<Rightarrow> dflt)
      | PStr s \<Rightarrow>
          let t = py_strip s in
          if t = [] then dflt
          else (case py_int t of
              Some i \<Rightarrow> Some i
            | None \<Rightarrow> (case parse t of
                None \<Rightarrow> dflt
              | Some f \<Rightarrow> (case integral_float f of Some i \<Rightarrow> Some i | None \<Rightarrow> dflt)))
      | _ \<Rightarrow> dflt)"

definition coerce_float :: "(string \<Rightarrow> pyfloat option) \<Rightarrow> pyval \<Rightarrow> real option \<Rightarrow> real option res" where
  "coerce_float parse v dflt =
     (case v of
        PInt i \<Rightarrow> if \<bar>i\<bar> < int_float_limit then Inr (Some (of_int i))
                  else Inl (OtherError ''OverflowError'' ''int too large to convert to float'')
      | PFloat f \<Rightarrow> Inr (case f of Fin r \<Rightarrow> Some r | _ \<Rightarrow> dflt)
      | PStr s \<Rightarrow>
          let t = py_strip s in
          Inr (if t = [] then dflt
               else case parse t of Some (Fin r) \<Rightarrow> Some r | _ \<Rightarrow> dflt)
      | _ \<Rightarrow> Inr dflt)"

section \<open>Quoting a command\<close>

definition shell_safe :: "char \<Rightarrow> bool" where
  "shell_safe c = (let n = (of_char c :: nat) in
     is_digit c \<or> (65 \<le> n \<and> n \<le> 90) \<or> (97 \<le> n \<and> n \<le> 122) \<or> c \<in> set ''_@%+=:,./-'')"

definition quote_char :: "char \<Rightarrow> string" where
  "quote_char c = (if c = CHR 0x27 then [CHR 0x27, CHR 0x22, CHR 0x27, CHR 0x22, CHR 0x27] else [c])"

definition shlex_quote :: "string \<Rightarrow> string" where
  "shlex_quote s =
     (if s = [] then [CHR 0x27, CHR 0x27]
      else if list_all shell_safe s then s
      else CHR 0x27 # concat (map quote_char s) @ [CHR 0x27])"

definition shlex_join :: "string list \<Rightarrow> string" where
  "shlex_join ws = join_words '' '' (map shlex_quote ws)"

section \<open>Argument repair\<close>

type_synonym args = "(string, pyval) dict"

definition dget :: "args \<Rightarrow> string \<Rightarrow> pyval" where
  "dget d k = (case map_of d k of Some v \<Rightarrow> v | None \<Rightarrow> PNone)"

definition visible_str :: "pyval \<Rightarrow> bool" where
  "visible_str v = (case v of PStr s \<Rightarrow> py_strip s \<noteq> [] | _ \<Rightarrow> False)"

definition nonempty_str :: "pyval \<Rightarrow> bool" where
  "nonempty_str v = (case v of PStr s \<Rightarrow> s \<noteq> [] | _ \<Rightarrow> False)"

definition fill_node_id :: "args \<Rightarrow> args" where
  "fill_node_id out =
     (if truthy (dget out ''node_id'') then out
      else case List.find (\<lambda>alt. visible_str (dget out alt)) [''node'', ''nodeId'', ''node_name'', ''target'', ''host''] of
          None \<Rightarrow> out
        | Some alt \<Rightarrow> dset ''node_id'' (dget out alt) (ddel alt out))"

definition fill_path :: "args \<Rightarrow> args" where
  "fill_path out =
     (let path = dget out ''path'' in
      if \<not> truthy path \<or> (\<exists>s \<in> set (case path of PStr s \<Rightarrow> [s] | _ \<Rightarrow> []). py_strip s = [])
      then dset ''path'' (PStr ''.'') out else out)"

definition has_key :: "string \<Rightarrow> args \<Rightarrow> bool" where
  "has_key k d \<longleftrightarrow> map_of d k \<noteq> None"

text \<open>\<open>out[k] = _coerce_int(out.get(k))\<close>, or the removal of the key when that fails.\<close>

definition coerce_or_drop :: "(string \<Rightarrow> pyfloat option) \<Rightarrow> string \<Rightarrow> args \<Rightarrow> args" where
  "coerce_or_drop parse k out =
     (if has_key k out then
        (case coerce_int parse (dget out k) None of Some i \<Rightarrow> dset k (PInt i) out | None \<Rightarrow> ddel k out)
      else out)"

definition coerce_or_keep :: "(string \<Rightarrow> pyfloat option) \<Rightarrow> string \<Rightarrow> args \<Rightarrow> args" where
  "coerce_or_keep parse k out =
     (if has_key k out then
        (case coerce_int parse (dget out k) None of Some i \<Rightarrow> dset k (PInt i) out | None \<Rightarrow> out)
      else out)"

definition fill_range :: "(string \<Rightarrow> pyfloat option) \<Rightarrow> args \<Rightarrow> args" where
  "fill_range parse out =
     coerce_or_drop parse ''limit''
       (if has_key ''offset'' out
        then dset ''offset'' (PInt (case coerce_int parse (dget out ''offset'') (Some 0) of Some i \<Rightarrow> i | None \<Rightarrow> 0)) out
        else out)"

definition command_aliases :: "string list" where
  "command_aliases = [''cmd'', ''shell'', ''script'', ''bash_command'', ''shell_command'', ''command_line'',
     ''terminal_command'', ''bash'', ''value'']"

definition command_from_alias :: "args \<Rightarrow> args" where
  "command_from_alias out =
     (case List.find (\<lambda>alt. nonempty_str (dget out alt)) command_aliases of
        None \<Rightarrow> out
      | Some alt \<Rightarrow> dset ''command'' (dget out alt) (ddel alt out))"

fun command_from_nest :: "string list \<Rightarrow> args \<Rightarrow> args" where
  "command_from_nest [] out = out"
| "command_from_nest (k # ks) out =
     (case dget out k of
        PDict nested \<Rightarrow>
          if truthy (dget nested ''command'') then
            ddel k (foldl (\<lambda>d (k', v). dsetdefault k' v d)
                      (dset ''command'' (dget nested ''command'') out) (ddel ''command'' nested))
          else command_from_nest ks out
      | PStr s \<Rightarrow> if py_strip s \<noteq> [] then ddel k (dset ''command'' (PStr s) out) else command_from_nest ks out
      | _ \<Rightarrow> command_from_nest ks out)"

definition fill_command :: "args \<Rightarrow> args" where
  "fill_command out =
     (if truthy (dget out ''command'') then out
      else let out1 = command_from_alias out in
        if truthy (dget out1 ''command'') then out1
        else command_from_nest [''parameters'', ''input'', ''args''] out1)"

fun all_strings :: "pyval list \<Rightarrow> string list option" where
  "all_strings [] = Some []"
| "all_strings (v # vs) =
     (case v of PStr s \<Rightarrow> map_option (\<lambda>ss. s # ss) (all_strings vs) | _ \<Rightarrow> None)"

definition clean_command :: "args \<Rightarrow> args" where
  "clean_command out =
     (case dget out ''command'' of
        PList parts \<Rightarrow>
          (case all_strings parts of
             Some (p # ps) \<Rightarrow> dset ''command'' (PStr (shlex_join (p # ps))) out
           | _ \<Rightarrow> ddel ''command'' out)
      | PNone \<Rightarrow> out
      | PStr _ \<Rightarrow> out
      | _ \<Rightarrow> ddel ''command'' out)"

definition clean_timeout :: "(string \<Rightarrow> pyfloat option) \<Rightarrow> args \<Rightarrow> args res" where
  "clean_timeout parse out =
     (if has_key ''timeout'' out then
        rbind (coerce_float parse (dget out ''timeout'') None)
          (\<lambda>t. Inr (case t of Some r \<Rightarrow> dset ''timeout'' (PFloat (Fin r)) out | None \<Rightarrow> ddel ''timeout'' out))
      else Inr out)"

definition normalize_tool_args :: "(string \<Rightarrow> pyfloat option) \<Rightarrow> string \<Rightarrow> args \<Rightarrow> args res" where
  "normalize_tool_args parse tool a =
     (let a1 = (if tool \<in> {''remote_exec'', ''remote_read'', ''remote_list'', ''remote_write''} then fill_node_id a else a);
          a2 = (if tool \<in> {''list_dir'', ''remote_list''} then fill_path a1 else a1);
          a3 = (if tool \<in> {''read'', ''remote_read''} then fill_range parse a2 else a2)
      in rbind (if tool \<in> {''exec'', ''remote_exec'', ''shell''}
                then clean_timeout parse (clean_command (fill_command a3)) else Inr a3)
           (\<lambda>a4. Inr (let a5 = (if tool = ''web_fetch'' then coerce_or_keep parse ''max_chars'' a4 else a4);
                          a6 = (if tool = ''web_search'' then coerce_or_keep parse ''count'' a5 else a5)
                      in if tool = ''web_search'' then coerce_or_drop parse ''recency_days'' a6 else a6)))"

section \<open>Usable commands\<close>

definition placeholder_commands :: "string list" where
  "placeholder_commands = [''...'', ''..'', ''.'', ''your command'', ''your shell command here'', ''your shell command'',
     ''<command>'', ''<your command>'', ''your bash command'', ''actual command here'', ''command here'',
     ''shell command here'']"

definition exec_command_is_placeholder :: "string \<Rightarrow> bool" where
  "exec_command_is_placeholder command =
     (let n = py_lower (py_strip command) in
      if n = [] then True
      else if n \<in> set placeholder_commands then True
      else take 5 n = ''your '' \<and> is_infix ''command'' n)"

definition exec_args_valid :: "(string \<Rightarrow> pyfloat option) \<Rightarrow> args \<Rightarrow> bool res" where
  "exec_args_valid parse a =
     rbind (normalize_tool_args parse ''exec'' a)
       (\<lambda>n. Inr (case dget n ''command'' of
          PStr s \<Rightarrow> if py_strip s = [] then False else \<not> exec_command_is_placeholder s
        | _ \<Rightarrow> False))"

section \<open>Facts\<close>

lemma dget_dset [simp]: "dget (dset k v d) k' = (if k = k' then v else dget d k')"
  by (auto simp: dget_def)

lemma dget_ddel [simp]: "dget (ddel k d) k' = (if k = k' then PNone else dget d k')"
  by (auto simp: dget_def)

lemma has_key_dset [simp]: "has_key k (dset k' v d) \<longleftrightarrow> k = k' \<or> has_key k d"
  by (auto simp: has_key_def)

lemma has_key_ddel [simp]: "has_key k (ddel k' d) \<longleftrightarrow> k \<noteq> k' \<and> has_key k d"
  by (auto simp: has_key_def)

definition str_or_none :: "pyval \<Rightarrow> bool" where
  "str_or_none v \<longleftrightarrow> v = PNone \<or> (\<exists>s. v = PStr s)"

lemma clean_command_str: "str_or_none (dget (clean_command out) ''command'')"
  by (auto simp: clean_command_def str_or_none_def split: pyval.splits option.splits list.splits)

lemma clean_timeout_dget:
  "clean_timeout parse out = Inr out' \<Longrightarrow> k \<noteq> ''timeout'' \<Longrightarrow> dget out' k = dget out k"
  by (auto simp: clean_timeout_def split: if_splits option.splits)

lemma clean_timeout_finite:
  "clean_timeout parse out = Inr out' \<Longrightarrow> has_key ''timeout'' out' \<Longrightarrow> \<exists>r. dget out' ''timeout'' = PFloat (Fin r)"
  by (auto simp: clean_timeout_def split: if_splits option.splits)

lemma coerce_or_drop_int: "has_key k (coerce_or_drop parse k out) \<Longrightarrow> \<exists>i. dget (coerce_or_drop parse k out) k = PInt i"
  by (auto simp: coerce_or_drop_def split: if_splits option.splits)

lemma coerce_or_drop_other: "k \<noteq> k' \<Longrightarrow> dget (coerce_or_drop parse k out) k' = dget out k'"
  "k \<noteq> k' \<Longrightarrow> has_key k' (coerce_or_drop parse k out) = has_key k' out"
  by (auto simp: coerce_or_drop_def split: option.split)

lemma normalize_exec:
  assumes "tool \<in> {''exec'', ''remote_exec'', ''shell''}" "normalize_tool_args parse tool a = Inr out"
  shows "\<exists>a'. clean_timeout parse (clean_command (fill_command a')) = Inr out"
  using assms by (auto simp: normalize_tool_args_def Let_def)

lemma normalize_read:
  assumes "tool \<in> {''read'', ''remote_read''}" "normalize_tool_args parse tool a = Inr out"
  shows "\<exists>a'. out = fill_range parse a'"
  using assms by (auto simp: normalize_tool_args_def Let_def)

text \<open>The command is \<open>None\<close> only where the model itself passed \<open>None\<close>.\<close>

abbreviation none_at :: "string \<Rightarrow> args \<Rightarrow> bool" where
  "none_at k d \<equiv> map_of d k = Some PNone"

lemma map_of_dsetdefault: "k \<noteq> k' \<Longrightarrow> map_of (dsetdefault k' v d) k = map_of d k"
  by (auto simp: dsetdefault_def map_add_def split: option.split)

lemma none_at_setdefault: "k \<notin> fst ` set kvs \<Longrightarrow>
  map_of (foldl (\<lambda>d (k', v). dsetdefault k' v d) d kvs) k = map_of d k"
  by (induction kvs arbitrary: d) (auto simp: map_of_dsetdefault)

lemma none_at_moved:
  assumes "visible_str (dget out alt) \<or> nonempty_str (dget out alt)" "none_at ''command'' (dset k (dget out alt) (ddel alt out))"
  shows "none_at ''command'' out"
  using assms by (cases "dget out alt") (auto simp: visible_str_def nonempty_str_def split: if_splits)

lemma unusable_none [simp]: "\<not> visible_str PNone" "\<not> nonempty_str PNone"
  by (simp_all add: visible_str_def nonempty_str_def)

lemma none_at_alias: "none_at ''command'' (command_from_alias out) \<Longrightarrow> none_at ''command'' out"
  by (cases "List.find (\<lambda>alt. nonempty_str (dget out alt)) command_aliases")
     (auto simp: command_from_alias_def find_Some_iff dest: none_at_moved [rotated])

lemma none_at_nested:
  assumes "truthy v" "none_at ''command'' (ddel k (foldl (\<lambda>d (k', v). dsetdefault k' v d)
      (dset ''command'' v out) (ddel ''command'' nested)))"
  shows "none_at ''command'' out"
proof -
  have "''command'' \<notin> fst ` set (ddel ''command'' nested)" by auto
  from none_at_setdefault [OF this] show ?thesis using assms by (auto split: if_splits)
qed

lemma none_at_nest: "none_at ''command'' (command_from_nest ks out) \<Longrightarrow> none_at ''command'' out"
proof (induction ks out rule: command_from_nest.induct)
  case (2 k ks out)
  show ?case
  proof (cases "dget out k")
    case (PDict nested)
    show ?thesis
    proof (cases "truthy (dget nested ''command'')")
      case True
      with "2.prems" PDict have "none_at ''command'' (ddel k (foldl (\<lambda>d (k', v). dsetdefault k' v d)
          (dset ''command'' (dget nested ''command'') out) (ddel ''command'' nested)))" by simp
      from none_at_nested [OF True this] show ?thesis .
    next
      case False
      with "2.prems" PDict have "none_at ''command'' (command_from_nest ks out)" by simp
      then show ?thesis using "2.IH" PDict False by blast
    qed
  next
    case (PStr s)
    show ?thesis
    proof (cases "py_strip s = []")
      case True
      with "2.prems" PStr have "none_at ''command'' (command_from_nest ks out)" by simp
      then show ?thesis using "2.IH" PStr True by blast
    next
      case False
      with "2.prems" PStr show ?thesis by (simp split: if_splits)
    qed
  qed (use 2 in simp_all)
qed simp

lemma none_at_fill:
  assumes "none_at ''command'' (fill_command out)" shows "none_at ''command'' out"
proof (cases "truthy (dget out ''command'')")
  case True
  with assms show ?thesis by (simp add: fill_command_def)
next
  case False
  have "none_at ''command'' (command_from_alias out)"
  proof (cases "truthy (dget (command_from_alias out) ''command'')")
    case True
    with assms False show ?thesis by (simp add: fill_command_def Let_def)
  next
    case f: False
    with assms False have "none_at ''command'' (command_from_nest [''parameters'', ''input'', ''args''] (command_from_alias out))"
      unfolding fill_command_def Let_def by (simp only: if_False)
    from none_at_nest [OF this] show ?thesis .
  qed
  from none_at_alias [OF this] show ?thesis .
qed

lemma none_at_clean: "none_at ''command'' (clean_command out) \<Longrightarrow> none_at ''command'' out"
  by (auto simp: clean_command_def split: pyval.splits option.splits list.splits)

lemma none_at_node_id: "none_at ''command'' (fill_node_id out) \<Longrightarrow> none_at ''command'' out"
  by (cases "List.find (\<lambda>alt. visible_str (dget out alt)) [''node'', ''nodeId'', ''node_name'', ''target'', ''host'']")
     (auto simp: fill_node_id_def find_Some_iff split: if_splits dest: none_at_moved [rotated])

lemma clean_timeout_key:
  "clean_timeout parse out = Inr out' \<Longrightarrow> k \<noteq> ''timeout'' \<Longrightarrow> map_of out' k = map_of out k"
  by (auto simp: clean_timeout_def split: if_splits option.splits)

lemma clean_command_typed: "map_of (clean_command out) ''command'' = Some v \<Longrightarrow> v = PNone \<or> (\<exists>s. v = PStr s)"
  using clean_command_str [of out] by (auto simp: str_or_none_def dget_def)

lemma normalize_command:
  assumes "tool \<in> {''exec'', ''remote_exec'', ''shell''}" "normalize_tool_args parse tool a = Inr out"
    and "map_of out ''command'' = Some v"
  shows "(\<exists>s. v = PStr s) \<or> (v = PNone \<and> none_at ''command'' a)"
proof -
  let ?a = "if tool = ''remote_exec'' then fill_node_id a else a"
  have "clean_timeout parse (clean_command (fill_command ?a)) = Inr out"
    using assms(1,2) by (auto simp: normalize_tool_args_def Let_def)
  from clean_timeout_key [OF this, of "''command''"] assms(3)
  have m: "map_of (clean_command (fill_command ?a)) ''command'' = Some v" by simp
  from clean_command_typed [OF m] show ?thesis
  proof
    assume "v = PNone"
    then have "none_at ''command'' ?a" using m none_at_clean none_at_fill by blast
    then show ?thesis using none_at_node_id [of a] \<open>v = PNone\<close> by (auto split: if_splits)
  qed blast
qed

section \<open>Properties\<close>

text \<open>
  C36 What the tools may assume of repaired arguments, whatever shape the model's arguments had. For \<open>exec\<close>,
  \<open>remote_exec\<close> and \<open>shell\<close>, the tools whose commands are repaired, the command is a string or missing, except that
  an explicit \<open>None\<close> that the model passed as the command may stay; the timeout is a finite float or missing.
  For \<open>read\<close> and \<open>remote_read\<close> the offset and the limit are integers or missing. The arguments of the other tools,
  \<open>sandbox_exec\<close> among them, have no such repair.
\<close>

theorem normalized_args_typed:
  assumes "normalize_tool_args parse tool a = Inr out"
  shows "(tool \<in> {''exec'', ''remote_exec'', ''shell''} \<longrightarrow>
            str_or_none (dget out ''command'')
            \<and> (\<forall>v. map_of out ''command'' = Some v \<longrightarrow>
                 (\<exists>s. v = PStr s) \<or> (v = PNone \<and> map_of a ''command'' = Some PNone))
            \<and> (has_key ''timeout'' out \<longrightarrow> (\<exists>r. dget out ''timeout'' = PFloat (Fin r))))
       \<and> (tool \<in> {''read'', ''remote_read''} \<longrightarrow>
            (\<forall>k \<in> {''offset'', ''limit''}. has_key k out \<longrightarrow> (\<exists>i. dget out k = PInt i)))"
proof -
  have "str_or_none (dget out ''command'') \<and> (has_key ''timeout'' out \<longrightarrow> (\<exists>r. dget out ''timeout'' = PFloat (Fin r)))"
    if t: "tool \<in> {''exec'', ''remote_exec'', ''shell''}"
  proof -
    obtain a' where "clean_timeout parse (clean_command (fill_command a')) = Inr out"
      using normalize_exec [OF t assms] by blast
    then show ?thesis using clean_timeout_finite clean_timeout_dget [of _ _ _ "''command''"] clean_command_str by auto
  qed
  moreover have "(\<exists>s. v = PStr s) \<or> (v = PNone \<and> map_of a ''command'' = Some PNone)"
    if "tool \<in> {''exec'', ''remote_exec'', ''shell''}" "map_of out ''command'' = Some v" for v
    using normalize_command [OF that(1) assms that(2)] .
  moreover have "\<exists>i. dget out k = PInt i"
    if "tool \<in> {''read'', ''remote_read''}" "k \<in> {''offset'', ''limit''}" "has_key k out" for k
    using normalize_read [OF that(1) assms] that(2,3) coerce_or_drop_int [of "''limit''"]
    by (auto simp: fill_range_def coerce_or_drop_other split: if_splits)
  ultimately show ?thesis by simp
qed

theorem normalized_args_typed_witness:
  "str_or_none (dget (case normalize_tool_args (\<lambda>_. None) ''exec'' [(''cmd'', PStr ''ls''), (''timeout'', PStr ''x'')]
      of Inr out \<Rightarrow> out | _ \<Rightarrow> [(''command'', PInt 0)]) ''command'')"
proof -
  have "normalize_tool_args (\<lambda>_. None) ''exec'' [(''cmd'', PStr ''ls''), (''timeout'', PStr ''x'')]
      = Inr [(''command'', PStr ''ls'')]" by code_simp
  from normalized_args_typed [OF this] show ?thesis unfolding \<open>normalize_tool_args _ _ _ = _\<close> by simp
qed

text \<open>
  The one way the repair of arguments fails is the timeout of a shell tool: an integer too
  large for a float raises instead of being dropped like every other unusable timeout.
\<close>

lemma normalize_fails_exactly:
  "is_ok (normalize_tool_args parse tool a) \<longleftrightarrow>
    \<not> (tool \<in> {''exec'', ''remote_exec'', ''shell''}
       \<and> (\<exists>i. dget (clean_command (fill_command (if tool = ''remote_exec'' then fill_node_id a else a))) ''timeout'' = PInt i
              \<and> int_float_limit \<le> \<bar>i\<bar>))"
proof -
  have cf: "(\<exists>e. coerce_float parse v d = Inl e) \<longleftrightarrow> (\<exists>i. v = PInt i \<and> int_float_limit \<le> \<bar>i\<bar>)" for v d
    by (auto simp: coerce_float_def Let_def split: pyval.splits)
  have ct: "(\<exists>e. clean_timeout parse out = Inl e) \<longleftrightarrow>
      (\<exists>i. dget out ''timeout'' = PInt i \<and> int_float_limit \<le> \<bar>i\<bar>)" for out
    using cf [of "dget out ''timeout''" None]
    by (cases "coerce_float parse (dget out ''timeout'') None")
       (auto simp: clean_timeout_def has_key_def dget_def split: option.splits)
  have isok: "is_ok r \<longleftrightarrow> \<not> (\<exists>e. r = Inl e)" for r :: "'z res" by (cases r) auto
  have rb: "(\<exists>e. rbind r (\<lambda>x. Inr (f x)) = Inl e) \<longleftrightarrow> (\<exists>e. r = Inl e)" for r :: "args res" and f :: "args \<Rightarrow> args"
    by (cases r) auto
  show ?thesis unfolding isok normalize_tool_args_def Let_def rb
    using ct [of "clean_command (fill_command (if tool = ''remote_exec'' then fill_node_id a else a))"]
    by (cases "tool = ''remote_exec''"; cases "tool = ''exec''"; cases "tool = ''shell''"; simp; metis)
qed

end
