(* ===== verification/Dispatcher.thy ===== *)
theory Dispatcher
  imports Idempotency Budget Loop_Guard Risk Tool_Args
begin

text \<open>
  \<open>norax/dispatch/__init__.py\<close>: the dispatcher, which takes every tool call through argument
  repair, authorization, the idempotency cache, the budget and the loop guard before it runs.

  \<open>Dispatcher.dispatch\<close> is cut at its two awaits. \<open>dispatch_start\<close> is the code up to the await of
  the tool function (or of another call's future), \<open>dispatch_finish\<close> the code after the tool
  function has returned or raised, \<open>dispatch_resume\<close> the code after the awaited future is done.
  Between these pieces other calls run: \<open>dispatch_step\<close> interleaves any number of them, with any
  use of the budget and of the loop guard by others.

  Parameters: the registered tool names, the reading of decimal literals, the risk environment,
  the SHA-256 of the call's JSON text (\<open>de_scope\<close>) and the fingerprint of the loop guard. What a
  tool function does is the outcome given to \<open>dispatch_finish\<close>.
\<close>

section \<open>Data\<close>

record caller =
  cl_id :: string
  cl_tier :: string

record dispatch_result =
  dr_ok :: bool
  dr_result :: pyval
  dr_tool :: string
  dr_tier :: "risk_tier option" \<comment> \<open>None for \<open>"cached"\<close>\<close>
  dr_zone :: "zone option" \<comment> \<open>None for \<open>"cached"\<close>\<close>

record dispatch_env =
  de_registered :: "string \<Rightarrow> bool"
  de_parse :: "string \<Rightarrow> pyfloat option"
  de_risk :: risk_env
  de_scope :: "string \<Rightarrow> args \<Rightarrow> caller \<Rightarrow> string"
  de_fingerprint :: "string \<Rightarrow> pyval \<Rightarrow> string"

text \<open>\<open>dp_done\<close> holds the outcome of every future that is done, by the future's number.\<close>

record dispatcher =
  dp_budget :: enforcer
  dp_guard :: loop_guard
  dp_cache :: idem_cache
  dp_inflight :: "(string, string \<times> nat) dict"
  dp_next :: nat
  dp_done :: "(nat, unit res) dict"

record running_call =
  rc_tool :: string
  rc_args :: args
  rc_caller :: caller
  rc_key :: "(string \<times> string \<times> nat) option" \<comment> \<open>request id, scope, future\<close>
  rc_tier :: risk_tier
  rc_zone :: zone

record waiter =
  wt_tool :: string
  wt_rid :: string
  wt_scope :: string
  wt_future :: nat

datatype started =
    Refused py_exn
  | Answered dispatch_result
  | Waits waiter
  | Runs running_call

definition new_dispatcher :: "enforcer \<Rightarrow> loop_guard \<Rightarrow> idem_cache \<Rightarrow> dispatcher" where
  "new_dispatcher b g c = \<lparr>dp_budget = b, dp_guard = g, dp_cache = c, dp_inflight = [], dp_next = 0, dp_done = []\<rparr>"

section \<open>Operations\<close>

definition validate_request_id :: "string \<Rightarrow> string res" where
  "validate_request_id rid =
     (let value = py_strip rid in
      if value = [] then Inl (DispatchError ''request_id must not be empty'')
      else if length value > 256 then Inl (DispatchError ''request_id exceeds 256 characters'')
      else if \<exists>c \<in> set value. (of_char c :: nat) < 32 \<or> (of_char c :: nat) = 127
           then Inl (DispatchError ''request_id contains control characters'')
      else Inr value)"

definition result_ok :: "pyval \<Rightarrow> bool" where
  "result_ok r \<longleftrightarrow> pget r ''ok'' = PBool True"

definition cached_result :: "string \<Rightarrow> pyval \<Rightarrow> dispatch_result" where
  "cached_result tool r = \<lparr>dr_ok = result_ok r, dr_result = r, dr_tool = tool, dr_tier = None, dr_zone = None\<rparr>"

text \<open>Budget, loop guard and the registration of the future: from \<open># 3. budget\<close> to the call.\<close>

definition dispatch_admit ::
  "dispatch_env \<Rightarrow> int \<Rightarrow> string \<Rightarrow> args \<Rightarrow> caller \<Rightarrow> risk_decision \<Rightarrow> (string \<times> string) option
     \<Rightarrow> dispatcher \<Rightarrow> started \<times> dispatcher" where
  "dispatch_admit env today tool a cl d key st =
     (let (z, b) = assess (cl_id cl) (cl_tier cl) today (dp_budget st);
          st1 = st\<lparr>dp_budget := b\<rparr>
      in if bz_zone z = Hard_block then (Refused (BudgetExceeded (cl_id cl)), st1)
         else if read_only z \<and> rd_tier d \<noteq> T0
              then (Refused (DispatchError ''blocked: explicit daily budget is in read-only zone''), st1)
         else let (o1, g) = observe (de_fingerprint env) tool (PDict a) (dp_guard st1);
                  st2 = st1\<lparr>dp_guard := g\<rparr>;
                  call = \<lparr>rc_tool = tool, rc_args = a, rc_caller = cl, rc_key = None,
                          rc_tier = rd_tier d, rc_zone = bz_zone z\<rparr>
              in case o1 of
                   Inl e \<Rightarrow> (Refused e, st2)
                 | Inr u \<Rightarrow> (case key of
                     None \<Rightarrow> (Runs call, st2)
                   | Some (rid, scope) \<Rightarrow>
                       let f = dp_next st2 in
                       (Runs (call\<lparr>rc_key := Some (rid, scope, f)\<rparr>),
                        st2\<lparr>dp_next := Suc f, dp_inflight := dset rid (scope, f) (dp_inflight st2)\<rparr>)))"

definition dispatch_start ::
  "dispatch_env \<Rightarrow> int \<Rightarrow> real \<Rightarrow> string \<Rightarrow> args \<Rightarrow> caller \<Rightarrow> string option
     \<Rightarrow> dispatcher \<Rightarrow> started \<times> dispatcher" where
  "dispatch_start env today now name args0 cl request_id st =
     (let tool = normalize_tool_name name in
      if \<not> de_registered env tool then (Refused (DispatchError ''unknown tool''), st)
      else case normalize_tool_args (de_parse env) tool args0 of
        Inl e \<Rightarrow> (Refused e, st)
      | Inr a \<Rightarrow>
          let d = risk_check (de_risk env) tool (PDict a) (cl_tier cl) in
          if \<not> rd_allowed d then (Refused (DispatchError ''blocked''), st)
          else case request_id of
            None \<Rightarrow> dispatch_admit env today tool a cl d None st
          | Some r \<Rightarrow>
              (case validate_request_id r of
                 Inl e \<Rightarrow> (Refused e, st)
               | Inr rid \<Rightarrow>
                   let scope = de_scope env tool a cl;
                       (got, cache) = idem_get now rid (Some scope) (dp_cache st);
                       st1 = st\<lparr>dp_cache := cache\<rparr>
                   in case got of
                        Inl e \<Rightarrow> (Refused (DispatchError ''request_id was already used for a different operation''), st1)
                      | Inr (Some v) \<Rightarrow> (Answered (cached_result tool v), st1)
                      | Inr None \<Rightarrow>
                          (case map_of (dp_inflight st1) rid of
                             Some (scope', f) \<Rightarrow>
                               if scope' \<noteq> scope
                               then (Refused (DispatchError ''request_id is in flight for a different operation''), st1)
                               else (Waits \<lparr>wt_tool = tool, wt_rid = rid, wt_scope = scope, wt_future = f\<rparr>, st1)
                           | None \<Rightarrow> dispatch_admit env today tool a cl d (Some (rid, scope)) st1)))"

definition result_dict :: "pyval \<Rightarrow> pyval" where
  "result_dict v = (if is_dict v then v else PDict [(''ok'', PBool True), (''result'', v)])"

definition settle :: "nat \<Rightarrow> unit res \<Rightarrow> dispatcher \<Rightarrow> dispatcher" where
  "settle f o1 st = (if map_of (dp_done st) f = None then st\<lparr>dp_done := dset f o1 (dp_done st)\<rparr> else st)"

definition release :: "string \<Rightarrow> nat \<Rightarrow> dispatcher \<Rightarrow> dispatcher" where
  "release rid f st =
     (case map_of (dp_inflight st) rid of
        Some (_, f') \<Rightarrow> if f' = f then st\<lparr>dp_inflight := ddel rid (dp_inflight st)\<rparr> else st
      | None \<Rightarrow> st)"

text \<open>The \<open>try\<close> body after the tool function; a \<open>TypeError\<close> becomes a \<open>DispatchError\<close>.\<close>

definition finish_body ::
  "real \<Rightarrow> int \<Rightarrow> pyval res \<Rightarrow> running_call \<Rightarrow> (dispatcher, dispatch_result) op" where
  "finish_body now today outcome c st =
     (case outcome of
        Inl e \<Rightarrow> (Inl (case e of TypeError m \<Rightarrow> DispatchError m | _ \<Rightarrow> e), st)
      | Inr v \<Rightarrow>
          let rd = result_dict v;
              (o1, b) = record_usage (cl_id (rc_caller c)) (PFloat (Fin 0)) (PInt 0) (PInt 1) today (dp_budget st);
              st1 = st\<lparr>dp_budget := b\<rparr>;
              res = \<lparr>dr_ok = result_ok rd, dr_result = rd, dr_tool = rc_tool c,
                     dr_tier = Some (rc_tier c), dr_zone = Some (rc_zone c)\<rparr>
          in case o1 of
               Inl e \<Rightarrow> (Inl e, st1)
             | Inr u \<Rightarrow> (case rc_key c of
                 None \<Rightarrow> (Inr res, st1)
               | Some (rid, scope, f) \<Rightarrow>
                   let (o2, cache) = idem_put now rid rd (Some scope) (dp_cache st1);
                       st2 = st1\<lparr>dp_cache := cache\<rparr>
                   in case o2 of
                        Inl e \<Rightarrow> (Inl e, st2)
                      | Inr u \<Rightarrow> (Inr res, settle f (Inr ()) st2)))"

definition dispatch_finish ::
  "real \<Rightarrow> int \<Rightarrow> pyval res \<Rightarrow> running_call \<Rightarrow> (dispatcher, dispatch_result) op" where
  "dispatch_finish now today outcome c st =
     (let (r, st1) = finish_body now today outcome c st in
      case rc_key c of
        None \<Rightarrow> (r, st1)
      | Some (rid, scope, f) \<Rightarrow>
          (r, release rid f (case r of Inl e \<Rightarrow> settle f (Inl e) st1 | Inr x \<Rightarrow> st1)))"

text \<open>\<open>None\<close> while the awaited future is not done.\<close>

definition dispatch_resume :: "real \<Rightarrow> waiter \<Rightarrow> dispatcher \<Rightarrow> (dispatch_result res \<times> dispatcher) option" where
  "dispatch_resume now w st =
     (case map_of (dp_done st) (wt_future w) of
        None \<Rightarrow> None
      | Some (Inl e) \<Rightarrow> Some (Inl e, st)
      | Some (Inr u) \<Rightarrow>
          let (got, cache) = idem_get now (wt_rid w) (Some (wt_scope w)) (dp_cache st) in
          Some (case got of
                  Inl e \<Rightarrow> Inl e
                | Inr None \<Rightarrow> Inl (DispatchError ''in-flight operation completed without a cached result'')
                | Inr (Some v) \<Rightarrow> Inr (cached_result (wt_tool w) v), st\<lparr>dp_cache := cache\<rparr>))"

section \<open>Interleavings\<close>

type_synonym world = "dispatcher \<times> running_call list \<times> waiter list"

text \<open>
  One step of the event loop at a time of the clock: a call that starts, a running call that ends, a waiter that resumes or is
  cancelled, or others that use the budget and the guard. The step is labelled with the request id it goes by, if any.
\<close>

definition request_key :: "string option \<Rightarrow> string option" where
  "request_key request_id = (case request_id of
     None \<Rightarrow> None
   | Some r \<Rightarrow> (case validate_request_id r of Inl e \<Rightarrow> None | Inr rid \<Rightarrow> Some rid))"

inductive dispatch_step :: "dispatch_env \<Rightarrow> real \<Rightarrow> string option \<Rightarrow> world \<Rightarrow> world \<Rightarrow> bool" for env now where
  start_done: "dispatch_start env today now name a cl rid st = (r, st') \<Longrightarrow> (\<forall>c. r \<noteq> Runs c) \<Longrightarrow> (\<forall>w. r \<noteq> Waits w) \<Longrightarrow>
     dispatch_step env now (request_key rid) (st, run, ws) (st', run, ws)"
| start_run: "dispatch_start env today now name a cl rid st = (Runs c, st') \<Longrightarrow>
     dispatch_step env now (request_key rid) (st, run, ws) (st', c # run, ws)"
| start_wait: "dispatch_start env today now name a cl rid st = (Waits w, st') \<Longrightarrow>
     dispatch_step env now (request_key rid) (st, run, ws) (st', run, w # ws)"
| finish: "c \<in> set run \<Longrightarrow> dispatch_finish now today outcome c st = (r, st') \<Longrightarrow>
     dispatch_step env now (map_option fst (rc_key c)) (st, run, ws) (st', remove1 c run, ws)"
| resume: "w \<in> set ws \<Longrightarrow> dispatch_resume now w st = Some (r, st') \<Longrightarrow>
     dispatch_step env now (Some (wt_rid w)) (st, run, ws) (st', run, remove1 w ws)"
| cancel_waiter: "w \<in> set ws \<Longrightarrow> dispatch_step env now None (st, run, ws) (st, run, remove1 w ws)"
| others: "dispatch_step env now None (st, run, ws) (st\<lparr>dp_budget := b, dp_guard := g\<rparr>, run, ws)"

inductive_cases dispatch_stepE: "dispatch_step env now k (st, run, ws) w'"

inductive reachable :: "dispatch_env \<Rightarrow> world \<Rightarrow> bool" for env where
  reachable_init: "reachable env (new_dispatcher b g (idem_init ttl m), [], [])"
| reachable_step: "reachable env w \<Longrightarrow> dispatch_step env now k w w' \<Longrightarrow> reachable env w'"

text \<open>Any number of steps from one time to another on a clock that never goes back, with the set of the request ids used.\<close>

inductive dispatch_run :: "dispatch_env \<Rightarrow> real \<Rightarrow> world \<Rightarrow> string set \<Rightarrow> real \<Rightarrow> world \<Rightarrow> bool" for env t0 w0 where
  run_none: "dispatch_run env t0 w0 {} t0 w0"
| run_more: "dispatch_run env t0 w0 K t w \<Longrightarrow> t \<le> now \<Longrightarrow> dispatch_step env now k w w' \<Longrightarrow>
     dispatch_run env t0 w0 (K \<union> set_option k) now w'"


section \<open>Facts on the cache\<close>

lemma idem_get_miss_absent:
  "fst (idem_get now rid scope c) = Inr None \<Longrightarrow> rid \<notin> fst ` set (ic_store (snd (idem_get now rid scope c)))"
  using idem_miss live_entry_None by metis

lemma live_entry_keys: "fst ` set (ic_store (snd (live_entry rid now c))) \<subseteq> fst ` set (ic_store c)"
  by (cases "map_of (ic_store c) rid") (auto simp: live_entry_def)

lemma idem_get_keys:
  assumes "idem_inv c"
  shows "fst ` set (ic_store (snd (idem_get now rid scope c))) \<subseteq> fst ` set (ic_store c)"
proof -
  obtain e c' where l: "live_entry rid now c = (e, c')" by force
  have "fst ` set (ic_store c') \<subseteq> fst ` set (ic_store c)" using live_entry_keys [of rid now c] l by simp
  moreover have "dict_ok (ic_store c')" using live_entry_inv [OF assms l] by (simp add: idem_inv_def)
  ultimately show ?thesis using l by (cases e) (auto simp: idem_get_def)
qed

lemma set_evict_subset: "set (evict m d) \<subseteq> set d"
  by (induction m d rule: evict.induct) auto

lemma idem_put_keys: "fst ` set (ic_store (snd (idem_put now rid v scope c))) \<subseteq> insert rid (fst ` set (ic_store c))"
proof -
  obtain e c' where l: "live_entry rid now c = (e, c')" by force
  have *: "fst ` set (ic_store c') \<subseteq> fst ` set (ic_store c)" using live_entry_keys [of rid now c] l by simp
  show ?thesis
  proof (cases e)
    case None
    with l have "fst ` set (ic_store (snd (idem_put now rid v scope c))) =
        insert rid (fst ` set (evict (ic_max_entries c') (ic_store c')))" by (simp add: idem_put_def)
    also have "\<dots> \<subseteq> insert rid (fst ` set (ic_store c'))"
      by (intro insert_mono image_mono set_evict_subset)
    finally show ?thesis using * by blast
  qed (use l * in \<open>auto simp: idem_put_def\<close>)
qed

lemma live_entry_absent: "rid \<notin> fst ` set (ic_store c) \<Longrightarrow> live_entry rid now c = (None, c)"
  by (simp add: live_entry_def map_of_None_iff [symmetric])

lemma idem_put_absent: "rid \<notin> fst ` set (ic_store c) \<Longrightarrow> fst (idem_put now rid v scope c) = Inr ()"
  by (simp add: idem_put_def live_entry_absent)

section \<open>What one piece of a dispatch changes\<close>

lemma record_one [simp]: "fst (record_usage caller (PFloat (Fin 0)) (PInt 0) (PInt 1) today b) = Inr ()"
  by (simp add: record_usage_def nonneg_int_field_def split: prod.split)

lemma settle_frame [simp]:
  "dp_inflight (settle f o1 st) = dp_inflight st" "dp_cache (settle f o1 st) = dp_cache st"
  "dp_next (settle f o1 st) = dp_next st" "dp_budget (settle f o1 st) = dp_budget st"
  by (auto simp: settle_def)

lemma release_frame [simp]:
  "dp_done (release rid f st) = dp_done st" "dp_cache (release rid f st) = dp_cache st"
  "dp_next (release rid f st) = dp_next st" "dp_budget (release rid f st) = dp_budget st"
  by (auto simp: release_def split: option.split)

lemma settle_done: "map_of (dp_done (settle f o1 st)) f' =
    (if f' = f \<and> map_of (dp_done st) f = None then Some o1 else map_of (dp_done st) f')"
  by (auto simp: settle_def)

text \<open>The start of a call touches the cache by one read only, and registers at most itself.\<close>

definition quiet :: "dispatcher \<Rightarrow> dispatcher \<Rightarrow> bool" where
  "quiet st st' \<longleftrightarrow> dp_inflight st' = dp_inflight st \<and> dp_next st' = dp_next st \<and> dp_done st' = dp_done st"

definition registers :: "running_call \<Rightarrow> dispatcher \<Rightarrow> dispatcher \<Rightarrow> bool" where
  "registers c st st' \<longleftrightarrow> dp_done st' = dp_done st \<and>
     (case rc_key c of
        None \<Rightarrow> dp_inflight st' = dp_inflight st \<and> dp_next st' = dp_next st
      | Some (rid, scope, f) \<Rightarrow> f = dp_next st \<and> dp_next st' = Suc f \<and> map_of (dp_inflight st) rid = None
          \<and> dp_inflight st' = dset rid (scope, f) (dp_inflight st) \<and> rid \<notin> fst ` set (ic_store (dp_cache st')))"

lemma dispatch_admit_effect:
  assumes "dispatch_admit env today tool a cl d key st = (r, st')"
    and "\<And>rid scope. key = Some (rid, scope) \<Longrightarrow> map_of (dp_inflight st) rid = None \<and> rid \<notin> fst ` set (ic_store (dp_cache st))"
  shows "dp_cache st' = dp_cache st \<and>
    ((\<exists>c. r = Runs c \<and> registers c st st' \<and> rc_tool c = tool \<and> rc_args c = a \<and> rc_caller c = cl
        \<and> map_option (\<lambda>(k, s, f). (k, s)) (rc_key c) = key) \<or> ((\<exists>e. r = Refused e) \<and> quiet st st'))"
proof -
  obtain z b where zb: "assess (cl_id cl) (cl_tier cl) today (dp_budget st) = (z, b)" by force
  obtain o1 g where og: "observe (de_fingerprint env) tool (PDict a) (dp_guard st) = (o1, g)" by force
  consider (block) "bz_zone z = Hard_block"
    | (ro) "bz_zone z \<noteq> Hard_block" "read_only z \<and> rd_tier d \<noteq> T0"
    | (loop) e where "bz_zone z \<noteq> Hard_block" "\<not> (read_only z \<and> rd_tier d \<noteq> T0)" "o1 = Inl e"
    | (go) "bz_zone z \<noteq> Hard_block" "\<not> (read_only z \<and> rd_tier d \<noteq> T0)" "o1 = Inr ()"
    by (cases o1) auto
  then show ?thesis
  proof cases
    case go
    show ?thesis
    proof (cases key)
      case None
      with go zb og assms(1) show ?thesis by (auto simp: dispatch_admit_def registers_def)
    next
      case (Some p)
      then obtain rid scope where p: "key = Some (rid, scope)" by (cases p) auto
      show ?thesis using assms(1) assms(2) [OF p] go zb og p
        by (auto simp: dispatch_admit_def registers_def Let_def)
    qed
  qed (use assms(1) zb og in \<open>auto simp: dispatch_admit_def quiet_def\<close>)
qed

text \<open>The call passed the registry, the repair of its arguments and the risk gate.\<close>

definition authorized :: "dispatch_env \<Rightarrow> string \<Rightarrow> args \<Rightarrow> caller \<Rightarrow> args \<Rightarrow> bool" where
  "authorized env name args0 cl a \<longleftrightarrow> de_registered env (normalize_tool_name name)
     \<and> normalize_tool_args (de_parse env) (normalize_tool_name name) args0 = Inr a
     \<and> rd_allowed (risk_check (de_risk env) (normalize_tool_name name) (PDict a) (cl_tier cl))"

lemma start_unauthorized:
  "\<nexists>a. authorized env name args0 cl a \<Longrightarrow> \<exists>e. dispatch_start env today now name args0 cl rid st = (Refused e, st)"
  by (auto simp: dispatch_start_def authorized_def Let_def split: sum.split)

lemma start_anonymous:
  "authorized env name args0 cl a \<Longrightarrow> dispatch_start env today now name args0 cl None st =
     dispatch_admit env today (normalize_tool_name name) a cl
       (risk_check (de_risk env) (normalize_tool_name name) (PDict a) (cl_tier cl)) None st"
  by (simp add: dispatch_start_def authorized_def Let_def)

lemma start_bad_id:
  "validate_request_id r = Inl e \<Longrightarrow> \<exists>e. dispatch_start env today now name args0 cl (Some r) st = (Refused e, st)"
  by (auto simp: dispatch_start_def Let_def split: sum.split)

lemma start_keyed:
  assumes "authorized env name args0 cl a" "validate_request_id r = Inr rid"
    and "idem_get now rid (Some (de_scope env (normalize_tool_name name) a cl)) (dp_cache st) = (got, cache)"
  shows "dispatch_start env today now name args0 cl (Some r) st =
    (case got of
       Inl e \<Rightarrow> (Refused (DispatchError ''request_id was already used for a different operation''), st\<lparr>dp_cache := cache\<rparr>)
     | Inr (Some v) \<Rightarrow> (Answered (cached_result (normalize_tool_name name) v), st\<lparr>dp_cache := cache\<rparr>)
     | Inr None \<Rightarrow>
         (case map_of (dp_inflight st) rid of
            Some (scope', f) \<Rightarrow>
              if scope' \<noteq> de_scope env (normalize_tool_name name) a cl
              then (Refused (DispatchError ''request_id is in flight for a different operation''), st\<lparr>dp_cache := cache\<rparr>)
              else (Waits \<lparr>wt_tool = normalize_tool_name name, wt_rid = rid,
                      wt_scope = de_scope env (normalize_tool_name name) a cl, wt_future = f\<rparr>, st\<lparr>dp_cache := cache\<rparr>)
          | None \<Rightarrow> dispatch_admit env today (normalize_tool_name name) a cl
               (risk_check (de_risk env) (normalize_tool_name name) (PDict a) (cl_tier cl))
               (Some (rid, de_scope env (normalize_tool_name name) a cl)) (st\<lparr>dp_cache := cache\<rparr>)))"
  using assms by (simp add: dispatch_start_def authorized_def Let_def split: sum.split option.split)

text \<open>Everything a start can do, in one statement.\<close>

lemma dispatch_start_effect:
  assumes "dispatch_start env today now name args0 cl request_id st = (r, st')" "idem_inv (dp_cache st)"
  shows "idem_inv (dp_cache st') \<and> fst ` set (ic_store (dp_cache st')) \<subseteq> fst ` set (ic_store (dp_cache st))
    \<and> ((\<exists>c a. r = Runs c \<and> registers c st st' \<and> authorized env name args0 cl a
           \<and> rc_tool c = normalize_tool_name name \<and> rc_args c = a \<and> rc_caller c = cl)
       \<or> ((\<forall>c. r \<noteq> Runs c) \<and> quiet st st'
          \<and> (\<forall>w. r = Waits w \<longrightarrow> map_of (dp_inflight st) (wt_rid w) = Some (wt_scope w, wt_future w))))"
proof (cases "\<exists>a. authorized env name args0 cl a")
  case False
  then obtain e where "dispatch_start env today now name args0 cl request_id st = (Refused e, st)"
    using start_unauthorized by blast
  with assms show ?thesis by (auto simp: quiet_def)
next
  case True
  then obtain a where a: "authorized env name args0 cl a" ..
  show ?thesis
  proof (cases request_id)
    case None
    with assms(1) start_anonymous [OF a]
    have "dispatch_admit env today (normalize_tool_name name) a cl
       (risk_check (de_risk env) (normalize_tool_name name) (PDict a) (cl_tier cl)) None st = (r, st')" by simp
    from dispatch_admit_effect [OF this] assms(2) a show ?thesis by auto
  next
    case (Some r0)
    show ?thesis
    proof (cases "validate_request_id r0")
      case (Inl e)
      obtain e' where "dispatch_start env today now name args0 cl (Some r0) st = (Refused e', st)"
        using start_bad_id [OF Inl] by blast
      with assms Some show ?thesis by (auto simp: quiet_def)
    next
      case (Inr rid)
      let ?scope = "Some (de_scope env (normalize_tool_name name) a cl)"
      obtain got cache where g: "idem_get now rid ?scope (dp_cache st) = (got, cache)" by force
      have c: "idem_inv cache" "fst ` set (ic_store cache) \<subseteq> fst ` set (ic_store (dp_cache st))"
        using idem_get_inv [OF assms(2), of now rid ?scope] idem_get_keys [OF assms(2), of now rid ?scope] g by simp_all
      note eq = start_keyed [OF a Inr g, of today]
      have q: "quiet st (st\<lparr>dp_cache := cache\<rparr>)" by (simp add: quiet_def)
      consider (conflict) e where "got = Inl e" | (hit) v where "got = Inr (Some v)"
        | (wait) scope' f where "got = Inr None" "map_of (dp_inflight st) rid = Some (scope', f)"
        | (admit) "got = Inr None" "map_of (dp_inflight st) rid = None"
        by (metis old.sum.exhaust option.exhaust surj_pair)
      then show ?thesis
      proof cases
        case wait
        then have "st' = st\<lparr>dp_cache := cache\<rparr>"
          and "(\<exists>e. r = Refused e) \<or> r = Waits \<lparr>wt_tool = normalize_tool_name name, wt_rid = rid, wt_scope = scope', wt_future = f\<rparr>"
          using assms(1) Some eq by (auto split: if_splits)
        with wait(2) c q show ?thesis by (elim disjE exE) simp_all
      next
        case admit
        have abs: "rid \<notin> fst ` set (ic_store cache)"
          using idem_get_miss_absent [of now rid ?scope "dp_cache st"] g admit(1) by simp
        have ad: "dispatch_admit env today (normalize_tool_name name) a cl
           (risk_check (de_risk env) (normalize_tool_name name) (PDict a) (cl_tier cl))
           (Some (rid, the ?scope)) (st\<lparr>dp_cache := cache\<rparr>) = (r, st')"
          using assms(1) Some eq admit by simp
        have "dp_cache st' = cache \<and>
          ((\<exists>c. r = Runs c \<and> registers c (st\<lparr>dp_cache := cache\<rparr>) st' \<and> rc_tool c = normalize_tool_name name
              \<and> rc_args c = a \<and> rc_caller c = cl) \<or> ((\<exists>e. r = Refused e) \<and> quiet (st\<lparr>dp_cache := cache\<rparr>) st'))"
          using dispatch_admit_effect [OF ad] admit(2) abs by auto
        moreover have "registers c (st\<lparr>dp_cache := cache\<rparr>) st' = registers c st st'" for c
          by (cases "rc_key c") (auto simp: registers_def)
        moreover have "quiet (st\<lparr>dp_cache := cache\<rparr>) st' = quiet st st'" by (simp add: quiet_def)
        ultimately show ?thesis using c a by auto
      next
        case conflict
        then have "(\<exists>e. r = Refused e) \<and> st' = st\<lparr>dp_cache := cache\<rparr>" using assms(1) Some eq by auto
        with c q show ?thesis by (elim conjE exE) simp
      next
        case hit
        then have "(\<exists>x. r = Answered x) \<and> st' = st\<lparr>dp_cache := cache\<rparr>" using assms(1) Some eq by auto
        with c q show ?thesis by (elim conjE exE) simp
      qed
    qed
  qed
qed

text \<open>The end of a call: it leaves the table, and its future is done with its outcome.\<close>

lemma finish_body_inflight [simp]:
  "dp_inflight (snd (finish_body now today outcome c st)) = dp_inflight st"
  "dp_next (snd (finish_body now today outcome c st)) = dp_next st"
  by (auto simp: finish_body_def Let_def split: sum.split option.split prod.split)

lemma dispatch_finish_anonymous:
  assumes "rc_key c = None" "dispatch_finish now today outcome c st = (r, st')"
  shows "dp_inflight st' = dp_inflight st \<and> dp_next st' = dp_next st \<and> dp_done st' = dp_done st
    \<and> dp_cache st' = dp_cache st"
  using assms by (auto simp: dispatch_finish_def finish_body_def Let_def split: sum.splits prod.splits)

text \<open>A call with a request id whose key is absent from the cache.\<close>

lemma finish_body_stores:
  assumes "rc_key c = Some (rid, scope, f)" "rid \<notin> fst ` set (ic_store (dp_cache st))" "map_of (dp_done st) f = None"
  shows "(case outcome of
      Inl e \<Rightarrow> fst (finish_body now today outcome c st) = Inl (case e of TypeError m \<Rightarrow> DispatchError m | _ \<Rightarrow> e)
               \<and> snd (finish_body now today outcome c st) = st
    | Inr v \<Rightarrow> (\<exists>x. fst (finish_body now today outcome c st) = Inr x \<and> dr_result x = result_dict v
               \<and> dr_ok x = result_ok (result_dict v) \<and> dr_tool x = rc_tool c)
        \<and> dp_cache (snd (finish_body now today outcome c st)) =
            snd (idem_put now rid (result_dict v) (Some scope) (dp_cache st))
        \<and> dp_done (snd (finish_body now today outcome c st)) = dset f (Inr ()) (dp_done st))"
proof (cases outcome)
  case (Inl e)
  then show ?thesis by (simp add: finish_body_def)
next
  case (Inr v)
  obtain b where b: "record_usage (cl_id (rc_caller c)) (PFloat (Fin 0)) (PInt 0) (PInt 1) today (dp_budget st) = (Inr (), b)"
    using record_one by (metis (full_types) prod.collapse)
  obtain cache where p: "idem_put now rid (result_dict v) (Some scope) (dp_cache st) = (Inr (), cache)"
    using idem_put_absent [OF assms(2)] by (metis prod.collapse)
  show ?thesis using Inr b p assms by (simp add: finish_body_def Let_def settle_def)
qed

lemma dispatch_finish_keyed:
  assumes "rc_key c = Some (rid, scope, f)" "rid \<notin> fst ` set (ic_store (dp_cache st))"
    and "map_of (dp_done st) f = None" "map_of (dp_inflight st) rid = Some (scope, f)"
    and "dispatch_finish now today outcome c st = (r, st')"
  shows "dp_inflight st' = ddel rid (dp_inflight st) \<and> dp_next st' = dp_next st
    \<and> (case outcome of
         Inl e \<Rightarrow> r = Inl (case e of TypeError m \<Rightarrow> DispatchError m | _ \<Rightarrow> e) \<and> dp_cache st' = dp_cache st
           \<and> dp_done st' = dset f (Inl (case e of TypeError m \<Rightarrow> DispatchError m | _ \<Rightarrow> e)) (dp_done st)
       | Inr v \<Rightarrow> (\<exists>x. r = Inr x \<and> dr_result x = result_dict v \<and> dr_ok x = result_ok (result_dict v) \<and> dr_tool x = rc_tool c)
           \<and> dp_cache st' = snd (idem_put now rid (result_dict v) (Some scope) (dp_cache st))
           \<and> dp_done st' = dset f (Inr ()) (dp_done st))"
proof -
  obtain r1 st1 where b: "finish_body now today outcome c st = (r1, st1)" by force
  have i1: "dp_inflight st1 = dp_inflight st" "dp_next st1 = dp_next st"
    using finish_body_inflight [of now today outcome c st] b by simp_all
  note sb = finish_body_stores [OF assms(1-3), where outcome = outcome and now = now and today = today, unfolded b fst_conv snd_conv]
  show ?thesis
  proof (cases outcome)
    case (Inl e)
    then show ?thesis using sb assms(1,3-5) b by (auto simp: dispatch_finish_def release_def settle_def)
  next
    case (Inr v)
    then show ?thesis using sb assms(1,4,5) b i1 by (auto simp: dispatch_finish_def release_def)
  qed
qed

section \<open>Invariant of the interleavings\<close>

definition rids :: "running_call list \<Rightarrow> string list" where
  "rids run = concat (map (\<lambda>c. case rc_key c of None \<Rightarrow> [] | Some (rid, _, _) \<Rightarrow> [rid]) run)"

lemma rids_simps [simp]:
  "rids [] = []"
  "rids (c # run) = (case rc_key c of None \<Rightarrow> rids run | Some (rid, _, _) \<Rightarrow> rid # rids run)"
  by (auto simp: rids_def split: option.split)

lemma rids_append [simp]: "rids (xs @ ys) = rids xs @ rids ys"
  by (simp add: rids_def)

lemma rids_mem: "rid \<in> set (rids run) \<longleftrightarrow> (\<exists>c \<in> set run. \<exists>scope f. rc_key c = Some (rid, scope, f))"
  by (induction run) (auto split: option.splits)

lemma rids_remove1: "distinct (rids run) \<Longrightarrow> c \<in> set run \<Longrightarrow>
    distinct (rids (remove1 c run)) \<and>
    set (rids (remove1 c run)) = set (rids run) - (case rc_key c of None \<Rightarrow> {} | Some (rid, _, _) \<Rightarrow> {rid})"
proof -
  assume d: "distinct (rids run)" and "c \<in> set run"
  then obtain xs ys where r: "run = xs @ c # ys" "c \<notin> set xs" by (meson split_list_first)
  then have "remove1 c run = xs @ ys" by (simp add: remove1_append)
  with d r(1) show ?thesis by (auto split: option.splits)
qed

definition table_ok :: "dispatcher \<Rightarrow> running_call list \<Rightarrow> bool" where
  "table_ok st run \<longleftrightarrow>
     (\<forall>rid scope f. map_of (dp_inflight st) rid = Some (scope, f) \<longleftrightarrow> (\<exists>c \<in> set run. rc_key c = Some (rid, scope, f)))
     \<and> (\<forall>f. f \<in> fst ` set (dp_done st) \<longrightarrow> f < dp_next st)
     \<and> (\<forall>c \<in> set run. \<forall>rid scope f. rc_key c = Some (rid, scope, f) \<longrightarrow>
           f < dp_next st \<and> map_of (dp_done st) f = None \<and> rid \<notin> fst ` set (ic_store (dp_cache st)))
     \<and> (\<forall>rid scope rid' scope' f. map_of (dp_inflight st) rid = Some (scope, f) \<longrightarrow>
           map_of (dp_inflight st) rid' = Some (scope', f) \<longrightarrow> rid = rid')"

lemma table_okI:
  assumes "\<And>rid scope f. map_of (dp_inflight st) rid = Some (scope, f) \<Longrightarrow> \<exists>c \<in> set run. rc_key c = Some (rid, scope, f)"
    and "\<And>c rid scope f. c \<in> set run \<Longrightarrow> rc_key c = Some (rid, scope, f) \<Longrightarrow>
       map_of (dp_inflight st) rid = Some (scope, f) \<and> f < dp_next st \<and> map_of (dp_done st) f = None
       \<and> rid \<notin> fst ` set (ic_store (dp_cache st))"
    and "\<And>f. f \<in> fst ` set (dp_done st) \<Longrightarrow> f < dp_next st"
    and "\<And>rid scope rid' scope' f. map_of (dp_inflight st) rid = Some (scope, f) \<Longrightarrow>
           map_of (dp_inflight st) rid' = Some (scope', f) \<Longrightarrow> rid = rid'"
  shows "table_ok st run"
  using assms unfolding table_ok_def by blast

lemma table_okD:
  assumes "table_ok st run"
  shows "map_of (dp_inflight st) rid = Some (scope, f) \<Longrightarrow> \<exists>c \<in> set run. rc_key c = Some (rid, scope, f)"
    and "c \<in> set run \<Longrightarrow> rc_key c = Some (rid, scope, f) \<Longrightarrow> map_of (dp_inflight st) rid = Some (scope, f)"
    and "c \<in> set run \<Longrightarrow> rc_key c = Some (rid, scope, f) \<Longrightarrow> f < dp_next st"
    and "c \<in> set run \<Longrightarrow> rc_key c = Some (rid, scope, f) \<Longrightarrow> map_of (dp_done st) f = None"
    and "c \<in> set run \<Longrightarrow> rc_key c = Some (rid, scope, f) \<Longrightarrow> rid \<notin> fst ` set (ic_store (dp_cache st))"
    and "f \<in> fst ` set (dp_done st) \<Longrightarrow> f < dp_next st"
    and "map_of (dp_inflight st) rid = Some (scope, f) \<Longrightarrow> map_of (dp_inflight st) rid' = Some (scope', f) \<Longrightarrow> rid = rid'"
  using assms unfolding table_ok_def by blast+

definition waiters_ok :: "dispatcher \<Rightarrow> waiter list \<Rightarrow> bool" where
  "waiters_ok st ws \<longleftrightarrow> (\<forall>w \<in> set ws. map_of (dp_inflight st) (wt_rid w) = Some (wt_scope w, wt_future w)
      \<or> map_of (dp_done st) (wt_future w) \<noteq> None)"

fun world_ok :: "world \<Rightarrow> bool" where
  "world_ok (st, run, ws) \<longleftrightarrow> idem_inv (dp_cache st) \<and> distinct (rids run) \<and> table_ok st run \<and> waiters_ok st ws"

text \<open>One lemma per piece, then the summary over the step relation.\<close>

lemma waiters_mono:
  assumes "waiters_ok st ws"
    and "\<And>w. w \<in> set ws \<Longrightarrow> map_of (dp_inflight st) (wt_rid w) = Some (wt_scope w, wt_future w) \<Longrightarrow>
        map_of (dp_inflight st') (wt_rid w) = Some (wt_scope w, wt_future w) \<or> map_of (dp_done st') (wt_future w) \<noteq> None"
    and "\<And>f. map_of (dp_done st) f \<noteq> None \<Longrightarrow> map_of (dp_done st') f \<noteq> None"
  shows "waiters_ok st' ws"
  using assms unfolding waiters_ok_def by blast

lemma quiet_ok:
  assumes "world_ok (st, run, ws)" "quiet st st'" "idem_inv (dp_cache st')"
    and "fst ` set (ic_store (dp_cache st')) \<subseteq> fst ` set (ic_store (dp_cache st))"
  shows "world_ok (st', run, ws)"
proof -
  have t: "table_ok st run" using assms(1) by simp
  have q: "dp_inflight st' = dp_inflight st" "dp_next st' = dp_next st" "dp_done st' = dp_done st"
    using assms(2) by (auto simp: quiet_def)
  have "table_ok st' run"
  proof (rule table_okI)
    fix c rid scope f assume c: "c \<in> set run" "rc_key c = Some (rid, scope, f)"
    show "map_of (dp_inflight st') rid = Some (scope, f) \<and> f < dp_next st' \<and> map_of (dp_done st') f = None
       \<and> rid \<notin> fst ` set (ic_store (dp_cache st'))"
      using table_okD(2-5) [OF t c] q contra_subsetD [OF assms(4)] by simp
  qed (use table_okD(1,6,7) [OF t] q in simp_all)
  moreover have "waiters_ok st' ws" using assms(1) q by (simp add: waiters_ok_def)
  ultimately show ?thesis using assms(1,3) by simp
qed

lemma anonymous_ok:
  assumes "world_ok (st, run, ws)" "rc_key c = None"
  shows "world_ok (st, c # run, ws)"
  using assms by (auto simp: table_ok_def)

lemma registers_ok:
  assumes "world_ok (st, run, ws)" "registers c st st'" "idem_inv (dp_cache st')"
    and "fst ` set (ic_store (dp_cache st')) \<subseteq> fst ` set (ic_store (dp_cache st))"
  shows "world_ok (st', c # run, ws)"
proof (cases "rc_key c")
  case None
  then have "quiet st st'" using assms(2) by (auto simp: registers_def quiet_def)
  then show ?thesis using quiet_ok [OF assms(1) _ assms(3,4)] anonymous_ok None by blast
next
  case (Some key)
  then obtain rid scope f where key: "rc_key c = Some (rid, scope, f)" by (cases key) auto
  then have r: "dp_done st' = dp_done st" "f = dp_next st" "dp_next st' = Suc f" "map_of (dp_inflight st) rid = None"
    "dp_inflight st' = dset rid (scope, f) (dp_inflight st)" "rid \<notin> fst ` set (ic_store (dp_cache st'))"
    using assms(2) by (auto simp: registers_def)
  have t: "table_ok st run" and ws: "waiters_ok st ws" and d: "distinct (rids run)" using assms(1) by auto
  have new: "rid \<notin> set (rids run)" using table_okD(2) [OF t] r(4) unfolding rids_mem by fastforce
  have fr: "map_of (dp_done st) f = None"
    using table_okD(6) [OF t, of f] r(2) by (auto simp: map_of_None_iff)
  have old: "rid' \<noteq> rid" if "c' \<in> set run" "rc_key c' = Some (rid', scope', f')" for c' rid' scope' f'
    using table_okD(2) [OF t that] r(4) by auto
  have "table_ok st' (c # run)"
  proof (rule table_okI)
    fix rid' scope' f'
    assume i: "map_of (dp_inflight st') rid' = Some (scope', f')"
    then show "\<exists>c' \<in> set (c # run). rc_key c' = Some (rid', scope', f')"
      using table_okD(1) [OF t, of rid' scope' f'] key r(5) by (auto split: if_splits)
  next
    fix g assume "g \<in> fst ` set (dp_done st')"
    then show "g < dp_next st'" using table_okD(6) [OF t, of g] r by simp
  next
    fix c' rid' scope' f' assume c': "c' \<in> set (c # run)" "rc_key c' = Some (rid', scope', f')"
    show "map_of (dp_inflight st') rid' = Some (scope', f') \<and> f' < dp_next st' \<and> map_of (dp_done st') f' = None
       \<and> rid' \<notin> fst ` set (ic_store (dp_cache st'))"
    proof (cases "c' \<in> set run")
      case True
      from table_okD(2-5) [OF t True c'(2)] old [OF True c'(2)] r contra_subsetD [OF assms(4)]
      show ?thesis by simp
    next
      case False
      then show ?thesis using c' key r fr by simp
    qed
  next
    fix rid1 scope1 rid2 scope2 f'
    assume "map_of (dp_inflight st') rid1 = Some (scope1, f')" "map_of (dp_inflight st') rid2 = Some (scope2, f')"
    moreover have "f' \<noteq> f" if "map_of (dp_inflight st) rid' = Some (scope', f')" for rid' scope'
      using table_okD(1) [OF t that] table_okD(3) [OF t] r(2) by fastforce
    ultimately show "rid1 = rid2" using table_okD(7) [OF t] r(5) by (auto split: if_splits)
  qed
  moreover have "waiters_ok st' ws"
    by (rule waiters_mono [OF ws]) (use r in auto)
  ultimately show ?thesis using assms(3) d new key by simp
qed

lemma waits_ok:
  assumes "world_ok (st, run, ws)" "map_of (dp_inflight st) (wt_rid w) = Some (wt_scope w, wt_future w)"
  shows "world_ok (st, run, w # ws)"
  using assms by (auto simp: waiters_ok_def)

lemma drop_waiter_ok: "world_ok (st, run, ws) \<Longrightarrow> world_ok (st, run, remove1 w ws)"
  using set_remove1_subset [of w ws] unfolding world_ok.simps waiters_ok_def by blast

lemma finish_ok:
  assumes "world_ok (st, run, ws)" "c \<in> set run" "dispatch_finish now today outcome c st = (r, st')"
  shows "world_ok (st', remove1 c run, ws)"
proof -
  have inv: "idem_inv (dp_cache st)" and t: "table_ok st run" and ws: "waiters_ok st ws" and d: "distinct (rids run)"
    using assms(1) by auto
  have sub: "set (remove1 c run) \<subseteq> set run" by (rule set_remove1_subset)
  note rm = rids_remove1 [OF d assms(2)]
  show ?thesis
  proof (cases "rc_key c")
    case None
    note fr = dispatch_finish_anonymous [OF None assms(3)]
    have "table_ok st (remove1 c run)"
    proof (rule table_okI)
      fix rid scope f assume "map_of (dp_inflight st) rid = Some (scope, f)"
      then obtain c' where "c' \<in> set run" "rc_key c' = Some (rid, scope, f)" using table_okD(1) [OF t] by blast
      then show "\<exists>c' \<in> set (remove1 c run). rc_key c' = Some (rid, scope, f)"
        using None by (metis in_set_remove1 option.distinct(1))
    next
      fix c' rid scope f assume "c' \<in> set (remove1 c run)" "rc_key c' = Some (rid, scope, f)"
      then show "map_of (dp_inflight st) rid = Some (scope, f) \<and> f < dp_next st \<and> map_of (dp_done st) f = None
         \<and> rid \<notin> fst ` set (ic_store (dp_cache st))" using table_okD(2-5) [OF t] sub by blast
    qed (use table_okD(6,7) [OF t] in blast)+
    then have "world_ok (st, remove1 c run, ws)" using inv ws rm by simp
    then show ?thesis by (rule quiet_ok) (use fr inv in \<open>simp_all add: quiet_def\<close>)
  next
    case (Some key)
    then obtain rid scope f where key: "rc_key c = Some (rid, scope, f)" by (cases key) auto
    note k = table_okD(2-5) [OF t assms(2) key]
    note fin = dispatch_finish_keyed [OF key k(4,3,1) assms(3)]
    obtain o1 where o1: "dp_done st' = dset f o1 (dp_done st)" using fin by (cases outcome) auto
    have ca: "dp_cache st' = dp_cache st \<or> (\<exists>v. dp_cache st' = snd (idem_put now rid v (Some scope) (dp_cache st)))"
      using fin by (cases outcome) auto
    have i': "idem_inv (dp_cache st')" using ca inv idem_put_inv by metis
    have ks: "fst ` set (ic_store (dp_cache st')) \<subseteq> insert rid (fst ` set (ic_store (dp_cache st)))"
      using ca idem_put_keys by (metis subset_insertI)
    have inf: "dp_inflight st' = ddel rid (dp_inflight st)" "dp_next st' = dp_next st" using fin by auto
    have other: "rid' \<noteq> rid \<and> f' \<noteq> f" if c': "c' \<in> set (remove1 c run)" "rc_key c' = Some (rid', scope', f')" for c' rid' scope' f'
    proof -
      have "rid' \<in> set (rids (remove1 c run))" using that unfolding rids_mem by blast
      then have "rid' \<noteq> rid" using rm key by auto
      moreover have "map_of (dp_inflight st) rid' = Some (scope', f')" using table_okD(2) [OF t] c' sub by blast
      ultimately show ?thesis using table_okD(7) [OF t k(1)] by blast
    qed
    have "table_ok st' (remove1 c run)"
    proof (rule table_okI)
      fix rid' scope' f' assume i: "map_of (dp_inflight st') rid' = Some (scope', f')"
      then have "rid' \<noteq> rid" "map_of (dp_inflight st) rid' = Some (scope', f')" using inf by (auto split: if_splits)
      then show "\<exists>c' \<in> set (remove1 c run). rc_key c' = Some (rid', scope', f')"
        using table_okD(1) [OF t, of rid' scope' f'] key by (metis Pair_inject in_set_remove1 option.inject)
    next
      fix c' rid' scope' f' assume c': "c' \<in> set (remove1 c run)" "rc_key c' = Some (rid', scope', f')"
      then show "map_of (dp_inflight st') rid' = Some (scope', f') \<and> f' < dp_next st' \<and> map_of (dp_done st') f' = None
         \<and> rid' \<notin> fst ` set (ic_store (dp_cache st'))"
        using table_okD(2-5) [OF t subsetD [OF sub c'(1)] c'(2)] other [OF c'] inf o1 ks by auto
    next
      fix g assume "g \<in> fst ` set (dp_done st')"
      then show "g < dp_next st'" using table_okD(6) [OF t, of g] k(2) o1 inf by auto
    next
      fix rid1 scope1 rid2 scope2 g
      assume "map_of (dp_inflight st') rid1 = Some (scope1, g)" "map_of (dp_inflight st') rid2 = Some (scope2, g)"
      then show "rid1 = rid2" using table_okD(7) [OF t] inf by (auto split: if_splits)
    qed
    moreover have "waiters_ok st' ws"
      by (rule waiters_mono [OF ws]) (use o1 inf k in auto)
    ultimately show ?thesis using i' rm by simp
  qed
qed

lemma resume_ok:
  assumes "world_ok (st, run, ws)" "dispatch_resume now w st = Some (r, st')"
  shows "world_ok (st', run, remove1 w ws)"
proof -
  have inv: "idem_inv (dp_cache st)" using assms(1) by simp
  have "quiet st st' \<and> (dp_cache st' = dp_cache st
     \<or> dp_cache st' = snd (idem_get now (wt_rid w) (Some (wt_scope w)) (dp_cache st)))"
    using assms(2) by (auto simp: dispatch_resume_def quiet_def Let_def split: option.splits sum.splits prod.splits)
  then have "world_ok (st', run, ws)"
    using quiet_ok [OF assms(1)] idem_get_inv [OF inv] idem_get_keys [OF inv] inv by (metis order_refl)
  then show ?thesis by (rule drop_waiter_ok)
qed

lemma start_ok:
  assumes "world_ok (st, run, ws)" "dispatch_start env today now name a cl rid st = (r, st')"
  shows "world_ok (st', (case r of Runs c \<Rightarrow> c # run | _ \<Rightarrow> run), (case r of Waits w \<Rightarrow> w # ws | _ \<Rightarrow> ws))"
proof -
  have inv: "idem_inv (dp_cache st)" using assms(1) by simp
  note e = dispatch_start_effect [OF assms(2) inv]
  show ?thesis
  proof (cases r)
    case (Runs c)
    then show ?thesis using e registers_ok [OF assms(1), of c st'] by auto
  next
    case (Waits w)
    then have q: "quiet st st'" and m: "map_of (dp_inflight st) (wt_rid w) = Some (wt_scope w, wt_future w)" using e by auto
    have "world_ok (st', run, ws)" using quiet_ok [OF assms(1) q] e by blast
    moreover have "map_of (dp_inflight st') (wt_rid w) = Some (wt_scope w, wt_future w)" using q m by (simp add: quiet_def)
    ultimately show ?thesis using waits_ok Waits by simp
  qed (use e quiet_ok [OF assms(1)] in auto)
qed

lemma others_ok: "world_ok (st, run, ws) \<Longrightarrow> world_ok (st\<lparr>dp_budget := b, dp_guard := g\<rparr>, run, ws)"
  using quiet_ok [of st run ws "st\<lparr>dp_budget := b, dp_guard := g\<rparr>"] by (simp add: quiet_def)

lemma step_ok: "dispatch_step env now k w w' \<Longrightarrow> world_ok w \<Longrightarrow> world_ok w'"
proof (induction rule: dispatch_step.induct)
  case (start_done today name a cl rid st r st' run ws)
  then show ?case using start_ok [OF start_done(4,1)] by (cases r) auto
next
  case (start_run today name a cl rid st c st' run ws)
  then show ?case using start_ok [OF start_run(2,1)] by simp
next
  case (start_wait today name a cl rid st w st' run ws)
  then show ?case using start_ok [OF start_wait(2,1)] by simp
qed (blast intro: finish_ok resume_ok drop_waiter_ok others_ok)+

lemma reachable_ok: "reachable env w \<Longrightarrow> world_ok w"
proof (induction rule: reachable.induct)
  case (reachable_init b g ttl m)
  then show ?case by (simp add: new_dispatcher_def idem_init_inv table_ok_def waiters_ok_def)
qed (blast intro: step_ok)

section \<open>Properties\<close>

lemma distinct_count_le1: "distinct xs \<Longrightarrow> count_list xs x \<le> 1"
  by (induction xs) (auto simp: count_notin)

lemma start_duplicate:
  assumes "world_ok (st, run, ws)" "c \<in> set run" "rc_key c = Some (rid, scope, f)"
    and "validate_request_id r0 = Inr rid"
    and "dispatch_start env today now name a cl (Some r0) st = (r, st')"
  shows "(\<exists>e. r = Refused e) \<or> (\<exists>w. r = Waits w \<and> wt_rid w = rid \<and> wt_scope w = scope \<and> wt_future w = f)"
proof (cases "\<exists>a'. authorized env name a cl a'")
  case False
  then show ?thesis using start_unauthorized [OF False, of today now "Some r0" st] assms(5) by auto
next
  case True
  then obtain a' where a': "authorized env name a cl a'" ..
  have t: "table_ok st run" using assms(1) by simp
  note k = table_okD(2,5) [OF t assms(2,3)]
  have g: "idem_get now rid (Some (de_scope env (normalize_tool_name name) a' cl)) (dp_cache st) = (Inr None, dp_cache st)"
    using live_entry_absent [OF k(2)] by (simp add: idem_get_def)
  from start_keyed [OF a' assms(4) g, of today] assms(5) k(1) show ?thesis by (auto split: if_splits)
qed

text \<open>
  C1 No request is executed twice at once: in every state reachable by any interleaving of
  calls, completions, failures, resumptions and cancellations, at most one running call carries
  a given request id, and while it runs another dispatch under the same id is refused or waits
  for the future of exactly that call, under the same scope; it never reaches the tool.
\<close>

theorem one_execution_per_request:
  assumes "reachable env (st, run, ws)"
  shows "length (filter (\<lambda>c. \<exists>scope f. rc_key c = Some (rid, scope, f)) run) \<le> 1
    \<and> (\<forall>c \<in> set run. \<forall>scope f. rc_key c = Some (rid, scope, f) \<longrightarrow> validate_request_id r0 = Inr rid \<longrightarrow>
         (\<exists>e. fst (dispatch_start env today now name a cl (Some r0) st) = Refused e)
         \<or> (\<exists>w. fst (dispatch_start env today now name a cl (Some r0) st) = Waits w
               \<and> wt_rid w = rid \<and> wt_scope w = scope \<and> wt_future w = f))"
proof
  have ok: "world_ok (st, run, ws)" using reachable_ok [OF assms] .
  have len: "length (filter (\<lambda>c. \<exists>scope f. rc_key c = Some (rid, scope, f)) run) = count_list (rids run) rid"
    by (induction run) (auto split: option.splits)
  have "count_list (rids run) rid \<le> 1"
    using ok distinct_count_le1 [of "rids run" rid] by simp
  then show "length (filter (\<lambda>c. \<exists>scope f. rc_key c = Some (rid, scope, f)) run) \<le> 1" unfolding len .
  show "\<forall>c \<in> set run. \<forall>scope f. rc_key c = Some (rid, scope, f) \<longrightarrow> validate_request_id r0 = Inr rid \<longrightarrow>
         (\<exists>e. fst (dispatch_start env today now name a cl (Some r0) st) = Refused e)
         \<or> (\<exists>w. fst (dispatch_start env today now name a cl (Some r0) st) = Waits w
               \<and> wt_rid w = rid \<and> wt_scope w = scope \<and> wt_future w = f)"
    using start_duplicate [OF ok, where env = env and today = today and now = now and name = name and a = a and cl = cl]
    by (metis prod.collapse)
qed

definition demo_dispatch_env :: dispatch_env where
  "demo_dispatch_env = \<lparr>de_registered = (\<lambda>t. t = ''status''), de_parse = (\<lambda>_. None), de_risk = demo_env,
     de_scope = (\<lambda>t a cl. t @ cl_id cl), de_fingerprint = (\<lambda>t _. t)\<rparr>"

definition demo_dispatcher :: dispatcher where
  "demo_dispatcher = new_dispatcher \<lparr>be_caps = [], be_usage = []\<rparr> (loop_guard_init 3 3 8) (idem_init 300 16)"

definition demo_caller :: caller where
  "demo_caller = \<lparr>cl_id = ''u1'', cl_tier = ''owner''\<rparr>"

definition demo_start :: "started \<times> dispatcher" where
  "demo_start = dispatch_start demo_dispatch_env 1 0 ''status'' [] demo_caller (Some ''r1'') demo_dispatcher"

definition demo_call :: running_call where
  "demo_call = \<lparr>rc_tool = ''status'', rc_args = [], rc_caller = demo_caller, rc_key = Some (''r1'', ''statusu1'', 0),
     rc_tier = T0, rc_zone = Green\<rparr>"

lemma demo_start_runs: "fst demo_start = Runs demo_call"
  by code_simp

lemma demo_reachable: "reachable demo_dispatch_env (snd demo_start, [demo_call], [])"
proof -
  have "reachable demo_dispatch_env (demo_dispatcher, [], [])"
    unfolding demo_dispatcher_def by (rule reachable_init)
  moreover have "dispatch_step demo_dispatch_env 0 (request_key (Some ''r1'')) (demo_dispatcher, [], []) (snd demo_start, [demo_call], [])"
    using fst_pairD [OF demo_start_runs] unfolding demo_start_def by (rule start_run)
  ultimately show ?thesis by (rule reachable_step)
qed

lemma demo_id: "validate_request_id '' r1'' = Inr ''r1''"
  by code_simp

theorem one_execution_per_request_witness:
  "(\<exists>e. fst (dispatch_start demo_dispatch_env 1 5 ''status'' [] demo_caller (Some '' r1'') (snd demo_start)) = Refused e)
   \<or> (\<exists>w. fst (dispatch_start demo_dispatch_env 1 5 ''status'' [] demo_caller (Some '' r1'') (snd demo_start)) = Waits w
       \<and> wt_rid w = ''r1'' \<and> wt_scope w = ''statusu1'' \<and> wt_future w = 0)"
  using one_execution_per_request [OF demo_reachable, of "''r1''" "'' r1''" 1 5 "''status''" "[]" demo_caller]
  by (simp add: demo_id demo_call_def)

text \<open>Every step reads or writes the cache at most once, under its own id and at its own time.\<close>

lemma admit_cache: "dp_cache (snd (dispatch_admit env today tool a cl d key st)) = dp_cache st"
  by (auto simp: dispatch_admit_def Let_def split: prod.split sum.split option.split)

lemma start_cache:
  "dp_cache (snd (dispatch_start env today now name a cl request_id st)) = dp_cache st
    \<or> (\<exists>rid scope. request_key request_id = Some rid
        \<and> dp_cache (snd (dispatch_start env today now name a cl request_id st)) = snd (idem_get now rid scope (dp_cache st)))"
proof (cases "\<exists>a'. authorized env name a cl a'")
  case False
  from start_unauthorized [OF this, of today now request_id st] show ?thesis by auto
next
  case True
  then obtain a' where a': "authorized env name a cl a'" ..
  show ?thesis
  proof (cases request_id)
    case None
    then show ?thesis using start_anonymous [OF a'] by (simp add: admit_cache)
  next
    case (Some r)
    show ?thesis
    proof (cases "validate_request_id r")
      case (Inl e)
      from start_bad_id [OF this, of env today now name a cl st] Some show ?thesis by auto
    next
      case (Inr rid)
      obtain got cache where g: "idem_get now rid (Some (de_scope env (normalize_tool_name name) a' cl)) (dp_cache st) = (got, cache)" by force
      have "dp_cache (snd (dispatch_start env today now name a cl (Some r) st)) = cache"
        unfolding start_keyed [OF a' Inr g] by (auto simp: admit_cache split: sum.split option.split)
      then show ?thesis using Some Inr g by (auto simp: request_key_def intro!: exI [of _ "Some (de_scope env (normalize_tool_name name) a' cl)"])
    qed
  qed
qed

lemma finish_cache:
  "dp_cache (snd (dispatch_finish now today outcome c st)) = dp_cache st
    \<or> (\<exists>rid v scope. map_option fst (rc_key c) = Some rid
        \<and> dp_cache (snd (dispatch_finish now today outcome c st)) = snd (idem_put now rid v scope (dp_cache st)))"
proof (cases "rc_key c")
  case None
  then show ?thesis using dispatch_finish_anonymous [OF None prod.collapse [symmetric]] by blast
next
  case (Some key)
  then obtain rid scope f where key: "rc_key c = Some (rid, scope, f)" by (cases key) auto
  have "dp_cache (snd (dispatch_finish now today outcome c st)) = dp_cache (snd (finish_body now today outcome c st))"
    by (simp add: dispatch_finish_def key split: prod.split sum.split)
  moreover have "dp_cache (snd (finish_body now today outcome c st)) = dp_cache st
      \<or> dp_cache (snd (finish_body now today outcome c st)) = snd (idem_put now rid (result_dict (projr outcome)) (Some scope) (dp_cache st))"
    by (auto simp: finish_body_def key Let_def split: sum.split prod.split)
  ultimately show ?thesis using key by auto
qed

lemma resume_cache:
  assumes "dispatch_resume now w st = Some (r, st')"
  shows "dp_cache st' = dp_cache st \<or> dp_cache st' = snd (idem_get now (wt_rid w) (Some (wt_scope w)) (dp_cache st))"
  using assms by (auto simp: dispatch_resume_def Let_def split: option.splits sum.splits prod.splits)

lemma step_cache:
  "dispatch_step env now k w w' \<Longrightarrow> \<exists>es. dp_cache (fst w') = foldl idem_step (dp_cache (fst w)) es
    \<and> (\<forall>ev \<in> set es. Some (idem_key ev) = k \<and> idem_time ev = now)"
proof (induction rule: dispatch_step.induct)
  case (start_done today name a cl request_id st r st' run ws)
  from start_cache [of env today now name a cl request_id st] show ?case unfolding start_done(1)
    by (elim disjE exE conjE) (auto intro: exI [of _ "[]"] exI [of _ "[IdemGet now _ _]"])
next
  case (start_run today name a cl request_id st c st' run ws)
  from start_cache [of env today now name a cl request_id st] show ?case unfolding start_run(1)
    by (elim disjE exE conjE) (auto intro: exI [of _ "[]"] exI [of _ "[IdemGet now _ _]"])
next
  case (start_wait today name a cl request_id st w st' run ws)
  from start_cache [of env today now name a cl request_id st] show ?case unfolding start_wait(1)
    by (elim disjE exE conjE) (auto intro: exI [of _ "[]"] exI [of _ "[IdemGet now _ _]"])
next
  case (finish c run today outcome st r st' ws)
  from finish_cache [of now today outcome c st] show ?case unfolding finish(2)
    by (elim disjE exE conjE) (auto intro: exI [of _ "[]"] exI [of _ "[IdemPut now _ _ _]"])
next
  case (resume w ws st r st' run)
  from resume_cache [OF resume(2)] show ?case
    by (elim disjE) (auto intro: exI [of _ "[]"] exI [of _ "[IdemGet now _ _]"])
qed (auto intro: exI [of _ "[]"])

text \<open>An entry of the cache stays through a run within its time to live that uses fewer other ids than there is room for.\<close>

lemma run_finite: "dispatch_run env t0 w K t w' \<Longrightarrow> finite K \<and> t0 \<le> t"
  by (induction rule: dispatch_run.induct) auto

lemma run_kept:
  assumes "dispatch_run env t0 w K t w'" and "kept rid e m ttl {} (dp_cache (fst w))"
    and "card (K - {rid}) < m" and "t - ie_ts e \<le> ttl"
  shows "kept rid e m ttl (K - {rid}) (dp_cache (fst w'))"
  using assms
proof (induction rule: dispatch_run.induct)
  case (run_more K t w1 now k w2)
  have fin: "finite K" using run_finite [OF run_more(1)] by simp
  have "card (K - {rid}) \<le> card (K \<union> set_option k - {rid})" using fin by (intro card_mono) auto
  then have k1: "kept rid e m ttl (K - {rid}) (dp_cache (fst w1))" using run_more by auto
  obtain es where es: "dp_cache (fst w2) = foldl idem_step (dp_cache (fst w1)) es" "\<forall>ev \<in> set es. Some (idem_key ev) = k \<and> idem_time ev = now"
    using step_cache [OF run_more(3)] by blast
  have sub: "K - {rid} \<union> (set (map idem_key es) - {rid}) \<subseteq> K \<union> set_option k - {rid}" using es(2) by auto
  have f2: "finite (K \<union> set_option k - {rid})" using fin by (cases k) auto
  have "card (K - {rid} \<union> (set (map idem_key es) - {rid})) < m" using card_mono [OF f2 sub] run_more.prems(2) by simp
  then have "kept rid e m ttl (K - {rid} \<union> (set (map idem_key es) - {rid})) (dp_cache (fst w2))"
    unfolding es(1) using k1 fin es(2) run_more.prems(3) by (intro kept_run) auto
  then show ?case using sub unfolding kept_def by blast
qed simp

text \<open>
  C2 A finished request is replayed, not repeated: when a running call with a request id returns, its caller gets the tool's
  result. After any further run of calls, completions, failures, resumptions and cancellations on a clock that never goes
  back, a dispatch under the same id within the cache's time to live is answered with that very result if it is the same
  authorized operation, without a tool call, and refused if it is another one. The cache is bounded: the claim is for runs
  that use fewer other request ids than the cache holds entries (more may evict the result).
\<close>

theorem finished_request_replayed:
  assumes "reachable env (st, run, ws)" and "c \<in> set run" and "rc_key c = Some (rid, scope, f)"
    and "dispatch_finish now today (Inr v) c st = (r, st')"
    and "dispatch_run env now (st', remove1 c run, ws) K t (st'', run'', ws'')" and "card (K - {rid}) < ic_max_entries (dp_cache st)"
    and "t \<le> now'" and "now' - now \<le> ic_ttl_seconds (dp_cache st)"
    and "authorized env name a cl a'" and "validate_request_id r0 = Inr rid"
  shows "(\<exists>x. r = Inr x \<and> dr_result x = result_dict v \<and> dr_ok x = result_ok (result_dict v))
    \<and> (if de_scope env (normalize_tool_name name) a' cl = scope
       then fst (dispatch_start env today' now' name a cl (Some r0) st'')
              = Answered (cached_result (normalize_tool_name name) (result_dict v))
       else \<exists>e. fst (dispatch_start env today' now' name a cl (Some r0) st'') = Refused e)"
proof -
  have ok: "world_ok (st, run, ws)" using reachable_ok [OF assms(1)] .
  then have tb: "table_ok st run" and inv: "idem_inv (dp_cache st)" by auto
  note k = table_okD(2-5) [OF tb assms(2,3)]
  note fin = dispatch_finish_keyed [OF assms(3) k(4,3,1) assms(4)]
  define e where "e = \<lparr>ie_result = result_dict v, ie_ts = now, ie_scope = Some scope\<rparr>"
  have "kept rid e (ic_max_entries (dp_cache st)) (ic_ttl_seconds (dp_cache st)) {} (dp_cache st')"
    using put_kept [OF inv live_entry_absent [OF k(4)]] fin by (simp add: e_def)
  then have "kept rid e (ic_max_entries (dp_cache st)) (ic_ttl_seconds (dp_cache st)) (K - {rid}) (dp_cache st'')"
    using run_kept [OF assms(5), of rid e] assms(6-8) by (simp add: e_def)
  then have "map_of (ic_store (dp_cache st'')) rid = Some e" "ic_ttl_seconds (dp_cache st'') = ic_ttl_seconds (dp_cache st)"
    by (auto simp: kept_lookup) (simp add: kept_def)
  then have "fst (idem_get now' rid (Some (de_scope env (normalize_tool_name name) a' cl)) (dp_cache st'')) =
      (if de_scope env (normalize_tool_name name) a' cl = scope then Inr (Some (result_dict v)) else Inl IdempotencyConflict)"
    using assms(8) by (auto simp: idem_get_def live_entry_def e_def)
  from start_keyed [OF assms(9,10) fst_pairD [OF this], of today'] fin show ?thesis by auto
qed

lemma demo_authorized: "authorized demo_dispatch_env ''status'' [] demo_caller []"
  by code_simp

definition demo_finished :: dispatcher where
  "demo_finished = snd (dispatch_finish 2 1 (Inr (PInt 7)) demo_call (snd demo_start))"

definition demo_second :: "started \<times> dispatcher" where
  "demo_second = dispatch_start demo_dispatch_env 1 3 ''status'' [] demo_caller (Some ''r2'') demo_finished"

definition demo_second_call :: running_call where
  "demo_second_call = demo_call\<lparr>rc_key := Some (''r2'', ''statusu1'', 1)\<rparr>"

lemma demo_second_runs: "fst demo_second = Runs demo_second_call"
  by code_simp

lemma demo_second_key: "request_key (Some ''r2'') = Some ''r2''"
  by code_simp

text \<open>A second request starts and fails between the end of the first and its replay.\<close>

lemma demo_traffic:
  "dispatch_run demo_dispatch_env 2 (demo_finished, [], []) {''r2''} 4
     (snd (dispatch_finish 4 1 (Inl (ValueError ''x'')) demo_second_call (snd demo_second)), [], [])"
proof -
  have "dispatch_step demo_dispatch_env 3 (Some ''r2'') (demo_finished, [], []) (snd demo_second, [demo_second_call], [])"
    using start_run [OF fst_pairD [OF demo_second_runs, unfolded demo_second_def], where run = "[]" and ws = "[]"] by (simp add: demo_second_key demo_second_def)
  from run_more [OF run_none _ this, of 2]
  have r1: "dispatch_run demo_dispatch_env 2 (demo_finished, [], []) {''r2''} 3 (snd demo_second, [demo_second_call], [])" by simp
  have "dispatch_step demo_dispatch_env 4 (Some ''r2'') (snd demo_second, [demo_second_call], [])
      (snd (dispatch_finish 4 1 (Inl (ValueError ''x'')) demo_second_call (snd demo_second)), [], [])"
    using finish [OF _ prod.collapse [symmetric], where c = demo_second_call and run = "[demo_second_call]" and ws = "[]" and now = 4 and today = 1
      and outcome = "Inl (ValueError ''x'')" and st = "snd demo_second" and env = demo_dispatch_env] by (simp add: demo_second_call_def)
  from run_more [OF r1 _ this] show ?thesis by simp
qed

theorem finished_request_replayed_witness:
  "fst (dispatch_start demo_dispatch_env 1 5 ''status'' [] demo_caller (Some '' r1'')
      (snd (dispatch_finish 4 1 (Inl (ValueError ''x'')) demo_second_call (snd demo_second))))
    = Answered (cached_result ''status'' (result_dict (PInt 7)))"
proof -
  have ttl: "(5::real) - 2 \<le> ic_ttl_seconds (dp_cache (snd demo_start))" by code_simp
  have m: "ic_max_entries (dp_cache (snd demo_start)) = 16" by code_simp
  have c: "demo_call \<in> set [demo_call]" "rc_key demo_call = Some (''r1'', ''statusu1'', 0)"
    by (simp_all add: demo_call_def)
  have n: "normalize_tool_name ''status'' = ''status''" by code_simp
  have s: "de_scope demo_dispatch_env ''status'' [] demo_caller = ''statusu1''"
    by (simp add: demo_dispatch_env_def demo_caller_def)
  have run: "dispatch_run demo_dispatch_env 2 (snd (dispatch_finish 2 1 (Inr (PInt 7)) demo_call (snd demo_start)), remove1 demo_call [demo_call], [])
      {''r2''} 4 (snd (dispatch_finish 4 1 (Inl (ValueError ''x'')) demo_second_call (snd demo_second)), [], [])"
    using demo_traffic by (simp add: demo_finished_def)
  show ?thesis
    using finished_request_replayed [OF demo_reachable c prod.collapse [symmetric] run _ _ ttl demo_authorized demo_id] n s m by simp
qed

text \<open>
  C3 Waiting calls end, with the outcome of the call they wait for: in every reachable state the
  call a waiter waits for is still running under its id and scope, or the waiter can resume; and
  when that call completes, a waiter that resumes next and within the cache's time to live gets its result, or the exception it raised (a
  \<open>DispatchError\<close> in the place of a \<open>TypeError\<close>).
\<close>

theorem waiters_get_the_outcome:
  assumes "reachable env (st, run, ws)" and "w \<in> set ws"
  shows "((\<exists>c \<in> set run. rc_key c = Some (wt_rid w, wt_scope w, wt_future w)) \<or> dispatch_resume now w st \<noteq> None)
    \<and> (\<forall>c \<in> set run. rc_key c = Some (wt_rid w, wt_scope w, wt_future w) \<longrightarrow>
         now' - now \<le> ic_ttl_seconds (dp_cache st) \<longrightarrow>
         (\<forall>v. map_option fst (dispatch_resume now' w (snd (dispatch_finish now today (Inr v) c st)))
                 = Some (Inr (cached_result (wt_tool w) (result_dict v))))
         \<and> (\<forall>e. map_option fst (dispatch_resume now' w (snd (dispatch_finish now today (Inl e) c st)))
                 = Some (Inl (case e of TypeError m \<Rightarrow> DispatchError m | _ \<Rightarrow> e))))"
proof (intro conjI ballI allI impI)
  have ok: "world_ok (st, run, ws)" using reachable_ok [OF assms(1)] .
  then have t: "table_ok st run" and inv: "idem_inv (dp_cache st)" and wk: "waiters_ok st ws" by auto
  have "map_of (dp_done st) (wt_future w) \<noteq> None \<Longrightarrow> dispatch_resume now w st \<noteq> None"
    by (auto simp: dispatch_resume_def Let_def split: sum.splits prod.splits)
  then show "(\<exists>c \<in> set run. rc_key c = Some (wt_rid w, wt_scope w, wt_future w)) \<or> dispatch_resume now w st \<noteq> None"
    using wk assms(2) table_okD(1) [OF t] unfolding waiters_ok_def by blast
  fix c assume c: "c \<in> set run" "rc_key c = Some (wt_rid w, wt_scope w, wt_future w)"
    and ttl: "now' - now \<le> ic_ttl_seconds (dp_cache st)"
  note k = table_okD(2-5) [OF t c]
  note fin = dispatch_finish_keyed [OF c(2) k(4,3,1) prod.collapse [symmetric]]
  show "map_option fst (dispatch_resume now' w (snd (dispatch_finish now today (Inr v) c st)))
         = Some (Inr (cached_result (wt_tool w) (result_dict v)))" for v
  proof -
    let ?st' = "snd (dispatch_finish now today (Inr v) c st)"
    have f: "dp_done ?st' = dset (wt_future w) (Inr ()) (dp_done st)"
      "dp_cache ?st' = snd (idem_put now (wt_rid w) (result_dict v) (Some (wt_scope w)) (dp_cache st))"
      using fin [of now today "Inr v"] by auto
    have miss: "idem_get now (wt_rid w) (Some (wt_scope w)) (dp_cache st) = (Inr None, dp_cache st)"
      using live_entry_absent [OF k(4)] by (simp add: idem_get_def)
    have "fst (idem_get now' (wt_rid w) (Some (wt_scope w)) (dp_cache ?st')) = Inr (Some (result_dict v))"
      using icc.put_then_get [OF inv, of now "wt_rid w" "Some (wt_scope w)" now' "Some (wt_scope w)" "result_dict v"]
        miss ttl f(2) by simp
    note g = fst_pairD [OF this]
    show ?thesis unfolding dispatch_resume_def f(1) by (subst g) simp
  qed
  show "map_option fst (dispatch_resume now' w (snd (dispatch_finish now today (Inl e) c st)))
         = Some (Inl (case e of TypeError m \<Rightarrow> DispatchError m | _ \<Rightarrow> e))" for e
    using fin [of now today "Inl e"] by (simp add: dispatch_resume_def)
qed

definition demo_waiter :: waiter where
  "demo_waiter = \<lparr>wt_tool = ''status'', wt_rid = ''r1'', wt_scope = ''statusu1'', wt_future = 0\<rparr>"

lemma demo_waits: "dispatch_start demo_dispatch_env 1 1 ''status'' [] demo_caller (Some ''r1'') (snd demo_start)
    = (Waits demo_waiter, snd demo_start)"
  by code_simp

theorem waiters_get_the_outcome_witness:
  "map_option fst (dispatch_resume 3 demo_waiter (snd (dispatch_finish 2 1 (Inr PNone) demo_call (snd demo_start))))
     = Some (Inr (cached_result ''status'' (result_dict PNone)))"
proof -
  have "reachable demo_dispatch_env (snd demo_start, [demo_call], [demo_waiter])"
    using reachable_step [OF demo_reachable] start_wait [OF demo_waits] by blast
  moreover have "(3::real) - 2 \<le> ic_ttl_seconds (dp_cache (snd demo_start))" by code_simp
  ultimately show ?thesis
    using waiters_get_the_outcome [of demo_dispatch_env "snd demo_start" "[demo_call]" "[demo_waiter]" demo_waiter 2 3 1]
    by (simp add: demo_call_def demo_waiter_def)
qed

end
