(* ===== verification/Event_Chain.thy ===== *)
theory Event_Chain
  imports PyDict "HOL-Library.List_Lexorder" "HOL-Library.Char_ord"
begin

text \<open>
  \<open>norax/verify_event_chain.py\<close>: the verifier of the hash-chained event log, for one file and for
  all rotated generations.

  Parameters (\<open>chain_env\<close>): the hex digest of SHA-256, \<open>json.loads\<close>, the sorted compact
  \<open>json.dumps\<close> that is hashed (\<open>None\<close> when it raises) and the compact \<open>json.dumps\<close> that is written.
  A file is what opening and reading it gives: an error, or its lines, each already classified
  as oversized, not UTF-8, or a text.
\<close>

section \<open>Data\<close>

record chain_env =
  ce_sha :: "string \<Rightarrow> string"
  ce_loads :: "string \<Rightarrow> pyval option"
  ce_dumps :: "pyval \<Rightarrow> string option"
  ce_line :: "pyval \<Rightarrow> string"

datatype line = Oversized | Undecodable | Text string

datatype log_file = Missing | Open_error | Not_regular | Too_large | Lines "line list"

datatype line_error =
    Line_too_large | Invalid_utf8 | Json_decode | Record_not_object | Invalid_prev_hash | Invalid_hash
  | Record_encode | Cross_file_mismatch | Prev_hash_mismatch | Hash_mismatch

datatype file_error =
    Invalid_limit | Invalid_expected_prev_hash | File_missing | File_read_error | File_too_large
  | At_line nat line_error

definition hex_digit :: "char \<Rightarrow> bool" where
  "hex_digit c = (is_digit c \<or> c \<in> set ''abcdef'')"

definition valid_hash_str :: "string \<Rightarrow> bool" where
  "valid_hash_str s \<longleftrightarrow> length s = 64 \<and> list_all hex_digit s"

definition valid_hash :: "pyval \<Rightarrow> bool" where
  "valid_hash v = (case v of PStr s \<Rightarrow> valid_hash_str s | _ \<Rightarrow> False)"

definition genesis :: string where
  "genesis = replicate 64 (CHR ''0'')"

section \<open>One file\<close>

record scan =
  sc_line_no :: nat
  sc_records :: nat
  sc_valid :: nat
  sc_corrupt :: nat
  sc_previous :: "string option"
  sc_first_prev :: string
  sc_tail :: string
  sc_error :: "(nat \<times> line_error) option"

definition scan_init :: "string option \<Rightarrow> scan" where
  "scan_init expected = \<lparr>sc_line_no = 0, sc_records = 0, sc_valid = 0, sc_corrupt = 0, sc_previous = expected,
     sc_first_prev = [], sc_tail = genesis, sc_error = None\<rparr>"

text \<open>\<open>if first_error is None: first_error = ...\<close>\<close>

definition note_error :: "line_error \<Rightarrow> scan \<Rightarrow> scan" where
  "note_error e s = (if sc_error s = None then s\<lparr>sc_error := Some (sc_line_no s, e)\<rparr> else s)"

definition corrupt :: "line_error \<Rightarrow> scan \<Rightarrow> scan" where
  "corrupt e s = note_error e (s\<lparr>sc_corrupt := Suc (sc_corrupt s)\<rparr>)"

definition move_tail :: "string \<Rightarrow> scan \<Rightarrow> scan" where
  "move_tail h s = s\<lparr>sc_previous := Some h, sc_tail := h\<rparr>"

definition record_body :: "(string, pyval) dict \<Rightarrow> pyval" where
  "record_body rec = PDict (ddel ''hash'' rec)"

text \<open>A record whose two hashes are well formed.\<close>

definition scan_hashes :: "chain_env \<Rightarrow> string option \<Rightarrow> (string, pyval) dict \<Rightarrow> string \<Rightarrow> string \<Rightarrow> scan \<Rightarrow> scan" where
  "scan_hashes env expected rec prev_hash got_hash s =
     (case ce_dumps env (record_body rec) of
        None \<Rightarrow> move_tail got_hash (corrupt Record_encode s)
      | Some body \<Rightarrow>
          let digest = ce_sha env (prev_hash @ body);
              linked = (sc_previous s = None \<or> sc_previous s = Some prev_hash);
              s1 = (if linked then s
                    else note_error (if sc_records s = 1 \<and> expected \<noteq> None then Cross_file_mismatch
                                     else Prev_hash_mismatch) s);
              s2 = (if got_hash \<noteq> digest then note_error Hash_mismatch s1 else s1)
          in move_tail got_hash
               (if got_hash = digest \<and> linked then s2\<lparr>sc_valid := Suc (sc_valid s2)\<rparr>
                else s2\<lparr>sc_corrupt := Suc (sc_corrupt s2)\<rparr>))"

definition scan_record :: "chain_env \<Rightarrow> string option \<Rightarrow> (string, pyval) dict \<Rightarrow> scan \<Rightarrow> scan" where
  "scan_record env expected rec s0 =
     (let raw_got = pget (PDict rec) ''hash''; raw_prev = pget (PDict rec) ''prev_hash'';
          s = (case raw_prev of PStr p \<Rightarrow> if sc_first_prev s0 = [] then s0\<lparr>sc_first_prev := p\<rparr> else s0 | _ \<Rightarrow> s0)
      in if \<not> valid_hash raw_prev
         then (case raw_got of
                 PStr g \<Rightarrow> if valid_hash raw_got then move_tail g (corrupt Invalid_prev_hash s)
                           else corrupt Invalid_prev_hash s
               | _ \<Rightarrow> corrupt Invalid_prev_hash s)
         else (case (raw_prev, raw_got) of
                 (PStr p, PStr g) \<Rightarrow> if valid_hash raw_got then scan_hashes env expected rec p g s
                                     else corrupt Invalid_hash s
               | _ \<Rightarrow> corrupt Invalid_hash s))"

definition count_record :: "scan \<Rightarrow> scan" where
  "count_record s = s\<lparr>sc_records := Suc (sc_records s)\<rparr>"

definition scan_text :: "chain_env \<Rightarrow> string option \<Rightarrow> string \<Rightarrow> scan \<Rightarrow> scan" where
  "scan_text env expected text s =
     (if py_strip text = [] then s
      else let s1 = count_record s in
        case ce_loads env text of
          None \<Rightarrow> corrupt Json_decode s1
        | Some (PDict rec) \<Rightarrow> scan_record env expected rec s1
        | Some _ \<Rightarrow> corrupt Record_not_object s1)"

definition scan_line :: "chain_env \<Rightarrow> string option \<Rightarrow> line \<Rightarrow> scan \<Rightarrow> scan" where
  "scan_line env expected l s =
     (case l of
        Oversized \<Rightarrow> corrupt Line_too_large (count_record s)
      | Undecodable \<Rightarrow> corrupt Invalid_utf8 (count_record s)
      | Text t \<Rightarrow> scan_text env expected t s)"

fun scan_lines :: "chain_env \<Rightarrow> string option \<Rightarrow> nat option \<Rightarrow> line list \<Rightarrow> scan \<Rightarrow> scan" where
  "scan_lines env expected limit [] s = s"
| "scan_lines env expected limit (l # ls) s =
     (let s1 = s\<lparr>sc_line_no := Suc (sc_line_no s)\<rparr> in
      if (case limit of Some n \<Rightarrow> sc_records s1 \<ge> n | None \<Rightarrow> False) then s1
      else scan_lines env expected limit ls (scan_line env expected l s1))"

record verdict =
  vd_ok :: bool
  vd_records :: nat
  vd_valid :: nat
  vd_corrupt :: nat
  vd_first_prev :: string
  vd_tail :: "string option"
  vd_error :: "file_error option"

definition failed :: "file_error \<Rightarrow> verdict" where
  "failed e = \<lparr>vd_ok = False, vd_records = 0, vd_valid = 0, vd_corrupt = 0, vd_first_prev = [], vd_tail = None,
     vd_error = Some e\<rparr>"

text \<open>\<open>limit\<close> is \<open>None\<close>, or an integer that the check below finds positive.\<close>

definition verify_single_file :: "chain_env \<Rightarrow> string option \<Rightarrow> int option \<Rightarrow> log_file \<Rightarrow> verdict" where
  "verify_single_file env expected limit file =
     (if (case limit of Some n \<Rightarrow> n \<le> 0 | None \<Rightarrow> False) then failed Invalid_limit
      else if (case expected of Some h \<Rightarrow> \<not> valid_hash_str h | None \<Rightarrow> False) then failed Invalid_expected_prev_hash
      else case file of
        Missing \<Rightarrow> failed File_missing
      | Open_error \<Rightarrow> failed File_read_error
      | Not_regular \<Rightarrow> failed File_read_error
      | Too_large \<Rightarrow> failed File_too_large
      | Lines ls \<Rightarrow>
          let s = scan_lines env expected (map_option nat limit) ls (scan_init expected) in
          \<lparr>vd_ok = (sc_corrupt s = 0 \<and> sc_records s > 0), vd_records = sc_records s, vd_valid = sc_valid s,
           vd_corrupt = sc_corrupt s, vd_first_prev = sc_first_prev s, vd_tail = Some (sc_tail s),
           vd_error = map_option (\<lambda>(n, e). At_line n e) (sc_error s)\<rparr>)"

section \<open>All generations\<close>

text \<open>The regular expression of the rotated names, and the timestamp brought to microseconds.\<close>

definition all_digits :: "nat \<Rightarrow> string \<Rightarrow> bool" where
  "all_digits n s \<longleftrightarrow> length s = n \<and> list_all is_digit s"

definition is_stamp :: "string \<Rightarrow> bool" where
  "is_stamp t \<longleftrightarrow> all_digits 8 (take 8 t) \<and> take 1 (drop 8 t) = ''T''
     \<and> (all_digits 6 (take 6 (drop 9 t)) \<and> drop 15 t = ''Z''
        \<or> all_digits 12 (take 12 (drop 9 t)) \<and> drop 21 t = ''Z'')"

definition suffix_ok :: "string \<Rightarrow> bool" where
  "suffix_ok s \<longleftrightarrow> s = [] \<or> (take 1 s = ''-'' \<and> drop 1 s \<noteq> []
     \<and> list_all (\<lambda>c. is_digit c \<or> (let n = (of_char c :: nat) in 65 \<le> n \<and> n \<le> 90)) (drop 1 s))"

definition parse_rotation_timestamp :: "string \<Rightarrow> string" where
  "parse_rotation_timestamp name =
     (let k = length name - 6; core = drop 7 (take k name);
          stamp = takeWhile (\<lambda>c. c \<noteq> CHR ''-'') core
      in if take 7 name = ''events-'' \<and> 13 \<le> length name \<and> drop k name = ''.jsonl''
            \<and> is_stamp stamp \<and> suffix_ok (drop (length stamp) core)
         then (if length stamp = 16 then take 15 stamp @ ''000000Z'' else stamp)
         else [])"

record anchor_data =
  an_rotated :: string
  an_tail :: string

text \<open>\<open>json.loads\<close> of the anchor's text; \<open>None\<close> when reading or parsing raises.\<close>

definition parse_anchor :: "pyval option \<Rightarrow> anchor_data option" where
  "parse_anchor v =
     (case v of
        Some (PDict d) \<Rightarrow>
          (case (pget (PDict d) ''rotated'', pget (PDict d) ''tail_hash'') of
             (PStr r, PStr t) \<Rightarrow> if path_name r = r \<and> valid_hash_str t then Some \<lparr>an_rotated = r, an_tail = t\<rparr> else None
           | _ \<Rightarrow> None)
      | _ \<Rightarrow> None)"

record state_dir =
  sd_rotated :: "(string \<times> log_file) list" \<comment> \<open>the files \<open>events-*.jsonl\<close>, in directory order\<close>
  sd_current :: "log_file option" \<comment> \<open>None when \<open>events.jsonl\<close> does not exist\<close>
  sd_anchor :: "pyval option option" \<comment> \<open>None when there is no anchor file\<close>

datatype anchor_error = Invalid_anchor | Anchor_without_rotated_file | Anchor_rotation_mismatch | Anchor_tail_hash_mismatch

datatype dir_error = Too_many_rotation_files | Invalid_rotation_filename | No_event_files_found

record generations =
  ge_ok :: bool
  ge_count :: nat
  ge_records :: nat
  ge_valid :: nat
  ge_corrupt :: nat
  ge_root :: string
  ge_tail :: string
  ge_anchor_error :: "anchor_error option"
  ge_files :: "verdict list"

definition max_rotations :: nat where
  "max_rotations = 10000"

fun verify_files :: "chain_env \<Rightarrow> string option \<Rightarrow> log_file list \<Rightarrow> verdict list" where
  "verify_files env prev [] = []"
| "verify_files env prev (f # fs) =
     (let r = verify_single_file env prev None f in r # verify_files env (vd_tail r) fs)"

definition sort_rotated :: "(string \<times> log_file) list \<Rightarrow> (string \<times> log_file) list" where
  "sort_rotated fs = sort_key (\<lambda>f. parse_rotation_timestamp (fst f)) fs"

definition check_anchor :: "pyval option option \<Rightarrow> (string \<times> log_file) list \<Rightarrow> verdict list \<Rightarrow> anchor_error option" where
  "check_anchor anchor rotated results =
     (case anchor of
        None \<Rightarrow> None
      | Some v \<Rightarrow>
          (case parse_anchor v of
             None \<Rightarrow> Some Invalid_anchor
           | Some a \<Rightarrow>
               if rotated = [] then Some Anchor_without_rotated_file
               else if an_rotated a \<noteq> fst (last rotated) then Some Anchor_rotation_mismatch
               else if Some (an_tail a) \<noteq> vd_tail (results ! (length rotated - 1)) then Some Anchor_tail_hash_mismatch
               else None))"

definition verify_all_generations :: "chain_env \<Rightarrow> state_dir \<Rightarrow> dir_error + generations" where
  "verify_all_generations env d =
     (if length (sd_rotated d) > max_rotations then Inl Too_many_rotation_files
      else if list_ex (\<lambda>f. parse_rotation_timestamp (fst f) = []) (sd_rotated d) then Inl Invalid_rotation_filename
      else let rotated = sort_rotated (sd_rotated d);
               all = map snd rotated @ (case sd_current d of Some f \<Rightarrow> [f] | None \<Rightarrow> [])
      in if all = [] then Inl No_event_files_found
         else let results = verify_files env None all;
                  an = check_anchor (sd_anchor d) rotated results
              in Inr \<lparr>ge_ok = (list_all vd_ok results \<and> an = None), ge_count = length all,
                   ge_records = sum_list (map vd_records results), ge_valid = sum_list (map vd_valid results),
                   ge_corrupt = sum_list (map vd_corrupt results), ge_root = vd_first_prev (hd results),
                   ge_tail = (case vd_tail (last results) of Some t \<Rightarrow> t | None \<Rightarrow> []),
                   ge_anchor_error = an, ge_files = results\<rparr>)"

section \<open>What a verified file is\<close>

text \<open>The linking hash, the hashed text and the own hash of a well-formed record.\<close>

definition entry :: "chain_env \<Rightarrow> string \<Rightarrow> (string \<times> string \<times> string) option" where
  "entry env t =
     (case ce_loads env t of
        Some (PDict rec) \<Rightarrow>
          (case (pget (PDict rec) ''prev_hash'', pget (PDict rec) ''hash'', ce_dumps env (record_body rec)) of
             (PStr p, PStr g, Some b) \<Rightarrow> if valid_hash_str p \<and> valid_hash_str g then Some (p, b, g) else None
           | _ \<Rightarrow> None)
      | _ \<Rightarrow> None)"

definition blank :: "line \<Rightarrow> bool" where
  "blank l = (case l of Text t \<Rightarrow> py_strip t = [] | _ \<Rightarrow> False)"

definition line_entry :: "chain_env \<Rightarrow> line \<Rightarrow> (string \<times> string \<times> string) option" where
  "line_entry env l = (case l of Text t \<Rightarrow> entry env t | _ \<Rightarrow> None)"

definition links :: "string option \<Rightarrow> string \<Rightarrow> bool" where
  "links prev p \<longleftrightarrow> prev = None \<or> prev = Some p"

fun chain_ok :: "chain_env \<Rightarrow> string option \<Rightarrow> (string \<times> string \<times> string) list \<Rightarrow> bool" where
  "chain_ok env prev [] = True"
| "chain_ok env prev ((p, b, g) # es) \<longleftrightarrow> links prev p \<and> g = ce_sha env (p @ b) \<and> chain_ok env (Some g) es"

text \<open>The records of a file, when every line that is not blank holds one.\<close>

fun file_entries :: "chain_env \<Rightarrow> line list \<Rightarrow> (string \<times> string \<times> string) list option" where
  "file_entries env [] = Some []"
| "file_entries env (l # ls) =
     (if blank l then file_entries env ls
      else case line_entry env l of None \<Rightarrow> None | Some e \<Rightarrow> map_option ((#) e) (file_entries env ls))"

lemma note_error_simps [simp]:
  "sc_corrupt (note_error e s) = sc_corrupt s" "sc_records (note_error e s) = sc_records s"
  "sc_valid (note_error e s) = sc_valid s" "sc_previous (note_error e s) = sc_previous s"
  "sc_tail (note_error e s) = sc_tail s" "sc_line_no (note_error e s) = sc_line_no s"
  by (simp_all add: note_error_def)

lemma corrupt_simps [simp]:
  "sc_corrupt (corrupt e s) = Suc (sc_corrupt s)" "sc_records (corrupt e s) = sc_records s"
  by (simp_all add: corrupt_def)

lemma move_tail_simps [simp]:
  "sc_corrupt (move_tail h s) = sc_corrupt s" "sc_records (move_tail h s) = sc_records s"
  "sc_previous (move_tail h s) = Some h" "sc_tail (move_tail h s) = h"
  by (simp_all add: move_tail_def)

lemma count_record_simps [simp]:
  "sc_corrupt (count_record s) = sc_corrupt s" "sc_records (count_record s) = Suc (sc_records s)"
  "sc_previous (count_record s) = sc_previous s" "sc_tail (count_record s) = sc_tail s"
  by (simp_all add: count_record_def)

lemma scan_hashes_effect:
  "sc_records (scan_hashes env expected rec p g s) = sc_records s"
  "sc_tail (scan_hashes env expected rec p g s) = g"
  "sc_previous (scan_hashes env expected rec p g s) = Some g"
  "sc_corrupt (scan_hashes env expected rec p g s) =
     (case ce_dumps env (record_body rec) of
        Some b \<Rightarrow> if links (sc_previous s) p \<and> g = ce_sha env (p @ b) then sc_corrupt s else Suc (sc_corrupt s)
      | None \<Rightarrow> Suc (sc_corrupt s))"
  by (auto simp: scan_hashes_def Let_def links_def split: option.split)

text \<open>One line: a blank one changes nothing; a linked record is counted and becomes the tail;
  everything else is one more corrupt record.\<close>

definition accepted :: "chain_env \<Rightarrow> scan \<Rightarrow> line \<Rightarrow> bool" where
  "accepted env s l = (case line_entry env l of
      Some (p, b, g) \<Rightarrow> links (sc_previous s) p \<and> g = ce_sha env (p @ b) | None \<Rightarrow> False)"

lemma scan_line_blank: "blank l \<Longrightarrow> scan_line env expected l s = s"
  by (auto simp: blank_def scan_line_def scan_text_def split: line.splits)

lemma scan_line_records: "\<not> blank l \<Longrightarrow> sc_records (scan_line env expected l s) = Suc (sc_records s)"
  by (auto simp: blank_def scan_line_def scan_text_def scan_record_def Let_def scan_hashes_effect
      split: line.splits option.splits pyval.splits)

lemma scan_record_effect:
  "sc_corrupt (scan_record env expected rec s) =
    (case (pget (PDict rec) ''prev_hash'', pget (PDict rec) ''hash'', ce_dumps env (record_body rec)) of
       (PStr p, PStr g, Some b) \<Rightarrow>
         if valid_hash_str p \<and> valid_hash_str g \<and> links (sc_previous s) p \<and> g = ce_sha env (p @ b)
         then sc_corrupt s else Suc (sc_corrupt s)
     | _ \<Rightarrow> Suc (sc_corrupt s))"
  by (auto simp: scan_record_def Let_def scan_hashes_effect valid_hash_def split: pyval.splits option.splits)

lemma scan_record_tail:
  assumes "pget (PDict rec) ''prev_hash'' = PStr p" "pget (PDict rec) ''hash'' = PStr g"
    and "valid_hash_str p" "valid_hash_str g"
  shows "sc_previous (scan_record env expected rec s) = Some g" "sc_tail (scan_record env expected rec s) = g"
  using assms by (auto simp: scan_record_def Let_def scan_hashes_effect valid_hash_def)

lemma entry_dict:
  assumes "entry env t = Some (p, b, g)"
  shows "\<exists>rec. ce_loads env t = Some (PDict rec) \<and> pget (PDict rec) ''prev_hash'' = PStr p
    \<and> pget (PDict rec) ''hash'' = PStr g \<and> ce_dumps env (record_body rec) = Some b \<and> valid_hash_str p \<and> valid_hash_str g"
  using assms by (auto simp: entry_def simp del: pget.simps split: option.splits pyval.splits if_splits)

lemma scan_line_corrupt:
  assumes "\<not> blank l"
  shows "sc_corrupt (scan_line env expected l s) = (if accepted env s l then sc_corrupt s else Suc (sc_corrupt s))"
proof (cases l)
  case (Text t)
  with assms have nb: "py_strip t \<noteq> []" by (simp add: blank_def)
  show ?thesis
  proof (cases "ce_loads env t")
    case (Some v)
    show ?thesis
    proof (cases v)
      case (PDict rec)
      show ?thesis using Text nb Some PDict
        by (auto simp: scan_line_def scan_text_def scan_record_effect accepted_def line_entry_def entry_def Let_def
            simp del: pget.simps split: pyval.splits option.splits if_splits)
    qed (use Text nb Some in \<open>simp_all add: scan_line_def scan_text_def accepted_def line_entry_def entry_def Let_def\<close>)
  qed (use Text nb in \<open>simp add: scan_line_def scan_text_def accepted_def line_entry_def entry_def Let_def\<close>)
qed (simp_all add: scan_line_def accepted_def line_entry_def)

lemma scan_line_tail:
  assumes "\<not> blank l" "line_entry env l = Some (p, b, g)"
  shows "sc_previous (scan_line env expected l s) = Some g \<and> sc_tail (scan_line env expected l s) = g"
proof (cases l)
  case (Text t)
  with assms have nb: "py_strip t \<noteq> []" and e: "entry env t = Some (p, b, g)" by (auto simp: blank_def line_entry_def)
  obtain rec where "ce_loads env t = Some (PDict rec)" "pget (PDict rec) ''prev_hash'' = PStr p"
    "pget (PDict rec) ''hash'' = PStr g" "valid_hash_str p" "valid_hash_str g" using entry_dict [OF e] by blast
  then show ?thesis using Text nb scan_record_tail by (simp add: scan_line_def scan_text_def Let_def del: pget.simps)
qed (use assms(2) in \<open>auto simp: line_entry_def\<close>)

lemma scan_lines_corrupt_mono: "sc_corrupt s \<le> sc_corrupt (scan_lines env expected limit ls s)"
proof (induction ls arbitrary: s)
  case (Cons l ls)
  let ?s1 = "s\<lparr>sc_line_no := Suc (sc_line_no s)\<rparr>"
  have "sc_corrupt s \<le> sc_corrupt (scan_line env expected l ?s1)"
    by (cases "blank l") (simp_all add: scan_line_blank scan_line_corrupt)
  then show ?case using Cons.IH [of "scan_line env expected l ?s1"] by (auto simp: Let_def)
qed simp

lemma scan_lines_ok:
  assumes "sc_corrupt s = 0"
  shows "sc_corrupt (scan_lines env expected None ls s) = 0 \<longleftrightarrow>
    (\<exists>es. file_entries env ls = Some es \<and> chain_ok env (sc_previous s) es)"
  using assms
proof (induction ls arbitrary: s)
  case (Cons l ls)
  let ?s1 = "s\<lparr>sc_line_no := Suc (sc_line_no s)\<rparr>"
  let ?s2 = "scan_line env expected l ?s1"
  show ?case
  proof (cases "blank l")
    case True
    then show ?thesis using Cons.IH [of ?s1] Cons.prems by (simp add: scan_line_blank Let_def)
  next
    case False
    show ?thesis
    proof (cases "accepted env ?s1 l")
      case True
      then obtain p b g where e: "line_entry env l = Some (p, b, g)" "links (sc_previous s) p" "g = ce_sha env (p @ b)"
        by (auto simp: accepted_def split: option.splits)
      have "sc_corrupt ?s2 = 0" using scan_line_corrupt [OF False] True Cons.prems by simp
      from Cons.IH [OF this] scan_line_tail [OF False e(1)] show ?thesis using False e by (auto simp: Let_def)
    next
      case notacc: False
      have "0 < sc_corrupt ?s2" using scan_line_corrupt [OF False, of env expected ?s1] notacc by simp
      then have "sc_corrupt (scan_lines env expected None ls ?s2) \<noteq> 0"
        using scan_lines_corrupt_mono [of ?s2 env expected None ls] by simp
      moreover have "\<nexists>es. file_entries env (l # ls) = Some es \<and> chain_ok env (sc_previous s) es"
        using False notacc by (auto simp: accepted_def split: option.splits)
      ultimately show ?thesis by (simp add: Let_def)
    qed
  qed
qed simp

lemma scan_lines_count:
  "file_entries env ls = Some es \<Longrightarrow> sc_records (scan_lines env expected None ls s) = sc_records s + length es
    \<and> sc_tail (scan_lines env expected None ls s) = (if es = [] then sc_tail s else snd (snd (last es)))"
proof (induction ls arbitrary: s es)
  case (Cons l ls)
  let ?s1 = "s\<lparr>sc_line_no := Suc (sc_line_no s)\<rparr>"
  show ?case
  proof (cases "blank l")
    case True
    then show ?thesis using Cons.IH [of es ?s1] Cons.prems by (simp add: scan_line_blank Let_def)
  next
    case False
    then obtain p b g es' where e: "line_entry env l = Some (p, b, g)" "file_entries env ls = Some es'" "es = (p, b, g) # es'"
      using Cons.prems by (auto split: option.splits)
    then show ?thesis using Cons.IH [OF e(2), of "scan_line env expected l ?s1"] scan_line_tail [OF False e(1)]
      by (simp add: scan_line_records [OF False] Let_def)
  qed
qed simp

lemma entry_valid: "line_entry env l = Some (p, b, g) \<Longrightarrow> valid_hash_str p \<and> valid_hash_str g"
  using entry_dict by (cases l) (simp_all add: line_entry_def, blast)

lemma file_entries_valid:
  "file_entries env ls = Some es \<Longrightarrow> (p, b, g) \<in> set es \<Longrightarrow> valid_hash_str p \<and> valid_hash_str g"
  by (induction ls arbitrary: es) (auto split: if_splits option.splits dest: entry_valid)

definition prev_ok :: "string option \<Rightarrow> bool" where
  "prev_ok prev = (case prev of Some h \<Rightarrow> valid_hash_str h | None \<Rightarrow> True)"

definition last_hash :: "string option \<Rightarrow> (string \<times> string \<times> string) list \<Rightarrow> string option" where
  "last_hash prev es = (if es = [] then prev else Some (snd (snd (last es))))"

lemma chain_ok_append:
  "chain_ok env prev (xs @ ys) \<longleftrightarrow> chain_ok env prev xs \<and> chain_ok env (last_hash prev xs) ys"
  by (induction env prev xs rule: chain_ok.induct) (auto simp: last_hash_def)

lemma verified_lines:
  assumes "prev_ok expected"
  shows "vd_ok (verify_single_file env expected None (Lines ls)) \<longleftrightarrow>
      (\<exists>es. file_entries env ls = Some es \<and> es \<noteq> [] \<and> chain_ok env expected es)"
    and "file_entries env ls = Some es \<Longrightarrow> es \<noteq> [] \<Longrightarrow>
      vd_tail (verify_single_file env expected None (Lines ls)) = last_hash expected es
      \<and> vd_records (verify_single_file env expected None (Lines ls)) = length es"
proof -
  let ?s = "scan_lines env expected None ls (scan_init expected)"
  have v: "verify_single_file env expected None (Lines ls) =
     \<lparr>vd_ok = (sc_corrupt ?s = 0 \<and> sc_records ?s > 0), vd_records = sc_records ?s, vd_valid = sc_valid ?s,
           vd_corrupt = sc_corrupt ?s, vd_first_prev = sc_first_prev ?s, vd_tail = Some (sc_tail ?s),
           vd_error = map_option (\<lambda>(n, e). At_line n e) (sc_error ?s)\<rparr>"
    using assms by (simp add: verify_single_file_def prev_ok_def Let_def split: option.splits)
  have ok: "sc_corrupt ?s = 0 \<longleftrightarrow> (\<exists>es. file_entries env ls = Some es \<and> chain_ok env expected es)"
    using scan_lines_ok [of "scan_init expected" env expected ls] by (simp add: scan_init_def)
  have cnt: "sc_records ?s = length es" "es \<noteq> [] \<Longrightarrow> sc_tail ?s = snd (snd (last es))" if "file_entries env ls = Some es" for es
    using scan_lines_count [OF that, of expected "scan_init expected"] by (simp_all add: scan_init_def)
  show "vd_ok (verify_single_file env expected None (Lines ls)) \<longleftrightarrow>
      (\<exists>es. file_entries env ls = Some es \<and> es \<noteq> [] \<and> chain_ok env expected es)"
    unfolding v using ok cnt(1) by fastforce
  show "file_entries env ls = Some es \<Longrightarrow> es \<noteq> [] \<Longrightarrow>
      vd_tail (verify_single_file env expected None (Lines ls)) = last_hash expected es
      \<and> vd_records (verify_single_file env expected None (Lines ls)) = length es"
    unfolding v using cnt by (simp add: last_hash_def)
qed

fun files_entries :: "chain_env \<Rightarrow> log_file list \<Rightarrow> (string \<times> string \<times> string) list option" where
  "files_entries env [] = Some []"
| "files_entries env (f # fs) =
     (case f of
        Lines ls \<Rightarrow> (case file_entries env ls of
            Some es \<Rightarrow> if es = [] then None else map_option ((@) es) (files_entries env fs)
          | None \<Rightarrow> None)
      | _ \<Rightarrow> None)"

lemma failed_simps [simp]: "\<not> vd_ok (failed e)" "vd_tail (failed e) = None"
  by (simp_all add: failed_def)

lemma verified_is_lines: "vd_ok (verify_single_file env expected None f) \<Longrightarrow> \<exists>ls. f = Lines ls"
  by (cases f) (auto simp: verify_single_file_def split: if_splits option.splits)

lemma last_hash_valid:
  "file_entries env ls = Some es \<Longrightarrow> prev_ok prev \<Longrightarrow> prev_ok (last_hash prev es)"
proof -
  assume f: "file_entries env ls = Some es" and p: "prev_ok prev"
  show ?thesis
  proof (cases es rule: rev_cases)
    case (snoc es' e)
    obtain p b g where "e = (p, b, g)" by (cases e) auto
    with snoc f file_entries_valid [of env ls es p b g] show ?thesis by (simp add: prev_ok_def last_hash_def)
  qed (use p in \<open>simp add: last_hash_def\<close>)
qed

lemma last_hash_append [simp]: "last_hash prev (xs @ ys) = last_hash (last_hash prev xs) ys"
  by (simp add: last_hash_def)

lemma verify_files_ok:
  "prev_ok prev \<Longrightarrow> list_all vd_ok (verify_files env prev fs) \<longleftrightarrow>
     (\<exists>es. files_entries env fs = Some es \<and> chain_ok env prev es)"
proof (induction fs arbitrary: prev)
  case (Cons f fs)
  show ?case
  proof (cases "\<exists>ls es. f = Lines ls \<and> file_entries env ls = Some es \<and> es \<noteq> []")
    case False
    then have "\<not> vd_ok (verify_single_file env prev None f)"
      using verified_is_lines [of env prev f] verified_lines(1) [OF Cons.prems] by blast
    moreover have "files_entries env (f # fs) = None" using False by (cases f) (auto split: option.split)
    ultimately show ?thesis by (simp add: Let_def)
  next
    case True
    then obtain ls es where f: "f = Lines ls" "file_entries env ls = Some es" "es \<noteq> []" by blast
    note v = verified_lines(1) [OF Cons.prems, of env ls] verified_lines(2) [OF Cons.prems f(2,3)]
    have "prev_ok (last_hash prev es)" using last_hash_valid [OF f(2) Cons.prems] .
    from Cons.IH [OF this] v f show ?thesis by (auto simp: Let_def chain_ok_append)
  qed
qed simp

lemma verify_files_tail:
  "prev_ok prev \<Longrightarrow> files_entries env fs = Some es \<Longrightarrow> fs \<noteq> [] \<Longrightarrow>
     vd_tail (last (verify_files env prev fs)) = last_hash prev es
     \<and> sum_list (map vd_records (verify_files env prev fs)) = length es \<and> es \<noteq> []"
proof (induction fs arbitrary: prev es)
  case (Cons f fs)
  then obtain ls es1 es2 where f: "f = Lines ls" "file_entries env ls = Some es1" "es1 \<noteq> []"
    "files_entries env fs = Some es2" "es = es1 @ es2"
    by (auto split: log_file.splits option.splits if_splits)
  note v = verified_lines(2) [OF Cons.prems(1) f(2,3)]
  note p = last_hash_valid [OF f(2) Cons.prems(1)]
  show ?case
  proof (cases "fs = []")
    case True
    then show ?thesis using f v by (simp add: Let_def)
  next
    case False
    then have "verify_files env (last_hash prev es1) fs \<noteq> []" by (cases fs) (simp_all add: Let_def)
    then show ?thesis using Cons.IH [OF p f(4) False] f v by (simp add: Let_def)
  qed
qed simp

section \<open>Equal tails mean equal histories\<close>

lemma valid_hash_length: "valid_hash_str h \<Longrightarrow> length h = 64"
  by (simp add: valid_hash_str_def)

text \<open>Two different hashed texts, one of each chain, with the same digest.\<close>

definition collision :: "chain_env \<Rightarrow> (string \<times> string \<times> string) list \<Rightarrow> (string \<times> string \<times> string) list \<Rightarrow> bool" where
  "collision env xs ys \<longleftrightarrow> (\<exists>(p, b, g) \<in> set xs. \<exists>(p', b', g') \<in> set ys.
     p @ b \<noteq> p' @ b' \<and> ce_sha env (p @ b) = ce_sha env (p' @ b'))"

lemma collisionI:
  "(p, b, g) \<in> set xs \<Longrightarrow> (p', b', g') \<in> set ys \<Longrightarrow> p @ b \<noteq> p' @ b' \<Longrightarrow>
     ce_sha env (p @ b) = ce_sha env (p' @ b') \<Longrightarrow> collision env xs ys"
  unfolding collision_def by blast

lemma collision_mono: "collision env xs ys \<Longrightarrow> set xs \<subseteq> set xs' \<Longrightarrow> set ys \<subseteq> set ys' \<Longrightarrow> collision env xs' ys'"
  unfolding collision_def by blast

lemma chain_suffix:
  assumes "chain_ok env p1 xs" "chain_ok env p2 ys" "xs \<noteq> []" "ys \<noteq> []"
    and "\<forall>(p, b, g) \<in> set xs. length p = 64" "\<forall>(p, b, g) \<in> set ys. length p = 64"
    and "snd (snd (last xs)) = snd (snd (last ys))" and "\<not> collision env xs ys"
  shows "(\<exists>zs. xs = zs @ ys) \<or> (\<exists>zs. ys = zs @ xs)"
  using assms
proof (induction xs arbitrary: ys rule: rev_induct)
  case (snoc x xs)
  obtain ys' y where ys: "ys = ys' @ [y]" using snoc.prems(4) by (cases ys rule: rev_cases) auto
  obtain p b g where x: "x = (p, b, g)" by (cases x) auto
  obtain p' b' g' where y: "y = (p', b', g')" by (cases y) auto
  have g: "g = ce_sha env (p @ b)" "g' = ce_sha env (p' @ b')" "g = g'"
    using snoc.prems(1,2,7) x y ys by (auto simp: chain_ok_append)
  then have d: "ce_sha env (p @ b) = ce_sha env (p' @ b')" by simp
  have "p @ b = p' @ b'"
  proof (rule ccontr)
    assume "p @ b \<noteq> p' @ b'"
    then have "collision env (xs @ [x]) ys" using d x y ys by (intro collisionI [of p b g _ p' b' g']) simp_all
    with snoc.prems(8) show False by blast
  qed
  moreover have "length p = 64" "length p' = 64" using snoc.prems(5,6) x y ys by auto
  ultimately have eq: "p = p'" "b = b'" by auto
  show ?case
  proof (cases "xs = [] \<or> ys' = []")
    case True
    then show ?thesis using x y ys eq g by auto
  next
    case False
    have nc: "\<not> collision env xs ys'" using snoc.prems(8) ys collision_mono [of env xs ys' "xs @ [x]" ys] by auto
    have "snd (snd (last xs)) = p" "snd (snd (last ys')) = p'"
      using snoc.prems(1,2) x y ys False by (auto simp: chain_ok_append links_def last_hash_def)
    then have "(\<exists>zs. xs = zs @ ys') \<or> (\<exists>zs. ys' = zs @ xs)"
      using snoc.IH [of ys'] snoc.prems x y ys False eq nc by (auto simp: chain_ok_append)
    then show ?thesis using x y ys eq g by auto
  qed
qed simp

definition dir_files :: "state_dir \<Rightarrow> log_file list" where
  "dir_files d = map snd (sort_rotated (sd_rotated d)) @ (case sd_current d of Some f \<Rightarrow> [f] | None \<Rightarrow> [])"

lemma files_entries_valid:
  "files_entries env fs = Some es \<Longrightarrow> (p, b, g) \<in> set es \<Longrightarrow> valid_hash_str p \<and> valid_hash_str g"
  by (induction fs arbitrary: es)
     (auto split: log_file.splits option.splits if_splits dest: file_entries_valid)

lemma generations_verified:
  assumes "verify_all_generations env d = Inr r" "ge_ok r"
  shows "\<exists>es. files_entries env (dir_files d) = Some es \<and> es \<noteq> [] \<and> chain_ok env None es
    \<and> ge_tail r = snd (snd (last es)) \<and> ge_records r = length es \<and> ge_anchor_error r = None"
proof -
  have p: "prev_ok None" by (simp add: prev_ok_def)
  have ne: "dir_files d \<noteq> []" and oks: "list_all vd_ok (verify_files env None (dir_files d))"
    and r: "ge_tail r = (case vd_tail (last (verify_files env None (dir_files d))) of Some t \<Rightarrow> t | None \<Rightarrow> [])"
      "ge_records r = sum_list (map vd_records (verify_files env None (dir_files d)))" "ge_anchor_error r = None"
    using assms by (auto simp: verify_all_generations_def dir_files_def Let_def split: if_splits)
  obtain es where es: "files_entries env (dir_files d) = Some es" "chain_ok env None es"
    using oks verify_files_ok [OF p] by blast
  from verify_files_tail [OF p es(1) ne] es r show ?thesis by (auto simp: last_hash_def split: if_splits)
qed

section \<open>Properties\<close>

text \<open>
  C28 The verifier accepts a file exactly when it is a chain: the file can be read, every line
  that is not blank holds a JSON object with two well-formed hashes whose own hash is the digest
  of its predecessor's hash and its body, each record links to the one before (the first to the
  expected hash when one is given), and there is at least one record.
\<close>

theorem verify_file_exact:
  "vd_ok (verify_single_file env expected None file) \<longleftrightarrow>
     (\<exists>ls es. file = Lines ls \<and> prev_ok expected \<and> file_entries env ls = Some es \<and> es \<noteq> []
        \<and> chain_ok env expected es)"
proof (cases "prev_ok expected")
  case True
  then show ?thesis using verified_lines(1) [OF True] verified_is_lines by blast
next
  case False
  then have "verify_single_file env expected None file = failed Invalid_expected_prev_hash"
    by (simp add: verify_single_file_def prev_ok_def split: option.splits)
  with False show ?thesis by simp
qed

text \<open>
  C26 Tampering is evident: when two state directories verify over all their generations and
  report the same global tail hash, then one history is a suffix of the other, record by record
  (linking hash, hashed text and hash), and the histories are equal when the record counts are,
  unless two of the very texts hashed for the two histories are a collision of the digest.
\<close>

theorem tamper_evident:
  assumes "verify_all_generations env d1 = Inr r1" "ge_ok r1"
    and "verify_all_generations env d2 = Inr r2" "ge_ok r2"
    and "ge_tail r1 = ge_tail r2"
  shows "\<exists>es1 es2. files_entries env (dir_files d1) = Some es1 \<and> files_entries env (dir_files d2) = Some es2
    \<and> (collision env es1 es2
       \<or> ((\<exists>zs. es1 = zs @ es2) \<or> (\<exists>zs. es2 = zs @ es1)) \<and> (ge_records r1 = ge_records r2 \<longrightarrow> es1 = es2))"
proof -
  obtain es1 where a: "files_entries env (dir_files d1) = Some es1" "es1 \<noteq> []" "chain_ok env None es1"
    "ge_tail r1 = snd (snd (last es1))" "ge_records r1 = length es1" using generations_verified [OF assms(1,2)] by blast
  obtain es2 where b: "files_entries env (dir_files d2) = Some es2" "es2 \<noteq> []" "chain_ok env None es2"
    "ge_tail r2 = snd (snd (last es2))" "ge_records r2 = length es2" using generations_verified [OF assms(3,4)] by blast
  have la: "\<forall>(p, b, g) \<in> set es1. length p = 64" and lb: "\<forall>(p, b, g) \<in> set es2. length p = 64"
    using files_entries_valid [OF a(1)] files_entries_valid [OF b(1)] valid_hash_length by blast+
  have suf: "(\<exists>zs. es1 = zs @ es2) \<or> (\<exists>zs. es2 = zs @ es1)" if "\<not> collision env es1 es2"
    using chain_suffix [OF a(3) b(3) a(2) b(2) la lb _ that] assms(5) a(4) b(4) by simp
  have "es1 = es2" if "(\<exists>zs. es1 = zs @ es2) \<or> (\<exists>zs. es2 = zs @ es1)" "length es1 = length es2"
    using that by auto
  then have "collision env es1 es2
       \<or> ((\<exists>zs. es1 = zs @ es2) \<or> (\<exists>zs. es2 = zs @ es1)) \<and> (ge_records r1 = ge_records r2 \<longrightarrow> es1 = es2)"
    using suf a(5) b(5) by (cases "collision env es1 es2") simp_all
  with a(1) b(1) show ?thesis by blast
qed

definition hash_a :: string where "hash_a = replicate 64 (CHR ''a'')"
definition hash_b :: string where "hash_b = replicate 64 (CHR ''b'')"

definition demo_chain_env :: chain_env where
  "demo_chain_env = \<lparr>ce_sha = (\<lambda>s. if take 64 s = genesis then hash_a else hash_b),
     ce_loads = (\<lambda>s. if s = ''1'' then Some (PDict [(''prev_hash'', PStr genesis), (''hash'', PStr hash_a)])
                     else if s = ''2'' then Some (PDict [(''prev_hash'', PStr hash_a), (''hash'', PStr hash_b)]) else None),
     ce_dumps = (\<lambda>v. Some ''{}''), ce_line = (\<lambda>v. [])\<rparr>"

definition demo_dir :: state_dir where
  "demo_dir = \<lparr>sd_rotated = [(''events-20240101T000000Z.jsonl'', Lines [Text ''1'']),
                             (''events-20240101T000000Z-01H.jsonl'', Lines [Text ''2''])],
     sd_current = None, sd_anchor = None\<rparr>"

definition demo_dir_swapped :: state_dir where
  "demo_dir_swapped = demo_dir\<lparr>sd_rotated := rev (sd_rotated demo_dir)\<rparr>"

theorem tamper_evident_witness:
  "\<exists>r es. verify_all_generations demo_chain_env demo_dir = Inr r \<and> ge_ok r
     \<and> files_entries demo_chain_env (dir_files demo_dir) = Some es"
proof -
  have "case verify_all_generations demo_chain_env demo_dir of Inr r \<Rightarrow> ge_ok r | Inl _ \<Rightarrow> False" by code_simp
  then obtain r where r: "verify_all_generations demo_chain_env demo_dir = Inr r" "ge_ok r"
    by (auto split: sum.splits)
  from tamper_evident [OF r r refl] r show ?thesis by blast
qed

text \<open>
  The verdict depends on the order in which the directory is listed: two rotations of one
  second, as the second-resolution writer names them, carry the same sort key, so the same
  directory with an intact chain is accepted in one listing order and rejected in the other.
\<close>

lemma verdict_depends_on_listing_order:
  "set (sd_rotated demo_dir_swapped) = set (sd_rotated demo_dir)
   \<and> list_all (\<lambda>f. parse_rotation_timestamp (fst f) = ''20240101T000000000000Z'') (sd_rotated demo_dir)
   \<and> (case verify_all_generations demo_chain_env demo_dir of Inr r \<Rightarrow> ge_ok r | Inl _ \<Rightarrow> False)
   \<and> (case verify_all_generations demo_chain_env demo_dir_swapped of Inr r \<Rightarrow> \<not> ge_ok r | Inl _ \<Rightarrow> False)"
proof (intro conjI)
  show "set (sd_rotated demo_dir_swapped) = set (sd_rotated demo_dir)" by (simp add: demo_dir_swapped_def)
  show "list_all (\<lambda>f. parse_rotation_timestamp (fst f) = ''20240101T000000000000Z'') (sd_rotated demo_dir)" by code_simp
  show "case verify_all_generations demo_chain_env demo_dir of Inr r \<Rightarrow> ge_ok r | Inl _ \<Rightarrow> False" by code_simp
  show "case verify_all_generations demo_chain_env demo_dir_swapped of Inr r \<Rightarrow> \<not> ge_ok r | Inl _ \<Rightarrow> False" by code_simp
qed

end
