(* ===== verification/Event_Values.thy ===== *)
theory Event_Values
  imports PyDict
begin

text \<open>
  The bounding of event data in \<open>norax/observability/log.py\<close> (\<open>_bounded_event_value\<close>,
  \<open>_bounded_identifier\<close>): whatever a caller logs becomes a JSON value of bounded size. The
  secret scrubber is the parameter \<open>redact\<close>, the truncation mark (an ellipsis and a word) the
  parameter \<open>mark\<close>. Values are JSON trees, so cycles, byte strings and foreign objects do not
  occur. The budget is the pair of items and characters left.
\<close>

record value_env =
  ve_redact :: "string \<Rightarrow> string"
  ve_mark :: string

type_synonym ebudget = "nat \<times> nat"

definition event_budget :: ebudget where
  "event_budget = (20000, 1048576)"

definition max_string_chars :: nat where
  "max_string_chars = 131072"

definition max_container_items :: nat where
  "max_container_items = 2048"

definition max_event_depth :: nat where
  "max_event_depth = 12"

definition exhausted :: "ebudget \<Rightarrow> bool" where
  "exhausted b \<longleftrightarrow> fst b = 0 \<or> snd b = 0"

definition bounded_identifier :: "pyval \<Rightarrow> string \<Rightarrow> string" where
  "bounded_identifier v fallback =
     (case v of PStr s \<Rightarrow> let t = take 256 (py_strip s) in if t = [] then fallback else t | _ \<Rightarrow> fallback)"

definition bounded_text :: "value_env \<Rightarrow> string \<Rightarrow> ebudget \<Rightarrow> string \<times> ebudget" where
  "bounded_text env s b =
     (let limit = min max_string_chars (snd b); t = take limit s
      in (ve_redact env (if length s > limit then t @ ve_mark env else t), (fst b, snd b - length t)))"

definition spend :: "ebudget \<Rightarrow> ebudget" where
  "spend b = (fst b - 1, snd b)"

text \<open>A key: the same function on a string, cut at 512 characters.\<close>

definition bounded_key :: "value_env \<Rightarrow> string \<Rightarrow> ebudget \<Rightarrow> string \<times> ebudget" where
  "bounded_key env k b =
     (if exhausted b then (take 512 ''<truncated:event_budget>'', b)
      else let (t, b') = bounded_text env k (spend b) in (take 512 t, b'))"

definition bounded_int :: "int \<Rightarrow> pyval" where
  "bounded_int i = (if \<bar>i\<bar> < 2 ^ 4096 then PInt i else PStr ''<integer_too_large>'')"

definition bounded_float :: "pyfloat \<Rightarrow> pyval" where
  "bounded_float f = (case f of Fin r \<Rightarrow> PFloat f | PosInf \<Rightarrow> PStr ''<inf>'' | NegInf \<Rightarrow> PStr ''<-inf>'' | NaN \<Rightarrow> PStr ''<nan>'')"

definition close_dict :: "nat \<Rightarrow> (string, pyval) dict \<Rightarrow> pyval" where
  "close_dict n out =
     PDict (if n > length out then dsetdefault ''_truncated_items'' (PInt (int n - int (length out))) out else out)"

definition close_list :: "nat \<Rightarrow> pyval list \<Rightarrow> pyval" where
  "close_list n out =
     PList (if n > length out then out @ [PDict [(''_truncated_items'', PInt (int n - int (length out)))]] else out)"

fun bounded_value :: "value_env \<Rightarrow> nat \<Rightarrow> pyval \<Rightarrow> ebudget \<Rightarrow> pyval \<times> ebudget"
  and bounded_items :: "value_env \<Rightarrow> nat \<Rightarrow> nat \<Rightarrow> pyval list \<Rightarrow> ebudget \<Rightarrow> pyval list \<times> ebudget"
  and bounded_entries :: "value_env \<Rightarrow> nat \<Rightarrow> nat \<Rightarrow> (string \<times> pyval) list \<Rightarrow> (string, pyval) dict \<Rightarrow> ebudget
     \<Rightarrow> (string, pyval) dict \<times> ebudget" where
  "bounded_value env depth v b =
     (if exhausted b then (PStr ''<truncated:event_budget>'', b)
      else case v of
        PNone \<Rightarrow> (PNone, spend b)
      | PBool x \<Rightarrow> (PBool x, spend b)
      | PInt i \<Rightarrow> (bounded_int i, spend b)
      | PFloat f \<Rightarrow> (bounded_float f, spend b)
      | PStr s \<Rightarrow> (let (t, b') = bounded_text env s (spend b) in (PStr t, b'))
      | PList xs \<Rightarrow>
          if depth \<ge> max_event_depth then (PStr ''<truncated:event_depth>'', spend b)
          else (let (out, b') = bounded_items env (Suc depth) max_container_items xs (spend b)
                in (close_list (length xs) out, b'))
      | PDict d \<Rightarrow>
          if depth \<ge> max_event_depth then (PStr ''<truncated:event_depth>'', spend b)
          else (let (out, b') = bounded_entries env (Suc depth) max_container_items d [] (spend b)
                in (close_dict (length d) out, b')))"
| "bounded_items env depth n [] b = ([], b)"
| "bounded_items env depth n (x # xs) b =
     (if n = 0 then ([], b)
      else if exhausted b then bounded_items env depth (n - 1) xs b
      else let (y, b1) = bounded_value env depth x b; (ys, b2) = bounded_items env depth (n - 1) xs b1
           in (y # ys, b2))"
| "bounded_entries env depth n [] out b = (out, b)"
| "bounded_entries env depth n ((k, x) # xs) out b =
     (if n = 0 then (out, b)
      else let (key, b1) = bounded_key env k b; (y, b2) = bounded_value env depth x b1; out' = dset key y out
           in if exhausted b2 then (out', b2) else bounded_entries env depth (n - 1) xs out' b2)"

declare bounded_value.simps [simp del]

section \<open>What comes out\<close>

text \<open>A value that \<open>json.dumps(..., allow_nan=False)\<close> serializes and \<open>json.loads\<close> reads back.\<close>

fun json_safe :: "pyval \<Rightarrow> bool" where
  "json_safe (PFloat f) = finite_float f"
| "json_safe (PInt i) = (\<bar>i\<bar> < 2 ^ 4096)"
| "json_safe (PList xs) = list_all json_safe xs"
| "json_safe (PDict d) = (dict_ok d \<and> list_all (\<lambda>p. json_safe (snd p)) d)"
| "json_safe _ = True"

fun nodes :: "pyval \<Rightarrow> nat" where
  "nodes (PList xs) = Suc (sum_list (map nodes xs))"
| "nodes (PDict d) = Suc (sum_list (map (\<lambda>p. nodes (snd p)) d))"
| "nodes _ = 1"

fun pdepth :: "pyval \<Rightarrow> nat" where
  "pdepth (PList xs) = Suc (foldr max (map pdepth xs) 0)"
| "pdepth (PDict d) = Suc (foldr max (map (\<lambda>p. pdepth (snd p)) d) 0)"
| "pdepth _ = 0"

lemma foldr_max_le: "foldr max xs (a::nat) \<le> n \<longleftrightarrow> a \<le> n \<and> (\<forall>x \<in> set xs. x \<le> n)"
  by (induction xs) auto

text \<open>The containers of a running program hold fewer than \<open>sys.maxsize\<close> items.\<close>

fun sized :: "pyval \<Rightarrow> bool" where
  "sized (PList xs) = (length xs < 2 ^ 63 \<and> list_all sized xs)"
| "sized (PDict d) = (length d < 2 ^ 63 \<and> list_all (\<lambda>p. sized (snd p)) d)"
| "sized _ = True"

lemma bounded_scalar_safe [simp]: "json_safe (bounded_int i)" "json_safe (bounded_float f)"
  "nodes (bounded_int i) = 1" "nodes (bounded_float f) = 1" "pdepth (bounded_int i) = 0" "pdepth (bounded_float f) = 0"
  by (auto simp: bounded_int_def bounded_float_def split: pyfloat.split)

lemma count_bound: "n < 2 ^ 63 \<Longrightarrow> \<bar>int n - int m\<bar> < 2 ^ 4096 \<or> n \<le> m"
proof -
  assume "n < 2 ^ 63"
  then have "int n < 2 ^ 63" by (metis of_nat_less_iff of_nat_numeral of_nat_power)
  also have "(2::int) ^ 63 < 2 ^ 4096" by (rule power_strict_increasing) simp_all
  finally show ?thesis by arith
qed

lemma close_list_safe: "n < 2 ^ 63 \<Longrightarrow> list_all json_safe out \<Longrightarrow> json_safe (close_list n out)"
  using count_bound [of n "length out"] by (auto simp: close_list_def dict_ok_def dkeys_def)

lemma list_all_dset: "list_all P d \<Longrightarrow> P (k, v) \<Longrightarrow> list_all P (dset k v d)"
  using set_dset_subset [of k v d] by (auto simp: list_all_iff)

lemma close_dict_safe:
  "n < 2 ^ 63 \<Longrightarrow> dict_ok out \<Longrightarrow> list_all (\<lambda>p. json_safe (snd p)) out \<Longrightarrow> json_safe (close_dict n out)"
  using count_bound [of n "length out"]
  by (auto simp: close_dict_def dsetdefault_def list_all_dset dict_ok_append_new map_of_None_iff split: option.split)

lemma sum_dset_le: "sum_list (map (\<lambda>p. f (snd p)) (dset k v d)) \<le> sum_list (map (\<lambda>p. f (snd p)) d) + (f v :: nat)"
  by (induction d) auto

lemma nodes_close_list: "nodes (close_list n out) \<le> sum_list (map nodes out) + 3"
  by (simp add: close_list_def)

lemma nodes_close_dict: "nodes (close_dict n out) \<le> sum_list (map (\<lambda>p. nodes (snd p)) out) + 2"
  using sum_dset_le [of nodes "''_truncated_items''" "PInt (int n - int (length out))" out]
  by (auto simp: close_dict_def dsetdefault_def split: option.split)

lemma bounded_safe:
  "sized v \<Longrightarrow> json_safe (fst (bounded_value env depth v b))"
  "list_all sized xs \<Longrightarrow> list_all json_safe (fst (bounded_items env depth n xs b))"
  "list_all (\<lambda>p. sized (snd p)) es \<Longrightarrow> dict_ok out \<Longrightarrow> list_all (\<lambda>p. json_safe (snd p)) out \<Longrightarrow>
     dict_ok (fst (bounded_entries env depth n es out b))
     \<and> list_all (\<lambda>p. json_safe (snd p)) (fst (bounded_entries env depth n es out b))"
proof (induction env depth v b and env depth n xs b and env depth n es out b
    rule: bounded_value_bounded_items_bounded_entries.induct)
  case (1 env depth v b)
  then show ?case
    by (cases v) (auto simp: bounded_value.simps [of env depth _ b] Let_def case_prod_beta
        intro!: close_list_safe close_dict_safe)
next
  case (3 env depth n x xs b)
  obtain y b1 where "bounded_value env depth x b = (y, b1)" by (rule prod.exhaust)
  with 3 show ?case by (auto simp: case_prod_beta)
next
  case (5 env depth n k x xs out b)
  obtain key b1 where "bounded_key env k b = (key, b1)" by (rule prod.exhaust)
  moreover obtain y b2 where "bounded_value env depth x b1 = (y, b2)" by (rule prod.exhaust)
  ultimately show ?case using 5 by (cases b1; cases b2) (auto simp: list_all_dset Let_def)
qed simp_all

lemma bounded_text_budget [simp]: "fst (snd (bounded_text env s b)) = fst b"
  by (simp add: bounded_text_def Let_def)

lemma bounded_key_budget:
  "fst (snd (bounded_key env k b)) = (if exhausted b then fst b else fst b - 1)"
  by (simp add: bounded_key_def spend_def case_prod_beta)

lemma not_exhausted: "\<not> exhausted b \<Longrightarrow> 0 < fst b"
  by (auto simp: exhausted_def)

text \<open>Three nodes for every item spent, and one more for a value that found the budget gone.\<close>

lemma bounded_nodes:
  "nodes (fst (bounded_value env depth v b)) + 3 * fst (snd (bounded_value env depth v b))
     \<le> 3 * fst b + (if exhausted b then 1 else 0)"
  "sum_list (map nodes (fst (bounded_items env depth n xs b))) + 3 * fst (snd (bounded_items env depth n xs b)) \<le> 3 * fst b"
  "sum_list (map (\<lambda>p. nodes (snd p)) (fst (bounded_entries env depth n es out b)))
     + 3 * fst (snd (bounded_entries env depth n es out b))
     \<le> sum_list (map (\<lambda>p. nodes (snd p)) out) + 3 * fst b + (if exhausted b then 1 else 0)"
proof (induction env depth v b and env depth n xs b and env depth n es out b
    rule: bounded_value_bounded_items_bounded_entries.induct)
  case (1 env depth v b)
  show ?case
  proof (cases "exhausted b")
    case True
    then show ?thesis by (simp add: bounded_value.simps)
  next
    case False
    then have b: "0 < fst b" by (rule not_exhausted)
    then have sp: "3 * fst (spend b) + 3 = 3 * fst b" by (simp add: spend_def)
    show ?thesis
    proof (cases v)
      case (PList xs)
      show ?thesis
      proof (cases "depth \<ge> max_event_depth")
        case True
        then show ?thesis using False PList sp by (simp add: bounded_value.simps [of env depth _ b])
      next
        case d: False
        from 1(1) [OF False PList d] sp
          nodes_close_list [of "length xs" "fst (bounded_items env (Suc depth) max_container_items xs (spend b))"]
        show ?thesis using False PList d
          by (simp add: bounded_value.simps [of env depth _ b] case_prod_beta)
      qed
    next
      case (PDict d)
      show ?thesis
      proof (cases "depth \<ge> max_event_depth")
        case True
        then show ?thesis using False PDict sp by (simp add: bounded_value.simps [of env depth _ b])
      next
        case d': False
        from 1(2) [OF False PDict d'] sp
          nodes_close_dict [of "length d" "fst (bounded_entries env (Suc depth) max_container_items d [] (spend b))"]
        show ?thesis using False PDict d'
          by (simp add: bounded_value.simps [of env depth _ b] case_prod_beta split: if_splits)
      qed
    qed (use False sp in \<open>simp_all add: bounded_value.simps [of env depth _ b] case_prod_beta\<close>)
  qed
next
  case (3 env depth n x xs b)
  obtain y b1 where "bounded_value env depth x b = (y, b1)" by (rule prod.exhaust)
  note e = this
  show ?case
  proof (cases "n = 0 \<or> exhausted b")
    case True
    with 3 show ?thesis by auto
  next
    case False
    from 3 e False have "nodes y + 3 * fst b1 \<le> 3 * fst b"
      and "sum_list (map nodes (fst (bounded_items env depth (n - 1) xs b1)))
        + 3 * fst (snd (bounded_items env depth (n - 1) xs b1)) \<le> 3 * fst b1" by auto
    with e False show ?thesis by (simp add: case_prod_beta)
  qed
next
  case (5 env depth n k x xs out b)
  show ?case
  proof (cases "n = 0")
    case False
    let ?b1 = "snd (bounded_key env k b)"
    let ?r = "bounded_value env depth x ?b1"
    have ih: "nodes (fst ?r) + 3 * fst (snd ?r) \<le> 3 * fst ?b1 + (if exhausted ?b1 then 1 else 0)"
      using 5(1) [OF False refl prod.collapse] by simp
    have k1: "3 * fst ?b1 + (if exhausted ?b1 then 1 else 0) \<le> 3 * fst b + (if exhausted b then 1 else 0)"
    proof (cases "exhausted b")
      case True
      then show ?thesis by (simp add: bounded_key_def)
    next
      case False
      then have "3 * fst (snd (bounded_key env k b)) + 3 = 3 * fst b"
        using not_exhausted [OF False] bounded_key_budget [of env k b] by simp
      then show ?thesis by simp
    qed
    have ds: "sum_list (map (\<lambda>p. nodes (snd p)) (dset (fst (bounded_key env k b)) (fst ?r) out))
        \<le> sum_list (map (\<lambda>p. nodes (snd p)) out) + nodes (fst ?r)" by (rule sum_dset_le)
    show ?thesis
    proof (cases "exhausted (snd ?r)")
      case True
      then show ?thesis using False ih k1 ds by (simp add: Let_def case_prod_beta)
    next
      case ne: False
      have "sum_list (map (\<lambda>p. nodes (snd p)) (fst (bounded_entries env depth (n - 1) xs (dset (fst (bounded_key env k b)) (fst ?r) out) (snd ?r))))
         + 3 * fst (snd (bounded_entries env depth (n - 1) xs (dset (fst (bounded_key env k b)) (fst ?r) out) (snd ?r)))
         \<le> sum_list (map (\<lambda>p. nodes (snd p)) (dset (fst (bounded_key env k b)) (fst ?r) out)) + 3 * fst (snd ?r)"
        using 5(2) [OF False refl prod.collapse refl prod.collapse refl ne] ne by simp
      then show ?thesis using False ne ih k1 ds by (simp add: Let_def case_prod_beta)
    qed
  qed simp
qed simp_all

lemma bounded_depth:
  "pdepth (fst (bounded_value env depth v b)) \<le> Suc max_event_depth - depth"
  "\<forall>y \<in> set (fst (bounded_items env depth n xs b)). pdepth y \<le> Suc max_event_depth - depth"
  "\<forall>p \<in> set out. pdepth (snd p) \<le> Suc max_event_depth - depth \<Longrightarrow>
     \<forall>p \<in> set (fst (bounded_entries env depth n es out b)). pdepth (snd p) \<le> Suc max_event_depth - depth"
proof (induction env depth v b and env depth n xs b and env depth n es out b
    rule: bounded_value_bounded_items_bounded_entries.induct)
  case (1 env depth v b)
  have step: "\<exists>m. Suc max_event_depth - Suc depth = Suc m \<and> Suc max_event_depth - depth = Suc (Suc m)"
    if "depth < max_event_depth" using that by (intro exI [of _ "max_event_depth - Suc depth"]) arith
  have l: "pdepth (close_list k out) \<le> Suc max_event_depth - depth"
    if "\<forall>y \<in> set out. pdepth y \<le> Suc max_event_depth - Suc depth" "depth < max_event_depth" for k out
    using that step by (auto simp: close_list_def foldr_max_le)
  have d: "pdepth (close_dict k out) \<le> Suc max_event_depth - depth"
    if "\<forall>p \<in> set out. pdepth (snd p) \<le> Suc max_event_depth - Suc depth" "depth < max_event_depth" for k out
    using that step set_dset_subset [of "''_truncated_items''" _ out]
    by (fastforce simp: close_dict_def foldr_max_le dsetdefault_def split: option.split)
  show ?case
    using 1 l d by (cases v) (auto simp: bounded_value.simps [of env depth _ b] case_prod_beta bounded_int_def
        bounded_float_def split: pyfloat.split)
next
  case (3 env depth n x xs b)
  obtain y b1 where "bounded_value env depth x b = (y, b1)" by (rule prod.exhaust)
  with 3 show ?case by (auto simp: case_prod_beta)
next
  case (5 env depth n k x xs out b)
  obtain key b1 where "bounded_key env k b = (key, b1)" by (rule prod.exhaust)
  moreover obtain y b2 where y: "bounded_value env depth x b1 = (y, b2)" by (rule prod.exhaust)
  moreover have "\<forall>p \<in> set (dset key y out). pdepth (snd p) \<le> Suc max_event_depth - depth"
    if "pdepth y \<le> Suc max_event_depth - depth"
    using set_dset_subset [of key y out] 5(3) that by fastforce
  ultimately show ?case using 5 by (cases b1; cases b2) (auto simp: Let_def)
qed simp_all

text \<open>
  Logged data is tamed whatever its shape: the value that goes into the event record can be
  serialized as strict JSON (no infinity or NaN, no oversized integer, distinct keys), is
  nested at most 13 deep, and has at most three nodes for each of the 20000 items of the budget.
\<close>

lemma bounded_event_value_tame:
  fixes env :: value_env
  assumes "sized v"
  defines "w \<equiv> fst (bounded_value env 0 v event_budget)"
  shows "json_safe w \<and> pdepth w \<le> 13 \<and> nodes w \<le> 60000"
proof (intro conjI)
  show "json_safe w" unfolding w_def by (rule bounded_safe(1) [OF assms(1)])
  show "pdepth w \<le> 13" using bounded_depth(1) [of env 0 v event_budget] by (simp add: w_def max_event_depth_def)
  show "nodes w \<le> 60000"
    using bounded_nodes(1) [of env 0 v event_budget] by (simp add: w_def event_budget_def exhausted_def)
qed

lemma bounded_event_value_tame_witness:
  "json_safe (fst (bounded_value \<lparr>ve_redact = (\<lambda>s. s), ve_mark = ''...''\<rparr> 0
     (PDict [(''a'', PList [PFloat NaN, PInt 3])]) event_budget))"
  using bounded_event_value_tame [of "PDict [(''a'', PList [PFloat NaN, PInt 3])]"] by simp

end
