(* ===== verification/Event_Log.thy ===== *)
theory Event_Log
  imports Event_Chain Event_Values
begin

text \<open>
  \<open>norax/observability/log.py\<close>: the writer of the hash-chained event log, with its tail check,
  its rotation and its anchor, over the directory it shares with the verifier of
  \<open>Event_Chain\<close>. An append runs under the process lock, so appends are steps one after the
  other. What the operating system does during one append (the size it reports, the rotation's
  time and failures, how many bytes reach the disk) is the argument \<open>io\<close>. The search for the
  last line through a growing window is the last line that is not blank. The verifier refuses a
  file above its limit of bytes, which the writer does not know (\<open>file_of\<close>).
\<close>

section \<open>State\<close>

text \<open>The complete lines of a file and the bytes after the last newline.\<close>

record log_text =
  lt_lines :: "line list"
  lt_rest :: string

record event_log =
  el_rotate_bytes :: nat
  el_prev_hash :: string
  el_writable :: bool
  el_current :: "log_text option"
  el_rotated :: "(string, log_text) dict"
  el_anchor :: "(string \<times> string) option"

record append_io =
  io_size :: nat \<comment> \<open>\<open>st_size\<close> of the current file\<close>
  io_stamp :: string \<comment> \<open>the rotation's UTC time to the microsecond\<close>
  io_ulid :: string
  io_rename_fails :: bool
  io_anchor_fails :: bool
  io_written :: "nat option" \<comment> \<open>None: the whole line; Some k: an error after k bytes\<close>

record event =
  ev_ts :: string
  ev_kind :: pyval
  ev_trace :: pyval
  ev_span :: pyval
  ev_parent :: pyval
  ev_attrs :: pyval
  ev_payload :: pyval

definition new_log :: "nat \<Rightarrow> event_log" where
  "new_log rotate_bytes = \<lparr>el_rotate_bytes = rotate_bytes, el_prev_hash = genesis, el_writable = True,
     el_current = None, el_rotated = [], el_anchor = None\<rparr>"

section \<open>The tail\<close>

definition empty_tail_hash :: "event_log \<Rightarrow> string res" where
  "empty_tail_hash s =
     (if el_prev_hash s \<noteq> genesis \<or> el_anchor s \<noteq> None \<or> el_rotated s \<noteq> []
      then Inl (ValueError ''event-log current file is missing or empty after existing history'')
      else Inr genesis)"

definition line_tail_hash :: "chain_env \<Rightarrow> line \<Rightarrow> string res" where
  "line_tail_hash env l =
     (case l of
        Oversized \<Rightarrow> Inl (ValueError ''event-log tail line exceeds the size limit'')
      | Undecodable \<Rightarrow> Inl (ValueError ''event-log tail is not valid JSON'')
      | Text t \<Rightarrow> (case ce_loads env t of
          None \<Rightarrow> Inl (ValueError ''event-log tail is not valid JSON'')
        | Some v \<Rightarrow> (case pget v ''hash'' of
            PStr h \<Rightarrow> if valid_hash_str h then Inr h else Inl (ValueError ''event-log tail has an invalid hash'')
          | _ \<Rightarrow> Inl (ValueError ''event-log tail has an invalid hash''))))"

definition load_tail_hash :: "chain_env \<Rightarrow> event_log \<Rightarrow> string res" where
  "load_tail_hash env s =
     (case el_current s of
        None \<Rightarrow> empty_tail_hash s
      | Some t \<Rightarrow>
          if lt_lines t = [] \<and> lt_rest t = [] then empty_tail_hash s
          else if lt_rest t \<noteq> [] then Inl (ValueError ''event-log tail is incomplete: unterminated record'')
          else (case rev (filter (\<lambda>l. \<not> blank l) (lt_lines t)) of
              [] \<Rightarrow> Inl (ValueError ''event-log tail contains no complete record'')
            | l # _ \<Rightarrow> line_tail_hash env l))"

section \<open>Rotation\<close>

definition rotated_name :: "string \<Rightarrow> string" where
  "rotated_name stamp = ''events-'' @ stamp @ ''.jsonl''"

definition rotate_if_needed :: "chain_env \<Rightarrow> append_io \<Rightarrow> nat \<Rightarrow> (event_log, unit) op" where
  "rotate_if_needed env io incoming s =
     (if el_rotate_bytes s = 0 then (Inr (), s)
      else case el_current s of
        None \<Rightarrow> (Inr (), s)
      | Some t \<Rightarrow>
          if io_size io = 0 \<or> io_size io + incoming \<le> el_rotate_bytes s then (Inr (), s)
          else (case load_tail_hash env s of
              Inl e \<Rightarrow> (Inl e, s)
            | Inr anchor \<Rightarrow>
                let plain = rotated_name (io_stamp io);
                    name = (if plain \<in> set (dkeys (el_rotated s)) then rotated_name (io_stamp io @ ''-'' @ io_ulid io) else plain)
                in if io_rename_fails io then (Inl (OSError ''rename''), s)
                   else let s1 = s\<lparr>el_rotated := dset name t (el_rotated s), el_current := None\<rparr> in
                     if io_anchor_fails io then (Inl (OSError ''anchor''), s1)
                     else (Inr (), s1\<lparr>el_anchor := Some (name, anchor)\<rparr>)))"

section \<open>Appending\<close>

definition event_record :: "value_env \<Rightarrow> event \<Rightarrow> string \<Rightarrow> (string, pyval) dict" where
  "event_record venv ev prev =
     [(''schema_version'', PStr ''v1''),
      (''ts'', PStr (ev_ts ev)),
      (''kind'', PStr (bounded_identifier (ev_kind ev) ''unknown'')),
      (''trace_id'', PStr (bounded_identifier (ev_trace ev) ''unknown'')),
      (''span_id'', PStr (bounded_identifier (ev_span ev) ''unknown'')),
      (''parent_span_id'', if ev_parent ev = PNone then PNone else PStr (bounded_identifier (ev_parent ev) [])),
      (''prev_hash'', PStr prev),
      (''attrs'', fst (bounded_value venv 0 (ev_attrs ev) event_budget)),
      (''payload'', fst (bounded_value venv 0 (ev_payload ev) event_budget))]"

definition max_line :: nat where
  "max_line = 4 * 1024 * 1024"

text \<open>The body is cut down when it would not fit a line.\<close>

definition fit_record :: "chain_env \<Rightarrow> (string, pyval) dict \<Rightarrow> string \<Rightarrow> (string, pyval) dict" where
  "fit_record env rec body =
     (if length body > max_line - 256
      then dset ''attrs'' (PDict [(''payload_truncated'', PBool True)])
             (dset ''payload'' (PDict [(''_truncated'', PBool True), (''reason'', PStr ''event_size_limit''),
                (''normalized_record_bytes'', PInt (int (length body))),
                (''normalized_record_sha256'', PStr (ce_sha env body))]) rec)
      else rec)"

definition write_line :: "chain_env \<Rightarrow> append_io \<Rightarrow> string \<Rightarrow> (event_log, unit) op" where
  "write_line env io text s0 =
     (let (r, s) = rotate_if_needed env io (Suc (length text)) s0 in
      case r of
        Inl e \<Rightarrow> (Inl e, s)
      | Inr _ \<Rightarrow>
          let t = (case el_current s of Some t \<Rightarrow> t | None \<Rightarrow> \<lparr>lt_lines = [], lt_rest = []\<rparr>) in
          (case io_written io of
             None \<Rightarrow> (Inr (), s\<lparr>el_current := Some (t\<lparr>lt_lines := lt_lines t @ [Text (lt_rest t @ text)], lt_rest := []\<rparr>)\<rparr>)
           | Some k \<Rightarrow> (Inl (OSError ''short write while appending event record''),
                        s\<lparr>el_current := Some (t\<lparr>lt_rest := lt_rest t @ take k text\<rparr>)\<rparr>)))"

definition append_body :: "chain_env \<Rightarrow> value_env \<Rightarrow> append_io \<Rightarrow> event \<Rightarrow> (event_log, unit) op" where
  "append_body env venv io ev s =
     (case load_tail_hash env s of
        Inl e \<Rightarrow> (Inl e, s)
      | Inr prev \<Rightarrow>
          (case ce_dumps env (PDict (event_record venv ev prev)) of
             None \<Rightarrow> (Inl (ValueError ''Out of range float values are not JSON compliant''), s)
           | Some body0 \<Rightarrow>
               let rec = fit_record env (event_record venv ev prev) body0 in
               (case ce_dumps env (PDict rec) of
                  None \<Rightarrow> (Inl (ValueError ''record''), s)
                | Some body \<Rightarrow>
                    let h = ce_sha env (prev @ body);
                        text = ce_line env (PDict (dset ''hash'' (PStr h) rec))
                    in if Suc (length text) > max_line
                       then (Inl (ValueError ''bounded event record still exceeds the line limit''), s)
                       else let (r, s') = write_line env io text s in
                         (case r of Inl e \<Rightarrow> (Inl e, s') | Inr u \<Rightarrow> (Inr (), s'\<lparr>el_prev_hash := h\<rparr>)))))"

definition append_locked :: "chain_env \<Rightarrow> value_env \<Rightarrow> append_io \<Rightarrow> event \<Rightarrow> (event_log, unit) op" where
  "append_locked env venv io ev s =
     (let (r, s') = append_body env venv io ev s in (r, s'\<lparr>el_writable := is_ok r\<rparr>))"

text \<open>\<open>_read_replay_records\<close>: the records of the current file, or the first error.\<close>

fun replay_lines :: "chain_env \<Rightarrow> line list \<Rightarrow> pyval list res" where
  "replay_lines env [] = Inr []"
| "replay_lines env (l # ls) =
     (if blank l then replay_lines env ls
      else case l of
        Text t \<Rightarrow> (case ce_loads env t of
            Some (PDict rec) \<Rightarrow> rbind (replay_lines env ls) (\<lambda>rs. Inr (PDict rec # rs))
          | Some _ \<Rightarrow> Inl (ValueError ''event-log replay record is not an object'')
          | None \<Rightarrow> Inl (ValueError ''json''))
      | Oversized \<Rightarrow> Inl (ValueError ''event-log replay line exceeds the size limit'')
      | Undecodable \<Rightarrow> Inl (ValueError ''utf-8''))"

section \<open>What the verifier sees\<close>

text \<open>
  The size of a file in bytes. It is exact for what the writer writes; a line that is too long or no UTF-8, which the writer never
  produces, counts with the least it can have. The verifier refuses a file of more than 256 MiB.
\<close>

definition max_event_file :: nat where
  "max_event_file = 256 * 1024 * 1024"

definition line_bytes :: "line \<Rightarrow> nat" where
  "line_bytes l = (case l of Text t \<Rightarrow> Suc (length t) | Oversized \<Rightarrow> Suc max_line | Undecodable \<Rightarrow> 2)"

definition text_bytes :: "log_text \<Rightarrow> nat" where
  "text_bytes t = sum_list (map line_bytes (lt_lines t)) + length (lt_rest t)"

definition file_of :: "log_text \<Rightarrow> log_file" where
  "file_of t = (if max_event_file < text_bytes t then Too_large
     else Lines (lt_lines t @ (if lt_rest t = [] then [] else [Text (lt_rest t)])))"

definition dir_of :: "event_log \<Rightarrow> state_dir" where
  "dir_of s = \<lparr>sd_rotated = map (\<lambda>(n, t). (n, file_of t)) (el_rotated s),
     sd_current = map_option file_of (el_current s),
     sd_anchor = map_option (\<lambda>(n, h). Some (PDict [(''rotated'', PStr n), (''tail_hash'', PStr h)])) (el_anchor s)\<rparr>"

text \<open>Appends one after the other, where the file system reports the real size of the current file; \<open>None\<close> as soon as one raises.\<close>

definition current_bytes :: "event_log \<Rightarrow> nat" where
  "current_bytes s = (case el_current s of Some t \<Rightarrow> text_bytes t | None \<Rightarrow> 0)"

fun append_all :: "chain_env \<Rightarrow> value_env \<Rightarrow> (append_io \<times> event) list \<Rightarrow> event_log \<Rightarrow> event_log option" where
  "append_all env venv [] s = Some s"
| "append_all env venv ((io, ev) # es) s =
     (case append_locked env venv (io\<lparr>io_size := current_bytes s\<rparr>) ev s of (Inr _, s') \<Rightarrow> append_all env venv es s' | (Inl _, s') \<Rightarrow> None)"

section \<open>Names and order of the rotated files\<close>

definition full_stamp :: "string \<Rightarrow> bool" where
  "full_stamp t \<longleftrightarrow> (\<exists>d h. all_digits 8 d \<and> all_digits 12 h \<and> t = d @ ''T'' @ h @ ''Z'')"

lemma full_stamp_chars: "full_stamp t \<Longrightarrow> c \<in> set t \<Longrightarrow> is_digit c \<or> c = CHR ''T'' \<or> c = CHR ''Z''"
  by (auto simp: full_stamp_def all_digits_def list_all_iff)

lemma full_stamp_length: "full_stamp t \<Longrightarrow> length t = 22"
  by (auto simp: full_stamp_def all_digits_def)

lemma full_stamp_is_stamp: "full_stamp t \<Longrightarrow> is_stamp t"
  by (auto simp: full_stamp_def is_stamp_def all_digits_def)

lemma full_stamp_no_dash: "full_stamp t \<Longrightarrow> takeWhile (\<lambda>c. c \<noteq> CHR ''-'') t = t"
  using full_stamp_chars [of t "CHR ''-''"] by (auto simp: takeWhile_eq_all_conv is_digit_def)

lemma parse_rotated_name:
  assumes "full_stamp t"
  shows "parse_rotation_timestamp (rotated_name t) = t"
proof -
  let ?name = "''events-'' @ t @ ''.jsonl''"
  have l: "length t = 22" using assms by (rule full_stamp_length)
  then have k: "length ?name - 6 = 29" "take 7 ?name = ''events-''" "13 \<le> length ?name" by simp_all
  have d: "drop 29 ?name = ''.jsonl''" "drop 7 (take 29 ?name) = t"
    using l drop_append [of 29 "''events-'' @ t" "''.jsonl''"] by simp_all
  show ?thesis
    unfolding parse_rotation_timestamp_def rotated_name_def k(1) Let_def d full_stamp_no_dash [OF assms]
    using k(2,3) full_stamp_is_stamp [OF assms] l by (simp add: suffix_ok_def)
qed

lemma split_on_absent: "d \<notin> set s \<Longrightarrow> split_on d acc s = [rev acc @ s]"
  by (induction s arbitrary: acc) auto

lemma path_name_rotated: "full_stamp t \<Longrightarrow> path_name (rotated_name t) = rotated_name t"
proof -
  assume t: "full_stamp t"
  have "CHR ''/'' \<notin> set (rotated_name t)"
    using full_stamp_chars [OF t, of "CHR ''/''"] by (auto simp: rotated_name_def is_digit_def)
  then show ?thesis by (simp add: path_name_def split_on_absent) (simp add: rotated_name_def)
qed

section \<open>Files of verified entries\<close>

type_synonym entries = "(string \<times> string \<times> string) list"

definition gen_file :: "chain_env \<Rightarrow> log_text \<Rightarrow> entries \<Rightarrow> bool" where
  "gen_file env t es \<longleftrightarrow> lt_rest t = [] \<and> file_entries env (lt_lines t) = Some es \<and> es \<noteq> []
     \<and> text_bytes t \<le> max_event_file"

lemma file_entries_append:
  "file_entries env (xs @ ys) =
     (case file_entries env xs of None \<Rightarrow> None
      | Some es \<Rightarrow> map_option ((@) es) (file_entries env ys))"
  by (cases "file_entries env ys"; induction xs) (auto split: option.splits)

lemma nonblank_entries:
  "file_entries env ls = Some es \<Longrightarrow> map (line_entry env) (filter (\<lambda>l. \<not> blank l) ls) = map Some es"
  by (induction ls arbitrary: es) (auto split: if_splits option.splits)

lemma line_entry_tail: "line_entry env l = Some (p, b, g) \<Longrightarrow> line_tail_hash env l = Inr g"
proof -
  assume "line_entry env l = Some (p, b, g)"
  then obtain t where t: "l = Text t" "entry env t = Some (p, b, g)" by (auto simp: line_entry_def split: line.splits)
  from entry_dict [OF t(2)] t(1) show ?thesis by (auto simp: line_tail_hash_def simp del: pget.simps)
qed

lemma load_tail_gen_file:
  assumes "el_current s = Some t" "gen_file env t es"
  shows "load_tail_hash env s = Inr (snd (snd (last es)))"
proof -
  let ?nb = "filter (\<lambda>l. \<not> blank l) (lt_lines t)"
  have m: "map (line_entry env) ?nb = map Some es" "es \<noteq> []" "lt_rest t = []"
    using assms(2) nonblank_entries by (auto simp: gen_file_def)
  then have ne: "?nb \<noteq> []" by (metis map_is_Nil_conv)
  then have "lt_lines t \<noteq> []" by auto
  obtain p b g where l: "last es = (p, b, g)" by (cases "last es") auto
  have "line_entry env (last ?nb) = Some (last es)" using m ne by (metis last_map)
  then have "line_tail_hash env (last ?nb) = Inr g" using l line_entry_tail by simp
  moreover obtain l' ls' where "rev ?nb = l' # ls'" "last ?nb = l'" using ne by (metis last_rev list.exhaust rev_rev_ident last_ConsL hd_rev list.sel(1) rev_is_Nil_conv)
  ultimately show ?thesis using assms(1) m(3) \<open>lt_lines t \<noteq> []\<close> l by (simp add: load_tail_hash_def)
qed

lemma verify_gens:
  "list_all2 (gen_file env) ts ess \<Longrightarrow> prev_ok prev \<Longrightarrow>
     map vd_tail (verify_files env prev (map file_of ts)) = map (last_hash None) ess
     \<and> files_entries env (map file_of ts) = Some (concat ess)"
proof (induction ts ess arbitrary: prev rule: list_all2_induct)
  case (Cons t ts es ess)
  then have f: "file_of t = Lines (lt_lines t)" "file_entries env (lt_lines t) = Some es" "es \<noteq> []"
    by (auto simp: gen_file_def file_of_def)
  note v = verified_lines(2) [OF Cons.prems f(2,3)] last_hash_valid [OF f(2) Cons.prems]
  from Cons.IH [OF v(2)] v f show ?case by (simp add: Let_def) (simp add: last_hash_def)
qed simp

section \<open>Invariant of the writer\<close>

type_synonym gens = "(string \<times> log_text \<times> entries) list"

definition gens_entries :: "gens \<Rightarrow> entries" where
  "gens_entries gs = concat (map (\<lambda>(st, t, es). es) gs)"

definition anchor_of :: "gens \<Rightarrow> (string \<times> string) option" where
  "anchor_of gs = (if gs = [] then None
     else case last gs of (st, t, es) \<Rightarrow> Some (rotated_name st, snd (snd (last es))))"

definition log_inv :: "chain_env \<Rightarrow> event_log \<Rightarrow> gens \<Rightarrow> entries \<Rightarrow> bool" where
  "log_inv env s gs cur \<longleftrightarrow>
     el_rotated s = map (\<lambda>(st, t, es). (rotated_name st, t)) gs
     \<and> list_all (\<lambda>(st, t, es). full_stamp st \<and> gen_file env t es) gs
     \<and> sorted_wrt (<) (map fst gs)
     \<and> (case el_current s of None \<Rightarrow> gs = [] \<and> cur = [] | Some t \<Rightarrow> gen_file env t cur)
     \<and> chain_ok env None (gens_entries gs @ cur)
     \<and> last_hash (Some genesis) (gens_entries gs @ cur) = Some (el_prev_hash s)
     \<and> el_anchor s = anchor_of gs"

lemma new_log_inv: "log_inv env (new_log n) [] []"
  by (simp add: log_inv_def new_log_def gens_entries_def last_hash_def anchor_of_def)

lemma log_inv_tail: "log_inv env s gs cur \<Longrightarrow> load_tail_hash env s = Inr (el_prev_hash s)"
proof -
  assume inv: "log_inv env s gs cur"
  show ?thesis
  proof (cases "el_current s")
    case None
    with inv have "gs = []" "cur = []" by (auto simp: log_inv_def)
    with inv None show ?thesis
      by (simp add: log_inv_def load_tail_hash_def empty_tail_hash_def gens_entries_def last_hash_def anchor_of_def)
  next
    case (Some t)
    then have g: "gen_file env t cur" using inv by (simp add: log_inv_def)
    then show ?thesis using load_tail_gen_file [OF Some g] inv
      by (simp add: log_inv_def gen_file_def last_hash_def split: if_splits)
  qed
qed

section \<open>One append\<close>

definition written_record :: "chain_env \<Rightarrow> value_env \<Rightarrow> event \<Rightarrow> string \<Rightarrow> (string, pyval) dict option" where
  "written_record env venv ev prev =
     map_option (fit_record env (event_record venv ev prev)) (ce_dumps env (PDict (event_record venv ev prev)))"

text \<open>\<open>json.loads\<close> reads back what \<open>json.dumps\<close> wrote for this event's record, and its text is
  not blank.\<close>

definition faithful :: "chain_env \<Rightarrow> value_env \<Rightarrow> event \<Rightarrow> bool" where
  "faithful env venv ev \<longleftrightarrow> (\<forall>prev h rec. valid_hash_str prev \<longrightarrow> valid_hash_str h \<longrightarrow>
     written_record env venv ev prev = Some rec \<longrightarrow>
     ce_loads env (ce_line env (PDict (dset ''hash'' (PStr h) rec))) = Some (PDict (dset ''hash'' (PStr h) rec))
     \<and> py_strip (ce_line env (PDict (dset ''hash'' (PStr h) rec))) \<noteq> [])"

lemma written_record_fields:
  assumes "written_record env venv ev prev = Some rec"
  shows "map_of rec ''hash'' = None" "map_of rec ''prev_hash'' = Some (PStr prev)"
  using assms by (auto simp: written_record_def fit_record_def event_record_def)

lemma record_body_hash: "map_of rec ''hash'' = None \<Longrightarrow> record_body (dset ''hash'' v rec) = PDict rec"
  by (simp add: record_body_def map_of_None_iff dset_absent ddel_def filter_id_conv) force

lemma genesis_valid: "valid_hash_str genesis"
  by (simp add: valid_hash_str_def genesis_def hex_digit_def is_digit_def list_all_iff)

lemma append_success:
  assumes "append_locked env venv io ev s = (Inr u, s')"
  shows "\<exists>prev rec body s1. load_tail_hash env s = Inr prev \<and> written_record env venv ev prev = Some rec
    \<and> ce_dumps env (PDict rec) = Some body
    \<and> Suc (length (ce_line env (PDict (dset ''hash'' (PStr (ce_sha env (prev @ body))) rec)))) \<le> max_line
    \<and> write_line env io (ce_line env (PDict (dset ''hash'' (PStr (ce_sha env (prev @ body))) rec))) s = (Inr (), s1)
    \<and> s' = s1\<lparr>el_prev_hash := ce_sha env (prev @ body), el_writable := True\<rparr>"
proof -
  obtain s2 where b: "append_body env venv io ev s = (Inr u, s2)" "s' = s2\<lparr>el_writable := True\<rparr>"
    using assms by (auto simp: append_locked_def Let_def split: prod.splits)
  then obtain prev body0 where p: "load_tail_hash env s = Inr prev"
    "ce_dumps env (PDict (event_record venv ev prev)) = Some body0"
    by (auto simp: append_body_def split: sum.splits option.splits)
  let ?rec = "fit_record env (event_record venv ev prev) body0"
  have w: "written_record env venv ev prev = Some ?rec" using p by (simp add: written_record_def)
  obtain body where d: "ce_dumps env (PDict ?rec) = Some body"
    using b(1) p by (auto simp: append_body_def Let_def split: option.splits)
  let ?text = "ce_line env (PDict (dset ''hash'' (PStr (ce_sha env (prev @ body))) ?rec))"
  obtain r s1 where wl: "write_line env io ?text s = (r, s1)" by (rule prod.exhaust)
  then have "r = Inr ()" "s2 = s1\<lparr>el_prev_hash := ce_sha env (prev @ body)\<rparr>" "Suc (length ?text) \<le> max_line"
    using b(1) p d by (auto simp: append_body_def Let_def split: if_splits sum.splits)
  with p(1) w d wl b(2) show ?thesis by auto
qed

lemma rotate_frame: "el_prev_hash (snd (rotate_if_needed env io n s)) = el_prev_hash s"
  "el_rotate_bytes (snd (rotate_if_needed env io n s)) = el_rotate_bytes s"
  by (auto simp: rotate_if_needed_def Let_def split: option.split sum.split)

lemma rotated_name_inj: "rotated_name a = rotated_name b \<longleftrightarrow> a = b"
  by (simp add: rotated_name_def)

lemma rotate_gens:
  assumes inv: "log_inv env s gs cur" and ok: "rotate_if_needed env io n s = (Inr u, s1)"
    and st: "full_stamp (io_stamp io)" "\<forall>st \<in> set (map fst gs). st < io_stamp io"
  shows "s1 = s \<and> (\<forall>t. el_current s = Some t \<longrightarrow> el_rotate_bytes s = 0 \<or> io_size io = 0 \<or> io_size io + n \<le> el_rotate_bytes s)
    \<or> (\<exists>t. el_current s = Some t \<and> el_current s1 = None \<and> el_prev_hash s1 = el_prev_hash s
    \<and> el_rotated s1 = map (\<lambda>(st, t, es). (rotated_name st, t)) (gs @ [(io_stamp io, t, cur)])
    \<and> el_anchor s1 = anchor_of (gs @ [(io_stamp io, t, cur)]))"
proof (cases "s1 = s")
  case False
  obtain t where t: "el_current s = Some t"
    using ok False by (auto simp: rotate_if_needed_def split: if_splits option.splits)
  note tail = log_inv_tail [OF inv]
  have g: "gen_file env t cur" using inv t by (simp add: log_inv_def)
  have keys: "el_rotated s = map (\<lambda>(st, t, es). (rotated_name st, t)) gs" using inv by (simp add: log_inv_def)
  have new: "rotated_name (io_stamp io) \<notin> fst ` set (el_rotated s)"
  proof
    assume "rotated_name (io_stamp io) \<in> fst ` set (el_rotated s)"
    then obtain st t' es where "(st, t', es) \<in> set gs" "rotated_name st = rotated_name (io_stamp io)"
      unfolding keys by auto
    then show False using st(2) rotated_name_inj by (metis fst_conv image_eqI less_irrefl list.set_map)
  qed
  then have nk: "rotated_name (io_stamp io) \<notin> set (dkeys (el_rotated s))" by (simp add: dkeys_def)
  have ph: "el_prev_hash s = snd (snd (last cur))"
    using load_tail_gen_file [OF t g] tail by simp
  have "s1 = s\<lparr>el_rotated := dset (rotated_name (io_stamp io)) t (el_rotated s), el_current := None,
      el_anchor := Some (rotated_name (io_stamp io), el_prev_hash s)\<rparr>"
    using ok False t tail nk by (auto simp: rotate_if_needed_def Let_def split: if_splits)
  then show ?thesis using t ph dset_absent [OF new] keys by (simp add: anchor_of_def)
next
  case True
  have "el_rotate_bytes s = 0 \<or> io_size io = 0 \<or> io_size io + n \<le> el_rotate_bytes s" if "el_current s = Some t" for t
    using ok that log_inv_tail [OF inv] unfolding True
    by (auto simp: rotate_if_needed_def Let_def dest: arg_cong [of _ _ el_current] split: if_splits)
  with True show ?thesis by blast
qed

lemma append_step:
  assumes inv: "log_inv env s gs cur" and sha: "\<forall>x. valid_hash_str (ce_sha env x)" and fa: "faithful env venv ev"
    and pv: "valid_hash_str (el_prev_hash s)"
    and ok: "append_locked env venv io ev s = (Inr u, s')"
    and st: "full_stamp (io_stamp io)" "\<forall>st \<in> set (map fst gs). st < io_stamp io"
    and sz: "io_size io = current_bytes s" "0 < el_rotate_bytes s" "el_rotate_bytes s \<le> max_event_file"
  shows "\<exists>gs' cur'. log_inv env s' gs' cur' \<and> valid_hash_str (el_prev_hash s') \<and> el_rotate_bytes s' = el_rotate_bytes s
    \<and> length (gens_entries gs' @ cur') = Suc (length (gens_entries gs @ cur))
    \<and> set (map fst gs') \<subseteq> insert (io_stamp io) (set (map fst gs)) \<and> cur' \<noteq> []"
proof -
  obtain prev rec body s1 where a: "load_tail_hash env s = Inr prev" "written_record env venv ev prev = Some rec"
    "ce_dumps env (PDict rec) = Some body"
    "write_line env io (ce_line env (PDict (dset ''hash'' (PStr (ce_sha env (prev @ body))) rec))) s = (Inr (), s1)"
    "Suc (length (ce_line env (PDict (dset ''hash'' (PStr (ce_sha env (prev @ body))) rec)))) \<le> max_line"
    "s' = s1\<lparr>el_prev_hash := ce_sha env (prev @ body), el_writable := True\<rparr>"
    using append_success [OF ok] by blast
  have prev: "prev = el_prev_hash s" using log_inv_tail [OF inv] a(1) by simp
  define h where "h = ce_sha env (prev @ body)"
  define tx where "tx = ce_line env (PDict (dset ''hash'' (PStr h) rec))"
  have hv: "valid_hash_str h" using sha by (simp add: h_def)
  have fits: "Suc (length tx) \<le> max_event_file" using a(5) by (simp add: tx_def h_def max_line_def max_event_file_def)
  have rd: "ce_loads env tx = Some (PDict (dset ''hash'' (PStr h) rec))" "py_strip tx \<noteq> []"
    using fa [unfolded faithful_def, rule_format, OF pv hv] a(2) prev by (auto simp: tx_def)
  note fld = written_record_fields [OF a(2)]
  have en: "line_entry env (Text tx) = Some (prev, body, h)"
    using rd(1) fld a(3) hv pv prev by (simp add: line_entry_def entry_def record_body_hash)
  have nb: "\<not> blank (Text tx)" using rd(2) by (simp add: blank_def)
  have one: "file_entries env (ls @ [Text tx]) = map_option (\<lambda>es. es @ [(prev, body, h)]) (file_entries env ls)" for ls
    by (simp add: file_entries_append en nb split: option.split)
  obtain s2 where rot: "rotate_if_needed env io (Suc (length tx)) s = (Inr (), s2)"
    and s1: "s1 = s2\<lparr>el_current := Some (let t = (case el_current s2 of Some t \<Rightarrow> t | None \<Rightarrow> \<lparr>lt_lines = [], lt_rest = []\<rparr>)
        in t\<lparr>lt_lines := lt_lines t @ [Text (lt_rest t @ tx)], lt_rest := []\<rparr>)\<rparr>"
    using a(4) by (auto simp: write_line_def Let_def tx_def [symmetric] h_def [symmetric]
        split: prod.splits sum.splits option.splits)
  have ch: "chain_ok env None (gens_entries gs @ cur)" and lh: "last_hash (Some genesis) (gens_entries gs @ cur) = Some prev"
    using inv prev by (auto simp: log_inv_def)
  have ch': "chain_ok env None (gens_entries gs @ cur @ [(prev, body, h)])"
  proof -
    have "links (last_hash None (gens_entries gs @ cur)) prev"
      using lh by (auto simp: links_def last_hash_def split: if_splits)
    then show ?thesis using ch chain_ok_append [of env None "gens_entries gs @ cur"] by (simp add: h_def)
  qed
  have lh': "last_hash (Some genesis) (gens_entries gs @ cur @ [(prev, body, h)]) = Some h"
    by (simp add: last_hash_def)
  have rb: "el_rotate_bytes s' = el_rotate_bytes s" using rotate_frame(2) [of env io "Suc (length tx)" s] rot by (simp add: a(6) s1)
  have longer: "text_bytes (t\<lparr>lt_lines := lt_lines t @ [Text (lt_rest t @ tx)], lt_rest := []\<rparr>) = text_bytes t + Suc (length tx)" for t
    by (simp add: text_bytes_def line_bytes_def)
  have one_bytes: "text_bytes \<lparr>lt_lines = [Text tx], lt_rest = []\<rparr> \<le> max_event_file" using fits by (simp add: text_bytes_def line_bytes_def)
  from rotate_gens [OF inv rot st] show ?thesis
  proof (elim disjE exE conjE)
    assume eq: "s2 = s" and small: "\<forall>t. el_current s = Some t \<longrightarrow>
      el_rotate_bytes s = 0 \<or> io_size io = 0 \<or> io_size io + Suc (length tx) \<le> el_rotate_bytes s"
    have "log_inv env s' gs (cur @ [(prev, body, h)])"
    proof (cases "el_current s")
      case None
      then have "gs = []" "cur = []" using inv by (auto simp: log_inv_def)
      then show ?thesis using inv None eq s1 a(6) ch' lh' one [of "[]"] one_bytes
        by (simp add: log_inv_def gen_file_def h_def [symmetric])
    next
      case (Some t)
      then have "gen_file env t cur" using inv by (simp add: log_inv_def)
      then have "gen_file env (t\<lparr>lt_lines := lt_lines t @ [Text (lt_rest t @ tx)], lt_rest := []\<rparr>) (cur @ [(prev, body, h)])"
        using one [of "lt_lines t"] longer [of t] small Some sz fits by (auto simp: gen_file_def current_bytes_def)
      then show ?thesis using inv Some eq s1 a(6) ch' lh' by (simp add: log_inv_def h_def [symmetric])
    qed
    then show ?thesis using hv a(6) rb by (intro exI [of _ gs] exI [of _ "cur @ [(prev, body, h)]"]) (auto simp: h_def)
  next
    fix t assume t: "el_current s = Some t" "el_current s2 = None" "el_prev_hash s2 = el_prev_hash s"
      "el_rotated s2 = map (\<lambda>(st, t, es). (rotated_name st, t)) (gs @ [(io_stamp io, t, cur)])"
      "el_anchor s2 = anchor_of (gs @ [(io_stamp io, t, cur)])"
    let ?gs = "gs @ [(io_stamp io, t, cur)]"
    have g: "gen_file env t cur" using inv t(1) by (simp add: log_inv_def)
    have ge: "gens_entries ?gs = gens_entries gs @ cur" by (simp add: gens_entries_def)
    have "sorted_wrt (<) (map fst ?gs)" using inv st(2) by (simp add: log_inv_def sorted_wrt_append)
    then have "log_inv env s' ?gs [(prev, body, h)]"
      using inv s1 a(6) ch' lh' t g st(1) one [of "[]"] one_bytes unfolding log_inv_def ge
      by (simp add: gen_file_def h_def [symmetric])
    then show ?thesis using hv a(6) ge rb by (intro exI [of _ ?gs] exI [of _ "[(prev, body, h)]"]) (auto simp: h_def)
  qed
qed

lemma append_run:
  assumes "log_inv env s gs cur" "\<forall>x. valid_hash_str (ce_sha env x)" "valid_hash_str (el_prev_hash s)"
    and "\<forall>(io, ev) \<in> set evs. faithful env venv ev \<and> full_stamp (io_stamp io)"
    and "sorted_wrt (<) (map (\<lambda>(io, ev). io_stamp io) evs)"
    and "\<forall>st \<in> set (map fst gs). \<forall>(io, ev) \<in> set evs. st < io_stamp io"
    and "append_all env venv evs s = Some s'" and "0 < el_rotate_bytes s" "el_rotate_bytes s \<le> max_event_file"
  shows "\<exists>gs' cur'. log_inv env s' gs' cur'
    \<and> length (gens_entries gs' @ cur') = length (gens_entries gs @ cur) + length evs
    \<and> (evs = [] \<or> cur' \<noteq> [])"
  using assms
proof (induction evs arbitrary: s gs cur)
  case Nil
  then show ?case by auto
next
  case (Cons e evs)
  obtain io ev where e: "e = (io, ev)" by (rule prod.exhaust)
  obtain u s1 where a: "append_locked env venv (io\<lparr>io_size := current_bytes s\<rparr>) ev s = (Inr u, s1)" "append_all env venv evs s1 = Some s'"
    using Cons.prems(7) e by (auto split: prod.splits sum.splits)
  have "faithful env venv ev" "full_stamp (io_stamp (io\<lparr>io_size := current_bytes s\<rparr>))"
    "\<forall>st \<in> set (map fst gs). st < io_stamp (io\<lparr>io_size := current_bytes s\<rparr>)" "io_size (io\<lparr>io_size := current_bytes s\<rparr>) = current_bytes s"
    using Cons.prems(4,6) e by auto
  from append_step [OF Cons.prems(1,2) this(1) Cons.prems(3) a(1) this(2-4) Cons.prems(8,9)]
  obtain gs1 cur1 where s1: "log_inv env s1 gs1 cur1" "valid_hash_str (el_prev_hash s1)"
    "length (gens_entries gs1 @ cur1) = Suc (length (gens_entries gs @ cur))"
    "set (map fst gs1) \<subseteq> insert (io_stamp io) (set (map fst gs))" "cur1 \<noteq> []" "el_rotate_bytes s1 = el_rotate_bytes s" by auto
  have "\<forall>st \<in> set (map fst gs1). \<forall>(io, ev) \<in> set evs. st < io_stamp io"
    using s1(4) Cons.prems(5,6) e by fastforce
  then obtain gs' cur' where r: "log_inv env s' gs' cur'"
    "length (gens_entries gs' @ cur') = length (gens_entries gs1 @ cur1) + length evs" "evs = [] \<or> cur' \<noteq> []"
    using Cons.IH [OF s1(1) Cons.prems(2) s1(2)] Cons.prems(4,5,8,9) s1(6) a(2) e by auto
  show ?case
  proof (cases "evs = []")
    case True
    then have "s' = s1" using a(2) by simp
    then show ?thesis using s1 True by auto
  qed (use r s1 in auto)
qed

section \<open>What the verifier says of the directory\<close>

lemma sorted_map_key: "sorted_wrt (<) (map f xs) \<Longrightarrow> sort_key f xs = (xs :: 'a list)" for f :: "'a \<Rightarrow> string"
  by (rule sort_key_id_if_sorted) (rule strict_sorted_imp_sorted)

lemma verify_log:
  assumes inv: "log_inv env s gs cur" and cur: "cur \<noteq> []" and n: "length gs \<le> max_rotations"
  shows "\<exists>r. verify_all_generations env (dir_of s) = Inr r \<and> ge_ok r
    \<and> ge_records r = length (gens_entries gs @ cur) \<and> ge_tail r = el_prev_hash s"
proof -
  obtain t where t: "el_current s = Some t" "gen_file env t cur"
    using inv cur by (auto simp: log_inv_def split: option.splits)
  have rot: "sd_rotated (dir_of s) = map (\<lambda>(st, t, es). (rotated_name st, file_of t)) gs"
    using inv by (simp add: dir_of_def log_inv_def case_prod_beta comp_def)
  have la: "list_all (\<lambda>(st, t, es). full_stamp st \<and> gen_file env t es) gs" and so: "sorted_wrt (<) (map fst gs)"
    using inv by (auto simp: log_inv_def)
  have names: "map (\<lambda>f. parse_rotation_timestamp (fst f)) (sd_rotated (dir_of s)) = map fst gs"
    using la unfolding rot by (auto simp: list_all_iff parse_rotated_name)
  have srt: "sort_rotated (sd_rotated (dir_of s)) = sd_rotated (dir_of s)"
    unfolding sort_rotated_def by (rule sorted_map_key) (simp add: names so)
  have "parse_rotation_timestamp (fst f) \<noteq> []" if "f \<in> set (sd_rotated (dir_of s))" for f
    using that la full_stamp_length unfolding rot by (fastforce simp: list_all_iff parse_rotated_name)
  then have bad: "\<not> list_ex (\<lambda>f. parse_rotation_timestamp (fst f) = []) (sd_rotated (dir_of s))"
    by (auto simp: list_ex_iff)
  let ?ts = "map (\<lambda>(st, t, es). t) gs @ [t]" and ?ess = "map (\<lambda>(st, t, es). es) gs @ [cur]"
  have files: "map snd (sort_rotated (sd_rotated (dir_of s))) @ (case sd_current (dir_of s) of Some f \<Rightarrow> [f] | None \<Rightarrow> [])
      = map file_of ?ts"
    by (subst srt, subst rot) (simp add: dir_of_def case_prod_beta comp_def t(1))
  have l2: "list_all2 (gen_file env) ?ts ?ess"
    using la t(2) by (auto simp: list_all2_append list_all2_map1 list_all2_map2 list_all_iff list_all2_same case_prod_beta)
  have p: "prev_ok None" by (simp add: prev_ok_def)
  define res where "res = verify_files env None (map file_of ?ts)"
  have vt: "map vd_tail res = map (last_hash None) ?ess" and fe: "files_entries env (map file_of ?ts) = Some (gens_entries gs @ cur)"
    using verify_gens [OF l2 p] by (simp_all add: res_def gens_entries_def case_prod_beta)
  have ch: "chain_ok env None (gens_entries gs @ cur)" using inv by (simp add: log_inv_def)
  have oks: "list_all vd_ok res" using verify_files_ok [OF p] fe ch unfolding res_def by blast
  have tail: "vd_tail (last res) = last_hash None (gens_entries gs @ cur)"
    "sum_list (map vd_records res) = length (gens_entries gs @ cur)"
    using verify_files_tail [OF p fe] unfolding res_def by simp_all
  have len: "length res = Suc (length gs)" using arg_cong [OF vt, of length] by simp
  have an: "check_anchor (sd_anchor (dir_of s)) (sd_rotated (dir_of s)) res = None"
  proof (cases gs rule: rev_cases)
    case Nil
    then show ?thesis using inv by (simp add: log_inv_def anchor_of_def check_anchor_def dir_of_def)
  next
    case (snoc gs' g)
    obtain st t' es where g: "g = (st, t', es)" by (cases g) auto
    have f: "full_stamp st" "gen_file env t' es" using la snoc g by auto
    obtain p b h where l: "last es = (p, b, h)" by (cases "last es") auto
    have es: "es \<noteq> []" "file_entries env (lt_lines t') = Some es" using f(2) by (auto simp: gen_file_def)
    have hv: "valid_hash_str h" using file_entries_valid [OF es(2), of p b h] es(1) l last_in_set by metis
    have "map vd_tail res ! length gs' = Some h" unfolding vt using snoc g es l by (simp add: nth_append last_hash_def)
    then have "vd_tail (res ! length gs') = Some h" using len snoc by simp
    then show ?thesis using inv snoc g l f(1) hv rot
      by (simp add: log_inv_def anchor_of_def check_anchor_def dir_of_def parse_anchor_def path_name_rotated)
  qed
  have ne: "map file_of ?ts \<noteq> []" by simp
  have lh: "last_hash None (gens_entries gs @ cur) = Some (el_prev_hash s)"
    using inv cur by (simp add: log_inv_def last_hash_def)
  have mr: "\<not> length (sd_rotated (dir_of s)) > max_rotations" using n rot by simp
  show ?thesis
    unfolding verify_all_generations_def Let_def files if_not_P [OF mr] if_not_P [OF bad] if_not_P [OF ne]
    using oks an srt tail lh unfolding res_def by simp
qed

section \<open>Properties\<close>

text \<open>
  C27 What is written verifies: after any run of one or more successful appends to a new log that rotates at a
  size of at most 256 MiB (the verifier refuses larger files), whatever was logged and wherever the
  log rotated, as long as there are at most 10000 rotated files, the verifier accepts the directory
  over all generations and its anchor, counts exactly the appended events and reports the writer's
  own tail hash. Assumed of the outside: digests are well formed, \<open>json.loads\<close> reads back the
  records that were dumped, the file system reports the real sizes, and the rotation times increase.
\<close>

theorem appended_log_verifies:
  assumes "append_all env venv evs (new_log n) = Some s" and "evs \<noteq> []"
    and "\<forall>x. valid_hash_str (ce_sha env x)"
    and "\<forall>(io, ev) \<in> set evs. faithful env venv ev \<and> full_stamp (io_stamp io)"
    and "sorted_wrt (<) (map (\<lambda>(io, ev). io_stamp io) evs)"
    and "length (el_rotated s) \<le> max_rotations" and "0 < n" "n \<le> max_event_file"
  shows "\<exists>r. verify_all_generations env (dir_of s) = Inr r \<and> ge_ok r
    \<and> ge_records r = length evs \<and> ge_tail r = el_prev_hash s"
proof -
  have p: "valid_hash_str (el_prev_hash (new_log n))" by (simp add: new_log_def genesis_valid)
  have rb: "0 < el_rotate_bytes (new_log n)" "el_rotate_bytes (new_log n) \<le> max_event_file" using assms(7,8) by (simp_all add: new_log_def)
  obtain gs cur where r: "log_inv env s gs cur" "length (gens_entries gs @ cur) = length evs" "cur \<noteq> []"
    using append_run [OF new_log_inv assms(3) p assms(4,5) _ assms(1) rb] assms(2) by (auto simp: gens_entries_def)
  have "length gs \<le> max_rotations" using assms(6) r(1) by (simp add: log_inv_def)
  from verify_log [OF r(1,3) this] r(2) show ?thesis by auto
qed

definition demo_venv :: value_env where
  "demo_venv = \<lparr>ve_redact = (\<lambda>s. s), ve_mark = ''...''\<rparr>"

definition demo_event :: event where
  "demo_event = \<lparr>ev_ts = ''t'', ev_kind = PStr ''turn'', ev_trace = PStr ''a'', ev_span = PStr ''b'', ev_parent = PNone,
     ev_attrs = PDict [], ev_payload = PDict []\<rparr>"

definition demo_log_env :: chain_env where
  "demo_log_env = \<lparr>ce_sha = (\<lambda>s. if take 64 s = genesis then hash_a else hash_b),
     ce_loads = (\<lambda>s. Some (PDict (dset ''hash'' (PStr (drop 65 s)) (event_record demo_venv demo_event (take 64 (tl s)))))),
     ce_dumps = (\<lambda>v. Some ''{}''),
     ce_line = (\<lambda>v. ''{'' @ (case (pget v ''prev_hash'', pget v ''hash'') of (PStr p, PStr h) \<Rightarrow> p @ h | _ \<Rightarrow> []))\<rparr>"

definition demo_io :: "string \<Rightarrow> append_io" where
  "demo_io stamp = \<lparr>io_size = 100, io_stamp = stamp, io_ulid = ''01H'', io_rename_fails = False,
     io_anchor_fails = False, io_written = None\<rparr>"

lemma strip_visible: "\<not> is_space c \<Longrightarrow> py_strip (c # s) \<noteq> []"
  by (auto simp: py_strip_def)

lemma demo_written: "written_record demo_log_env demo_venv demo_event prev = Some (event_record demo_venv demo_event prev)"
  by (simp add: written_record_def demo_log_env_def fit_record_def max_line_def)

lemma demo_line: "ce_line demo_log_env (PDict (dset ''hash'' (PStr h) (event_record demo_venv demo_event prev)))
    = CHR ''{'' # prev @ h"
  by (simp add: demo_log_env_def event_record_def)

lemma demo_loads: "length prev = 64 \<Longrightarrow> ce_loads demo_log_env (CHR ''{'' # prev @ h)
    = Some (PDict (dset ''hash'' (PStr h) (event_record demo_venv demo_event prev)))"
  by (simp add: demo_log_env_def)

lemma demo_faithful: "faithful demo_log_env demo_venv demo_event"
proof -
  have "\<not> is_space (CHR ''{'')" by (simp add: is_space_def)
  then show ?thesis
    by (simp add: faithful_def demo_written demo_line demo_loads valid_hash_length strip_visible)
qed

definition demo_events :: "(append_io \<times> event) list" where
  "demo_events = [(demo_io ''20240101T000000000000Z'', demo_event), (demo_io ''20240101T000001000000Z'', demo_event)]"

lemma hash_lengths [simp]: "length genesis = 64" "length hash_a = 64" "length hash_b = 64"
  by (simp_all add: genesis_def hash_a_def hash_b_def)

lemma demo_digest: "ce_sha demo_log_env (genesis @ b) = hash_a" "ce_sha demo_log_env (hash_a @ b) = hash_b"
proof -
  have "hash_a \<noteq> genesis" by (simp add: hash_a_def genesis_def)
  then show "ce_sha demo_log_env (genesis @ b) = hash_a" "ce_sha demo_log_env (hash_a @ b) = hash_b"
    by (simp_all add: demo_log_env_def)
qed

lemma hash_ab_valid: "valid_hash_str hash_a" "valid_hash_str hash_b"
  by (simp_all add: valid_hash_str_def hash_a_def hash_b_def hex_digit_def list_all_iff)

text \<open>One append of the demonstration event onto a loaded tail.\<close>

lemma demo_append:
  assumes "load_tail_hash demo_log_env s = Inr prev" "length prev = 64" "length (ce_sha demo_log_env (prev @ ''{}'')) = 64"
  shows "append_locked demo_log_env demo_venv io demo_event s =
    (let h = ce_sha demo_log_env (prev @ ''{}''); (r, s') = write_line demo_log_env io (CHR ''{'' # prev @ h) s in
      (case r of Inl e \<Rightarrow> (Inl e, s'\<lparr>el_writable := False\<rparr>) | Inr u \<Rightarrow> (Inr (), s'\<lparr>el_prev_hash := h, el_writable := True\<rparr>)))"
proof -
  have d: "ce_dumps demo_log_env v = Some ''{}''" for v by (simp add: demo_log_env_def)
  have f: "fit_record demo_log_env (event_record demo_venv demo_event prev) ''{}'' = event_record demo_venv demo_event prev"
    by (simp add: fit_record_def max_line_def)
  show ?thesis using assms
    by (simp add: append_locked_def append_body_def d f demo_line Let_def max_line_def split: prod.split sum.split)
qed

definition demo_text :: "string \<Rightarrow> string \<Rightarrow> log_text" where
  "demo_text prev h = \<lparr>lt_lines = [Text (CHR ''{'' # prev @ h)], lt_rest = []\<rparr>"

definition demo_log1 :: event_log where
  "demo_log1 = (new_log 50)\<lparr>el_prev_hash := hash_a, el_current := Some (demo_text genesis hash_a)\<rparr>"

definition demo_log1r :: event_log where
  "demo_log1r = demo_log1\<lparr>el_rotated := [(rotated_name ''20240101T000001000000Z'', demo_text genesis hash_a)],
     el_current := None, el_anchor := Some (rotated_name ''20240101T000001000000Z'', hash_a)\<rparr>"

lemma demo_append1: "append_locked demo_log_env demo_venv ((demo_io st)\<lparr>io_size := k\<rparr>) demo_event (new_log 50) = (Inr (), demo_log1)"
proof -
  have "load_tail_hash demo_log_env (new_log 50) = Inr genesis"
    by (simp add: load_tail_hash_def empty_tail_hash_def new_log_def)
  then show ?thesis
    by (simp add: demo_append demo_digest demo_io_def write_line_def rotate_if_needed_def demo_log1_def demo_text_def new_log_def)
qed

lemma demo_tail1: "load_tail_hash demo_log_env demo_log1 = Inr hash_a"
proof -
  have "\<not> is_space (CHR ''{'')" by (simp add: is_space_def)
  then show ?thesis
    by (simp add: load_tail_hash_def demo_log1_def demo_text_def blank_def strip_visible line_tail_hash_def demo_loads
        hash_ab_valid)
qed

lemma demo_rotate1: "50 < k \<Longrightarrow>
    rotate_if_needed demo_log_env ((demo_io ''20240101T000001000000Z'')\<lparr>io_size := k\<rparr>) n demo_log1 = (Inr (), demo_log1r)"
  using demo_tail1 by (simp add: rotate_if_needed_def demo_io_def demo_log1r_def)
    (simp add: demo_log1_def new_log_def dkeys_def Let_def)

lemma demo_stamps: "full_stamp ''20240101T000000000000Z''" "full_stamp ''20240101T000001000000Z''"
proof -
  show "full_stamp ''20240101T000000000000Z''"
    unfolding full_stamp_def by (rule exI [of _ "''20240101''"], rule exI [of _ "''000000000000''"]) code_simp
  show "full_stamp ''20240101T000001000000Z''"
    unfolding full_stamp_def by (rule exI [of _ "''20240101''"], rule exI [of _ "''000001000000''"]) code_simp
qed

theorem appended_log_verifies_witness:
  "\<exists>s r. append_all demo_log_env demo_venv demo_events (new_log 50) = Some s \<and> el_rotated s \<noteq> []
    \<and> verify_all_generations demo_log_env (dir_of s) = Inr r \<and> ge_ok r \<and> ge_records r = 2"
proof -
  let ?s = "demo_log1r\<lparr>el_current := Some (demo_text hash_a hash_b), el_prev_hash := hash_b\<rparr>"
  have b: "current_bytes demo_log1 = 130" by (simp add: current_bytes_def demo_log1_def demo_text_def text_bytes_def line_bytes_def)
  have "append_all demo_log_env demo_venv demo_events (new_log 50) = Some ?s"
    by (simp add: demo_events_def demo_append1 demo_append demo_tail1 demo_digest write_line_def demo_rotate1 b)
      (simp add: demo_io_def demo_log1r_def demo_log1_def new_log_def demo_text_def)
  then obtain s where s: "append_all demo_log_env demo_venv demo_events (new_log 50) = Some s" "length (el_rotated s) = 1"
    by (simp add: demo_log1r_def)
  have sha: "\<forall>x. valid_hash_str (ce_sha demo_log_env x)" by (simp add: demo_log_env_def hash_ab_valid)
  have "\<forall>(io, ev) \<in> set demo_events. faithful demo_log_env demo_venv ev \<and> full_stamp (io_stamp io)"
    by (simp add: demo_events_def demo_io_def demo_faithful demo_stamps)
  moreover have "sorted_wrt (<) (map (\<lambda>(io, ev). io_stamp io) demo_events)" by code_simp
  moreover have "length (el_rotated s) \<le> max_rotations" "el_rotated s \<noteq> []"
    using s(2) by (auto simp: max_rotations_def)
  ultimately show ?thesis
    using appended_log_verifies [OF s(1) _ sha] s(1) by (auto simp: demo_events_def max_event_file_def)
qed

text \<open>
  C37 A writer that stops between the rotation and the first write into the new file (a crash,
  a full disk) leaves a log that refuses every later append, although the anchor or the rotated
  file still holds the tail hash: the missing current file is taken for lost data.
\<close>

theorem interrupted_rotation_blocks_log:
  assumes "rotate_if_needed env io incoming s = (r, s1)" and "s1 \<noteq> s"
  shows "\<exists>m. append_locked env venv io' ev s1 = (Inl (ValueError m), s1\<lparr>el_writable := False\<rparr>)
    \<and> append_locked env venv io' ev (s1\<lparr>el_writable := False\<rparr>) = (Inl (ValueError m), s1\<lparr>el_writable := False\<rparr>)"
proof -
  have "el_current s1 = None \<and> el_rotated s1 \<noteq> []"
  proof -
    show ?thesis using assms
      by (auto simp: rotate_if_needed_def Let_def split: if_splits option.splits sum.splits)
  qed
  then show ?thesis
    by (simp add: append_locked_def append_body_def load_tail_hash_def empty_tail_hash_def)
qed

theorem interrupted_rotation_blocks_log_witness:
  "\<exists>s s1. append_all demo_log_env demo_venv (take 1 demo_events) (new_log 50) = Some s
    \<and> rotate_if_needed demo_log_env (demo_io ''20240101T000001000000Z'') 130 s = (Inr (), s1)
    \<and> (\<exists>m. fst (append_locked demo_log_env demo_venv (demo_io ''20240101T000002000000Z'') demo_event s1) = Inl (ValueError m))"
proof -
  have "demo_log1r \<noteq> demo_log1" by (simp add: demo_log1r_def demo_log1_def new_log_def)
  then obtain s s1 where s: "append_all demo_log_env demo_venv (take 1 demo_events) (new_log 50) = Some s"
    "rotate_if_needed demo_log_env (demo_io ''20240101T000001000000Z'') 130 s = (Inr (), s1)" "s1 \<noteq> s"
    using demo_rotate1 [of 100 130] by (simp add: demo_events_def demo_append1) (simp add: demo_io_def)
  from interrupted_rotation_blocks_log [OF s(2,3), of demo_venv "demo_io ''20240101T000002000000Z''" demo_event] s(1,2)
  show ?thesis by auto
qed

end
