(* ===== verification/Atomic.thy ===== *)
theory Atomic
  imports PyDict
begin

text \<open>
  \<open>norax/atomic.py\<close>: bounded reads, atomic replacement, creation and bounded append of state files.
  The file system is names that point to inodes. A call of the operating system either fails and changes
  nothing (a write may have stored part of its data) or takes effect; every effect is kept in a trace, newest
  first, so that what a crash leaves behind is some element of the trace. Which calls fail, how much an
  \<open>os.write\<close> takes, the name that \<open>mkstemp\<close> picks and the text encoding are arguments.
\<close>

section \<open>File systems\<close>

datatype inode_kind = Regular | Directory | Symlink string | Special

record inode =
  in_kind :: inode_kind
  in_bytes :: string
  in_mode :: nat

record fs =
  fs_names :: "(string, nat) dict"
  fs_inodes :: "nat \<Rightarrow> inode option"
  fs_next :: nat

definition node_at :: "fs \<Rightarrow> string \<Rightarrow> inode option" where
  "node_at fs p = (case map_of (fs_names fs) p of None \<Rightarrow> None | Some i \<Rightarrow> fs_inodes fs i)"

definition nlink :: "fs \<Rightarrow> nat \<Rightarrow> nat" where
  "nlink fs i = length (filter (\<lambda>e. snd e = i) (fs_names fs))"

definition fs_ok :: "fs \<Rightarrow> bool" where
  "fs_ok fs \<longleftrightarrow> dict_ok (fs_names fs) \<and> (\<forall>(p, i) \<in> set (fs_names fs). i < fs_next fs \<and> fs_inodes fs i \<noteq> None)"

text \<open>\<open>Path.exists\<close> follows symbolic links; the kernel gives up after 40.\<close>

fun resolves :: "nat \<Rightarrow> fs \<Rightarrow> string \<Rightarrow> bool" where
  "resolves 0 fs p = False"
| "resolves (Suc n) fs p =
     (case node_at fs p of None \<Rightarrow> False
      | Some x \<Rightarrow> (case in_kind x of Symlink q \<Rightarrow> resolves n fs q | _ \<Rightarrow> True))"

definition path_exists :: "fs \<Rightarrow> string \<Rightarrow> bool" where
  "path_exists fs p = resolves 41 fs p"

definition new_file :: "string \<Rightarrow> nat \<Rightarrow> fs \<Rightarrow> fs" where
  "new_file p mode fs = fs\<lparr>fs_names := dset p (fs_next fs) (fs_names fs),
     fs_inodes := (fs_inodes fs)(fs_next fs \<mapsto> \<lparr>in_kind = Regular, in_bytes = [], in_mode = mode\<rparr>),
     fs_next := Suc (fs_next fs)\<rparr>"

definition change :: "string \<Rightarrow> (inode \<Rightarrow> inode) \<Rightarrow> fs \<Rightarrow> fs" where
  "change p f fs = (case map_of (fs_names fs) p of None \<Rightarrow> fs
     | Some i \<Rightarrow> fs\<lparr>fs_inodes := (fs_inodes fs)(i := map_option f (fs_inodes fs i))\<rparr>)"

definition unlink :: "string \<Rightarrow> fs \<Rightarrow> fs" where
  "unlink p fs = fs\<lparr>fs_names := ddel p (fs_names fs)\<rparr>"

definition link_to :: "string \<Rightarrow> string \<Rightarrow> fs \<Rightarrow> fs" where
  "link_to p q fs = (case map_of (fs_names fs) p of None \<Rightarrow> fs | Some i \<Rightarrow> fs\<lparr>fs_names := dset q i (fs_names fs)\<rparr>)"

definition rename_to :: "string \<Rightarrow> string \<Rightarrow> fs \<Rightarrow> fs" where
  "rename_to p q fs = (case map_of (fs_names fs) p of None \<Rightarrow> fs
     | Some i \<Rightarrow> fs\<lparr>fs_names := dset q i (ddel p (fs_names fs))\<rparr>)"

section \<open>Calls\<close>

datatype site = Mkdir | Mkstemp | Fchmod | Fdopen | Write_all | Fsync | Replace | Link | Open_dir | Fsync_dir
  | Unlink | Open | Flock | Os_write nat

record io_env =
  io_fails :: "site \<Rightarrow> bool"
  io_partial :: nat
  io_writes :: "nat \<Rightarrow> nat"
  io_tmp :: string
  io_encode :: "string \<Rightarrow> string res"

type_synonym 'a io = "fs list \<Rightarrow> 'a res \<times> fs list"

definition io_give :: "'a \<Rightarrow> 'a io" where
  "io_give a tr = (Inr a, tr)"

definition io_fail :: "py_exn \<Rightarrow> 'a io" where
  "io_fail e tr = (Inl e, tr)"

definition andthen :: "'a io \<Rightarrow> ('a \<Rightarrow> 'b io) \<Rightarrow> 'b io" where
  "andthen m k tr = (case m tr of (Inl e, tr') \<Rightarrow> (Inl e, tr') | (Inr a, tr') \<Rightarrow> k a tr')"

definition call :: "io_env \<Rightarrow> site \<Rightarrow> (fs \<Rightarrow> fs) \<Rightarrow> unit io" where
  "call env s f tr = (if io_fails env s then (Inl (OSError ''call''), tr) else (Inr (), f (hd tr) # tr))"

text \<open>\<open>finally\<close> with a clean-up whose own errors are swallowed.\<close>

definition finally_do :: "'a io \<Rightarrow> unit io \<Rightarrow> 'a io" where
  "finally_do m c tr = (case m tr of (r, tr') \<Rightarrow> (r, snd (c tr')))"

definition io_when :: "bool \<Rightarrow> unit io \<Rightarrow> unit io" where
  "io_when b m = (if b then m else io_give ())"

section \<open>The helpers\<close>

definition mkstemp :: "io_env \<Rightarrow> unit io" where
  "mkstemp env tr = (if map_of (fs_names (hd tr)) (io_tmp env) \<noteq> None then (Inl (OSError ''exists''), tr)
     else call env Mkstemp (new_file (io_tmp env) 384) tr)"

definition set_bytes :: "string \<Rightarrow> inode \<Rightarrow> inode" where
  "set_bytes b x = x\<lparr>in_bytes := b\<rparr>"

text \<open>\<open>handle.write\<close> and the flush before the file is closed; a failure leaves a part.\<close>

definition write_tmp :: "io_env \<Rightarrow> string \<Rightarrow> unit io" where
  "write_tmp env data tr =
     (if io_fails env Write_all
      then (Inl (OSError ''write''), change (io_tmp env) (set_bytes (take (io_partial env) data)) (hd tr) # tr)
      else (Inr (), change (io_tmp env) (set_bytes data) (hd tr) # tr))"

definition encode_io :: "io_env \<Rightarrow> string \<Rightarrow> string io" where
  "encode_io env s tr = (io_encode env s, tr)"

definition sync_dir :: "io_env \<Rightarrow> unit io" where
  "sync_dir env = andthen (call env Open_dir id) (\<lambda>_. call env Fsync_dir id)"

definition os_replace :: "io_env \<Rightarrow> string \<Rightarrow> unit io" where
  "os_replace env target tr =
     (case node_at (hd tr) target of
        Some x \<Rightarrow> if in_kind x = Directory then (Inl (OSError ''is a directory''), tr)
                  else call env Replace (rename_to (io_tmp env) target) tr
      | None \<Rightarrow> call env Replace (rename_to (io_tmp env) target) tr)"

definition set_mode :: "nat \<Rightarrow> inode \<Rightarrow> inode" where
  "set_mode m x = x\<lparr>in_mode := m\<rparr>"

definition atomic_write_text :: "io_env \<Rightarrow> string \<Rightarrow> string \<Rightarrow> bool \<Rightarrow> nat option \<Rightarrow> unit io" where
  "atomic_write_text env target text0 durable mode =
     (if (case mode of Some m \<Rightarrow> 4095 < m | None \<Rightarrow> False) then io_fail (ValueError ''mode'')
      else andthen (call env Mkdir id) (\<lambda>_.
           andthen (mkstemp env) (\<lambda>_.
           finally_do
             (andthen (case mode of None \<Rightarrow> io_give () | Some m \<Rightarrow> call env Fchmod (change (io_tmp env) (set_mode m))) (\<lambda>_.
              andthen (call env Fdopen id) (\<lambda>_.
              andthen (encode_io env text0) (\<lambda>data.
              andthen (write_tmp env data) (\<lambda>_.
              andthen (io_when durable (call env Fsync id)) (\<lambda>_.
              andthen (os_replace env target) (\<lambda>_.
              io_when durable (sync_dir env))))))))
             (call env Unlink (unlink (io_tmp env))))))"

definition os_link :: "io_env \<Rightarrow> string \<Rightarrow> bool io" where
  "os_link env target tr =
     (if map_of (fs_names (hd tr)) target \<noteq> None then (Inr False, tr)
      else andthen (call env Link (link_to (io_tmp env) target)) (\<lambda>_. io_give True) tr)"

definition atomic_create_bytes :: "io_env \<Rightarrow> string \<Rightarrow> string \<Rightarrow> nat \<Rightarrow> bool io" where
  "atomic_create_bytes env target data mode =
     (if 4095 < mode then io_fail (ValueError ''mode'')
      else andthen (call env Mkdir id) (\<lambda>_ tr.
        if path_exists (hd tr) target then (Inr False, tr)
        else andthen (mkstemp env) (\<lambda>_.
          finally_do
            (andthen (call env Fchmod (change (io_tmp env) (set_mode mode))) (\<lambda>_.
             andthen (call env Fdopen id) (\<lambda>_.
             andthen (write_tmp env data) (\<lambda>_.
             andthen (call env Fsync id) (\<lambda>_.
             andthen (os_link env target) (\<lambda>created.
             if \<not> created then io_give False
             else andthen (sync_dir env) (\<lambda>_. io_give True)))))))
            (call env Unlink (unlink (io_tmp env)))) tr))"

text \<open>The loop over \<open>os.write\<close>; call number \<open>k\<close> takes at most \<open>io_writes env k\<close> bytes.\<close>

function append_loop :: "io_env \<Rightarrow> string \<Rightarrow> nat \<Rightarrow> string \<Rightarrow> unit io" where
  "append_loop env p k rest tr =
     (if rest = [] then (Inr (), tr)
      else if io_fails env (Os_write k) then (Inl (OSError ''write''), tr)
      else if io_writes env k = 0 then (Inl (OSError ''short write''), tr)
      else append_loop env p (Suc k) (drop (io_writes env k) rest)
             (change p (\<lambda>x. set_bytes (in_bytes x @ take (io_writes env k) rest) x) (hd tr) # tr))"
  by pat_completeness auto
termination by (relation "measure (\<lambda>(env, p, k, rest, tr). length rest)") auto

declare append_loop.simps [simp del]

definition open_append :: "io_env \<Rightarrow> string \<Rightarrow> nat \<Rightarrow> unit io" where
  "open_append env p mode tr =
     (case node_at (hd tr) p of
        None \<Rightarrow> call env Open (new_file p mode) tr
      | Some x \<Rightarrow> (case in_kind x of Regular \<Rightarrow> call env Open id tr | Special \<Rightarrow> call env Open id tr
                   | _ \<Rightarrow> (Inl (OSError ''open''), tr)))"

definition stat_single :: "string \<Rightarrow> unit io" where
  "stat_single p tr =
     (case map_of (fs_names (hd tr)) p of
        None \<Rightarrow> (Inl (OSError ''stat''), tr)
      | Some i \<Rightarrow> (case fs_inodes (hd tr) i of
          None \<Rightarrow> (Inl (OSError ''stat''), tr)
        | Some x \<Rightarrow> if in_kind x = Regular \<and> nlink (hd tr) i = 1 then (Inr (), tr)
                    else (Inl (ValueError ''append target is not a singly linked regular file''), tr)))"

definition file_size :: "string \<Rightarrow> nat io" where
  "file_size p tr = (Inr (case node_at (hd tr) p of None \<Rightarrow> 0 | Some x \<Rightarrow> length (in_bytes x)), tr)"

definition append_bounded_text :: "io_env \<Rightarrow> string \<Rightarrow> string \<Rightarrow> int \<Rightarrow> bool \<Rightarrow> nat \<Rightarrow> nat io" where
  "append_bounded_text env p text0 max_bytes durable mode =
     (if max_bytes < 1 then io_fail (ValueError ''max_bytes must be a positive integer'')
      else if 4095 < mode then io_fail (ValueError ''mode must be an integer between 0 and 0o7777'')
      else andthen (encode_io env text0) (\<lambda>data.
        if int (length data) > max_bytes then io_fail (ValueError ''appended text exceeds the file byte limit'')
        else andthen (call env Mkdir id) (\<lambda>_.
             andthen (open_append env p mode) (\<lambda>_.
             andthen (stat_single p) (\<lambda>_.
             andthen (call env Fchmod (change p (set_mode mode))) (\<lambda>_.
             andthen (call env Flock id) (\<lambda>_.
             andthen (file_size p) (\<lambda>size0.
             if int (size0 + length data) > max_bytes then io_fail (ValueError ''append would exceed the limit'')
             else andthen (append_loop env p 0 data) (\<lambda>_.
                  andthen (io_when durable (call env Fsync id)) (\<lambda>_.
                  io_give (size0 + length data)))))))))))"

text \<open>\<open>at_stat\<close> is the file system when the descriptor is checked, \<open>at_read\<close> when its bytes are read.\<close>

definition read_bounded_bytes :: "string \<Rightarrow> int \<Rightarrow> bool \<Rightarrow> fs \<Rightarrow> (nat \<Rightarrow> inode option) \<Rightarrow> string res" where
  "read_bounded_bytes p max_bytes require_private at_stat at_read =
     (if max_bytes < 1 then Inl (ValueError ''max_bytes must be a positive integer'')
      else case map_of (fs_names at_stat) p of
        None \<Rightarrow> Inl (OSError ''not found'')
      | Some i \<Rightarrow> (case fs_inodes at_stat i of
          None \<Rightarrow> Inl (OSError ''not found'')
        | Some x \<Rightarrow> (case in_kind x of
            Symlink q \<Rightarrow> Inl (OSError ''symbolic link'')
          | Regular \<Rightarrow>
              if require_private \<and> in_mode x mod 64 \<noteq> 0 then Inl (OSError ''accessible by group or others'')
              else if int (length (in_bytes x)) > max_bytes then Inl (ValueError ''state file exceeds the limit'')
              else let payload = take (Suc (nat max_bytes)) (case at_read i of Some y \<Rightarrow> in_bytes y | None \<Rightarrow> []) in
                if int (length payload) > max_bytes then Inl (ValueError ''state file exceeds the limit'')
                else Inr payload
          | _ \<Rightarrow> Inl (ValueError ''state path is not a regular file''))))"


section \<open>A logic of traces\<close>

text \<open>\<open>safe I P m Q\<close>: from a state with \<open>P\<close> every state that \<open>m\<close> passes through has \<open>I\<close>, and it ends with \<open>Q\<close>.\<close>

definition safe :: "(fs \<Rightarrow> bool) \<Rightarrow> (fs \<Rightarrow> bool) \<Rightarrow> 'a io \<Rightarrow> ('a res \<Rightarrow> fs \<Rightarrow> bool) \<Rightarrow> bool" where
  "safe I P m Q \<longleftrightarrow> (\<forall>tr. tr \<noteq> [] \<and> list_all I tr \<and> P (hd tr) \<longrightarrow>
     snd (m tr) \<noteq> [] \<and> list_all I (snd (m tr)) \<and> Q (fst (m tr)) (hd (snd (m tr))))"

lemma safeD:
  "safe I P m Q \<Longrightarrow> I s \<Longrightarrow> P s \<Longrightarrow> m [s] = (r, tr) \<Longrightarrow> list_all I tr \<and> tr \<noteq> [] \<and> Q r (hd tr)"
  unfolding safe_def by (drule spec [of _ "[s]"]) simp

lemma safe_give: "(\<And>s. P s \<Longrightarrow> Q (Inr a) s) \<Longrightarrow> safe I P (io_give a) Q"
  by (simp add: safe_def io_give_def)

lemma safe_fail: "(\<And>s. P s \<Longrightarrow> Q (Inl e) s) \<Longrightarrow> safe I P (io_fail e) Q"
  by (simp add: safe_def io_fail_def)

lemma safe_call:
  "(\<And>s. P s \<Longrightarrow> io_fails env c \<Longrightarrow> Q (Inl (OSError ''call'')) s) \<Longrightarrow>
   (\<And>s. P s \<Longrightarrow> I s \<Longrightarrow> \<not> io_fails env c \<Longrightarrow> I (f s) \<and> Q (Inr ()) (f s)) \<Longrightarrow> safe I P (call env c f) Q"
  by (auto simp: safe_def call_def list_all_iff)

lemma safe_andthen:
  assumes m: "safe I P m (\<lambda>r s. case r of Inl e \<Rightarrow> Q (Inl e) s | Inr a \<Rightarrow> R a s)"
    and k: "\<And>a. safe I (R a) (k a) Q"
  shows "safe I P (andthen m k) Q"
  unfolding safe_def
proof (intro allI impI)
  fix tr assume tr: "tr \<noteq> [] \<and> list_all I tr \<and> P (hd tr)"
  obtain r tr' where mr: "m tr = (r, tr')" by (rule prod.exhaust)
  have c: "tr' \<noteq> [] \<and> list_all I tr' \<and> (case r of Inl e \<Rightarrow> Q (Inl e) (hd tr') | Inr a \<Rightarrow> R a (hd tr'))"
    using m [unfolded safe_def, rule_format, OF tr] mr by (cases r) simp_all
  show "snd (andthen m k tr) \<noteq> [] \<and> list_all I (snd (andthen m k tr)) \<and> Q (fst (andthen m k tr)) (hd (snd (andthen m k tr)))"
  proof (cases r)
    case (Inl e)
    then show ?thesis using c mr by (simp add: andthen_def)
  next
    case (Inr a)
    then show ?thesis using c mr k [of a, unfolded safe_def, rule_format, of tr'] by (simp add: andthen_def)
  qed
qed

lemma safe_finally:
  assumes m: "safe I P m (\<lambda>r s. R r s)" and c: "\<And>r. safe I (R r) c (\<lambda>_. Q r)"
  shows "safe I P (finally_do m c) Q"
  unfolding safe_def
proof (intro allI impI)
  fix tr assume tr: "tr \<noteq> [] \<and> list_all I tr \<and> P (hd tr)"
  obtain r tr' where mr: "m tr = (r, tr')" by (rule prod.exhaust)
  have "tr' \<noteq> [] \<and> list_all I tr' \<and> R r (hd tr')"
    using m [unfolded safe_def, rule_format, OF tr] mr by simp
  then show "snd (finally_do m c tr) \<noteq> [] \<and> list_all I (snd (finally_do m c tr))
      \<and> Q (fst (finally_do m c tr)) (hd (snd (finally_do m c tr)))"
    using mr c [of r, unfolded safe_def, rule_format, of tr'] by (simp add: finally_do_def)
qed

lemma safe_weaken: "safe I P m Q \<Longrightarrow> (\<And>s. P' s \<Longrightarrow> P s) \<Longrightarrow> (\<And>r s. Q r s \<Longrightarrow> Q' r s) \<Longrightarrow> safe I P' m Q'"
  by (auto simp: safe_def)

section \<open>Replacement\<close>

text \<open>The file systems a replacement goes through: the temporary name and the target may or may not be
  the new inode; everything else is as it was.\<close>

definition shape :: "fs \<Rightarrow> string \<Rightarrow> string \<Rightarrow> bool \<Rightarrow> bool \<Rightarrow> inode \<Rightarrow> fs \<Rightarrow> bool" where
  "shape fs0 tmp target a b x fs \<longleftrightarrow>
     map_of (fs_names fs) = (map_of (fs_names fs0))(tmp := (if a then Some (fs_next fs0) else None),
       target := (if b then Some (fs_next fs0) else map_of (fs_names fs0) target))
     \<and> (\<forall>i < fs_next fs0. fs_inodes fs i = fs_inodes fs0 i) \<and> fs_inodes fs (fs_next fs0) = Some x"

lemma shape_new: "tmp \<noteq> target \<Longrightarrow>
  shape fs0 tmp target True False \<lparr>in_kind = Regular, in_bytes = [], in_mode = m\<rparr> (new_file tmp m fs0)"
  by (auto simp: shape_def new_file_def fun_eq_iff)

lemma shape_change: "tmp \<noteq> target \<Longrightarrow> shape fs0 tmp target True b x fs \<Longrightarrow> shape fs0 tmp target True b (f x) (change tmp f fs)"
  by (auto simp: shape_def change_def)

lemma shape_rename: "tmp \<noteq> target \<Longrightarrow> shape fs0 tmp target True b x fs \<Longrightarrow> shape fs0 tmp target False True x (rename_to tmp target fs)"
  by (auto simp: shape_def rename_to_def fun_eq_iff)

lemma shape_link: "tmp \<noteq> target \<Longrightarrow> shape fs0 tmp target True b x fs \<Longrightarrow> shape fs0 tmp target True True x (link_to tmp target fs)"
  by (auto simp: shape_def link_to_def fun_eq_iff)

lemma shape_unlink: "tmp \<noteq> target \<Longrightarrow> shape fs0 tmp target a b x fs \<Longrightarrow> shape fs0 tmp target False b x (unlink tmp fs)"
  by (auto simp: shape_def unlink_def fun_eq_iff)

lemma shape_nodes:
  assumes "shape fs0 tmp target a b x fs" "fs_ok fs0" "tmp \<noteq> target"
  shows "node_at fs target = (if b then Some x else node_at fs0 target)"
    and "p \<noteq> tmp \<Longrightarrow> p \<noteq> target \<Longrightarrow> node_at fs p = node_at fs0 p"
    and "map_of (fs_names fs) tmp = (if a then Some (fs_next fs0) else None)"
proof -
  have lt: "map_of (fs_names fs0) q = Some i \<Longrightarrow> i < fs_next fs0" for q i
    using assms(2) by (auto simp: fs_ok_def dest!: map_of_SomeD)
  show "node_at fs target = (if b then Some x else node_at fs0 target)"
    "p \<noteq> tmp \<Longrightarrow> p \<noteq> target \<Longrightarrow> node_at fs p = node_at fs0 p"
    "map_of (fs_names fs) tmp = (if a then Some (fs_next fs0) else None)"
    using assms(1,3) lt by (auto simp: shape_def node_at_def split: option.splits)
qed


lemma safe_still: "(\<And>r s. P s \<Longrightarrow> Q r s) \<Longrightarrow> safe I P (call env c id) Q"
  by (rule safe_call) auto

lemma safe_sync: "(\<And>r s. P s \<Longrightarrow> Q r s) \<Longrightarrow> safe I P (sync_dir env) Q"
  unfolding sync_dir_def
  by (rule safe_andthen [where R = "\<lambda>_. P"], rule safe_still) (auto split: sum.split intro: safe_still)

lemma safe_when:
  "(b \<Longrightarrow> safe I P m Q) \<Longrightarrow> (\<And>s. P s \<Longrightarrow> \<not> b \<Longrightarrow> Q (Inr ()) s) \<Longrightarrow> safe I P (io_when b m) Q"
  by (auto simp: io_when_def intro: safe_give)

lemma safe_mkstemp:
  assumes "\<And>s. P s \<Longrightarrow> map_of (fs_names s) (io_tmp env) = None"
    and "\<And>s. P s \<Longrightarrow> Q (Inl (OSError ''call'')) s"
    and "\<And>s. P s \<Longrightarrow> I s \<Longrightarrow> I (new_file (io_tmp env) 384 s) \<and> Q (Inr ()) (new_file (io_tmp env) 384 s)"
  shows "safe I P (mkstemp env) Q"
  using assms by (auto simp: safe_def mkstemp_def call_def list_all_iff)

lemma safe_write_tmp:
  assumes "\<And>s b. P s \<Longrightarrow> I s \<Longrightarrow> I (change (io_tmp env) (set_bytes b) s)
      \<and> Q (Inl (OSError ''write'')) (change (io_tmp env) (set_bytes b) s)"
    and "\<And>s. P s \<Longrightarrow> I s \<Longrightarrow> I (change (io_tmp env) (set_bytes data) s) \<and> Q (Inr ()) (change (io_tmp env) (set_bytes data) s)"
  shows "safe I P (write_tmp env data) Q"
  using assms by (auto simp: safe_def write_tmp_def list_all_iff)

lemma safe_replace:
  assumes "\<And>s e. P s \<Longrightarrow> Q (Inl e) s"
    and "\<And>s. P s \<Longrightarrow> I s \<Longrightarrow> I (rename_to (io_tmp env) target s) \<and> Q (Inr ()) (rename_to (io_tmp env) target s)"
  shows "safe I P (os_replace env target) Q"
  using assms by (auto simp: safe_def os_replace_def call_def list_all_iff split: option.split)

text \<open>The complete new file.\<close>

definition new_node :: "io_env \<Rightarrow> string \<Rightarrow> nat option \<Rightarrow> inode \<Rightarrow> bool" where
  "new_node env text0 mode x \<longleftrightarrow> (\<exists>data. io_encode env text0 = Inr data \<and>
     x = \<lparr>in_kind = Regular, in_bytes = data, in_mode = (case mode of None \<Rightarrow> 384 | Some m \<Rightarrow> m)\<rparr>)"

definition write_safe :: "fs \<Rightarrow> io_env \<Rightarrow> string \<Rightarrow> string \<Rightarrow> nat option \<Rightarrow> fs \<Rightarrow> bool" where
  "write_safe fs0 env target text0 mode s \<longleftrightarrow> s = fs0
     \<or> (\<exists>a b x. shape fs0 (io_tmp env) target a b x s \<and> (b \<longrightarrow> new_node env text0 mode x))"

definition write_done :: "fs \<Rightarrow> io_env \<Rightarrow> string \<Rightarrow> string \<Rightarrow> bool \<Rightarrow> nat option \<Rightarrow> unit res \<Rightarrow> fs \<Rightarrow> bool" where
  "write_done fs0 env target text0 durable mode r s \<longleftrightarrow> (s = fs0 \<and> \<not> is_ok r)
     \<or> (\<exists>a b x. shape fs0 (io_tmp env) target a b x s \<and> (b \<longrightarrow> new_node env text0 mode x)
          \<and> (a \<longrightarrow> io_fails env Unlink) \<and> (is_ok r \<longrightarrow> b) \<and> (b \<longrightarrow> is_ok r \<or> durable))"

lemma atomic_write_safe:
  assumes t: "io_tmp env \<noteq> target" and fresh: "map_of (fs_names fs0) (io_tmp env) = None"
  shows "safe (write_safe fs0 env target text0 mode) (\<lambda>s. s = fs0) (atomic_write_text env target text0 durable mode)
    (write_done fs0 env target text0 durable mode)"
proof -
  let ?sh = "shape fs0 (io_tmp env) target"
  let ?I = "write_safe fs0 env target text0 mode"
  let ?m = "case mode of None \<Rightarrow> 384 | Some m \<Rightarrow> m"
  let ?B = "\<lambda>r s. \<exists>a b x. ?sh a b x s \<and> (b \<longrightarrow> new_node env text0 mode x) \<and> (is_ok r \<longrightarrow> b) \<and> (b \<longrightarrow> is_ok r \<or> durable)"
  let ?S = "\<lambda>s. \<exists>x. ?sh True False x s"
  let ?M = "\<lambda>s. \<exists>b. ?sh True False \<lparr>in_kind = Regular, in_bytes = b, in_mode = ?m\<rparr> s"
  let ?W = "\<lambda>s. \<exists>x. ?sh True False x s \<and> new_node env text0 mode x"
  let ?D = "\<lambda>s. \<exists>x. ?sh False True x s \<and> new_node env text0 mode x"
  have SB: "?B (Inl e) s" if "?S s" for e s using that by auto
  have SI: "?I s" if "?S s" for s using that by (auto simp: write_safe_def)
  have MS: "?S s" if "?M s" for s using that by auto
  have WS: "?S s" if "?W s" for s using that by auto
  have sync: "safe ?I ?D (io_when durable (sync_dir env)) ?B"
    by (rule safe_when, rule safe_sync) force+
  have rep: "safe ?I ?W (andthen (os_replace env target) (\<lambda>_. io_when durable (sync_dir env))) ?B"
  proof (rule safe_andthen [where R = "\<lambda>_. ?D", OF safe_replace sync])
    fix s assume "?W s"
    then obtain x where x: "?sh True False x s" "new_node env text0 mode x" by blast
    from shape_rename [OF t x(1)] x(2)
    show "?I (rename_to (io_tmp env) target s) \<and> (case Inr () of Inl e \<Rightarrow> ?B (Inl e) (rename_to (io_tmp env) target s)
        | Inr a \<Rightarrow> ?D (rename_to (io_tmp env) target s))"
      by (auto simp: write_safe_def)
  qed (use SB WS in simp)
  have fsync: "safe ?I ?W (io_when durable (call env Fsync id)) (\<lambda>r s. case r of Inl e \<Rightarrow> ?B (Inl e) s | Inr a \<Rightarrow> ?W s)"
    by (rule safe_when, rule safe_still) (use SB WS in \<open>auto split: sum.split\<close>)
  have wr: "safe ?I ?M (write_tmp env data) (\<lambda>r s. case r of Inl e \<Rightarrow> ?B (Inl e) s | Inr a \<Rightarrow> ?W s)"
    if e: "io_encode env text0 = Inr data" for data
  proof (rule safe_write_tmp)
    fix s b assume "?M s"
    then obtain c where c: "?sh True False \<lparr>in_kind = Regular, in_bytes = c, in_mode = ?m\<rparr> s" by blast
    have f: "?S (change (io_tmp env) (set_bytes b) s)" using shape_change [OF t c] by blast
    show "?I (change (io_tmp env) (set_bytes b) s)
        \<and> (case Inl (OSError ''write'') of Inl e \<Rightarrow> ?B (Inl e) (change (io_tmp env) (set_bytes b) s) | Inr a \<Rightarrow> ?W (change (io_tmp env) (set_bytes b) s))"
      using SI [OF f] SB [OF f] by simp
  next
    fix s assume "?M s"
    then obtain c where c: "?sh True False \<lparr>in_kind = Regular, in_bytes = c, in_mode = ?m\<rparr> s" by blast
    have f: "?W (change (io_tmp env) (set_bytes data) s)"
      using shape_change [OF t c, of "set_bytes data"] e by (auto simp: new_node_def set_bytes_def)
    show "?I (change (io_tmp env) (set_bytes data) s)
        \<and> (case Inr () of Inl e \<Rightarrow> ?B (Inl e) (change (io_tmp env) (set_bytes data) s) | Inr a \<Rightarrow> ?W (change (io_tmp env) (set_bytes data) s))"
      using SI [OF WS [OF f]] f by simp
  qed
  have enc: "safe ?I ?M (encode_io env text0) (\<lambda>r s. case r of Inl e \<Rightarrow> ?B (Inl e) s | Inr a \<Rightarrow> ?M s \<and> io_encode env text0 = Inr a)"
    using SB [OF MS] by (auto simp: safe_def encode_io_def split: sum.split)
  have mode: "safe ?I (?sh True False \<lparr>in_kind = Regular, in_bytes = [], in_mode = 384\<rparr>)
      (case mode of None \<Rightarrow> io_give () | Some m \<Rightarrow> call env Fchmod (change (io_tmp env) (set_mode m)))
      (\<lambda>r s. case r of Inl e \<Rightarrow> ?B (Inl e) s | Inr a \<Rightarrow> ?M s)"
  proof (cases mode)
    case None
    have "safe ?I (?sh True False \<lparr>in_kind = Regular, in_bytes = [], in_mode = 384\<rparr>) (io_give ())
      (\<lambda>r s. case r of Inl e \<Rightarrow> ?B (Inl e) s | Inr a \<Rightarrow> ?M s)"
      by (rule safe_give) (auto simp: None)
    with None show ?thesis by simp
  next
    case (Some m)
    have "safe ?I (?sh True False \<lparr>in_kind = Regular, in_bytes = [], in_mode = 384\<rparr>)
      (call env Fchmod (change (io_tmp env) (set_mode m)))
      (\<lambda>r s. case r of Inl e \<Rightarrow> ?B (Inl e) s | Inr a \<Rightarrow> ?M s)"
    proof (rule safe_call)
      fix s assume c: "?sh True False \<lparr>in_kind = Regular, in_bytes = [], in_mode = 384\<rparr> s"
      then show "case Inl (OSError ''call'') of Inl e \<Rightarrow> ?B (Inl e) s | Inr a \<Rightarrow> ?M s" using SB by auto
      have f: "?M (change (io_tmp env) (set_mode m) s)"
        using shape_change [OF t c, of "set_mode m"] Some by (auto simp: set_mode_def)
      show "?I (change (io_tmp env) (set_mode m) s)
        \<and> (case Inr () of Inl e \<Rightarrow> ?B (Inl e) (change (io_tmp env) (set_mode m) s) | Inr a \<Rightarrow> ?M (change (io_tmp env) (set_mode m) s))"
        using SI [OF MS [OF f]] f by simp
    qed
    with Some show ?thesis by simp
  qed
  let ?body = "andthen (case mode of None \<Rightarrow> io_give () | Some m \<Rightarrow> call env Fchmod (change (io_tmp env) (set_mode m))) (\<lambda>_.
              andthen (call env Fdopen id) (\<lambda>_.
              andthen (encode_io env text0) (\<lambda>data.
              andthen (write_tmp env data) (\<lambda>_.
              andthen (io_when durable (call env Fsync id)) (\<lambda>_.
              andthen (os_replace env target) (\<lambda>_.
              io_when durable (sync_dir env)))))))"
  have tail: "safe ?I (\<lambda>s. ?M s \<and> io_encode env text0 = Inr data) (andthen (write_tmp env data) (\<lambda>_.
      andthen (io_when durable (call env Fsync id)) (\<lambda>_.
      andthen (os_replace env target) (\<lambda>_. io_when durable (sync_dir env))))) ?B" for data
  proof (cases "io_encode env text0 = Inr data")
    case True
    show ?thesis
      by (rule safe_weaken [OF safe_andthen [where R = "\<lambda>_. ?W", OF wr [OF True] safe_andthen [where R = "\<lambda>_. ?W", OF fsync rep]]]) auto
  qed (simp add: safe_def)
  have open1: "safe ?I ?M (call env Fdopen id) (\<lambda>r s. case r of Inl e \<Rightarrow> ?B (Inl e) s | Inr a \<Rightarrow> ?M s)"
    by (rule safe_still) (use SB [OF MS] in \<open>auto split: sum.split\<close>)
  have body: "safe ?I (?sh True False \<lparr>in_kind = Regular, in_bytes = [], in_mode = 384\<rparr>) ?body ?B"
    by (rule safe_andthen [where R = "\<lambda>_. ?M", OF mode
          safe_andthen [where R = "\<lambda>_. ?M", OF open1
          safe_andthen [where R = "\<lambda>data s. ?M s \<and> io_encode env text0 = Inr data", OF enc tail]]])
  have clean: "safe ?I (?B r) (call env Unlink (unlink (io_tmp env))) (\<lambda>_. write_done fs0 env target text0 durable mode r)" for r
  proof (rule safe_call)
    fix s assume b: "?B r s"
    { assume "io_fails env Unlink" with b show "write_done fs0 env target text0 durable mode r s"
        unfolding write_done_def by blast }
    show "?I (unlink (io_tmp env) s) \<and> write_done fs0 env target text0 durable mode r (unlink (io_tmp env) s)"
      using b shape_unlink [OF t] unfolding write_safe_def write_done_def by blast
  qed
  have init: "write_done fs0 env target text0 durable mode (Inl e) fs0" for e by (simp add: write_done_def)
  have tmp: "safe ?I (\<lambda>s. s = fs0) (mkstemp env) (\<lambda>r s. case r of Inl e \<Rightarrow> write_done fs0 env target text0 durable mode (Inl e) s
      | Inr a \<Rightarrow> ?sh True False \<lparr>in_kind = Regular, in_bytes = [], in_mode = 384\<rparr> s)"
    using fresh init shape_new [OF t, of fs0 384] by (intro safe_mkstemp) (auto simp: write_safe_def)
  have "safe ?I (\<lambda>s. s = fs0) (andthen (call env Mkdir id) (\<lambda>_. andthen (mkstemp env) (\<lambda>_.
      finally_do ?body (call env Unlink (unlink (io_tmp env)))))) (write_done fs0 env target text0 durable mode)"
    by (rule safe_andthen [where R = "\<lambda>_ s. s = fs0", OF safe_still safe_andthen [OF tmp safe_finally [OF body clean]]])
      (auto simp: init split: sum.split)
  then show ?thesis unfolding atomic_write_text_def by (auto intro: safe_fail init)
qed


section \<open>Creation\<close>

abbreviation created_node :: "string \<Rightarrow> nat \<Rightarrow> inode" where
  "created_node data mode \<equiv> \<lparr>in_kind = Regular, in_bytes = data, in_mode = mode\<rparr>"

definition create_safe :: "fs \<Rightarrow> io_env \<Rightarrow> string \<Rightarrow> string \<Rightarrow> nat \<Rightarrow> fs \<Rightarrow> bool" where
  "create_safe fs0 env target data mode s \<longleftrightarrow> s = fs0
     \<or> (\<exists>a b x. shape fs0 (io_tmp env) target a b x s \<and> (b \<longrightarrow> x = created_node data mode \<and> map_of (fs_names fs0) target = None))"

definition create_done :: "fs \<Rightarrow> io_env \<Rightarrow> string \<Rightarrow> string \<Rightarrow> nat \<Rightarrow> bool res \<Rightarrow> fs \<Rightarrow> bool" where
  "create_done fs0 env target data mode r s \<longleftrightarrow> (s = fs0 \<and> r \<noteq> Inr True)
     \<or> (\<exists>a b x. shape fs0 (io_tmp env) target a b x s \<and> (b \<longrightarrow> x = created_node data mode \<and> map_of (fs_names fs0) target = None)
          \<and> (a \<longrightarrow> io_fails env Unlink) \<and> (r = Inr True \<longrightarrow> b) \<and> (r = Inr False \<longrightarrow> \<not> b))"

lemma safe_link:
  assumes "\<And>s e. P s \<Longrightarrow> Q (Inl e) s"
    and "\<And>s. P s \<Longrightarrow> map_of (fs_names s) target \<noteq> None \<Longrightarrow> Q (Inr False) s"
    and "\<And>s. P s \<Longrightarrow> I s \<Longrightarrow> map_of (fs_names s) target = None
      \<Longrightarrow> I (link_to (io_tmp env) target s) \<and> Q (Inr True) (link_to (io_tmp env) target s)"
  shows "safe I P (os_link env target) Q"
  using assms by (auto simp: safe_def os_link_def call_def andthen_def io_give_def list_all_iff)

lemma atomic_create_safe:
  assumes t: "io_tmp env \<noteq> target" and fresh: "map_of (fs_names fs0) (io_tmp env) = None"
  shows "safe (create_safe fs0 env target data mode) (\<lambda>s. s = fs0) (atomic_create_bytes env target data mode)
    (create_done fs0 env target data mode)"
proof -
  let ?sh = "shape fs0 (io_tmp env) target"
  let ?I = "create_safe fs0 env target data mode"
  let ?x = "created_node data mode"
  let ?absent = "map_of (fs_names fs0) target = None"
  let ?B = "\<lambda>r s. \<exists>a b x. ?sh a b x s \<and> (b \<longrightarrow> x = ?x \<and> ?absent) \<and> (r = Inr True \<longrightarrow> b) \<and> (r = Inr False \<longrightarrow> \<not> b)"
  let ?S = "\<lambda>s. \<exists>x. ?sh True False x s"
  let ?M = "\<lambda>s. \<exists>b. ?sh True False \<lparr>in_kind = Regular, in_bytes = b, in_mode = mode\<rparr> s"
  let ?W = "\<lambda>s. ?sh True False ?x s"
  let ?D = "\<lambda>s. ?sh True True ?x s \<and> ?absent"
  have SB: "?B (Inl e) s" if "?S s" for e s using that by auto
  have SF: "?B (Inr False) s" if "?S s" for s using that by auto
  have SI: "?I s" if "?S s" for s using that by (auto simp: create_safe_def)
  have dB: "?B r s" if "?D s" "r \<noteq> Inr False" for r s using that by blast
  have ending: "safe ?I (\<lambda>s. if c then ?D s else ?S s) (if \<not> c then io_give False else andthen (sync_dir env) (\<lambda>_. io_give True)) ?B" for c
  proof (cases c)
    case True
    have "safe ?I ?D (andthen (sync_dir env) (\<lambda>_. io_give True)) ?B"
      by (rule safe_andthen [where R = "\<lambda>_. ?D", OF safe_sync safe_give])
        (use dB in \<open>auto split: sum.split\<close>)
    with True show ?thesis by simp
  next
    case False
    then show ?thesis using SF by (auto intro: safe_give)
  qed
  have link: "safe ?I ?W (os_link env target) (\<lambda>r s. case r of Inl e \<Rightarrow> ?B (Inl e) s | Inr c \<Rightarrow> if c then ?D s else ?S s)"
  proof (rule safe_link)
    fix s assume w: "?W s" and n: "map_of (fs_names s) target = None"
    then have a: "map_of (fs_names fs0) target = None" using t by (auto simp: shape_def)
    from shape_link [OF t w] a
    show "?I (link_to (io_tmp env) target s) \<and> (case Inr True of Inl e \<Rightarrow> ?B (Inl e) (link_to (io_tmp env) target s)
        | Inr c \<Rightarrow> if c then ?D (link_to (io_tmp env) target s) else ?S (link_to (io_tmp env) target s))"
      by (auto simp: create_safe_def)
  qed (use SB in auto)
  have fsync: "safe ?I ?W (call env Fsync id) (\<lambda>r s. case r of Inl e \<Rightarrow> ?B (Inl e) s | Inr a \<Rightarrow> ?W s)"
    by (rule safe_still) (use SB in \<open>auto split: sum.split\<close>)
  have open1: "safe ?I ?M (call env Fdopen id) (\<lambda>r s. case r of Inl e \<Rightarrow> ?B (Inl e) s | Inr a \<Rightarrow> ?M s)"
    by (rule safe_still) (use SB in \<open>auto split: sum.split\<close>)
  have wr: "safe ?I ?M (write_tmp env data) (\<lambda>r s. case r of Inl e \<Rightarrow> ?B (Inl e) s | Inr a \<Rightarrow> ?W s)"
  proof (rule safe_write_tmp)
    fix s b assume "?M s"
    then obtain c where c: "?sh True False \<lparr>in_kind = Regular, in_bytes = c, in_mode = mode\<rparr> s" by blast
    have f: "?S (change (io_tmp env) (set_bytes b) s)" using shape_change [OF t c] by blast
    show "?I (change (io_tmp env) (set_bytes b) s)
        \<and> (case Inl (OSError ''write'') of Inl e \<Rightarrow> ?B (Inl e) (change (io_tmp env) (set_bytes b) s) | Inr a \<Rightarrow> ?W (change (io_tmp env) (set_bytes b) s))"
      using SI [OF f] SB [OF f] by simp
  next
    fix s assume "?M s"
    then obtain c where c: "?sh True False \<lparr>in_kind = Regular, in_bytes = c, in_mode = mode\<rparr> s" by blast
    have f: "?W (change (io_tmp env) (set_bytes data) s)"
      using shape_change [OF t c, of "set_bytes data"] by (simp add: set_bytes_def)
    then have "?S (change (io_tmp env) (set_bytes data) s)" by blast
    with f show "?I (change (io_tmp env) (set_bytes data) s)
        \<and> (case Inr () of Inl e \<Rightarrow> ?B (Inl e) (change (io_tmp env) (set_bytes data) s) | Inr a \<Rightarrow> ?W (change (io_tmp env) (set_bytes data) s))"
      using SI by simp
  qed
  have mode: "safe ?I (?sh True False (created_node [] 384)) (call env Fchmod (change (io_tmp env) (set_mode mode)))
      (\<lambda>r s. case r of Inl e \<Rightarrow> ?B (Inl e) s | Inr a \<Rightarrow> ?M s)"
  proof (rule safe_call)
    fix s assume c: "?sh True False (created_node [] 384) s"
    then show "case Inl (OSError ''call'') of Inl e \<Rightarrow> ?B (Inl e) s | Inr a \<Rightarrow> ?M s" using SB by auto
    have f: "?M (change (io_tmp env) (set_mode mode) s)"
      using shape_change [OF t c, of "set_mode mode"] by (auto simp: set_mode_def)
    then have "?S (change (io_tmp env) (set_mode mode) s)" by blast
    with f show "?I (change (io_tmp env) (set_mode mode) s)
        \<and> (case Inr () of Inl e \<Rightarrow> ?B (Inl e) (change (io_tmp env) (set_mode mode) s) | Inr a \<Rightarrow> ?M (change (io_tmp env) (set_mode mode) s))"
      using SI by simp
  qed
  let ?body = "andthen (call env Fchmod (change (io_tmp env) (set_mode mode))) (\<lambda>_.
             andthen (call env Fdopen id) (\<lambda>_.
             andthen (write_tmp env data) (\<lambda>_.
             andthen (call env Fsync id) (\<lambda>_.
             andthen (os_link env target) (\<lambda>created.
             if \<not> created then io_give False
             else andthen (sync_dir env) (\<lambda>_. io_give True))))))"
  have body: "safe ?I (?sh True False (created_node [] 384)) ?body ?B"
    by (rule safe_andthen [where R = "\<lambda>_. ?M", OF mode
          safe_andthen [where R = "\<lambda>_. ?M", OF open1
          safe_andthen [where R = "\<lambda>_. ?W", OF wr
          safe_andthen [where R = "\<lambda>_. ?W", OF fsync
          safe_andthen [where R = "\<lambda>c s. if c then ?D s else ?S s", OF link ending]]]]])
  have clean: "safe ?I (?B r) (call env Unlink (unlink (io_tmp env))) (\<lambda>_. create_done fs0 env target data mode r)" for r
  proof (rule safe_call)
    fix s assume b: "?B r s"
    { assume "io_fails env Unlink" with b show "create_done fs0 env target data mode r s"
        unfolding create_done_def by blast }
    show "?I (unlink (io_tmp env) s) \<and> create_done fs0 env target data mode r (unlink (io_tmp env) s)"
      using b shape_unlink [OF t] unfolding create_safe_def create_done_def by blast
  qed
  have init: "r \<noteq> Inr True \<Longrightarrow> create_done fs0 env target data mode r fs0" for r by (simp add: create_done_def)
  have tmp: "safe ?I (\<lambda>s. s = fs0) (mkstemp env) (\<lambda>r s. case r of Inl e \<Rightarrow> create_done fs0 env target data mode (Inl e) s
      | Inr a \<Rightarrow> ?sh True False (created_node [] 384) s)"
    using fresh init shape_new [OF t, of fs0 384] by (intro safe_mkstemp) (auto simp: create_safe_def)
  have new: "safe ?I (\<lambda>s. s = fs0) (\<lambda>tr. if path_exists (hd tr) target then (Inr False, tr)
      else andthen (mkstemp env) (\<lambda>_. finally_do ?body (call env Unlink (unlink (io_tmp env)))) tr) (create_done fs0 env target data mode)"
    using safe_andthen [OF tmp safe_finally [OF body clean]] init unfolding safe_def by auto
  have "safe ?I (\<lambda>s. s = fs0) (andthen (call env Mkdir id) (\<lambda>_ tr. if path_exists (hd tr) target then (Inr False, tr)
      else andthen (mkstemp env) (\<lambda>_. finally_do ?body (call env Unlink (unlink (io_tmp env)))) tr)) (create_done fs0 env target data mode)"
    by (rule safe_andthen [where R = "\<lambda>_ s. s = fs0", OF safe_still new])
      (auto simp: init split: sum.split)
  then show ?thesis unfolding atomic_create_bytes_def by (auto intro: safe_fail init)
qed


section \<open>Bounded append\<close>

definition old_bytes :: "fs \<Rightarrow> string \<Rightarrow> string" where
  "old_bytes fs p = (case node_at fs p of None \<Rightarrow> [] | Some x \<Rightarrow> in_bytes x)"

text \<open>The first \<open>n\<close> bytes have been appended to the only name of the file.\<close>

definition appended :: "fs \<Rightarrow> string \<Rightarrow> string \<Rightarrow> nat \<Rightarrow> fs \<Rightarrow> bool" where
  "appended fs0 p data n s \<longleftrightarrow> (\<exists>i x. map_of (fs_names s) p = Some i \<and> fs_inodes s i = Some x \<and> in_kind x = Regular
     \<and> in_bytes x = old_bytes fs0 p @ take n data \<and> (\<forall>j. j \<noteq> i \<longrightarrow> fs_inodes s j = fs_inodes fs0 j)
     \<and> (\<forall>q. q \<noteq> p \<longrightarrow> map_of (fs_names s) q = map_of (fs_names fs0) q \<and> map_of (fs_names fs0) q \<noteq> Some i))"

lemma nlink_unique:
  assumes "nlink fs i = 1" "map_of (fs_names fs) p = Some i" "map_of (fs_names fs) q = Some i"
  shows "q = p"
proof -
  obtain e where e: "filter (\<lambda>e. snd e = i) (fs_names fs) = [e]"
    using assms(1) by (auto simp: nlink_def length_Suc_conv)
  have "(p, i) \<in> set (filter (\<lambda>e. snd e = i) (fs_names fs))" "(q, i) \<in> set (filter (\<lambda>e. snd e = i) (fs_names fs))"
    using assms(2,3) by (auto dest: map_of_SomeD)
  with e show ?thesis by auto
qed

lemma appended_change:
  assumes "appended fs0 p data n s" and "\<And>x. in_kind (f x) = in_kind x"
    and "\<And>x. in_bytes x = old_bytes fs0 p @ take n data \<Longrightarrow> in_bytes (f x) = old_bytes fs0 p @ take m data"
  shows "appended fs0 p data m (change p f s)"
  using assms by (auto simp: appended_def change_def)

lemma appended_node: "appended fs0 p data n s \<Longrightarrow> q \<noteq> p \<Longrightarrow> node_at s q = node_at fs0 q"
  by (fastforce simp: appended_def node_at_def split: option.splits)

lemma appended_bytes: "appended fs0 p data n s \<Longrightarrow>
  \<exists>x. node_at s p = Some x \<and> in_kind x = Regular \<and> in_bytes x = old_bytes fs0 p @ take n data"
  by (auto simp: appended_def node_at_def)

definition append_safe :: "fs \<Rightarrow> string \<Rightarrow> string \<Rightarrow> fs \<Rightarrow> bool" where
  "append_safe fs0 p data s \<longleftrightarrow> s = fs0 \<or> (\<exists>n. appended fs0 p data n s)"

lemma append_loop_safe:
  "safe (append_safe fs0 p data) (\<lambda>s. appended fs0 p data n s \<and> rest = drop n data) (append_loop env p k rest)
     (\<lambda>r s. \<exists>m. appended fs0 p data m s \<and> (is_ok r \<longrightarrow> length data \<le> m))"
proof (induction "length rest" arbitrary: n rest k rule: less_induct)
  case less
  let ?P = "\<lambda>s. appended fs0 p data n s \<and> rest = drop n data"
  let ?Q = "\<lambda>r s. \<exists>m. appended fs0 p data m s \<and> (is_ok r \<longrightarrow> length data \<le> m)"
  let ?w = "io_writes env k"
  show ?case
  proof (cases "rest = [] \<or> io_fails env (Os_write k) \<or> ?w = 0")
    case True
    then have eq: "\<exists>e. append_loop env p k rest tr = (if rest = [] then Inr () else Inl e, tr)" for tr
      by (auto simp: append_loop.simps [of env p k rest])
    show ?thesis unfolding safe_def
    proof (intro allI impI)
      fix tr assume tr: "tr \<noteq> [] \<and> list_all (append_safe fs0 p data) tr \<and> ?P (hd tr)"
      obtain e where e: "append_loop env p k rest tr = (if rest = [] then Inr () else Inl e, tr)" using eq by blast
      show "snd (append_loop env p k rest tr) \<noteq> [] \<and> list_all (append_safe fs0 p data) (snd (append_loop env p k rest tr))
          \<and> ?Q (fst (append_loop env p k rest tr)) (hd (snd (append_loop env p k rest tr)))"
        unfolding e using tr by auto
    qed
  next
    case False
    let ?f = "\<lambda>x. set_bytes (in_bytes x @ take ?w rest) x"
    have next_safe: "safe (append_safe fs0 p data) (\<lambda>s. appended fs0 p data (n + ?w) s \<and> drop ?w rest = drop (n + ?w) data)
        (append_loop env p (Suc k) (drop ?w rest)) ?Q"
      using False by (intro less) (auto simp: diff_less)
    have step: "appended fs0 p data (n + ?w) (change p ?f s) \<and> drop ?w rest = drop (n + ?w) data" if "?P s" for s
      using that by (auto intro!: appended_change [of _ _ _ n] simp: set_bytes_def take_add add.commute)
    show ?thesis unfolding safe_def
    proof (intro allI impI)
      fix tr assume tr: "tr \<noteq> [] \<and> list_all (append_safe fs0 p data) tr \<and> ?P (hd tr)"
      have eq: "append_loop env p k rest tr = append_loop env p (Suc k) (drop ?w rest) (change p ?f (hd tr) # tr)"
        using False by (simp add: append_loop.simps [of env p k rest])
      have s: "appended fs0 p data (n + ?w) (change p ?f (hd tr)) \<and> drop ?w rest = drop (n + ?w) data"
        using step tr by blast
      then have "append_safe fs0 p data (change p ?f (hd tr))" by (auto simp: append_safe_def)
      then show "snd (append_loop env p k rest tr) \<noteq> [] \<and> list_all (append_safe fs0 p data) (snd (append_loop env p k rest tr))
          \<and> ?Q (fst (append_loop env p k rest tr)) (hd (snd (append_loop env p k rest tr)))"
        unfolding eq using next_safe [unfolded safe_def, rule_format, of "change p ?f (hd tr) # tr"] s tr by simp
    qed
  qed
qed


definition append_done :: "fs \<Rightarrow> string \<Rightarrow> string \<Rightarrow> int \<Rightarrow> nat res \<Rightarrow> fs \<Rightarrow> bool" where
  "append_done fs0 p data max_bytes r s \<longleftrightarrow> (s = fs0 \<and> \<not> is_ok r)
     \<or> (\<exists>n. appended fs0 p data n s
          \<and> (n = 0 \<or> int (length (old_bytes fs0 p) + length data) \<le> max_bytes)
          \<and> (is_ok r \<longrightarrow> length data \<le> n \<and> r = Inr (length (old_bytes fs0 p) + length data)
               \<and> int (length (old_bytes fs0 p) + length data) \<le> max_bytes))"

lemma append_rest_safe:
  assumes "int (length (old_bytes fs0 p) + length data) \<le> max_bytes"
  shows "safe (append_safe fs0 p data) (appended fs0 p data 0)
    (andthen (append_loop env p 0 data) (\<lambda>_. andthen (io_when durable (call env Fsync id)) (\<lambda>_.
       io_give (length (old_bytes fs0 p) + length data)))) (append_done fs0 p data max_bytes)"
proof -
  let ?D = "\<lambda>s. \<exists>n \<ge> length data. appended fs0 p data n s"
  have loop: "safe (append_safe fs0 p data) (appended fs0 p data 0) (append_loop env p 0 data)
      (\<lambda>r s. case r of Inl e \<Rightarrow> append_done fs0 p data max_bytes (Inl e) s | Inr a \<Rightarrow> ?D s)"
    by (rule safe_weaken [OF append_loop_safe [of fs0 p data 0 data env 0]])
      (use assms in \<open>auto simp: append_done_def split: sum.split\<close>)
  have sync: "safe (append_safe fs0 p data) ?D (io_when durable (call env Fsync id))
      (\<lambda>r s. case r of Inl e \<Rightarrow> append_done fs0 p data max_bytes (Inl e) s | Inr a \<Rightarrow> ?D s)"
    by (rule safe_when, rule safe_still) (use assms in \<open>auto simp: append_done_def split: sum.split\<close>)
  show ?thesis
    by (rule safe_andthen [where R = "\<lambda>_. ?D", OF loop safe_andthen [where R = "\<lambda>_. ?D", OF sync safe_give]])
      (use assms in \<open>auto simp: append_done_def\<close>)
qed

text \<open>The descriptor after \<open>open\<close>: the file as it was, or a new empty one.\<close>

definition opened :: "fs \<Rightarrow> string \<Rightarrow> string \<Rightarrow> fs \<Rightarrow> bool" where
  "opened fs0 p data s \<longleftrightarrow> (s = fs0 \<and> node_at fs0 p \<noteq> None) \<or> appended fs0 p data 0 s"

lemma new_file_appended:
  assumes "fs_ok fs0" "node_at fs0 p = None"
  shows "appended fs0 p data 0 (new_file p mode fs0)"
proof -
  have "map_of (fs_names fs0) q \<noteq> Some (fs_next fs0)" for q
    using assms(1) by (auto simp: fs_ok_def dest!: map_of_SomeD)
  then show ?thesis using assms(2) by (auto simp: appended_def new_file_def old_bytes_def)
qed

lemma stat_single_safe:
  "safe (append_safe fs0 p data) (opened fs0 p data) (stat_single p)
     (\<lambda>r s. case r of Inl e \<Rightarrow> append_done fs0 p data max_bytes (Inl e) s | Inr a \<Rightarrow> appended fs0 p data 0 s)"
proof -
  have "appended fs0 p data 0 fs0"
    if "map_of (fs_names fs0) p = Some i" "fs_inodes fs0 i = Some x" "in_kind x = Regular" "nlink fs0 i = 1" for i x
  proof -
    have "old_bytes fs0 p = in_bytes x" using that by (simp add: old_bytes_def node_at_def)
    moreover have "\<forall>q. q \<noteq> p \<longrightarrow> map_of (fs_names fs0) q \<noteq> Some i"
      using nlink_unique [OF that(4) that(1)] by blast
    ultimately show ?thesis using that
      unfolding appended_def by (intro exI [of _ i] exI [of _ x]) simp
  qed
  then have own: "appended fs0 p data 0 s"
    if "opened fs0 p data s" "map_of (fs_names s) p = Some i" "fs_inodes s i = Some x" "in_kind x = Regular" "nlink s i = 1" for s i x
    using that by (auto simp: opened_def)
  have other: "append_done fs0 p data max_bytes (Inl e) s" if "opened fs0 p data s" for e s
    using that by (auto simp: opened_def append_done_def)
  show ?thesis
    unfolding safe_def stat_single_def using own other by (simp split: option.split)
qed

lemma append_bounded_safe:
  assumes ok: "fs_ok fs0" and e: "io_encode env text0 = Inr data"
  shows "safe (append_safe fs0 p data) (\<lambda>s. s = fs0) (append_bounded_text env p text0 max_bytes durable mode)
    (append_done fs0 p data max_bytes)"
proof -
  let ?I = "append_safe fs0 p data" and ?D = "append_done fs0 p data max_bytes" and ?A = "appended fs0 p data 0"
  let ?K = "\<lambda>P r s. case r of Inl e \<Rightarrow> ?D (Inl e) s | Inr a \<Rightarrow> P s"
  have D0: "?D (Inl e) fs0" for e by (simp add: append_done_def)
  have DA: "?A s \<Longrightarrow> ?D (Inl e) s" for s e by (auto simp: append_done_def)
  have size: "safe ?I ?A (andthen (file_size p) (\<lambda>size0.
      if int (size0 + length data) > max_bytes then io_fail (ValueError ''append would exceed the limit'')
      else andthen (append_loop env p 0 data) (\<lambda>_. andthen (io_when durable (call env Fsync id)) (\<lambda>_.
           io_give (size0 + length data))))) ?D"
  proof (rule safe_andthen [where R = "\<lambda>n s. ?A s \<and> n = length (old_bytes fs0 p)"])
    show "safe ?I ?A (file_size p) (\<lambda>r s. case r of Inl e \<Rightarrow> ?D (Inl e) s | Inr n \<Rightarrow> ?A s \<and> n = length (old_bytes fs0 p))"
      using appended_bytes [of fs0 p data 0] by (fastforce simp: safe_def file_size_def)
    show "safe ?I (\<lambda>s. ?A s \<and> n = length (old_bytes fs0 p))
      (if int (n + length data) > max_bytes then io_fail (ValueError ''append would exceed the limit'')
      else andthen (append_loop env p 0 data) (\<lambda>_. andthen (io_when durable (call env Fsync id)) (\<lambda>_.
           io_give (n + length data)))) ?D" for n
    proof (cases "n = length (old_bytes fs0 p)")
      case True
      then show ?thesis
        using safe_weaken [OF append_rest_safe [of fs0 p data max_bytes env durable], of "\<lambda>s. ?A s \<and> n = length (old_bytes fs0 p)"]
        by (auto simp: not_less intro: safe_fail DA)
    qed (simp add: safe_def)
  qed
  have flock: "safe ?I ?A (call env Flock id) (?K ?A)"
    by (rule safe_still) (use DA in \<open>auto split: sum.split\<close>)
  have chmod: "safe ?I ?A (call env Fchmod (change p (set_mode mode))) (?K ?A)"
  proof (rule safe_call)
    fix s assume a: "?A s"
    then show "?K ?A (Inl (OSError ''call'')) s" using DA by simp
    have "?A (change p (set_mode mode) s)" using a by (rule appended_change) (simp_all add: set_mode_def)
    then show "?I (change p (set_mode mode) s) \<and> ?K ?A (Inr ()) (change p (set_mode mode) s)"
      by (auto simp: append_safe_def)
  qed
  have opn: "safe ?I (\<lambda>s. s = fs0) (open_append env p mode) (?K (opened fs0 p data))"
    unfolding safe_def
  proof (intro allI impI)
    fix tr assume tr: "tr \<noteq> [] \<and> list_all ?I tr \<and> hd tr = fs0"
    show "snd (open_append env p mode tr) \<noteq> [] \<and> list_all ?I (snd (open_append env p mode tr))
        \<and> ?K (opened fs0 p data) (fst (open_append env p mode tr)) (hd (snd (open_append env p mode tr)))"
    proof (cases "node_at fs0 p")
      case None
      with new_file_appended [OF ok None, of data mode] tr D0 show ?thesis
        by (auto simp: open_append_def call_def opened_def append_safe_def)
    next
      case (Some x)
      with tr D0 show ?thesis
        by (cases "in_kind x") (simp_all add: open_append_def call_def opened_def append_safe_def)
    qed
  qed
  have mk: "safe ?I (\<lambda>s. s = fs0) (call env Mkdir id) (?K (\<lambda>s. s = fs0))"
    by (rule safe_still) (use D0 in \<open>auto split: sum.split\<close>)
  have enc: "safe ?I (\<lambda>s. s = fs0) (encode_io env text0)
      (\<lambda>r s. case r of Inl e \<Rightarrow> ?D (Inl e) s | Inr d \<Rightarrow> s = fs0 \<and> d = data)"
    using e by (simp add: safe_def encode_io_def)
  note rest = safe_andthen [where R = "\<lambda>_ s. s = fs0", OF mk
      safe_andthen [where R = "\<lambda>_. opened fs0 p data", OF opn
      safe_andthen [where R = "\<lambda>_. ?A", OF stat_single_safe
      safe_andthen [where R = "\<lambda>_. ?A", OF chmod
      safe_andthen [where R = "\<lambda>_. ?A", OF flock size]]]]]
  have main: "safe ?I (\<lambda>s. s = fs0 \<and> d = data)
      (if int (length d) > max_bytes then io_fail (ValueError ''appended text exceeds the file byte limit'')
       else andthen (call env Mkdir id) (\<lambda>_.
             andthen (open_append env p mode) (\<lambda>_.
             andthen (stat_single p) (\<lambda>_.
             andthen (call env Fchmod (change p (set_mode mode))) (\<lambda>_.
             andthen (call env Flock id) (\<lambda>_.
             andthen (file_size p) (\<lambda>size0.
             if int (size0 + length d) > max_bytes then io_fail (ValueError ''append would exceed the limit'')
             else andthen (append_loop env p 0 d) (\<lambda>_.
                  andthen (io_when durable (call env Fsync id)) (\<lambda>_.
                  io_give (size0 + length d)))))))))) ?D" for d
  proof (cases "d = data")
    case True
    with rest show ?thesis by (auto intro: safe_fail D0)
  qed (simp add: safe_def)
  show ?thesis unfolding append_bounded_text_def
    using safe_andthen [OF enc main] D0 by (auto intro: safe_fail)
qed


section \<open>Properties of the file helpers\<close>

text \<open>
  C6 A crash never exposes a partial state file. Whichever calls fail, however little a failing write stored and
  wherever the process stops, every file system that \<open>atomic_write_text\<close> passes through holds at the target
  either the old file or the complete new one with its mode, and no path but the temporary one changes.
  When it returns, the new file is there; when it raises without \<open>durable\<close>, the old one is; with \<open>durable\<close> it may
  raise after the replacement. The temporary file is left behind only if removing it failed.\<close>

theorem atomic_write_never_partial:
  assumes "fs_ok fs0" and "io_tmp env \<noteq> target" and "map_of (fs_names fs0) (io_tmp env) = None"
    and "atomic_write_text env target text0 durable mode [fs0] = (r, tr)"
  shows "(\<forall>s \<in> set tr. (node_at s target = node_at fs0 target
            \<or> (\<exists>x. new_node env text0 mode x \<and> node_at s target = Some x))
          \<and> (\<forall>p. p \<noteq> io_tmp env \<and> p \<noteq> target \<longrightarrow> node_at s p = node_at fs0 p))
    \<and> (is_ok r \<longrightarrow> (\<exists>x. new_node env text0 mode x \<and> node_at (hd tr) target = Some x))
    \<and> (\<not> is_ok r \<and> \<not> durable \<longrightarrow> node_at (hd tr) target = node_at fs0 target)
    \<and> (map_of (fs_names (hd tr)) (io_tmp env) \<noteq> None \<longrightarrow> io_fails env Unlink)"
proof -
  have "write_safe fs0 env target text0 mode fs0" by (simp add: write_safe_def)
  from safeD [OF atomic_write_safe [OF assms(2,3)] this refl assms(4)]
  have all: "\<forall>s \<in> set tr. write_safe fs0 env target text0 mode s"
    and fin: "write_done fs0 env target text0 durable mode r (hd tr)"
    by (auto simp: list_all_iff)
  note nodes = shape_nodes [OF _ assms(1,2)]
  have one: "(node_at s target = node_at fs0 target \<or> (\<exists>x. new_node env text0 mode x \<and> node_at s target = Some x))
      \<and> (\<forall>p. p \<noteq> io_tmp env \<and> p \<noteq> target \<longrightarrow> node_at s p = node_at fs0 p)" if "write_safe fs0 env target text0 mode s" for s
    using that nodes(1,2) unfolding write_safe_def by metis
  from fin have "(is_ok r \<longrightarrow> (\<exists>x. new_node env text0 mode x \<and> node_at (hd tr) target = Some x))
    \<and> (\<not> is_ok r \<and> \<not> durable \<longrightarrow> node_at (hd tr) target = node_at fs0 target)
    \<and> (map_of (fs_names (hd tr)) (io_tmp env) \<noteq> None \<longrightarrow> io_fails env Unlink)"
    unfolding write_done_def
  proof (elim disjE exE conjE)
    fix a b x assume "shape fs0 (io_tmp env) target a b x (hd tr)" "b \<longrightarrow> new_node env text0 mode x"
      "a \<longrightarrow> io_fails env Unlink" "is_ok r \<longrightarrow> b" "b \<longrightarrow> is_ok r \<or> durable"
    then show ?thesis using nodes(1,3) by (metis option.distinct(1))
  qed (use assms(3) in auto)
  with all one show ?thesis by blast
qed

definition demo_fs :: fs where
  "demo_fs = \<lparr>fs_names = [(''state'', 0)],
     fs_inodes = (\<lambda>i. if i = 0 then Some \<lparr>in_kind = Regular, in_bytes = ''old'', in_mode = 384\<rparr> else None), fs_next = 1\<rparr>"

text \<open>A write that stores two bytes and then fails.\<close>

definition demo_env :: io_env where
  "demo_env = \<lparr>io_fails = (\<lambda>c. c = Write_all), io_partial = 2, io_writes = (\<lambda>_. 2), io_tmp = ''.state.tmp'', io_encode = Inr\<rparr>"

lemma demo_fs_ok: "fs_ok demo_fs"
  by (simp add: fs_ok_def demo_fs_def dict_ok_def)

theorem atomic_write_never_partial_witness:
  "list_all (\<lambda>s. node_at s ''state'' = node_at demo_fs ''state''
     \<or> (\<exists>x. new_node demo_env ''fresh'' None x \<and> node_at s ''state'' = Some x))
     (snd (atomic_write_text demo_env ''state'' ''fresh'' False None [demo_fs]))"
proof -
  obtain r tr where run: "atomic_write_text demo_env ''state'' ''fresh'' False None [demo_fs] = (r, tr)" by (rule prod.exhaust)
  show ?thesis
    using atomic_write_never_partial [OF demo_fs_ok _ _ run] unfolding run list_all_iff by (simp add: demo_env_def demo_fs_def)
qed

text \<open>What the callers that commit durable state can observe.\<close>

datatype write_outcome = Not_written | Written | Written_unconfirmed

definition outcome_of_write :: "io_env \<Rightarrow> string \<Rightarrow> string \<Rightarrow> nat option \<Rightarrow> fs \<Rightarrow> write_outcome" where
  "outcome_of_write env target text0 mode fs0 =
     (case atomic_write_text env target text0 True mode [fs0] of (r, tr) \<Rightarrow>
        if is_ok r then Written
        else if map_of (fs_names (hd tr)) target = map_of (fs_names fs0) target then Not_written
        else Written_unconfirmed)"

lemma outcome_of_write_effect:
  assumes "fs_ok fs0" "io_tmp env \<noteq> target" "map_of (fs_names fs0) (io_tmp env) = None"
    and "atomic_write_text env target text0 True mode [fs0] = (r, tr)"
  shows "case outcome_of_write env target text0 mode fs0 of
      Not_written \<Rightarrow> \<not> is_ok r \<and> node_at (hd tr) target = node_at fs0 target
    | Written \<Rightarrow> is_ok r \<and> (\<exists>x. new_node env text0 mode x \<and> node_at (hd tr) target = Some x)
    | Written_unconfirmed \<Rightarrow> \<not> is_ok r \<and> (\<exists>x. new_node env text0 mode x \<and> node_at (hd tr) target = Some x)"
proof -
  have "write_safe fs0 env target text0 mode fs0" by (simp add: write_safe_def)
  from safeD [OF atomic_write_safe [OF assms(2,3)] this refl assms(4)]
  have fin: "write_done fs0 env target text0 True mode r (hd tr)" by blast
  have lt: "map_of (fs_names fs0) target \<noteq> Some (fs_next fs0)"
    using assms(1) by (auto simp: fs_ok_def dest!: map_of_SomeD)
  from fin show ?thesis unfolding write_done_def
  proof (elim disjE exE conjE)
    fix a b x assume s: "shape fs0 (io_tmp env) target a b x (hd tr)" and b: "b \<longrightarrow> new_node env text0 mode x" "is_ok r \<longrightarrow> b"
    have m: "map_of (fs_names (hd tr)) target = (if b then Some (fs_next fs0) else map_of (fs_names fs0) target)"
      using s assms(2) by (simp add: shape_def)
    show ?thesis
      using shape_nodes(1) [OF s assms(1,2)] m b lt assms(4)
      by (cases b; cases "is_ok r") (auto simp: outcome_of_write_def)
  qed (use assms(4) in \<open>auto simp: outcome_of_write_def\<close>)
qed


text \<open>The third outcome occurs: the directory cannot be synchronised after the replacement.\<close>

lemma unconfirmed_possible:
  "outcome_of_write (demo_env\<lparr>io_fails := (\<lambda>c. c = Fsync_dir)\<rparr>) ''state'' ''fresh'' None demo_fs = Written_unconfirmed"
  by (simp add: outcome_of_write_def atomic_write_text_def andthen_def call_def mkstemp_def finally_do_def io_give_def
      encode_io_def write_tmp_def io_when_def os_replace_def sync_dir_def node_at_def demo_env_def demo_fs_def
      new_file_def change_def rename_to_def unlink_def ddel_def)

text \<open>
  A secret is created once and whole. Whatever fails and wherever the process stops,
  \<open>atomic_create_bytes\<close> leaves at the target what was there, or, where nothing was, the complete new file
  with its mode; it answers \<open>True\<close> only in the second case and \<open>False\<close> only in the first, and the two cases
  also cover the calls that raise.\<close>

lemma atomic_create_once:
  assumes "fs_ok fs0" and "io_tmp env \<noteq> target" and "map_of (fs_names fs0) (io_tmp env) = None"
    and "atomic_create_bytes env target data mode [fs0] = (r, tr)"
  shows "(\<forall>s \<in> set tr. node_at s target = node_at fs0 target
            \<or> (map_of (fs_names fs0) target = None \<and> node_at s target = Some (created_node data mode)))
    \<and> (r = Inr True \<longrightarrow> map_of (fs_names fs0) target = None \<and> node_at (hd tr) target = Some (created_node data mode))
    \<and> (r = Inr False \<longrightarrow> node_at (hd tr) target = node_at fs0 target)"
proof -
  have "create_safe fs0 env target data mode fs0" by (simp add: create_safe_def)
  from safeD [OF atomic_create_safe [OF assms(2,3)] this refl assms(4)]
  have all: "\<forall>s \<in> set tr. create_safe fs0 env target data mode s"
    and fin: "create_done fs0 env target data mode r (hd tr)"
    by (auto simp: list_all_iff)
  note nodes = shape_nodes(1) [OF _ assms(1,2)]
  have one: "node_at s target = node_at fs0 target
      \<or> (map_of (fs_names fs0) target = None \<and> node_at s target = Some (created_node data mode))"
    if "create_safe fs0 env target data mode s" for s
    using that nodes unfolding create_safe_def by metis
  have "(r = Inr True \<longrightarrow> map_of (fs_names fs0) target = None \<and> node_at (hd tr) target = Some (created_node data mode))
    \<and> (r = Inr False \<longrightarrow> node_at (hd tr) target = node_at fs0 target)"
    using fin nodes unfolding create_done_def by metis
  with all one show ?thesis by blast
qed

lemma atomic_create_once_witness:
  "list_all (\<lambda>s. node_at s ''key'' = node_at demo_fs ''key''
     \<or> (map_of (fs_names demo_fs) ''key'' = None \<and> node_at s ''key'' = Some (created_node ''secret'' 384)))
     (snd (atomic_create_bytes demo_env ''key'' ''secret'' 384 [demo_fs]))"
proof -
  obtain r tr where run: "atomic_create_bytes demo_env ''key'' ''secret'' 384 [demo_fs] = (r, tr)" by (rule prod.exhaust)
  show ?thesis
    using atomic_create_once [OF demo_fs_ok _ _ run] unfolding run list_all_iff by (simp add: demo_env_def demo_fs_def)
qed

text \<open>
  A bounded append only extends its file, up to its limit. Every file system that
  \<open>append_bounded_text\<close> passes through, however the writes are split and wherever they fail, differs from the first
  at no other path, also when the file had several names, and the file holds its old content followed by a
  prefix of the new text. When the call returns, the whole text is there, the result is the new size and that is
  within the limit; when it raises, text was added only if all of it would have been within the limit.\<close>

lemma append_bounded_effect:
  assumes "fs_ok fs0" and "io_encode env text0 = Inr data"
    and "append_bounded_text env p text0 max_bytes durable mode [fs0] = (r, tr)"
  shows "(\<forall>s \<in> set tr. (\<forall>q. q \<noteq> p \<longrightarrow> node_at s q = node_at fs0 q)
            \<and> (node_at s p = node_at fs0 p
               \<or> (\<exists>x n. node_at s p = Some x \<and> in_kind x = Regular \<and> in_bytes x = old_bytes fs0 p @ take n data)))
    \<and> (\<forall>size0. r = Inr size0 \<longrightarrow> old_bytes (hd tr) p = old_bytes fs0 p @ data
         \<and> size0 = length (old_bytes (hd tr) p) \<and> int size0 \<le> max_bytes)
    \<and> (old_bytes (hd tr) p \<noteq> old_bytes fs0 p \<longrightarrow> int (length (old_bytes fs0 p) + length data) \<le> max_bytes)"
proof -
  have "append_safe fs0 p data fs0" by (simp add: append_safe_def)
  from safeD [OF append_bounded_safe [OF assms(1,2)] this refl assms(3)]
  have all: "\<forall>s \<in> set tr. append_safe fs0 p data s" and fin: "append_done fs0 p data max_bytes r (hd tr)"
    by (auto simp: list_all_iff)
  have one: "(\<forall>q. q \<noteq> p \<longrightarrow> node_at s q = node_at fs0 q) \<and> (node_at s p = node_at fs0 p
      \<or> (\<exists>x n. node_at s p = Some x \<and> in_kind x = Regular \<and> in_bytes x = old_bytes fs0 p @ take n data))"
    if "append_safe fs0 p data s" for s
    using that appended_node appended_bytes unfolding append_safe_def by metis
  have bytes: "old_bytes s p = old_bytes fs0 p @ take n data" if "appended fs0 p data n s" for s n
    using appended_bytes [OF that] by (auto simp: old_bytes_def [of s])
  from fin have "(\<forall>size0. r = Inr size0 \<longrightarrow> old_bytes (hd tr) p = old_bytes fs0 p @ data
         \<and> size0 = length (old_bytes (hd tr) p) \<and> int size0 \<le> max_bytes)
    \<and> (old_bytes (hd tr) p \<noteq> old_bytes fs0 p \<longrightarrow> int (length (old_bytes fs0 p) + length data) \<le> max_bytes)"
    unfolding append_done_def by (auto simp: bytes is_ok_def)
  with all one show ?thesis by blast
qed

lemma append_bounded_effect_witness:
  "old_bytes (hd (snd (append_bounded_text (demo_env\<lparr>io_fails := (\<lambda>_. False)\<rparr>) ''state'' ''line'' 100 False 384 [demo_fs]))) ''state''
     = ''oldline''"
proof -
  let ?env = "demo_env\<lparr>io_fails := (\<lambda>_. False)\<rparr>"
  obtain r tr where run: "append_bounded_text ?env ''state'' ''line'' 100 False 384 [demo_fs] = (r, tr)" by (rule prod.exhaust)
  have "append_bounded_text ?env ''state'' ''line'' 100 False 384 [demo_fs] = (Inr 7, tr)"
    using run by (auto simp: append_bounded_text_def andthen_def call_def io_give_def encode_io_def open_append_def
        stat_single_def file_size_def io_when_def append_loop.simps node_at_def demo_env_def demo_fs_def
        change_def set_mode_def nlink_def set_bytes_def)
  from append_bounded_effect [OF demo_fs_ok _ this, of "''line''"] show ?thesis
    unfolding run by (simp add: demo_env_def demo_fs_def old_bytes_def node_at_def)
qed

text \<open>A bounded read never returns more than its limit, even if the file grew after it was checked.\<close>

lemma read_bounded_length:
  "read_bounded_bytes p max_bytes private at_stat at_read = Inr b \<Longrightarrow> int (length b) \<le> max_bytes"
  by (auto simp: read_bounded_bytes_def Let_def split: if_splits option.splits inode_kind.splits)

end
