(* ===== verification/Task_Ledger.thy ===== *)
theory Task_Ledger
  imports Atomic "HOL-Library.Product_Lexorder"
begin

text \<open>
  \<open>norax/runtime/task_ledger.py\<close>: validation and canonical form of task outcomes, and the durable
  ledger that several workers share. A worker's memory is a \<open>ledger\<close>, the file is a \<open>ldisk\<close>; an
  operation runs under the file lock and reads the file again when its signature changed. The
  clock, the size of an encoded record and the outcome of the atomic write are arguments. The
  file is the lines that \<open>str.splitlines\<close> makes of it, each already read as JSON; the order of the keys inside a record, which
  is sorted in the file, plays no part in the reader. A record that holds a character at which \<open>str.splitlines\<close> breaks and
  which the writer leaves unescaped (U+0085 among the code points of this model) becomes lines that are no JSON.
\<close>

section \<open>Validation\<close>

definition id_start :: "char \<Rightarrow> bool" where
  "id_start c = (let n = (of_char c :: nat) in is_digit c \<or> (65 \<le> n \<and> n \<le> 90) \<or> (97 \<le> n \<and> n \<le> 122))"

definition id_char :: "char \<Rightarrow> bool" where
  "id_char c = (id_start c \<or> c \<in> set ''._:/-'')"

definition id_matches :: "string \<Rightarrow> bool" where
  "id_matches s = (case s of [] \<Rightarrow> False | c # cs \<Rightarrow> id_start c \<and> length cs \<le> 255 \<and> list_all id_char cs)"

definition clean_id :: "pyval \<Rightarrow> bool \<Rightarrow> string res" where
  "clean_id v required =
     (case v of
        PStr s \<Rightarrow> let t = py_strip s in
          if t = [] \<and> \<not> required then Inr []
          else if id_matches t then Inr t else Inl (ValueError ''invalid id'')
      | _ \<Rightarrow> Inl (ValueError ''id must be a string''))"

definition bad_control :: "char \<Rightarrow> bool" where
  "bad_control c = (let n = (of_char c :: nat) in n < 32 \<and> n \<noteq> 10 \<and> n \<noteq> 13 \<and> n \<noteq> 9)"

definition clean_prompt_text :: "pyval \<Rightarrow> string res" where
  "clean_prompt_text v =
     (case v of
        PStr s \<Rightarrow> if length s > 2000 \<or> list_ex bad_control s then Inl (ValueError ''invalid text'')
                  else Inr (collapse_spaces s)
      | _ \<Rightarrow> Inl (ValueError ''invalid text''))"

definition metadata_key_ok :: "string \<Rightarrow> bool" where
  "metadata_key_ok k \<longleftrightarrow> 1 \<le> length k \<and> length k \<le> 128 \<and> \<not> list_ex (\<lambda>c. (of_char c :: nat) < 32) k"

text \<open>The recursion of \<open>normalize\<close>; the number is \<open>remaining\<close> before the call.\<close>

fun norm_meta :: "nat \<Rightarrow> pyval \<Rightarrow> nat \<Rightarrow> (pyval \<times> nat) res"
  and norm_list :: "nat \<Rightarrow> pyval list \<Rightarrow> nat \<Rightarrow> (pyval list \<times> nat) res"
  and norm_dict :: "nat \<Rightarrow> (string \<times> pyval) list \<Rightarrow> nat \<Rightarrow> ((string \<times> pyval) list \<times> nat) res" where
  "norm_meta depth v r =
     (if r = 0 \<or> depth > 6 then Inl (ValueError ''metadata exceeds its structural limit'')
      else case v of
        PNone \<Rightarrow> Inr (v, r - 1)
      | PBool _ \<Rightarrow> Inr (v, r - 1)
      | PInt i \<Rightarrow> if \<bar>i\<bar> > 10 ^ 18 then Inl (ValueError ''metadata integer is outside the supported range'') else Inr (v, r - 1)
      | PFloat f \<Rightarrow> if finite_float f then Inr (v, r - 1) else Inl (ValueError ''metadata numbers must be finite'')
      | PStr s \<Rightarrow> if length s > 4000 \<or> list_ex (\<lambda>c. (of_char c :: nat) = 0) s
                  then Inl (ValueError ''metadata text exceeds its limit'') else Inr (v, r - 1)
      | PDict d \<Rightarrow> if length d > 64 then Inl (ValueError ''metadata contains a cycle or too many keys'')
                   else rbind (norm_dict (Suc depth) d (r - 1)) (\<lambda>(d', r'). Inr (PDict d', r'))
      | PList xs \<Rightarrow> if length xs > 128 then Inl (ValueError ''metadata contains a cycle or oversized list'')
                    else rbind (norm_list (Suc depth) xs (r - 1)) (\<lambda>(xs', r'). Inr (PList xs', r')))"
| "norm_list depth [] r = Inr ([], r)"
| "norm_list depth (x # xs) r =
     rbind (norm_meta depth x r) (\<lambda>(y, r1). rbind (norm_list depth xs r1) (\<lambda>(ys, r2). Inr (y # ys, r2)))"
| "norm_dict depth [] r = Inr ([], r)"
| "norm_dict depth ((k, x) # xs) r =
     (if \<not> metadata_key_ok k then Inl (ValueError ''metadata contains an invalid key'')
      else rbind (norm_meta depth x r) (\<lambda>(y, r1). rbind (norm_dict depth xs r1) (\<lambda>(ys, r2). Inr ((k, y) # ys, r2))))"

declare norm_meta.simps [simp del]

definition max_metadata_nodes :: nat where
  "max_metadata_nodes = 1024"

definition normalize_metadata :: "pyval \<Rightarrow> (string, pyval) dict res" where
  "normalize_metadata v =
     (case v of
        PNone \<Rightarrow> Inr []
      | PDict d \<Rightarrow> rbind (norm_meta 0 v max_metadata_nodes) (\<lambda>(w, r). Inr (case w of PDict d' \<Rightarrow> d' | _ \<Rightarrow> []))
      | _ \<Rightarrow> Inl (ValueError ''metadata must be an object''))"

section \<open>Task outcomes\<close>

datatype task_state = Open | Blocked | Failed | Repairing | Verified | User_confirmed | Abandoned

definition state_names :: "(string \<times> task_state) list" where
  "state_names = [(''open'', Open), (''blocked'', Blocked), (''failed'', Failed), (''repairing'', Repairing),
     (''verified'', Verified), (''user_confirmed'', User_confirmed), (''abandoned'', Abandoned)]"

fun state_name :: "task_state \<Rightarrow> string" where
  "state_name Open = ''open''" | "state_name Blocked = ''blocked''" | "state_name Failed = ''failed''"
| "state_name Repairing = ''repairing''" | "state_name Verified = ''verified''"
| "state_name User_confirmed = ''user_confirmed''" | "state_name Abandoned = ''abandoned''"

definition active :: "task_state \<Rightarrow> bool" where
  "active s \<longleftrightarrow> s \<in> {Open, Blocked, Failed, Repairing}"

definition resolved :: "task_state \<Rightarrow> bool" where
  "resolved s \<longleftrightarrow> s \<in> {Verified, User_confirmed, Abandoned}"

record task_outcome =
  tk_id :: string
  tk_turn :: string
  tk_event :: string
  tk_description :: string
  tk_state :: task_state
  tk_failure :: string
  tk_repairs :: int
  tk_created :: real
  tk_updated :: real
  tk_resolved :: real
  tk_confirmed :: bool
  tk_valence :: real
  tk_metadata :: "(string, pyval) dict"

definition to_dict :: "task_outcome \<Rightarrow> (string, pyval) dict" where
  "to_dict t =
     [(''task_id'', PStr (tk_id t)), (''turn_id'', PStr (tk_turn t)), (''event_id'', PStr (tk_event t)),
      (''description'', PStr (tk_description t)), (''state'', PStr (state_name (tk_state t))),
      (''failure_cause'', PStr (tk_failure t)), (''repair_attempts'', PInt (tk_repairs t)),
      (''created_at'', PFloat (Fin (tk_created t))), (''updated_at'', PFloat (Fin (tk_updated t))),
      (''resolved_at'', PFloat (Fin (tk_resolved t))), (''owner_confirmed'', PBool (tk_confirmed t)),
      (''valence'', PFloat (Fin (tk_valence t))), (''metadata'', PDict (tk_metadata t))]"

definition parse_state :: "pyval \<Rightarrow> task_state res" where
  "parse_state v =
     (case v of PStr s \<Rightarrow> (case map_of state_names s of Some t \<Rightarrow> Inr t | None \<Rightarrow> Inl (ValueError ''invalid task state''))
      | _ \<Rightarrow> Inl (ValueError ''invalid task state''))"

definition parse_repairs :: "pyval \<Rightarrow> int res" where
  "parse_repairs v =
     (case plain_int v of Some i \<Rightarrow> if 0 \<le> i \<and> i \<le> 1000000 then Inr i else Inl (ValueError ''invalid repair attempt count'')
      | None \<Rightarrow> Inl (ValueError ''invalid repair attempt count''))"

definition parse_time :: "real \<Rightarrow> pyval \<Rightarrow> real res" where
  "parse_time now v =
     (case finite_number v of Some x \<Rightarrow> if x < 0 \<or> x > now + 300 then Inl (ValueError ''invalid timestamp'') else Inr x
      | None \<Rightarrow> Inl (ValueError ''invalid timestamp''))"

definition parse_valence :: "pyval \<Rightarrow> real res" where
  "parse_valence v =
     (case finite_number v of Some x \<Rightarrow> if -1 \<le> x \<and> x \<le> 1 then Inr x else Inl (ValueError ''task valence must be between -1 and 1'')
      | None \<Rightarrow> Inl (ValueError ''invalid task valence''))"

definition parse_bool :: "pyval \<Rightarrow> bool res" where
  "parse_bool v = (case v of PBool b \<Rightarrow> Inr b | _ \<Rightarrow> Inl (ValueError ''owner_confirmed must be a boolean''))"

definition from_dict :: "real \<Rightarrow> (string, pyval) dict \<Rightarrow> task_outcome res" where
  "from_dict now d =
     rbind (clean_id (get_or d ''task_id'' PNone) True) (\<lambda>tid.
     rbind (clean_id (get_or d ''turn_id'' (PStr [])) False) (\<lambda>turn.
     rbind (clean_id (get_or d ''event_id'' (PStr [])) False) (\<lambda>event.
     rbind (clean_prompt_text (get_or d ''description'' (PStr []))) (\<lambda>descr.
     rbind (clean_prompt_text (get_or d ''failure_cause'' (PStr []))) (\<lambda>failure.
     rbind (parse_state (get_or d ''state'' (PStr ''open''))) (\<lambda>state.
     rbind (parse_repairs (get_or d ''repair_attempts'' (PInt 0))) (\<lambda>repairs.
     rbind (parse_time now (get_or d ''created_at'' (PFloat (Fin now)))) (\<lambda>created.
     rbind (parse_time now (get_or d ''updated_at'' (PFloat (Fin now)))) (\<lambda>updated.
     rbind (parse_time now (get_or d ''resolved_at'' (PFloat (Fin 0)))) (\<lambda>resolved0.
     rbind (guard (\<not> (created \<le> 0 \<or> updated < created)) (ValueError ''invalid task timestamp ordering'')) (\<lambda>_.
     let resolved_at = (if resolved state \<and> resolved0 = 0 then updated else resolved0) in
     rbind (guard (\<not> (resolved_at \<noteq> 0 \<and> resolved_at < created)) (ValueError ''invalid task resolution timestamp'')) (\<lambda>_.
     rbind (parse_bool (get_or d ''owner_confirmed'' (PBool False))) (\<lambda>confirmed0.
     rbind (parse_valence (get_or d ''valence'' (PFloat (Fin 0)))) (\<lambda>valence.
     rbind (normalize_metadata (get_or d ''metadata'' (PDict []))) (\<lambda>meta.
     Inr \<lparr>tk_id = tid, tk_turn = turn, tk_event = event, tk_description = descr, tk_state = state,
          tk_failure = failure, tk_repairs = repairs, tk_created = created, tk_updated = updated,
          tk_resolved = resolved_at, tk_confirmed = (if state = User_confirmed then True else confirmed0),
          tk_valence = valence, tk_metadata = meta\<rparr>)))))))))))))))"

section \<open>The ledger and its file\<close>

datatype ledger_line = Blank_line | Oversized_line | Bad_line | Json pyval

text \<open>\<open>ld_lines\<close> is \<open>None\<close> when the bounded read raises.\<close>

record ledger_file =
  ld_sig :: nat
  ld_lines :: "ledger_line list option"

type_synonym ldisk = "ledger_file option"

record ledger =
  lg_tasks :: "(string, task_outcome) dict"
  lg_error :: bool \<comment> \<open>\<open>_load_error\<close> is not empty\<close>
  lg_sig :: "nat option"
  lg_had :: bool

definition max_tasks :: nat where
  "max_tasks = 100000"

fun parse_lines :: "real \<Rightarrow> nat \<Rightarrow> ledger_line list \<Rightarrow> (string, task_outcome) dict \<Rightarrow> (string, task_outcome) dict res" where
  "parse_lines now n [] acc = Inr acc"
| "parse_lines now n (l # ls) acc =
     (case l of
        Blank_line \<Rightarrow> parse_lines now n ls acc
      | Oversized_line \<Rightarrow> Inl (ValueError ''task ledger contains an oversized record'')
      | _ \<Rightarrow> if Suc n > max_tasks then Inl (ValueError ''task ledger exceeds its task limit'')
             else (case l of
                 Json (PDict d) \<Rightarrow> (case from_dict now d of
                     Inl e \<Rightarrow> Inl e
                   | Inr t \<Rightarrow> parse_lines now (Suc n) ls (dset (tk_id t) t acc))
               | _ \<Rightarrow> Inl (ValueError ''task ledger record must be an object'')))"

definition load :: "bool \<Rightarrow> real \<Rightarrow> ldisk \<Rightarrow> ledger \<Rightarrow> ledger" where
  "load force now disk s =
     (if \<not> force \<and> map_option ld_sig disk = lg_sig s \<and> \<not> lg_error s then s
      else case disk of
        None \<Rightarrow> if lg_had s then s\<lparr>lg_tasks := [], lg_error := True\<rparr>
                else s\<lparr>lg_tasks := [], lg_sig := None, lg_error := False\<rparr>
      | Some f \<Rightarrow>
          (case (case ld_lines f of None \<Rightarrow> Inl (ValueError ''read'') | Some ls \<Rightarrow> parse_lines now 0 ls []) of
             Inr tasks \<Rightarrow> s\<lparr>lg_tasks := tasks, lg_sig := Some (ld_sig f), lg_had := True, lg_error := False\<rparr>
           | Inl _ \<Rightarrow> s\<lparr>lg_tasks := [], lg_sig := Some (ld_sig f), lg_error := True\<rparr>))"

definition open_ledger :: "real \<Rightarrow> ldisk \<Rightarrow> ledger" where
  "open_ledger now disk = load True now disk \<lparr>lg_tasks = [], lg_error = False, lg_sig = None, lg_had = False\<rparr>"

text \<open>What a write needs from outside: the encoded sizes, the outcome of \<open>atomic_write_text\<close> (theory
  \<open>Atomic\<close>; it may raise after the replacement) and the signature of the new file.\<close>

record ledger_io =
  li_now :: real
  li_bytes :: "pyval \<Rightarrow> nat"
  li_write :: write_outcome
  li_sig :: nat

abbreviation ledger_error :: py_exn where
  "ledger_error \<equiv> TaskLedgerPersistenceError ''task ledger''"

text \<open>
  A record is written as one line of JSON with \<open>ensure_ascii=False\<close>, which escapes the control characters below 32 but leaves
  the character U+0085 in a text as it is; \<open>splitlines\<close> ends a line there. The record then comes back in pieces, and the first
  of them, which ends inside a text, is no JSON: the reader fails at it.
\<close>

fun has_break :: "pyval \<Rightarrow> bool" where
  "has_break (PStr s) = (CHR 0x85 \<in> set s)"
| "has_break (PList xs) = list_ex has_break xs"
| "has_break (PDict d) = list_ex (\<lambda>p. CHR 0x85 \<in> set (fst p) \<or> has_break (snd p)) d"
| "has_break v = False"

definition written_line :: "pyval \<Rightarrow> ledger_line" where
  "written_line v = (if has_break v then Bad_line else Json v)"

fun canonical :: "ledger_io \<Rightarrow> task_outcome list \<Rightarrow> pyval list res" where
  "canonical io [] = Inr []"
| "canonical io (t # ts) =
     rbind (from_dict (li_now io) (to_dict t)) (\<lambda>c.
     rbind (guard (li_bytes io (PDict (to_dict c)) \<le> 256 * 1024) ledger_error) (\<lambda>_.
     rbind (canonical io ts) (\<lambda>vs. Inr (PDict (to_dict c) # vs))))"

definition persist_tasks :: "ledger_io \<Rightarrow> (string, task_outcome) dict \<Rightarrow> ldisk \<times> ledger \<Rightarrow> unit res \<times> (ldisk \<times> ledger)" where
  "persist_tasks io tasks s =
     (case rbind (guard (length tasks \<le> max_tasks) ledger_error) (\<lambda>_.
           rbind (canonical io (dvals tasks)) (\<lambda>vs.
           rbind (guard (sum_list (map (\<lambda>v. Suc (li_bytes io v)) vs) \<le> 64 * 1024 * 1024) ledger_error) (\<lambda>_.
           Inr vs))) of
        Inl e \<Rightarrow> (Inl e, s)
      | Inr vs \<Rightarrow>
          let file = Some \<lparr>ld_sig = li_sig io, ld_lines = Some (map written_line vs)\<rparr> in
          (case li_write io of
             Not_written \<Rightarrow> (Inl (OSError ''write''), s)
           | Written_unconfirmed \<Rightarrow> (Inl (OSError ''sync''), file, snd s)
           | Written \<Rightarrow> (Inr (), file, (snd s)\<lparr>lg_tasks := tasks, lg_sig := Some (li_sig io), lg_had := True\<rparr>)))"

text \<open>\<open>with self._transaction(): self._load(); self._require_healthy(); ...\<close>\<close>

definition transact :: "ledger_io \<Rightarrow> (ldisk \<times> ledger \<Rightarrow> 'a res \<times> (ldisk \<times> ledger)) \<Rightarrow> ldisk \<times> ledger
    \<Rightarrow> 'a res \<times> (ldisk \<times> ledger)" where
  "transact io body s =
     (let l = load False (li_now io) (fst s) (snd s) in
      if lg_error l then (Inl ledger_error, (fst s, l)) else body (fst s, l))"

section \<open>Operations\<close>

definition clone_task :: "real \<Rightarrow> task_outcome \<Rightarrow> task_outcome res" where
  "clone_task now t = from_dict now (to_dict t)"

definition resolved_time :: "real \<Rightarrow> task_state \<Rightarrow> real" where
  "resolved_time now state = (if resolved state then now else 0)"

definition new_task :: "real \<Rightarrow> string \<Rightarrow> string \<Rightarrow> string \<Rightarrow> string \<Rightarrow> task_state \<Rightarrow> string \<Rightarrow> real \<Rightarrow> (string, pyval) dict
    \<Rightarrow> task_outcome" where
  "new_task now tid turn event descr state failure valence meta =
     \<lparr>tk_id = tid, tk_turn = turn, tk_event = event, tk_description = descr, tk_state = state, tk_failure = failure,
      tk_repairs = (if state = Repairing then 1 else 0), tk_created = now, tk_updated = now,
      tk_resolved = resolved_time now state, tk_confirmed = (state = User_confirmed), tk_valence = valence,
      tk_metadata = meta\<rparr>"

text \<open>The fields that \<open>record\<close> and \<open>transition\<close> both set on an existing task.\<close>

definition move_task :: "real \<Rightarrow> task_state \<Rightarrow> task_outcome \<Rightarrow> task_outcome" where
  "move_task now state t =
     t\<lparr>tk_state := state, tk_updated := now, tk_resolved := resolved_time now state,
       tk_confirmed := (tk_confirmed t \<or> state = User_confirmed),
       tk_repairs := tk_repairs t + (if state = Repairing then 1 else 0)\<rparr>"

definition or_keep :: "string \<Rightarrow> string \<Rightarrow> string" where
  "or_keep new old = (if new \<noteq> [] then new else old)"

definition update_task :: "real \<Rightarrow> string \<Rightarrow> string \<Rightarrow> string \<Rightarrow> task_state \<Rightarrow> string \<Rightarrow> real option \<Rightarrow> (string, pyval) dict
    \<Rightarrow> task_outcome \<Rightarrow> task_outcome" where
  "update_task now turn event descr state failure valence meta t =
     (move_task now state t)\<lparr>tk_turn := or_keep turn (tk_turn t), tk_event := or_keep event (tk_event t),
        tk_description := or_keep descr (tk_description t), tk_failure := or_keep failure (tk_failure t),
        tk_valence := (case valence of Some v \<Rightarrow> v | None \<Rightarrow> tk_valence t),
        tk_metadata := dupdate (tk_metadata t) meta\<rparr>"

text \<open>Canonical form of the candidate, write, snapshot for the caller.\<close>

definition store_task :: "ledger_io \<Rightarrow> string \<Rightarrow> task_outcome \<Rightarrow> ldisk \<times> ledger \<Rightarrow> task_outcome res \<times> (ldisk \<times> ledger)" where
  "store_task io tid t s =
     (case from_dict (li_now io) (to_dict t) of
        Inl e \<Rightarrow> (Inl e, s)
      | Inr candidate \<Rightarrow>
          (case persist_tasks io (dset tid candidate (lg_tasks (snd s))) s of
             (Inl e, s') \<Rightarrow> (Inl e, s')
           | (Inr _, s') \<Rightarrow> (clone_task (li_now io) candidate, s')))"

definition parse_opt_valence :: "pyval \<Rightarrow> real option res" where
  "parse_opt_valence v = (if v = PNone then Inr None else rbind (parse_valence v) (\<lambda>x. Inr (Some x)))"

record record_args =
  ra_task :: pyval
  ra_turn :: pyval
  ra_event :: pyval
  ra_description :: pyval
  ra_state :: string
  ra_failure :: pyval
  ra_valence :: pyval
  ra_metadata :: pyval

definition record_task :: "ledger_io \<Rightarrow> record_args \<Rightarrow> ldisk \<times> ledger \<Rightarrow> task_outcome res \<times> (ldisk \<times> ledger)" where
  "record_task io a s =
     (case rbind (clean_id (ra_task a) True) (\<lambda>tid.
           rbind (parse_state (PStr (ra_state a))) (\<lambda>state.
           rbind (clean_id (ra_turn a) False) (\<lambda>turn.
           rbind (clean_id (ra_event a) False) (\<lambda>event.
           rbind (clean_prompt_text (ra_description a)) (\<lambda>descr.
           rbind (clean_prompt_text (ra_failure a)) (\<lambda>failure.
           rbind (normalize_metadata (ra_metadata a)) (\<lambda>meta.
           rbind (parse_opt_valence (ra_valence a)) (\<lambda>valence.
           Inr (tid, state, turn, event, descr, failure, meta, valence))))))))) of
        Inl e \<Rightarrow> (Inl e, s)
      | Inr (tid, state, turn, event, descr, failure, meta, valence) \<Rightarrow>
          transact io (\<lambda>s.
            store_task io tid
              (case map_of (lg_tasks (snd s)) tid of
                 None \<Rightarrow> new_task (li_now io) tid turn event descr state failure
                           (case valence of Some v \<Rightarrow> v | None \<Rightarrow> 0) meta
               | Some t \<Rightarrow> update_task (li_now io) turn event descr state failure valence meta t) s) s)"

definition transition_task :: "ledger_io \<Rightarrow> pyval \<Rightarrow> string \<Rightarrow> pyval \<Rightarrow> ldisk \<times> ledger
    \<Rightarrow> task_outcome option res \<times> (ldisk \<times> ledger)" where
  "transition_task io task new_state failure_cause s =
     (case rbind (clean_id task True) (\<lambda>tid. rbind (parse_state (PStr new_state)) (\<lambda>state.
           rbind (clean_prompt_text failure_cause) (\<lambda>failure. Inr (tid, state, failure)))) of
        Inl e \<Rightarrow> (Inl e, s)
      | Inr (tid, state, failure) \<Rightarrow>
          transact io (\<lambda>s.
            case map_of (lg_tasks (snd s)) tid of
              None \<Rightarrow> (Inr None, s)
            | Some t \<Rightarrow>
                let m = move_task (li_now io) state t;
                    (r, s') = store_task io tid (m\<lparr>tk_failure := or_keep failure (tk_failure t)\<rparr>) s
                in (rbind r (\<lambda>x. Inr (Some x)), s')) s)"

fun clone_all :: "real \<Rightarrow> task_outcome list \<Rightarrow> task_outcome list res" where
  "clone_all now [] = Inr []"
| "clone_all now (t # ts) = rbind (clone_task now t) (\<lambda>c. rbind (clone_all now ts) (\<lambda>cs. Inr (c # cs)))"

text \<open>\<open>candidates.sort(key=lambda task: (task.valence, task.updated_at))\<close>.\<close>

definition priority :: "task_outcome \<Rightarrow> real \<times> real" where
  "priority t = (tk_valence t, tk_updated t)"

definition by_priority :: "task_outcome list \<Rightarrow> task_outcome list" where
  "by_priority ts = sort_key priority ts"

definition unresolved :: "ledger_io \<Rightarrow> int \<Rightarrow> ldisk \<times> ledger \<Rightarrow> task_outcome list res \<times> (ldisk \<times> ledger)" where
  "unresolved io limit s =
     (if \<not> (1 \<le> limit \<and> limit \<le> 100) then (Inl (ValueError ''limit must be an integer between 1 and 100''), s)
      else transact io (\<lambda>s.
        (clone_all (li_now io) (take (nat limit) (by_priority (filter (\<lambda>t. active (tk_state t)) (dvals (lg_tasks (snd s)))))), s)) s)"

definition all_tasks :: "ledger_io \<Rightarrow> ldisk \<times> ledger \<Rightarrow> task_outcome list res \<times> (ldisk \<times> ledger)" where
  "all_tasks io = transact io (\<lambda>s. (clone_all (li_now io) (dvals (lg_tasks (snd s))), s))"

definition get_task :: "ledger_io \<Rightarrow> pyval \<Rightarrow> ldisk \<times> ledger \<Rightarrow> task_outcome option res \<times> (ldisk \<times> ledger)" where
  "get_task io task s =
     (case clean_id task True of
        Inl e \<Rightarrow> (Inl e, s)
      | Inr tid \<Rightarrow> transact io (\<lambda>s. (case map_of (lg_tasks (snd s)) tid of
            None \<Rightarrow> Inr None | Some t \<Rightarrow> rbind (clone_task (li_now io) t) (\<lambda>c. Inr (Some c)), s)) s)"

definition expired_task :: "real \<Rightarrow> task_outcome \<Rightarrow> task_outcome" where
  "expired_task now t = t\<lparr>tk_state := Abandoned, tk_updated := now, tk_resolved := now,
     tk_metadata := dset ''expiry_reason'' (PStr ''stale_timeout'') (tk_metadata t)\<rparr>"

fun expire_tasks :: "real \<Rightarrow> real \<Rightarrow> (string \<times> task_outcome) list \<Rightarrow> ((string \<times> task_outcome) list \<times> nat) res" where
  "expire_tasks now age [] = Inr ([], 0)"
| "expire_tasks now age ((k, t) # ts) =
     (if \<not> active (tk_state t) \<or> now - tk_created t \<le> age
      then rbind (expire_tasks now age ts) (\<lambda>(r, n). Inr ((k, t) # r, n))
      else rbind (from_dict now (to_dict (expired_task now t))) (\<lambda>t'.
           rbind (expire_tasks now age ts) (\<lambda>(r, n). Inr ((k, t') # r, Suc n))))"

definition expire_stale :: "ledger_io \<Rightarrow> pyval \<Rightarrow> ldisk \<times> ledger \<Rightarrow> nat res \<times> (ldisk \<times> ledger)" where
  "expire_stale io max_age s =
     (case finite_number max_age of
        None \<Rightarrow> (Inl (ValueError ''max_age_sec must be a positive finite number''), s)
      | Some age \<Rightarrow>
          if age \<le> 0 then (Inl (ValueError ''max_age_sec must be a positive finite number''), s)
          else transact io (\<lambda>s.
            case expire_tasks (li_now io) age (lg_tasks (snd s)) of
              Inl e \<Rightarrow> (Inl e, s)
            | Inr (tasks, n) \<Rightarrow>
                if n = 0 then (Inr 0, s)
                else (case persist_tasks io tasks s of (Inl e, s') \<Rightarrow> (Inl e, s') | (Inr _, s') \<Rightarrow> (Inr n, s'))) s)"

text \<open>\<open>_rewrite\<close>.\<close>

definition rewrite_ledger :: "ledger_io \<Rightarrow> ldisk \<times> ledger \<Rightarrow> unit res \<times> (ldisk \<times> ledger)" where
  "rewrite_ledger io = transact io (\<lambda>s. persist_tasks io (lg_tasks (snd s)) s)"

section \<open>Several workers\<close>

datatype ledger_op =
    Record record_args | Transition pyval string pyval | Expire pyval | Rewrite | Read | Get pyval | Unresolved int

datatype ledger_value = Task task_outcome | Maybe_task "task_outcome option" | Tasks "task_outcome list" | Number nat | Nothing

definition valued :: "('a \<Rightarrow> ledger_value) \<Rightarrow> 'a res \<times> (ldisk \<times> ledger) \<Rightarrow> ledger_value res \<times> (ldisk \<times> ledger)" where
  "valued f p = (rbind (fst p) (\<lambda>x. Inr (f x)), snd p)"

fun ledger_run :: "ledger_io \<Rightarrow> ledger_op \<Rightarrow> ldisk \<times> ledger \<Rightarrow> ledger_value res \<times> (ldisk \<times> ledger)" where
  "ledger_run io (Record a) s = valued Task (record_task io a s)"
| "ledger_run io (Transition tid new_state cause) s = valued Maybe_task (transition_task io tid new_state cause s)"
| "ledger_run io (Expire age) s = valued Number (expire_stale io age s)"
| "ledger_run io Rewrite s = valued (\<lambda>_. Nothing) (rewrite_ledger io s)"
| "ledger_run io Read s = valued Tasks (all_tasks io s)"
| "ledger_run io (Get tid) s = valued Maybe_task (get_task io tid s)"
| "ledger_run io (Unresolved limit) s = valued Tasks (unresolved io limit s)"

text \<open>A call that brings no U+0085 into the ledger. No other argument than the metadata can hold one after its cleaning.\<close>

fun plain_op :: "ledger_op \<Rightarrow> bool" where
  "plain_op (Record a) = (\<not> has_break (ra_metadata a))"
| "plain_op _ = True"

text \<open>The clock, the signatures used so far, the shared file and every worker's memory. A write
  gives the file a signature that it never had; the clock does not go back; no call brings in a U+0085.\<close>

type_synonym workers = "real \<times> nat set \<times> ldisk \<times> (nat \<Rightarrow> ledger)"

inductive workers_step :: "workers \<Rightarrow> workers \<Rightarrow> bool" where
  work: "now \<le> li_now io \<Longrightarrow> li_sig io \<notin> used \<Longrightarrow> plain_op op \<Longrightarrow> ledger_run io op (disk, w i) = (r, disk', s') \<Longrightarrow>
     workers_step (now, used, disk, w) (li_now io, insert (li_sig io) used, disk', w(i := s'))"
| start: "now \<le> now' \<Longrightarrow> workers_step (now, used, disk, w) (now', used, disk, w(i := open_ledger now' disk))"

inductive workers_reachable :: "workers \<Rightarrow> bool" where
  workers_init: "workers_reachable (now, {}, None, \<lambda>_. open_ledger now None)"
| workers_more: "workers_reachable s \<Longrightarrow> workers_step s s' \<Longrightarrow> workers_reachable s'"

section \<open>Canonical values\<close>

lemma id_char_visible: "id_char c \<Longrightarrow> \<not> is_space c"
  by (auto simp: id_char_def id_start_def is_digit_def is_space_def Let_def)

lemma id_matches_strip: "id_matches s \<Longrightarrow> py_strip s = s"
proof (rule strip_no_space)
  assume "id_matches s"
  then have "list_all id_char s" by (auto simp: id_matches_def id_char_def split: list.splits)
  then show "list_all (\<lambda>c. \<not> is_space c) s" using id_char_visible by (auto simp: list_all_iff)
qed

lemma clean_id_fixed: "clean_id v b = Inr t \<Longrightarrow> clean_id (PStr t) b = Inr t"
proof -
  assume a: "clean_id v b = Inr t"
  then obtain s where v: "v = PStr s" by (cases v) (simp_all add: clean_id_def)
  have "t = [] \<and> \<not> b \<or> id_matches t"
    using a unfolding v by (simp add: clean_id_def Let_def split: if_splits)
  then show ?thesis by (auto simp: clean_id_def Let_def id_matches_strip)
qed

lemma clean_text_fixed: "clean_prompt_text v = Inr t \<Longrightarrow> clean_prompt_text (PStr t) = Inr t"
proof -
  assume "clean_prompt_text v = Inr t"
  then obtain s where s: "length s \<le> 2000" "\<not> list_ex bad_control s" "t = collapse_spaces s"
    by (cases v) (auto simp: clean_prompt_text_def not_less split: if_splits)
  have "length t \<le> 2000" using collapse_length [of "[]" s] s(1,3) by (simp add: collapse_spaces_def)
  moreover have "\<not> list_ex bad_control t"
    using collapse_chars [of "[]" s] s(2,3) by (auto simp: list_ex_iff collapse_spaces_def bad_control_def)
  ultimately show ?thesis using s(3) collapse_fixed by (simp add: clean_prompt_text_def)
qed

lemma norm_same:
  "norm_meta depth v r = Inr (w, r') \<Longrightarrow> w = v"
  "norm_list depth xs r = Inr (ys, r') \<Longrightarrow> ys = xs"
  "norm_dict depth d r = Inr (e, r') \<Longrightarrow> e = d"
proof (induction depth v r and depth xs r and depth d r arbitrary: w r' and ys r' and e r'
    rule: norm_meta_norm_list_norm_dict.induct)
  case (1 depth v r)
  show ?case
  proof (cases v)
    case (PDict d)
    with 1 show ?thesis by (auto simp: norm_meta.simps [of depth "PDict d"] split: if_splits)
  next
    case (PList xs)
    with 1 show ?thesis by (auto simp: norm_meta.simps [of depth "PList xs"] split: if_splits)
  qed (use 1 in \<open>auto simp: norm_meta.simps split: if_splits\<close>)
qed (auto split: if_splits)

lemma metadata_fixed: "normalize_metadata v = Inr m \<Longrightarrow> normalize_metadata (PDict m) = Inr m"
proof -
  assume a: "normalize_metadata v = Inr m"
  show ?thesis
  proof (cases v)
    case (PDict d)
    with a obtain w r where w: "norm_meta 0 (PDict d) max_metadata_nodes = Inr (w, r)"
      and m: "m = (case w of PDict d' \<Rightarrow> d' | _ \<Rightarrow> [])"
      by (auto simp: normalize_metadata_def)
    have "w = PDict d" using norm_same(1) [OF w] .
    with w m show ?thesis by (simp add: normalize_metadata_def)
  next
    case PNone
    with a show ?thesis by (simp add: normalize_metadata_def norm_meta.simps max_metadata_nodes_def)
  qed (use a in \<open>simp_all add: normalize_metadata_def\<close>)
qed

lemma parse_state_name [simp]: "parse_state (PStr (state_name s)) = Inr s"
  by (cases s) (simp_all add: parse_state_def state_names_def)

lemma get_or_to_dict [simp]:
  "get_or (to_dict t) ''task_id'' v = PStr (tk_id t)" "get_or (to_dict t) ''turn_id'' v = PStr (tk_turn t)"
  "get_or (to_dict t) ''event_id'' v = PStr (tk_event t)" "get_or (to_dict t) ''description'' v = PStr (tk_description t)"
  "get_or (to_dict t) ''state'' v = PStr (state_name (tk_state t))" "get_or (to_dict t) ''failure_cause'' v = PStr (tk_failure t)"
  "get_or (to_dict t) ''repair_attempts'' v = PInt (tk_repairs t)" "get_or (to_dict t) ''created_at'' v = PFloat (Fin (tk_created t))"
  "get_or (to_dict t) ''updated_at'' v = PFloat (Fin (tk_updated t))" "get_or (to_dict t) ''resolved_at'' v = PFloat (Fin (tk_resolved t))"
  "get_or (to_dict t) ''owner_confirmed'' v = PBool (tk_confirmed t)" "get_or (to_dict t) ''valence'' v = PFloat (Fin (tk_valence t))"
  "get_or (to_dict t) ''metadata'' v = PDict (tk_metadata t)"
  by (simp_all add: get_or_def to_dict_def)

text \<open>What \<open>from_dict\<close> guarantees.\<close>

definition outcome_ok :: "real \<Rightarrow> task_outcome \<Rightarrow> bool" where
  "outcome_ok now t \<longleftrightarrow>
     clean_id (PStr (tk_id t)) True = Inr (tk_id t) \<and> clean_id (PStr (tk_turn t)) False = Inr (tk_turn t)
     \<and> clean_id (PStr (tk_event t)) False = Inr (tk_event t)
     \<and> clean_prompt_text (PStr (tk_description t)) = Inr (tk_description t)
     \<and> clean_prompt_text (PStr (tk_failure t)) = Inr (tk_failure t)
     \<and> 0 \<le> tk_repairs t \<and> tk_repairs t \<le> 1000000
     \<and> 0 < tk_created t \<and> tk_created t \<le> tk_updated t \<and> tk_updated t \<le> now + 300
     \<and> 0 \<le> tk_resolved t \<and> tk_resolved t \<le> now + 300 \<and> (tk_resolved t = 0 \<or> tk_created t \<le> tk_resolved t)
     \<and> (resolved (tk_state t) \<longrightarrow> tk_resolved t \<noteq> 0) \<and> (tk_state t = User_confirmed \<longrightarrow> tk_confirmed t)
     \<and> -1 \<le> tk_valence t \<and> tk_valence t \<le> 1 \<and> normalize_metadata (PDict (tk_metadata t)) = Inr (tk_metadata t)"

lemma parse_time_range: "parse_time now v = Inr x \<Longrightarrow> 0 \<le> x \<and> x \<le> now + 300"
  by (auto simp: parse_time_def split: option.splits if_splits)

lemma parse_valence_range: "parse_valence v = Inr x \<Longrightarrow> -1 \<le> x \<and> x \<le> 1"
  by (auto simp: parse_valence_def split: option.splits if_splits)

lemma parse_repairs_range: "parse_repairs v = Inr i \<Longrightarrow> 0 \<le> i \<and> i \<le> 1000000"
  by (auto simp: parse_repairs_def split: option.splits if_splits)

lemma from_dict_ok:
  assumes "from_dict now d = Inr t"
  shows "outcome_ok now t"
proof -
  from assms have f: "clean_id (get_or d ''task_id'' PNone) True = Inr (tk_id t)"
      "clean_id (get_or d ''turn_id'' (PStr [])) False = Inr (tk_turn t)"
      "clean_id (get_or d ''event_id'' (PStr [])) False = Inr (tk_event t)"
      "clean_prompt_text (get_or d ''description'' (PStr [])) = Inr (tk_description t)"
      "clean_prompt_text (get_or d ''failure_cause'' (PStr [])) = Inr (tk_failure t)"
      "parse_repairs (get_or d ''repair_attempts'' (PInt 0)) = Inr (tk_repairs t)"
      "parse_time now (get_or d ''created_at'' (PFloat (Fin now))) = Inr (tk_created t)"
      "parse_time now (get_or d ''updated_at'' (PFloat (Fin now))) = Inr (tk_updated t)"
      "\<exists>r0. parse_time now (get_or d ''resolved_at'' (PFloat (Fin 0))) = Inr r0
         \<and> tk_resolved t = (if resolved (tk_state t) \<and> r0 = 0 then tk_updated t else r0)"
      "\<not> (tk_created t \<le> 0 \<or> tk_updated t < tk_created t)"
      "\<not> (tk_resolved t \<noteq> 0 \<and> tk_resolved t < tk_created t)"
      "\<exists>c0. tk_confirmed t = (if tk_state t = User_confirmed then True else c0)"
      "parse_valence (get_or d ''valence'' (PFloat (Fin 0))) = Inr (tk_valence t)"
      "normalize_metadata (get_or d ''metadata'' (PDict [])) = Inr (tk_metadata t)"
    by (auto simp: from_dict_def Let_def)
  note r = parse_time_range [OF f(7)] parse_time_range [OF f(8)] parse_valence_range [OF f(13)] parse_repairs_range [OF f(6)]
  obtain r0 where r0: "parse_time now (get_or d ''resolved_at'' (PFloat (Fin 0))) = Inr r0"
    "tk_resolved t = (if resolved (tk_state t) \<and> r0 = 0 then tk_updated t else r0)" using f(9) by blast
  note rr = parse_time_range [OF r0(1)]
  show ?thesis unfolding outcome_ok_def
    using clean_id_fixed [OF f(1)] clean_id_fixed [OF f(2)] clean_id_fixed [OF f(3)] clean_text_fixed [OF f(4)]
      clean_text_fixed [OF f(5)] metadata_fixed [OF f(14)] r rr r0(2) f(10-12)
    by (auto split: if_splits)
qed

lemma from_dict_to_dict: "from_dict now (to_dict t) = Inr t \<longleftrightarrow> outcome_ok now t"
proof
  assume o1: "outcome_ok now t"
  have g: "guard True e = Inr ()" for e by (simp add: guard_def)
  from o1 show "from_dict now (to_dict t) = Inr t"
    unfolding outcome_ok_def
    by (cases t) (simp add: from_dict_def parse_repairs_def parse_time_def parse_valence_def parse_bool_def Let_def guard_def not_le not_less)
qed (rule from_dict_ok)

text \<open>So the canonical form is a fixed point, now and at any later reading of the clock.\<close>

lemma outcome_ok_later: "outcome_ok now t \<Longrightarrow> now \<le> now' \<Longrightarrow> outcome_ok now' t"
  by (auto simp: outcome_ok_def)

section \<open>The ledger as a table of canonical tasks\<close>

definition plain_task :: "task_outcome \<Rightarrow> bool" where
  "plain_task t \<longleftrightarrow> \<not> has_break (PDict (tk_metadata t))"

lemma plain_dict: "\<not> has_break (PDict d) \<longleftrightarrow> (\<forall>p \<in> set d. CHR 0x85 \<notin> set (fst p) \<and> \<not> has_break (snd p))"
  by (simp add: list_ex_iff)

lemma plain_id: "clean_id v b = Inr t \<Longrightarrow> CHR 0x85 \<notin> set t"
proof
  assume a: "clean_id v b = Inr t" "CHR 0x85 \<in> set t"
  then have "id_matches t" by (cases v) (auto simp: clean_id_def Let_def split: if_splits)
  then have "id_char (CHR 0x85)" using a(2) by (auto simp: id_matches_def id_char_def list_all_iff split: list.splits)
  then show False by (simp add: id_char_def id_start_def is_digit_def)
qed

lemma plain_join: "words_ok ws \<Longrightarrow> CHR 0x85 \<notin> set (join_words '' '' ws)"
proof (induction ws)
  case (Cons w ws)
  have "is_space (CHR 0x85)" by (simp add: is_space_def)
  then have "CHR 0x85 \<notin> set w" using Cons.prems by (auto simp: words_ok_def list_all_iff)
  then show ?case using Cons by (simp add: join_words_Cons words_ok_def)
qed simp

lemma plain_text: "clean_prompt_text v = Inr t \<Longrightarrow> CHR 0x85 \<notin> set t"
  using plain_join [OF split_words_ok, of "[]"]
  by (auto simp: clean_prompt_text_def collapse_spaces_def split: pyval.splits if_splits)

lemma plain_state: "CHR 0x85 \<notin> set (state_name st)"
  by (cases st) simp_all

lemma written_to_dict:
  assumes "outcome_ok now t" "plain_task t"
  shows "written_line (PDict (to_dict t)) = Json (PDict (to_dict t))"
proof -
  have "CHR 0x85 \<notin> set (tk_id t)" "CHR 0x85 \<notin> set (tk_turn t)" "CHR 0x85 \<notin> set (tk_event t)"
    "CHR 0x85 \<notin> set (tk_description t)" "CHR 0x85 \<notin> set (tk_failure t)"
    using assms(1) plain_id plain_text unfolding outcome_ok_def by blast+
  with assms(2) show ?thesis by (simp add: written_line_def to_dict_def plain_task_def plain_state)
qed

lemma plain_metadata: "normalize_metadata v = Inr m \<Longrightarrow> \<not> has_break v \<Longrightarrow> \<not> has_break (PDict m)"
proof -
  assume a: "normalize_metadata v = Inr m" "\<not> has_break v"
  show ?thesis
  proof (cases v)
    case (PDict d)
    with a(1) obtain w r where w: "norm_meta 0 (PDict d) max_metadata_nodes = Inr (w, r)"
      and m: "m = (case w of PDict d' \<Rightarrow> d' | _ \<Rightarrow> [])"
      by (auto simp: normalize_metadata_def)
    have "w = PDict d" using norm_same(1) [OF w] .
    with m a(2) PDict show ?thesis by simp
  qed (use a in \<open>simp_all add: normalize_metadata_def\<close>)
qed

text \<open>Dictionaries without a line break stay so under the updates of the ledger.\<close>

lemma plain_dset: "\<not> has_break (PDict d) \<Longrightarrow> \<not> has_break v \<Longrightarrow> CHR 0x85 \<notin> set k \<Longrightarrow> \<not> has_break (PDict (dset k v d))"
  unfolding plain_dict using set_dset_subset [of k v d] by fastforce

lemma plain_dupdate: "\<not> has_break (PDict d) \<Longrightarrow> \<not> has_break (PDict e) \<Longrightarrow> \<not> has_break (PDict (dupdate d e))"
  unfolding dupdate_def
proof (induction e arbitrary: d)
  case (Cons p e)
  have p: "CHR 0x85 \<notin> set (fst p)" "\<not> has_break (snd p)" "\<not> has_break (PDict e)" using Cons.prems(2) by simp_all
  have "\<not> has_break (PDict (dset (fst p) (snd p) d))" by (rule plain_dset [OF Cons.prems(1) p(2,1)])
  from Cons.IH [OF this p(3)] show ?case by (simp add: case_prod_beta del: has_break.simps)
qed simp

lemma plain_from_dict: "from_dict now (to_dict t) = Inr c \<Longrightarrow> plain_task t \<Longrightarrow> plain_task c"
proof -
  assume f: "from_dict now (to_dict t) = Inr c" and p: "plain_task t"
  from f have "normalize_metadata (PDict (tk_metadata t)) = Inr (tk_metadata c)" by (auto simp: from_dict_def Let_def)
  from plain_metadata [OF this] p show ?thesis by (simp add: plain_task_def)
qed

definition table_ok :: "real \<Rightarrow> (string, task_outcome) dict \<Rightarrow> bool" where
  "table_ok now d \<longleftrightarrow> dict_ok d \<and> (\<forall>(k, t) \<in> set d. k = tk_id t \<and> outcome_ok now t \<and> plain_task t)"

lemma table_ok_Nil [simp]: "table_ok now []"
  by (simp add: table_ok_def)

lemma table_ok_later: "table_ok now d \<Longrightarrow> now \<le> now' \<Longrightarrow> table_ok now' d"
  using outcome_ok_later by (fastforce simp: table_ok_def)

lemma table_ok_dset: "table_ok now d \<Longrightarrow> outcome_ok now t \<Longrightarrow> plain_task t \<Longrightarrow> table_ok now (dset (tk_id t) t d)"
  using set_dset_subset [of "tk_id t" t d] by (fastforce simp: table_ok_def)

lemma table_ok_lookup: "table_ok now d \<Longrightarrow> map_of d k = Some t \<Longrightarrow> tk_id t = k \<and> outcome_ok now t \<and> plain_task t"
  by (auto simp: table_ok_def dest!: map_of_SomeD)

lemma canonical_ok:
  assumes "\<forall>t \<in> set ts. outcome_ok (li_now io) t" "canonical io ts = Inr vs"
  shows "vs = map (\<lambda>t. PDict (to_dict t)) ts"
  using assms
proof (induction ts arbitrary: vs)
  case (Cons t ts)
  then have "from_dict (li_now io) (to_dict t) = Inr t" by (simp add: from_dict_to_dict)
  with Cons show ?case by auto
qed simp

definition file_of_table :: "nat \<Rightarrow> (string, task_outcome) dict \<Rightarrow> ledger_file" where
  "file_of_table sig d = \<lparr>ld_sig = sig, ld_lines = Some (map (\<lambda>t. Json (PDict (to_dict t))) (dvals d))\<rparr>"

text \<open>A write replaces the file by the whole table or changes nothing.\<close>

definition replaced :: "ledger_io \<Rightarrow> ldisk \<times> ledger \<Rightarrow> (string, task_outcome) dict \<Rightarrow> ldisk \<times> ledger \<Rightarrow> bool" where
  "replaced io s tasks s' \<longleftrightarrow> li_write io = Written_unconfirmed \<and> fst s' = Some (file_of_table (li_sig io) tasks)
     \<and> snd s' = snd s \<and> length tasks \<le> max_tasks \<and> table_ok (li_now io) tasks"

definition kept :: "ledger_io \<Rightarrow> ldisk \<times> ledger \<Rightarrow> ldisk \<times> ledger \<Rightarrow> bool" where
  "kept io s s' \<longleftrightarrow> s' = s \<or> (\<exists>tasks. replaced io s tasks s')"

lemma kept_refl [simp]: "kept io s s"
  by (simp add: kept_def)

lemma persist_effect:
  assumes "table_ok (li_now io) tasks"
  shows "(case persist_tasks io tasks s of
      (Inl e, s') \<Rightarrow> kept io s s'
    | (Inr u, s') \<Rightarrow> length tasks \<le> max_tasks \<and> fst s' = Some (file_of_table (li_sig io) tasks)
        \<and> snd s' = (snd s)\<lparr>lg_tasks := tasks, lg_sig := Some (li_sig io), lg_had := True\<rparr>)"
proof -
  have ok: "\<forall>t \<in> set (dvals tasks). outcome_ok (li_now io) t" using assms by (auto simp: table_ok_def dvals_def)
  have wl: "map written_line (map (\<lambda>t. PDict (to_dict t)) (dvals tasks)) = map (\<lambda>t. Json (PDict (to_dict t))) (dvals tasks)"
    using assms written_to_dict by (auto simp: table_ok_def dvals_def)
  show ?thesis
    using canonical_ok [OF ok] assms wl
    by (auto simp: persist_tasks_def file_of_table_def comp_def kept_def replaced_def Let_def
        split: sum.splits write_outcome.splits)
qed

lemma dset_append_new: "dict_ok (acc @ [(k, v)]) \<Longrightarrow> dset k v acc = acc @ [(k, v)]"
  by (rule dset_absent) (auto simp: dict_ok_def dkeys_def)

text \<open>Reading the file of a table gives the table back.\<close>

lemma parse_table:
  "table_ok now (acc @ d) \<Longrightarrow> n + length d \<le> max_tasks \<Longrightarrow>
     parse_lines now n (map (\<lambda>t. Json (PDict (to_dict t))) (dvals d)) acc = Inr (acc @ d)"
proof (induction d arbitrary: acc n)
  case (Cons p d)
  obtain k t where p: "p = (k, t)" by (cases p)
  have t: "k = tk_id t" "from_dict now (to_dict t) = Inr t"
    using Cons.prems(1) p by (auto simp: table_ok_def from_dict_to_dict)
  have "dict_ok (acc @ [(tk_id t, t)])" using Cons.prems(1) p t by (auto simp: table_ok_def dict_ok_def dkeys_def)
  then have "dset (tk_id t) t acc = acc @ [(tk_id t, t)]" by (rule dset_append_new)
  then show ?case using Cons p t by (simp add: dvals_def)
qed (simp add: dvals_def)

section \<open>Every operation on the table\<close>

text \<open>What one worker leaves behind: the old file with an error or nothing to do, or the file of
  the new table, which is also its memory.\<close>

definition leaves :: "ledger_io \<Rightarrow> ldisk \<times> ledger \<Rightarrow> (string, task_outcome) dict \<Rightarrow> ldisk \<times> ledger \<Rightarrow> bool" where
  "leaves io s tasks s' \<longleftrightarrow> fst s' = Some (file_of_table (li_sig io) tasks)
     \<and> snd s' = (snd s)\<lparr>lg_tasks := tasks, lg_sig := Some (li_sig io), lg_had := True\<rparr>
     \<and> length tasks \<le> max_tasks \<and> table_ok (li_now io) tasks"

lemma persist_leaves:
  assumes "table_ok (li_now io) tasks" "persist_tasks io tasks s = (r, s')"
  shows "(case r of Inl e \<Rightarrow> kept io s s' | Inr u \<Rightarrow> leaves io s tasks s')"
  using persist_effect [OF assms(1), of s] assms by (simp add: leaves_def split: sum.splits)

lemma from_dict_id: "from_dict now d = Inr c \<Longrightarrow> clean_id (get_or d ''task_id'' PNone) True = Inr (tk_id c)"
  by (auto simp: from_dict_def Let_def)

lemma store_task_effect:
  assumes ok: "table_ok (li_now io) (lg_tasks (snd s))" and tid: "clean_id (PStr (tk_id t)) True = Inr (tk_id t)" and pl: "plain_task t"
  shows "(case store_task io (tk_id t) t s of
      (Inl e, s') \<Rightarrow> kept io s s'
    | (Inr c, s') \<Rightarrow> from_dict (li_now io) (to_dict t) = Inr c \<and> leaves io s (dset (tk_id t) c (lg_tasks (snd s))) s'
        \<and> tk_id c = tk_id t)"
proof (cases "from_dict (li_now io) (to_dict t)")
  case (Inr c)
  have oc: "outcome_ok (li_now io) c" using from_dict_ok [OF Inr] .
  have id: "tk_id c = tk_id t" using from_dict_id [OF Inr] tid by simp
  have tok: "table_ok (li_now io) (dset (tk_id t) c (lg_tasks (snd s)))"
    using table_ok_dset [OF ok oc plain_from_dict [OF Inr pl]] id by simp
  have cl: "clone_task (li_now io) c = Inr c" using oc by (simp add: clone_task_def from_dict_to_dict)
  show ?thesis
    using persist_effect [OF tok, of s] Inr cl id tok
    by (auto simp: store_task_def leaves_def split: prod.splits sum.splits)
qed (simp add: store_task_def)

lemma new_task_id [simp]: "tk_id (new_task now tid turn event descr state failure valence meta) = tid"
  by (simp add: new_task_def)

lemma move_task_id [simp]: "tk_id (move_task now state t) = tk_id t" "tk_id (update_task now a b c state e f g t) = tk_id t"
  by (simp_all add: move_task_def update_task_def)

lemma new_task_plain: "\<not> has_break (PDict meta) \<Longrightarrow> plain_task (new_task now tid turn event descr state failure valence meta)"
  by (simp add: new_task_def plain_task_def)

lemma move_task_plain: "plain_task t \<Longrightarrow> plain_task ((move_task now state t)\<lparr>tk_failure := f\<rparr>)"
  by (simp add: move_task_def plain_task_def)

lemma update_task_plain: "plain_task t \<Longrightarrow> \<not> has_break (PDict meta) \<Longrightarrow> plain_task (update_task now a b c state e f meta t)"
  using plain_dupdate by (simp add: update_task_def plain_task_def del: has_break.simps)

lemma expired_task_plain: "plain_task t \<Longrightarrow> plain_task (expired_task now t)"
  using plain_dset [of "tk_metadata t" "PStr ''stale_timeout''" "''expiry_reason''"]
  by (simp add: expired_task_def plain_task_def del: has_break.simps(3))

lemma table_ok_clean_id: "table_ok now d \<Longrightarrow> map_of d k = Some t \<Longrightarrow> tk_id t = k \<and> clean_id (PStr k) True = Inr k \<and> plain_task t"
  using table_ok_lookup by (auto simp: outcome_ok_def)

lemma expire_table:
  "table_ok now d \<Longrightarrow> expire_tasks now age d = Inr (d', n) \<Longrightarrow> table_ok now d' \<and> map fst d' = map fst d"
proof (induction now age d arbitrary: d' n rule: expire_tasks.induct)
  case (2 now age k t ts)
  have k: "k = tk_id t" "table_ok now ts" "outcome_ok now t" "k \<notin> fst ` set ts" "plain_task t"
    using 2(3) by (auto simp: table_ok_def dict_ok_def dkeys_def)
  show ?case
  proof (cases "\<not> active (tk_state t) \<or> now - tk_created t \<le> age")
    case True
    then obtain r m where r: "expire_tasks now age ts = Inr (r, m)" "d' = (k, t) # r"
      using 2(4) by auto
    from 2(1) [OF True k(2) r(1)] k r(2) show ?thesis
      by (auto simp: table_ok_def dict_ok_def dkeys_def)
  next
    case False
    then obtain t' r m where t': "from_dict now (to_dict (expired_task now t)) = Inr t'"
      and r: "expire_tasks now age ts = Inr (r, m)" "d' = (k, t') # r"
      using 2(4) by auto
    have "tk_id t' = k"
      using from_dict_id [OF t'] k(1,3) by (simp add: expired_task_def outcome_ok_def)
    with 2(2) [OF False k(2) r(1)] k r(2) from_dict_ok [OF t'] plain_from_dict [OF t' expired_task_plain [OF k(5)]] show ?thesis
      by (auto simp: table_ok_def dict_ok_def dkeys_def)
  qed
qed simp

text \<open>One operation against a healthy view of the file.\<close>

lemma transact_run:
  assumes "\<not> lg_error (load False (li_now io) disk s)"
  shows "transact io body (disk, s) = body (disk, load False (li_now io) disk s)"
  using assms by (simp add: transact_def Let_def)

definition keeps_or_leaves :: "ledger_io \<Rightarrow> ldisk \<times> ledger \<Rightarrow> 'a res \<times> (ldisk \<times> ledger) \<Rightarrow> bool" where
  "keeps_or_leaves io s p \<longleftrightarrow> snd p = s \<or> (\<not> is_ok (fst p) \<and> (\<exists>tasks. replaced io s tasks (snd p))) \<or> (is_ok (fst p) \<and> (\<exists>tasks. leaves io s tasks (snd p)))"

lemma keeps_or_leaves_valued: "keeps_or_leaves io s p \<Longrightarrow> keeps_or_leaves io s (valued f p)"
  by (cases "fst p") (auto simp: keeps_or_leaves_def valued_def)

lemma store_keeps_or_leaves:
  assumes "table_ok (li_now io) (lg_tasks (snd s))" "clean_id (PStr (tk_id t)) True = Inr (tk_id t)" "plain_task t"
  shows "keeps_or_leaves io s (store_task io (tk_id t) t s)"
  using store_task_effect [OF assms] by (auto simp: keeps_or_leaves_def kept_def split: prod.splits sum.splits)

lemma persist_keeps_or_leaves:
  "table_ok (li_now io) tasks \<Longrightarrow> keeps_or_leaves io s (persist_tasks io tasks s)"
  using persist_leaves [of io tasks s] by (cases "persist_tasks io tasks s") (auto simp: keeps_or_leaves_def kept_def split: sum.splits)

lemma ledger_run_effect:
  assumes h: "\<not> lg_error (load False (li_now io) disk s)" and t: "table_ok (li_now io) (lg_tasks (load False (li_now io) disk s))"
    and pl: "plain_op op"
  shows "snd (ledger_run io op (disk, s)) = (disk, s)
    \<or> keeps_or_leaves io (disk, load False (li_now io) disk s) (ledger_run io op (disk, s))"
proof (cases op)
  case (Record a)
  let ?l = "load False (li_now io) disk s"
  show ?thesis
  proof (cases "\<exists>e. fst (record_task io a (disk, s)) = Inl e \<and> snd (record_task io a (disk, s)) = (disk, s)")
    case True
    then show ?thesis using Record by (auto simp: valued_def)
  next
    case False
    then obtain tid state turn event descr failure meta valence where v: "clean_id (ra_task a) True = Inr tid"
      and me: "normalize_metadata (ra_metadata a) = Inr meta"
      and r: "record_task io a (disk, s) = store_task io tid
              (case map_of (lg_tasks ?l) tid of
                 None \<Rightarrow> new_task (li_now io) tid turn event descr state failure
                           (case valence of Some v \<Rightarrow> v | None \<Rightarrow> 0) meta
               | Some t \<Rightarrow> update_task (li_now io) turn event descr state failure valence meta t) (disk, ?l)"
      by (auto simp: record_task_def transact_run [OF h] split: sum.splits)
    let ?t = "case map_of (lg_tasks ?l) tid of
                 None \<Rightarrow> new_task (li_now io) tid turn event descr state failure
                           (case valence of Some v \<Rightarrow> v | None \<Rightarrow> 0) meta
               | Some t \<Rightarrow> update_task (li_now io) turn event descr state failure valence meta t"
    have id: "tk_id ?t = tid" using table_ok_clean_id [OF t] by (auto split: option.split)
    have "\<not> has_break (PDict meta)" using plain_metadata [OF me] pl Record by simp
    then have pt: "plain_task ?t" using table_ok_clean_id [OF t] new_task_plain update_task_plain by (auto split: option.split simp del: has_break.simps)
    have "clean_id (PStr tid) True = Inr tid" using clean_id_fixed [OF v] .
    then have "keeps_or_leaves io (disk, ?l) (store_task io tid ?t (disk, ?l))"
      using store_keeps_or_leaves [of io "(disk, ?l)" ?t] t pt unfolding id by simp
    from keeps_or_leaves_valued [OF this] show ?thesis unfolding Record ledger_run.simps r ..
  qed
next
  case (Transition tid0 st c)
  let ?l = "load False (li_now io) disk s"
  show ?thesis
  proof (cases "\<exists>e. fst (transition_task io tid0 st c (disk, s)) = Inl e \<and> snd (transition_task io tid0 st c (disk, s)) = (disk, s)")
    case True
    then show ?thesis using Transition by (auto simp: valued_def)
  next
    case False
    then obtain tid state failure where
      r: "transition_task io tid0 st c (disk, s) = (case map_of (lg_tasks ?l) tid of
              None \<Rightarrow> (Inr None, disk, ?l)
            | Some t \<Rightarrow>
                let m = move_task (li_now io) state t;
                    (r, s') = store_task io tid (m\<lparr>tk_failure := or_keep failure (tk_failure t)\<rparr>) (disk, ?l)
                in (rbind r (\<lambda>x. Inr (Some x)), s'))"
      by (auto simp: transition_task_def transact_run [OF h] split: sum.splits)
    show ?thesis
    proof (cases "map_of (lg_tasks ?l) tid")
      case None
      then show ?thesis using Transition r by (simp add: keeps_or_leaves_def valued_def)
    next
      case (Some t0)
      let ?t = "(move_task (li_now io) state t0)\<lparr>tk_failure := or_keep failure (tk_failure t0)\<rparr>"
      have id: "tk_id ?t = tid" "clean_id (PStr tid) True = Inr tid" "plain_task ?t"
        using table_ok_clean_id [OF t Some] move_task_plain by auto
      have k: "keeps_or_leaves io (disk, ?l) (store_task io (tk_id ?t) ?t (disk, ?l))"
        using t id by (intro store_keeps_or_leaves) simp_all
      obtain rr s' where rr: "store_task io tid ?t (disk, ?l) = (rr, s')" by (rule prod.exhaust)
      have "transition_task io tid0 st c (disk, s) = (rbind rr (\<lambda>x. Inr (Some x)), s')" using r Some rr by (simp add: Let_def)
      then show ?thesis using Transition k rr id
        by (cases rr) (auto simp: keeps_or_leaves_def valued_def)
    qed
  qed
next
  case (Expire age)
  let ?l = "load False (li_now io) disk s"
  show ?thesis
  proof (cases "case finite_number age of Some x \<Rightarrow> 0 < x | None \<Rightarrow> False")
    case False
    then show ?thesis using Expire by (auto simp: expire_stale_def valued_def split: option.splits)
  next
    case True
    then obtain x where x: "finite_number age = Some x" "0 < x" by (auto split: option.splits)
    have r: "expire_stale io age (disk, s) = (case expire_tasks (li_now io) x (lg_tasks ?l) of
              Inl e \<Rightarrow> (Inl e, disk, ?l)
            | Inr (tasks, n) \<Rightarrow>
                if n = 0 then (Inr 0, disk, ?l)
                else (case persist_tasks io tasks (disk, ?l) of (Inl e, s') \<Rightarrow> (Inl e, s') | (Inr _, s') \<Rightarrow> (Inr n, s')))"
      using x by (simp add: expire_stale_def transact_run [OF h] split: sum.split)
    show ?thesis
    proof (cases "expire_tasks (li_now io) x (lg_tasks ?l)")
      case (Inl e)
      then show ?thesis using Expire r by (simp add: keeps_or_leaves_def valued_def)
    next
      case (Inr p)
      obtain tasks n where p: "p = (tasks, n)" by (cases p)
      obtain rr s' where rr: "persist_tasks io tasks (disk, ?l) = (rr, s')" by (rule prod.exhaust)
      have "keeps_or_leaves io (disk, ?l) (persist_tasks io tasks (disk, ?l))"
        using expire_table [OF t] Inr p by (blast intro: persist_keeps_or_leaves)
      then show ?thesis using Expire r Inr p rr
        by (cases rr; cases "n = 0") (auto simp: keeps_or_leaves_def valued_def)
    qed
  qed
next
  case Rewrite
  then show ?thesis using keeps_or_leaves_valued [OF persist_keeps_or_leaves [OF t]] by (simp add: rewrite_ledger_def transact_run [OF h])
next
  case Read
  then show ?thesis by (simp add: all_tasks_def transact_run [OF h] keeps_or_leaves_def valued_def)
next
  case (Get tid)
  then show ?thesis by (simp add: get_task_def transact_run [OF h] keeps_or_leaves_def valued_def split: sum.split)
next
  case (Unresolved limit)
  then show ?thesis by (simp add: unresolved_def transact_run [OF h] keeps_or_leaves_def valued_def)
qed

section \<open>Workers agree\<close>

definition no_ledger :: ledger where
  "no_ledger = \<lparr>lg_tasks = [], lg_error = False, lg_sig = None, lg_had = False\<rparr>"

text \<open>What a worker knows after reading the file of the table \<open>T\<close>.\<close>

definition reader :: "ldisk \<Rightarrow> (string, task_outcome) dict \<Rightarrow> ledger" where
  "reader disk T = (case disk of None \<Rightarrow> no_ledger
     | Some f \<Rightarrow> \<lparr>lg_tasks = T, lg_error = False, lg_sig = Some (ld_sig f), lg_had = True\<rparr>)"

definition disk_is :: "real \<Rightarrow> nat set \<Rightarrow> ldisk \<Rightarrow> (string, task_outcome) dict \<Rightarrow> bool" where
  "disk_is now used disk T \<longleftrightarrow> table_ok now T \<and> length T \<le> max_tasks
     \<and> (case disk of None \<Rightarrow> T = [] | Some f \<Rightarrow> f = file_of_table (ld_sig f) T \<and> ld_sig f \<in> used)"

definition worker_ok :: "real \<Rightarrow> nat set \<Rightarrow> ldisk \<Rightarrow> (string, task_outcome) dict \<Rightarrow> ledger \<Rightarrow> bool" where
  "worker_ok now used disk T s \<longleftrightarrow> s = no_ledger \<or>
     (\<exists>sig. s = \<lparr>lg_tasks = lg_tasks s, lg_error = False, lg_sig = Some sig, lg_had = True\<rparr> \<and> sig \<in> used
        \<and> (case disk of None \<Rightarrow> False | Some f \<Rightarrow> sig = ld_sig f \<longrightarrow> lg_tasks s = T))"

fun workers_ok :: "workers \<Rightarrow> bool" where
  "workers_ok (now, used, disk, w) \<longleftrightarrow> (\<exists>T. disk_is now used disk T \<and> (\<forall>i. worker_ok now used disk T (w i)))"

lemma worker_load:
  assumes "disk_is now used disk T" "worker_ok now used disk T s" "now \<le> now'"
  shows "load False now' disk s = reader disk T"
proof (cases disk)
  case None
  then have "s = no_ledger" using assms(2) by (auto simp: worker_ok_def)
  then show ?thesis using None by (simp add: load_def reader_def no_ledger_def)
next
  case (Some f)
  have T: "table_ok now' T" "length T \<le> max_tasks" "f = file_of_table (ld_sig f) T"
    using assms(1) table_ok_later [OF _ assms(3)] Some by (auto simp: disk_is_def)
  have p: "(case ld_lines f of None \<Rightarrow> Inl (ValueError ''read'') | Some ls \<Rightarrow> parse_lines now' 0 ls []) = Inr T"
  proof -
    have "ld_lines f = Some (map (\<lambda>t. Json (PDict (to_dict t))) (dvals T))"
      using T(3) by (metis file_of_table_def ledger_file.select_convs(2))
    then show ?thesis using parse_table [of now' "[]" T 0] T(1,2) by simp
  qed
  show ?thesis
  proof (cases "s = no_ledger \<or> lg_sig s \<noteq> Some (ld_sig f)")
    case True
    then have "load False now' disk s = s\<lparr>lg_tasks := T, lg_sig := Some (ld_sig f), lg_had := True, lg_error := False\<rparr>"
      using Some p by (auto simp: load_def no_ledger_def)
    then show ?thesis using Some by (cases s) (simp add: reader_def)
  next
    case False
    then obtain sig where s: "s = \<lparr>lg_tasks = lg_tasks s, lg_error = False, lg_sig = Some sig, lg_had = True\<rparr>"
      and "sig = ld_sig f \<longrightarrow> lg_tasks s = T"
      using assms(2) Some unfolding worker_ok_def by auto
    moreover have "lg_sig s = Some sig" using arg_cong [OF s, of lg_sig] by simp
    ultimately have "s = \<lparr>lg_tasks = T, lg_error = False, lg_sig = Some (ld_sig f), lg_had = True\<rparr>"
      using False by simp
    then show ?thesis using Some by (simp add: load_def reader_def)
  qed
qed

lemma no_ledger_ok: "worker_ok now used disk T no_ledger"
  by (simp add: worker_ok_def)

lemma open_is_load: "disk_is now used disk T \<Longrightarrow> now \<le> now' \<Longrightarrow> open_ledger now' disk = reader disk T"
proof -
  assume d: "disk_is now used disk T" and n: "now \<le> now'"
  have "open_ledger now' disk = load False now' disk no_ledger"
    by (cases disk) (simp_all add: open_ledger_def load_def no_ledger_def)
  then show ?thesis using worker_load [OF d no_ledger_ok n] by simp
qed

lemma reader_ok: "disk_is now used disk T \<Longrightarrow> worker_ok now used disk T (reader disk T)"
  by (auto simp: disk_is_def worker_ok_def reader_def split: option.splits)

lemma reader_healthy: "disk_is now used disk T \<Longrightarrow> \<not> lg_error (reader disk T) \<and> lg_tasks (reader disk T) = T"
  by (auto simp: disk_is_def reader_def no_ledger_def split: option.splits)

lemma transact_same:
  "load False (li_now io) disk s = load False (li_now io) disk s' \<Longrightarrow> transact io body (disk, s) = transact io body (disk, s')"
  by (simp add: transact_def Let_def)

lemma ledger_run_same:
  assumes "load False (li_now io) disk s = load False (li_now io) disk s'"
  shows "fst (ledger_run io op (disk, s)) = fst (ledger_run io op (disk, s'))
    \<and> fst (snd (ledger_run io op (disk, s))) = fst (snd (ledger_run io op (disk, s')))"
proof -
  note t = transact_same [OF assms]
  show ?thesis
    by (cases op) (auto simp: valued_def record_task_def transition_task_def expire_stale_def rewrite_ledger_def all_tasks_def get_task_def unresolved_def t
        split: sum.splits option.splits)
qed

lemma disk_is_later: "disk_is now used disk T \<Longrightarrow> now \<le> now' \<Longrightarrow> used \<subseteq> used' \<Longrightarrow> disk_is now' used' disk T"
  using table_ok_later by (auto simp: disk_is_def split: option.splits)

lemma worker_ok_later: "worker_ok now used disk T s \<Longrightarrow> used \<subseteq> used' \<Longrightarrow> worker_ok now' used' disk T s"
  by (auto simp: worker_ok_def)

lemma leaves_ok:
  assumes "leaves io (disk, l) tasks (disk', s')" "\<not> lg_error l"
  shows "disk_is (li_now io) (insert (li_sig io) used) disk' tasks" "s' = reader disk' tasks"
  using assms by (auto simp: leaves_def disk_is_def reader_def file_of_table_def)

lemma replaced_ok:
  assumes "replaced io (disk, l) tasks (disk', s')"
  shows "disk_is (li_now io) (insert (li_sig io) used) disk' tasks" "s' = l"
    and "li_sig io \<notin> used \<Longrightarrow> worker_ok now used disk T s \<Longrightarrow> worker_ok now' (insert (li_sig io) used) disk' tasks s"
  using assms by (auto simp: replaced_def worker_ok_def disk_is_def file_of_table_def split: option.splits)

lemma other_worker_ok:
  assumes "leaves io (disk, l) tasks (disk', s')" "li_sig io \<notin> used" "worker_ok now used disk T s"
  shows "worker_ok now' (insert (li_sig io) used) disk' tasks s"
  using assms by (auto simp: leaves_def worker_ok_def file_of_table_def split: option.splits)

text \<open>One operation of a worker, seen from the shared table.\<close>

lemma worker_run:
  assumes d: "disk_is now used disk T" and w: "worker_ok now used disk T s" and n: "now \<le> li_now io"
    and pl: "plain_op op" and r: "ledger_run io op (disk, s) = (r, disk', s')"
  shows "disk' = disk \<and> (s' = s \<or> s' = reader disk T)
    \<or> \<not> is_ok r \<and> (\<exists>tasks. replaced io (disk, reader disk T) tasks (disk', s'))
    \<or> is_ok r \<and> (\<exists>tasks. leaves io (disk, reader disk T) tasks (disk', s'))"
proof -
  have l: "load False (li_now io) disk s = reader disk T" using worker_load [OF d w n] .
  have "table_ok (li_now io) T" using d table_ok_later [OF _ n] by (auto simp: disk_is_def)
  then have "snd (ledger_run io op (disk, s)) = (disk, s) \<or> keeps_or_leaves io (disk, reader disk T) (ledger_run io op (disk, s))"
    using ledger_run_effect [OF _ _ pl, of io disk s] reader_healthy [OF d] l by simp
  then show ?thesis using r by (auto simp: keeps_or_leaves_def)
qed

lemma workers_step_ok: "workers_step x y \<Longrightarrow> workers_ok x \<Longrightarrow> workers_ok y"
proof (induction rule: workers_step.induct)
  case (work now io used op disk w i r disk' s')
  then obtain T where d: "disk_is now used disk T" and w: "\<And>i. worker_ok now used disk T (w i)" by auto
  have sub: "used \<subseteq> insert (li_sig io) used" by blast
  from worker_run [OF d w work(1,3,4)] show ?case
  proof (elim disjE conjE exE)
    assume "disk' = disk" "s' = w i"
    then show ?thesis using disk_is_later [OF d work(1) sub] worker_ok_later [OF w sub] by auto
  next
    assume "disk' = disk" "s' = reader disk T"
    then show ?thesis
      using disk_is_later [OF d work(1) sub] worker_ok_later [OF w sub] worker_ok_later [OF reader_ok [OF d] sub] by auto
  next
    fix tasks assume rp: "replaced io (disk, reader disk T) tasks (disk', s')"
    have "worker_ok (li_now io) (insert (li_sig io) used) disk' tasks ((w(i := s')) j)" for j
      using replaced_ok(3) [OF rp work(2) w] replaced_ok(3) [OF rp work(2) reader_ok [OF d]] replaced_ok(2) [OF rp] by simp
    with replaced_ok(1) [OF rp] show ?thesis unfolding workers_ok.simps by blast
  next
    fix tasks assume lv: "leaves io (disk, reader disk T) tasks (disk', s')"
    have h: "\<not> lg_error (reader disk T)" using reader_healthy [OF d] by simp
    have dk: "disk_is (li_now io) (insert (li_sig io) used) disk' tasks" using leaves_ok(1) [OF lv h] .
    have "worker_ok (li_now io) (insert (li_sig io) used) disk' tasks ((w(i := s')) j)" for j
      using other_worker_ok [OF lv work(2) w] reader_ok [OF dk] leaves_ok(2) [OF lv h] by simp
    with dk show ?thesis unfolding workers_ok.simps by blast
  qed
next
  case (start now now' used disk w i)
  then obtain T where d: "disk_is now used disk T" and w: "\<And>i. worker_ok now used disk T (w i)" by auto
  have "open_ledger now' disk = reader disk T" using open_is_load [OF d start(1)] .
  then show ?case
    using disk_is_later [OF d start(1) order_refl] worker_ok_later [OF w order_refl] worker_ok_later [OF reader_ok [OF d] order_refl]
    by auto
qed

lemma workers_reachable_ok: "workers_reachable x \<Longrightarrow> workers_ok x"
proof (induction rule: workers_reachable.induct)
  case (workers_init now)
  have "disk_is now {} None []" by (simp add: disk_is_def)
  moreover have "open_ledger now None = no_ledger" by (simp add: open_ledger_def load_def no_ledger_def)
  ultimately show ?case using no_ledger_ok by auto
qed (blast intro: workers_step_ok)

lemma leaves_reader: "leaves io p tasks (disk', s') \<Longrightarrow> \<not> lg_error (snd p) \<Longrightarrow> s' = reader disk' tasks"
  by (auto simp: leaves_def reader_def file_of_table_def)

lemma workers_reachable_is: "workers_reachable (now, used, disk, w) \<Longrightarrow>
  \<exists>T. disk_is now used disk T \<and> (\<forall>i. worker_ok now used disk T (w i))"
  using workers_reachable_ok by fastforce

section \<open>Properties of the ledger\<close>

text \<open>
  The canonical form is a fixed point. A task outcome that \<open>TaskOutcome.from_dict\<close> accepts, whatever
  the record it came from, is written by \<open>to_dict\<close> to a record that \<open>from_dict\<close> reads back as the
  very same outcome, now and at any later reading of the clock: identifiers and texts are already
  stripped and collapsed, time stamps stay in range and in order, metadata keeps its shape and its
  limits. This is what lets the ledger reload what it wrote.\<close>

lemma task_outcome_roundtrip:
  assumes "from_dict now d = Inr t" and "now \<le> now'"
  shows "from_dict now' (to_dict t) = Inr t"
  using outcome_ok_later [OF from_dict_ok [OF assms(1)] assms(2)] by (simp add: from_dict_to_dict)

definition demo_record :: "(string, pyval) dict" where
  "demo_record = [(''task_id'', PStr '' t1 ''), (''state'', PStr ''verified''), (''valence'', PInt 1),
     (''created_at'', PInt 10), (''updated_at'', PInt 12), (''description'', PStr ''  two   words '')]"

definition demo_outcome :: task_outcome where
  "demo_outcome = \<lparr>tk_id = ''t1'', tk_turn = [], tk_event = [], tk_description = ''two words'', tk_state = Verified,
     tk_failure = [], tk_repairs = 0, tk_created = 10, tk_updated = 12, tk_resolved = 12, tk_confirmed = False,
     tk_valence = 1, tk_metadata = []\<rparr>"

lemma demo_from_dict: "from_dict 20 demo_record = Inr demo_outcome"
proof -
  have "clean_id (PStr '' t1 '') True = Inr ''t1''" "clean_id (PStr []) False = Inr []"
    "clean_prompt_text (PStr ''  two   words '') = Inr ''two words''" "clean_prompt_text (PStr []) = Inr []"
    "parse_state (PStr ''verified'') = Inr Verified" "normalize_metadata (PDict []) = Inr []" by code_simp+
  then show ?thesis
    by (simp add: from_dict_def demo_record_def demo_outcome_def get_or_def guard_def parse_repairs_def parse_time_def
        parse_valence_def parse_bool_def resolved_def)
qed

lemma task_outcome_roundtrip_witness: "from_dict 25 (to_dict demo_outcome) = Inr demo_outcome"
  by (rule task_outcome_roundtrip [OF demo_from_dict]) simp

text \<open>
  C29 All workers see one table. In every state that any number of workers reach by interleaved calls of
  \<open>record\<close>, \<open>transition\<close>, \<open>expire_stale\<close>, \<open>_rewrite\<close> and of the reads (each may fail to write or be refused),
  and by restarts, on a clock that never goes back and with a new
  signature for every written file, where no recorded metadata holds the character U+0085 (which locks the ledger), a call of a
  worker with whatever it has cached returns the same value or error and leaves
  the same file as the call of a ledger freshly opened on that file; a call that raises leaves the
  file as it is, unless the atomic write raised after its replacement; and a call that changed the
  file and returned leaves the worker with exactly what any worker that opens the file later will
  read, so nothing written is lost.\<close>

theorem workers_share_one_table:
  assumes "workers_reachable (now, used, disk, w)" and "now \<le> li_now io" and "li_sig io \<notin> used" and "plain_op op"
    and run: "ledger_run io op (disk, w i) = (r, disk', s')"
  shows "(\<exists>s''. ledger_run io op (disk, open_ledger (li_now io) disk) = (r, disk', s''))
    \<and> (\<not> is_ok r \<longrightarrow> disk' = disk \<or> li_write io = Written_unconfirmed)
    \<and> (is_ok r \<and> disk' \<noteq> disk \<and> li_now io \<le> later \<longrightarrow> open_ledger later disk' = s')"
proof -
  obtain T where d: "disk_is now used disk T" and w: "worker_ok now used disk T (w i)"
    using workers_reachable_is [OF assms(1)] by blast
  have l: "load False (li_now io) disk (w i) = reader disk T" using worker_load [OF d w assms(2)] .
  have o1: "open_ledger (li_now io) disk = reader disk T" using open_is_load [OF d assms(2)] .
  have "load False (li_now io) disk (reader disk T) = reader disk T"
    using worker_load [OF d reader_ok [OF d] assms(2)] .
  then have "load False (li_now io) disk (w i) = load False (li_now io) disk (open_ledger (li_now io) disk)" using l o1 by simp
  from ledger_run_same [OF this, of op] run
  have fresh: "\<exists>s''. ledger_run io op (disk, open_ledger (li_now io) disk) = (r, disk', s'')"
    by (cases "ledger_run io op (disk, open_ledger (li_now io) disk)") auto
  note wr = worker_run [OF d w assms(2,4) run]
  have h: "\<not> lg_error (reader disk T)" using reader_healthy [OF d] by simp
  have "open_ledger later disk' = s'" if "is_ok r" "disk' \<noteq> disk" "li_now io \<le> later"
  proof -
    from wr that(1,2) obtain tasks where lv: "leaves io (disk, reader disk T) tasks (disk', s')" by blast
    from open_is_load [OF leaves_ok(1) [OF lv h, of used] that(3)] leaves_ok(2) [OF lv h] show ?thesis by simp
  qed
  moreover have "\<not> is_ok r \<longrightarrow> disk' = disk \<or> li_write io = Written_unconfirmed"
    using wr by (auto simp: replaced_def)
  ultimately show ?thesis using fresh by blast
qed

definition demo_io :: ledger_io where
  "demo_io = \<lparr>li_now = 20, li_bytes = \<lambda>_. 100, li_write = Written, li_sig = 7\<rparr>"

definition demo_args :: record_args where
  "demo_args = \<lparr>ra_task = PStr ''t1'', ra_turn = PStr [], ra_event = PStr [], ra_description = PStr [],
     ra_state = ''open'', ra_failure = PStr [], ra_valence = PNone, ra_metadata = PNone\<rparr>"

definition demo_task :: task_outcome where
  "demo_task = \<lparr>tk_id = ''t1'', tk_turn = [], tk_event = [], tk_description = [], tk_state = Open,
     tk_failure = [], tk_repairs = 0, tk_created = 20, tk_updated = 20, tk_resolved = 0, tk_confirmed = False,
     tk_valence = 0, tk_metadata = []\<rparr>"

lemma demo_record_run:
  "ledger_run demo_io (Record demo_args) (None, no_ledger)
     = (Inr (Task demo_task), Some (file_of_table 7 [(''t1'', demo_task)]),
        \<lparr>lg_tasks = [(''t1'', demo_task)], lg_error = False, lg_sig = Some 7, lg_had = True\<rparr>)"
proof -
  have c: "clean_id (PStr ''t1'') True = Inr ''t1''" "clean_id (PStr []) False = Inr []"
    "clean_prompt_text (PStr []) = Inr []" "parse_state (PStr ''open'') = Inr Open"
    "normalize_metadata PNone = Inr []" "normalize_metadata (PDict []) = Inr []" "parse_opt_valence PNone = Inr None"
    by code_simp+
  have n: "new_task 20 ''t1'' [] [] [] Open [] 0 [] = demo_task"
    by (simp add: new_task_def demo_task_def resolved_time_def resolved_def)
  have "outcome_ok 20 demo_task"
    using c by (simp add: outcome_ok_def demo_task_def resolved_def)
  then have f: "from_dict 20 (to_dict demo_task) = Inr demo_task" "written_line (PDict (to_dict demo_task)) = Json (PDict (to_dict demo_task))"
    by (simp_all add: from_dict_to_dict written_to_dict plain_task_def) (simp add: written_to_dict plain_task_def demo_task_def)
  show ?thesis
    using c n f
    by (simp add: demo_io_def demo_args_def record_task_def transact_def load_def no_ledger_def store_task_def
        persist_tasks_def guard_def dvals_def max_tasks_def file_of_table_def clone_task_def valued_def)
qed

theorem workers_share_one_table_witness:
  "open_ledger 30 (Some (file_of_table 7 [(''t1'', demo_task)]))
     = \<lparr>lg_tasks = [(''t1'', demo_task)], lg_error = False, lg_sig = Some 7, lg_had = True\<rparr>"
proof -
  have o1: "open_ledger 5 None = no_ledger" by (simp add: open_ledger_def load_def no_ledger_def)
  have r: "workers_reachable (5, {}, None, \<lambda>_. no_ledger)" using workers_init [of 5] o1 by simp
  show ?thesis
    using workers_share_one_table [OF r, where io = demo_io and op = "Record demo_args" and later = 30, OF _ _ _ demo_record_run]
    by (simp add: demo_io_def demo_args_def)
qed

lemma from_dict_fields:
  assumes "from_dict now (to_dict m) = Inr c"
  shows "tk_created c = tk_created m \<and> tk_updated c = tk_updated m \<and> tk_repairs c = tk_repairs m
    \<and> tk_state c = tk_state m \<and> tk_confirmed c = (tk_confirmed m \<or> tk_state m = User_confirmed)
    \<and> tk_resolved c = (if resolved (tk_state m) \<and> tk_resolved m = 0 then tk_updated m else tk_resolved m)"
  using assms
  by (auto simp: from_dict_def Let_def parse_repairs_def parse_time_def parse_bool_def split: if_splits)

lemma transition_stored:
  assumes h: "\<not> lg_error (load False (li_now io) disk s)"
    and t: "table_ok (li_now io) (lg_tasks (load False (li_now io) disk s))"
    and r: "transition_task io tid0 st cause (disk, s) = (Inr (Some c), s')"
  shows "\<exists>tid state failure t0. parse_state (PStr st) = Inr state
      \<and> map_of (lg_tasks (load False (li_now io) disk s)) tid = Some t0 \<and> tid = tk_id c
      \<and> from_dict (li_now io) (to_dict ((move_task (li_now io) state t0)\<lparr>tk_failure := or_keep failure (tk_failure t0)\<rparr>)) = Inr c
      \<and> leaves io (disk, load False (li_now io) disk s) (dset tid c (lg_tasks (load False (li_now io) disk s))) s'"
proof -
  let ?l = "load False (li_now io) disk s"
  obtain tid state failure t0 where p: "parse_state (PStr st) = Inr state" "map_of (lg_tasks ?l) tid = Some t0"
    and q: "(let (r, s') = store_task io tid ((move_task (li_now io) state t0)\<lparr>tk_failure := or_keep failure (tk_failure t0)\<rparr>) (disk, ?l)
             in (rbind r (\<lambda>x. Inr (Some x)), s')) = (Inr (Some c), s')"
    using r by (auto simp: transition_task_def transact_run [OF h] Let_def split: sum.splits option.splits)
  let ?t = "(move_task (li_now io) state t0)\<lparr>tk_failure := or_keep failure (tk_failure t0)\<rparr>"
  have id: "tk_id ?t = tid" "clean_id (PStr tid) True = Inr tid" "plain_task ?t"
    using table_ok_clean_id [OF t p(2)] move_task_plain by auto
  have "store_task io (tk_id ?t) ?t (disk, ?l) = (Inr c, s')"
    using q id by (auto simp: Let_def split: prod.splits)
  with store_task_effect [of io "(disk, ?l)" ?t] t id
  have "from_dict (li_now io) (to_dict ?t) = Inr c" "leaves io (disk, ?l) (dset tid c (lg_tasks ?l)) s'" "tk_id c = tid"
    by auto
  with p show ?thesis by blast
qed

text \<open>
  Transitions keep the task's history. Whatever worker runs \<open>transition\<close> and whatever it has cached, a
  transition that returns an outcome changed the task that the shared file holds under that id: the creation
  time is the old one, an owner confirmation once given stays, entering \<open>repairing\<close> adds exactly
  one repair attempt, the state is the requested one, \<open>resolved_at\<close> is the present time for a resolved state
  and 0 otherwise; the outcome is what the ledger now holds and every other task is untouched.\<close>

lemma transition_keeps_history:
  assumes "workers_reachable (now, used, disk, w)" and "now \<le> li_now io"
    and "transition_task io tid0 st cause (disk, w i) = (Inr (Some c), s')"
  shows "\<exists>t. map_of (lg_tasks (open_ledger (li_now io) disk)) (tk_id c) = Some t
    \<and> tk_created c = tk_created t \<and> tk_updated c = li_now io \<and> parse_state (PStr st) = Inr (tk_state c)
    \<and> tk_confirmed c = (tk_confirmed t \<or> tk_state c = User_confirmed)
    \<and> tk_repairs c = tk_repairs t + (if tk_state c = Repairing then 1 else 0)
    \<and> tk_resolved c = (if resolved (tk_state c) then li_now io else 0)
    \<and> map_of (lg_tasks (snd s')) = (map_of (lg_tasks (open_ledger (li_now io) disk)))(tk_id c \<mapsto> c)"
proof -
  obtain T where d: "disk_is now used disk T" and w: "worker_ok now used disk T (w i)"
    using workers_reachable_is [OF assms(1)] by blast
  have l: "load False (li_now io) disk (w i) = reader disk T" and o1: "open_ledger (li_now io) disk = reader disk T"
    using worker_load [OF d w assms(2)] open_is_load [OF d assms(2)] by auto
  have h: "\<not> lg_error (reader disk T)" "lg_tasks (reader disk T) = T" using reader_healthy [OF d] by auto
  have t: "table_ok (li_now io) T" using d table_ok_later [OF _ assms(2)] by (auto simp: disk_is_def)
  obtain state failure t0 where p: "parse_state (PStr st) = Inr state" "map_of T (tk_id c) = Some t0"
    and f: "from_dict (li_now io) (to_dict ((move_task (li_now io) state t0)\<lparr>tk_failure := or_keep failure (tk_failure t0)\<rparr>)) = Inr c"
    and lv: "leaves io (disk, reader disk T) (dset (tk_id c) c T) s'"
    using transition_stored [OF _ _ assms(3)] l h t by auto
  have "lg_tasks (snd s') = dset (tk_id c) c T" using lv by (simp add: leaves_def)
  with from_dict_fields [OF f] p o1 h show ?thesis
    by (auto simp: move_task_def resolved_time_def)
qed

definition demo_moved :: task_outcome where
  "demo_moved = demo_task\<lparr>tk_state := Repairing, tk_updated := 40, tk_repairs := 1\<rparr>"

definition demo_io2 :: ledger_io where
  "demo_io2 = demo_io\<lparr>li_now := 40, li_sig := 8\<rparr>"

definition demo_ledger :: ledger where
  "demo_ledger = \<lparr>lg_tasks = [(''t1'', demo_task)], lg_error = False, lg_sig = Some 7, lg_had = True\<rparr>"

lemma demo_workers_reachable:
  "workers_reachable (20, {7}, Some (file_of_table 7 [(''t1'', demo_task)]), (\<lambda>_. no_ledger)(0 := demo_ledger))"
proof -
  have "open_ledger 5 None = no_ledger" by (simp add: open_ledger_def load_def no_ledger_def)
  then have r: "workers_reachable (5, {}, None, \<lambda>_. no_ledger)" using workers_init [of 5] by simp
  have run: "ledger_run demo_io (Record demo_args) (None, (\<lambda>_. no_ledger) (0::nat))
     = (Inr (Task demo_task), Some (file_of_table 7 [(''t1'', demo_task)]), demo_ledger)"
    using demo_record_run by (simp add: demo_ledger_def)
  have "workers_step (5, {}, None, \<lambda>_. no_ledger)
     (li_now demo_io, insert (li_sig demo_io) {}, Some (file_of_table 7 [(''t1'', demo_task)]), (\<lambda>_. no_ledger)(0 := demo_ledger))"
    by (rule work [OF _ _ _ run]) (simp_all add: demo_io_def demo_args_def)
  from workers_more [OF r this] show ?thesis by (simp add: demo_io_def)
qed

lemma demo_transition:
  "transition_task demo_io2 (PStr ''t1'') ''repairing'' (PStr []) (Some (file_of_table 7 [(''t1'', demo_task)]), demo_ledger)
     = (Inr (Some demo_moved), Some (file_of_table 8 [(''t1'', demo_moved)]),
        demo_ledger\<lparr>lg_tasks := [(''t1'', demo_moved)], lg_sig := Some 8\<rparr>)"
proof -
  have c: "clean_id (PStr ''t1'') True = Inr ''t1''" "clean_id (PStr []) False = Inr []"
    "clean_prompt_text (PStr []) = Inr []" "parse_state (PStr ''repairing'') = Inr Repairing"
    "normalize_metadata (PDict []) = Inr []"
    by code_simp+
  have n: "(move_task 40 Repairing demo_task)\<lparr>tk_failure := or_keep [] (tk_failure demo_task)\<rparr> = demo_moved"
    by (simp add: move_task_def demo_task_def demo_moved_def resolved_time_def resolved_def or_keep_def)
  have "outcome_ok 40 demo_moved"
    using c by (simp add: outcome_ok_def demo_task_def demo_moved_def resolved_def)
  then have f: "from_dict 40 (to_dict demo_moved) = Inr demo_moved" "written_line (PDict (to_dict demo_moved)) = Json (PDict (to_dict demo_moved))"
    by (simp_all add: from_dict_to_dict written_to_dict plain_task_def) (simp add: written_to_dict plain_task_def demo_moved_def demo_task_def)
  show ?thesis
    using c n f
    by (simp add: demo_io_def demo_io2_def demo_ledger_def transition_task_def transact_def load_def store_task_def
        persist_tasks_def guard_def dvals_def max_tasks_def file_of_table_def clone_task_def)
qed

lemma transition_keeps_history_witness:
  "\<exists>t. map_of (lg_tasks (open_ledger 40 (Some (file_of_table 7 [(''t1'', demo_task)])))) ''t1'' = Some t
    \<and> tk_created demo_moved = tk_created t \<and> tk_repairs demo_moved = tk_repairs t + 1"
proof -
  have f: "li_now demo_io2 = 40" "tk_id demo_moved = ''t1''" "tk_state demo_moved = Repairing"
    by (simp_all add: demo_io2_def demo_moved_def demo_task_def)
  show ?thesis
    using transition_keeps_history [OF demo_workers_reachable, of demo_io2 "PStr ''t1''" "''repairing''" "PStr []" 0 demo_moved] demo_transition
    unfolding f by auto
qed

text \<open>
  U+0085 locks the ledger. Whenever a table with a task whose metadata holds the character U+0085 is written, every ledger that
  opens the file afterwards, the writer's after a restart included, is in error and answers every read with it.
\<close>

lemma bad_line_fails: "Bad_line \<in> set ls \<Longrightarrow> \<exists>e. parse_lines now n ls acc = Inl e"
proof (induction now n ls acc rule: parse_lines.induct)
  case (2 now n l ls acc)
  show ?case
  proof (cases l)
    case (Json v)
    show ?thesis
    proof (cases "max_tasks < Suc n")
      case False
      show ?thesis
      proof (cases "\<exists>d t. v = PDict d \<and> from_dict now d = Inr t")
        case True
        then obtain d t where d: "v = PDict d" "from_dict now d = Inr t" by blast
        from 2(3) [OF Json False Json d] 2(4) Json d False show ?thesis by auto
      next
        case no: False
        then show ?thesis using Json False by (cases v) (auto split: sum.splits)
      qed
    qed (use Json in simp)
  qed (use 2 in auto)
qed simp

lemma canonical_lines:
  "canonical io ts = Inr vs \<Longrightarrow> t \<in> set ts \<Longrightarrow> \<exists>c. from_dict (li_now io) (to_dict t) = Inr c \<and> PDict (to_dict c) \<in> set vs"
  by (induction ts arbitrary: vs) auto

lemma line_separator_locks_ledger:
  assumes "persist_tasks io tasks s = (Inr u, disk', l)" "(k, t) \<in> set tasks" "\<not> plain_task t"
  shows "lg_error (open_ledger later disk') \<and> (\<exists>e. fst (all_tasks io' (disk', open_ledger later disk')) = Inl e)"
proof -
  obtain vs where vs: "canonical io (dvals tasks) = Inr vs"
    and disk: "disk' = Some \<lparr>ld_sig = li_sig io, ld_lines = Some (map written_line vs)\<rparr>"
    using assms(1) by (auto simp: persist_tasks_def Let_def rbind_def split: sum.splits write_outcome.splits)
  have "t \<in> set (dvals tasks)" using assms(2) by (force simp: dvals_def)
  then obtain c where c: "from_dict (li_now io) (to_dict t) = Inr c" "PDict (to_dict c) \<in> set vs" using canonical_lines [OF vs] by blast
  have "normalize_metadata (PDict (tk_metadata t)) = Inr (tk_metadata c)" using c(1) by (auto simp: from_dict_def Let_def)
  then have "tk_metadata c = tk_metadata t"
    using norm_same(1) by (fastforce simp: normalize_metadata_def split: sum.splits)
  then have "has_break (PDict (to_dict c))" using assms(3) by (simp add: plain_task_def to_dict_def)
  then have "Bad_line \<in> set (map written_line vs)" using c(2) by (force simp: written_line_def)
  then have bad: "\<exists>e. parse_lines now 0 (map written_line vs) [] = Inl e" for now by (rule bad_line_fails)
  have o1: "open_ledger later disk' = \<lparr>lg_tasks = [], lg_error = True, lg_sig = Some (li_sig io), lg_had = False\<rparr>"
    using bad [of later] by (auto simp: open_ledger_def load_def disk)
  have "lg_error (load False (li_now io') disk' (open_ledger later disk'))" using bad [of "li_now io'"]
    unfolding o1 by (auto simp: load_def disk)
  then show ?thesis by (simp add: all_tasks_def transact_def Let_def) (simp add: o1)
qed

text \<open>A stale task whose metadata is full has no room for the \<open>expiry_reason\<close> that \<open>expire_stale\<close>
  adds, so no task of the ledger expires.\<close>

lemma full_metadata_rejected:
  assumes "length m = 64" "k \<notin> fst ` set m"
  shows "\<exists>e. normalize_metadata (PDict (dset k v m)) = Inl e"
  using assms by (simp add: normalize_metadata_def norm_meta.simps length_dset max_metadata_nodes_def)

lemma full_metadata_blocks_expiry:
  assumes "(k, t) \<in> set d" "active (tk_state t)" "age < now - tk_created t"
    and "length (tk_metadata t) = 64" "''expiry_reason'' \<notin> fst ` set (tk_metadata t)"
  shows "\<exists>e. expire_tasks now age d = Inl e"
  using assms(1)
proof (induction d)
  case (Cons p d)
  obtain e where m: "normalize_metadata (PDict (tk_metadata (expired_task now t))) = Inl e"
    using full_metadata_rejected [OF assms(4,5)] by (auto simp: expired_task_def)
  have "\<exists>e. from_dict now (to_dict (expired_task now t)) = Inl e"
  proof (cases "from_dict now (to_dict (expired_task now t))")
    case (Inr c)
    then show ?thesis using m by (simp add: from_dict_def Let_def)
  qed auto
  with Cons assms(2,3) show ?case by (cases p) (auto simp: rbind_def split: sum.splits)
qed simp

end
