(* ===== verification/Payment_Token.thy ===== *)
theory Payment_Token
  imports PyDict "HOL-Library.Char_ord"
begin

text \<open>
  \<open>norax/commerce/payment_gate.py\<close>, first half: sessions and their credits, signed session tokens, and the
  check of an on-chain payment. The keyed digest of a payload (HMAC-SHA256 under the signing secret, in
  hexadecimal) is the argument \<open>sign\<close>; what the node of the chain answers is the argument \<open>chain\<close>.
\<close>

section \<open>Text\<close>

definition is_hex :: "char \<Rightarrow> bool" where
  "is_hex c = (let n = (of_char c :: nat) in is_digit c \<or> (65 \<le> n \<and> n \<le> 70) \<or> (97 \<le> n \<and> n \<le> 102))"

definition is_lower_hex :: "char \<Rightarrow> bool" where
  "is_lower_hex c = (let n = (of_char c :: nat) in is_digit c \<or> (97 \<le> n \<and> n \<le> 102))"

definition hex_word :: "nat \<Rightarrow> string \<Rightarrow> bool" where
  "hex_word n s \<longleftrightarrow> take 2 s = ''0x'' \<and> length s = n + 2 \<and> list_all is_hex (drop 2 s)"

abbreviation evm_address :: "string \<Rightarrow> bool" where
  "evm_address \<equiv> hex_word 40"

abbreviation tx_hash_ok :: "string \<Rightarrow> bool" where
  "tx_hash_ok \<equiv> hex_word 64"

text \<open>\<open>str(n)\<close> and \<open>int(s)\<close> of decimal digits.\<close>

fun dec :: "nat \<Rightarrow> string" where
  "dec n = (if n < 10 then [char_of (48 + n)] else dec (n div 10) @ [char_of (48 + n mod 10)])"

declare dec.simps [simp del]

definition undec :: "string \<Rightarrow> nat" where
  "undec s = foldl (\<lambda>n c. 10 * n + (of_char c - 48)) 0 s"

text \<open>\<open>raw.isascii() and raw.isdecimal()\<close>.\<close>

definition is_decimal :: "string \<Rightarrow> bool" where
  "is_decimal s \<longleftrightarrow> s \<noteq> [] \<and> list_all is_digit s"

text \<open>\<open>s.rsplit(":", 1)\<close> with two parts.\<close>

definition rsplit1 :: "char \<Rightarrow> string \<Rightarrow> (string \<times> string) option" where
  "rsplit1 c s = (if c \<in> set s
     then Some (rev (tl (dropWhile (\<lambda>x. x \<noteq> c) (rev s))), rev (takeWhile (\<lambda>x. x \<noteq> c) (rev s)))
     else None)"

section \<open>Sessions\<close>

definition service_prices :: "(string \<times> int) list" where
  "service_prices = [(''code_review'', 500000), (''research'', 250000), (''agent_task'', 1000000),
     (''debug'', 750000), (''summarize'', 150000)]"

definition max_usdc :: int where
  "max_usdc = 1000000000000000"

definition session_ttl :: int where
  "session_ttl = 3600 * 24"

definition known_service :: "string \<Rightarrow> bool" where
  "known_service s \<longleftrightarrow> map_of service_prices s \<noteq> None"

record session =
  se_token :: string
  se_service :: string
  se_credits :: int
  se_created :: real
  se_expires :: real
  se_tx :: string
  se_sender :: string

definition expired :: "real \<Rightarrow> session \<Rightarrow> bool" where
  "expired now s \<longleftrightarrow> now > se_expires s"

definition has_credits :: "real \<Rightarrow> session \<Rightarrow> bool" where
  "has_credits now s \<longleftrightarrow> se_credits s > 0 \<and> \<not> expired now s"

definition session_consume :: "real \<Rightarrow> pyval \<Rightarrow> session \<Rightarrow> bool \<times> session" where
  "session_consume now amount s =
     (case plain_int amount of
        None \<Rightarrow> (False, s)
      | Some a \<Rightarrow>
          if a \<le> 0 then (False, s)
          else if \<not> has_credits now s then (False, s)
          else if se_credits s < a then (False, s)
          else (True, s\<lparr>se_credits := se_credits s - a\<rparr>))"

section \<open>Tokens\<close>

definition token_payload :: "string \<Rightarrow> string \<Rightarrow> nat \<Rightarrow> nat \<Rightarrow> string \<Rightarrow> string" where
  "token_payload sender service credits expires tx =
     join_words '':'' [sender, service, dec credits, dec expires, tx]"

definition make_token :: "(string \<Rightarrow> string) \<Rightarrow> real \<Rightarrow> string \<Rightarrow> string \<Rightarrow> pyval \<Rightarrow> string \<Rightarrow> pyval \<Rightarrow> string res" where
  "make_token sign now sender service credits tx expires =
     (if \<not> evm_address sender then Inl (ValueError ''sender must be a valid EVM address'')
      else if \<not> known_service service then Inl (ValueError ''service is not recognized'')
      else case plain_int credits of
        None \<Rightarrow> Inl (ValueError ''credits are outside the supported range'')
      | Some c \<Rightarrow>
          if \<not> (0 < c \<and> c \<le> max_usdc) then Inl (ValueError ''credits are outside the supported range'')
          else if \<not> tx_hash_ok tx then Inl (ValueError ''tx_hash must be a valid transaction hash'')
          else
            rbind (if expires = PNone then Inr (\<lfloor>now\<rfloor> + session_ttl)
                   else case plain_int expires of
                     None \<Rightarrow> Inl (ValueError ''expires must be a positive integer timestamp'')
                   | Some e \<Rightarrow> if e \<le> 0 then Inl (ValueError ''expires must be a positive integer timestamp'') else Inr e)
              (\<lambda>e. let payload = token_payload sender service (nat c) (nat e) tx in
                   Inr (''nx_'' @ payload @ '':'' @ sign payload)))"

definition max_token_chars :: nat where
  "max_token_chars = 512"

definition verify_token :: "(string \<Rightarrow> string) \<Rightarrow> bool \<Rightarrow> real \<Rightarrow> string \<Rightarrow> session option" where
  "verify_token sign allow_expired now token =
     (if \<not> (1 \<le> length token \<and> length token \<le> max_token_chars) \<or> take 3 token \<noteq> ''nx_'' then None
      else case rsplit1 (CHR '':'') (drop 3 token) of
        None \<Rightarrow> None
      | Some (payload, sig) \<Rightarrow>
          if \<not> (length sig = 64 \<and> list_all is_lower_hex sig) then None
          else if sig \<noteq> sign payload then None
          else case split_on (CHR '':'') [] payload of
            [sender, service, raw_credits, raw_expires, tx] \<Rightarrow>
              if \<not> is_decimal raw_credits \<or> \<not> is_decimal raw_expires then None
              else let credits = int (undec raw_credits); expires = int (undec raw_expires) in
                if \<not> known_service service \<or> \<not> (0 < credits \<and> credits \<le> max_usdc) \<or> \<not> evm_address sender
                   \<or> \<not> tx_hash_ok tx \<or> expires \<le> 0 \<or> (\<not> allow_expired \<and> now > of_int expires)
                then None
                else Some \<lparr>se_token = token, se_service = service, se_credits = credits, se_created = now,
                           se_expires = of_int expires, se_tx = tx, se_sender = sender\<rparr>
          | _ \<Rightarrow> None)"

section \<open>On-chain payments\<close>

record transaction =
  tr_to :: string \<comment> \<open>empty for \<open>None\<close>\<close>
  tr_from :: string
  tr_value :: int
  tr_input :: string

record receipt =
  rc_status :: int
  rc_block :: int

text \<open>What the node answers; \<open>None\<close> when a call raises.\<close>

record chain =
  ch_connected :: "bool option"
  ch_id :: "int option"
  ch_transaction :: "transaction option option"
  ch_receipt :: "receipt option option"
  ch_block :: "int option"

record payment =
  pv_valid :: bool
  pv_amount :: int
  pv_service :: "string option"
  pv_tx :: string
  pv_block :: int
  pv_sender :: string

definition invalid_payment :: "int \<Rightarrow> payment" where
  "invalid_payment amount = \<lparr>pv_valid = False, pv_amount = amount, pv_service = None, pv_tx = [], pv_block = 0, pv_sender = []\<rparr>"

definition usdc_contract :: string where
  "usdc_contract = ''0x833589fCD6eDb6E08f4c7C32D4f71b54bdA02913''"

definition hex_nibble :: "char \<Rightarrow> nat option" where
  "hex_nibble c = (let n = (of_char c :: nat) in
     if is_digit c then Some (n - 48)
     else if 97 \<le> n \<and> n \<le> 102 then Some (n - 87)
     else if 65 \<le> n \<and> n \<le> 70 then Some (n - 55) else None)"

text \<open>
  \<open>int(s, 16)\<close>: white space around, a sign, the prefix \<open>0x\<close> and single underscores between the digits
  are accepted. The separators \<open>0x1c\<close> to \<open>0x1f\<close>, which \<open>str.strip\<close> removes, are not.
\<close>

definition int_space :: "char \<Rightarrow> bool" where
  "int_space c = (let n = (of_char c :: nat) in (9 \<le> n \<and> n \<le> 13) \<or> n \<in> {32, 133, 160})"

fun hex_value :: "int \<Rightarrow> string \<Rightarrow> int option" where
  "hex_value acc [] = Some acc"
| "hex_value acc (c # s) =
     (case hex_nibble c of
        Some d \<Rightarrow> hex_value (16 * acc + int d) s
      | None \<Rightarrow>
          if c = CHR ''_'' then
            (case s of d # s' \<Rightarrow> (case hex_nibble d of Some n \<Rightarrow> hex_value (16 * acc + int n) s' | None \<Rightarrow> None)
             | [] \<Rightarrow> None)
          else None)"

definition hex_unsigned :: "string \<Rightarrow> int option" where
  "hex_unsigned s =
     (let t = (if take 2 s \<in> {''0x'', ''0X''} then (if take 1 (drop 2 s) = ''_'' then drop 3 s else drop 2 s) else s)
      in case t of c # t' \<Rightarrow> if hex_nibble c = None then None else hex_value 0 t | [] \<Rightarrow> None)"

definition hex_int :: "string \<Rightarrow> int option" where
  "hex_int s =
     (let t = rev (dropWhile int_space (rev (dropWhile int_space s))) in
      case t of
        [] \<Rightarrow> None
      | c # t' \<Rightarrow> if c = CHR ''-'' then map_option uminus (hex_unsigned t')
                 else if c = CHR ''+'' then hex_unsigned t' else hex_unsigned t)"

definition settle_payment :: "string \<Rightarrow> string \<Rightarrow> int \<Rightarrow> transaction \<Rightarrow> int \<Rightarrow> payment" where
  "settle_payment txh service block t amount =
     (if amount \<ge> the (map_of service_prices service)
      then \<lparr>pv_valid = True, pv_amount = amount, pv_service = Some service, pv_tx = txh, pv_block = block, pv_sender = tr_from t\<rparr>
      else invalid_payment amount)"

text \<open>\<open>transfer(recipient, amount)\<close> of the token contract.\<close>

definition call_data :: "transaction \<Rightarrow> string" where
  "call_data t = (if take 2 (tr_input t) = ''0x'' then tr_input t else ''0x'' @ tr_input t)"

definition usdc_payment :: "string \<Rightarrow> string \<Rightarrow> string \<Rightarrow> int \<Rightarrow> transaction \<Rightarrow> payment" where
  "usdc_payment wallet txh service block t =
     (let input = call_data t in
      if take 10 input \<noteq> ''0xa9059cbb'' then invalid_payment 0
      else if length input < 138 then invalid_payment 0
      else case hex_int (take 64 (drop 74 input)) of
        None \<Rightarrow> invalid_payment 0
      | Some amount \<Rightarrow>
          if py_lower (''0x'' @ take 40 (drop 34 input)) \<noteq> py_lower wallet then invalid_payment 0
          else settle_payment txh service block t amount)"

text \<open>\<open>eth_usdc\<close> is the operator's conversion of an amount of wei, absent when no rate is configured.\<close>

definition verify_payment :: "string \<Rightarrow> (int \<Rightarrow> int) option \<Rightarrow> chain \<Rightarrow> string \<Rightarrow> string \<Rightarrow> payment" where
  "verify_payment wallet eth_usdc chain raw_tx service =
     (let txh = py_strip raw_tx in
      if \<not> known_service service then invalid_payment 0
      else if \<not> evm_address wallet then invalid_payment 0
      else if \<not> tx_hash_ok txh then invalid_payment 0
      else if ch_connected chain \<noteq> Some True then invalid_payment 0
      else if ch_id chain \<noteq> Some 8453 then invalid_payment 0
      else case ch_transaction chain of
        Some (Some t) \<Rightarrow>
          (case ch_receipt chain of
             Some (Some r) \<Rightarrow>
               if rc_status r \<noteq> 1 then invalid_payment 0
               else (case ch_block chain of
                   None \<Rightarrow> invalid_payment 0
                 | Some current \<Rightarrow>
                     if rc_block r \<le> 0 \<or> current - rc_block r < 3 then invalid_payment 0
                     else if py_lower (tr_to t) = py_lower wallet then
                       (case eth_usdc of
                          None \<Rightarrow> invalid_payment 0
                        | Some f \<Rightarrow> settle_payment txh service (rc_block r) t (f (tr_value t)))
                     else if py_lower (tr_to t) = py_lower usdc_contract then usdc_payment wallet txh service (rc_block r) t
                     else invalid_payment 0)
           | _ \<Rightarrow> invalid_payment 0)
      | _ \<Rightarrow> invalid_payment 0)"


section \<open>Decimal and token text\<close>

lemma digit_char: "d < 10 \<Longrightarrow> (of_char (char_of (48 + d :: nat)) :: nat) = 48 + d"
  by (simp add: of_char_of)

lemma undec_snoc: "undec (s @ [c]) = 10 * undec s + (of_char c - 48)"
  by (simp add: undec_def)

lemma undec_dec [simp]: "undec (dec n) = n"
proof (induction n rule: dec.induct)
  case (1 n)
  show ?case
  proof (cases "n < 10")
    case True
    then show ?thesis by (simp add: dec.simps [of n] undec_def digit_char)
  next
    case False
    with 1 show ?thesis by (simp add: dec.simps [of n] undec_snoc digit_char)
  qed
qed

lemma is_digit_char: "d < 10 \<Longrightarrow> is_digit (char_of (48 + d :: nat))"
  by (simp add: is_digit_def digit_char Let_def)

lemma is_decimal_dec [simp]: "is_decimal (dec n)"
proof (induction n rule: dec.induct)
  case (1 n)
  show ?case
  proof (cases "n < 10")
    case True
    then show ?thesis by (simp add: dec.simps [of n] is_decimal_def is_digit_char)
  next
    case False
    with 1 show ?thesis by (simp add: dec.simps [of n] is_decimal_def is_digit_char)
  qed
qed

lemma length_dec: "n < 10 ^ k \<Longrightarrow> 0 < k \<Longrightarrow> length (dec n) \<le> k"
proof (induction n arbitrary: k rule: dec.induct)
  case (1 n)
  show ?case
  proof (cases "n < 10")
    case True
    then show ?thesis using 1(3) by (simp add: dec.simps [of n])
  next
    case False
    then obtain j where k: "k = Suc j" "0 < j" using 1(2) by (cases k; cases "k - 1") auto
    have "n div 10 < 10 ^ j" using 1(2) k by (simp add: less_mult_imp_div_less mult.commute)
    with 1(1) [OF False _ k(2)] False k show ?thesis by (simp add: dec.simps [of n])
  qed
qed

definition colon_free :: "string \<Rightarrow> bool" where
  "colon_free s \<longleftrightarrow> CHR '':'' \<notin> set s"

lemma not_colon: "is_digit c \<Longrightarrow> c \<noteq> CHR '':''" "is_hex c \<Longrightarrow> c \<noteq> CHR '':''" "is_lower_hex c \<Longrightarrow> c \<noteq> CHR '':''"
  by (auto simp: is_digit_def is_hex_def is_lower_hex_def Let_def)

lemma colon_free_decimal: "is_decimal s \<Longrightarrow> colon_free s"
  using not_colon(1) by (fastforce simp: is_decimal_def colon_free_def list_all_iff)

lemma colon_free_hex_word:
  assumes "hex_word n s"
  shows "colon_free s"
proof -
  have "s = ''0x'' @ drop 2 s" using assms append_take_drop_id [of 2 s] by (simp add: hex_word_def)
  then have "set s = {CHR ''0'', CHR ''x''} \<union> set (drop 2 s)" by (drule_tac f = set in arg_cong) simp
  moreover have "CHR '':'' \<notin> set (drop 2 s)" using assms not_colon(2) by (auto simp: hex_word_def list_all_iff)
  ultimately show ?thesis unfolding colon_free_def by simp
qed

lemma known_service_cases: "known_service s \<Longrightarrow>
  s \<in> {''code_review'', ''research'', ''agent_task'', ''debug'', ''summarize''}"
  by (auto simp: known_service_def service_prices_def split: if_splits)

lemma colon_free_service: "known_service s \<Longrightarrow> colon_free s \<and> length s \<le> 11"
  by (drule known_service_cases) (auto simp: colon_free_def)

lemma split_on_append: "colon_free w \<Longrightarrow> split_on (CHR '':'') acc (w @ CHR '':'' # s) = (rev acc @ w) # split_on (CHR '':'') [] s"
  by (induction w arbitrary: acc) (auto simp: colon_free_def)

lemma split_on_word: "colon_free w \<Longrightarrow> split_on (CHR '':'') acc w = [rev acc @ w]"
  by (induction w arbitrary: acc) (auto simp: colon_free_def)

lemma split_payload:
  assumes "evm_address sender" "known_service service" "tx_hash_ok tx"
  shows "split_on (CHR '':'') [] (token_payload sender service c e tx) = [sender, service, dec c, dec e, tx]"
  using assms colon_free_hex_word colon_free_service colon_free_decimal [OF is_decimal_dec]
  by (simp add: token_payload_def split_on_append split_on_word)

lemma rsplit1_append:
  assumes "c \<notin> set b"
  shows "rsplit1 c (a @ c # b) = Some (a, b)"
proof -
  have "takeWhile (\<lambda>x. x \<noteq> c) (rev b @ c # rev a) = rev b" "dropWhile (\<lambda>x. x \<noteq> c) (rev b @ c # rev a) = c # rev a"
    using assms by (auto simp: takeWhile_append dropWhile_append)
  then show ?thesis by (simp add: rsplit1_def)
qed

lemma rsplit1_Some: "rsplit1 c s = Some (a, b) \<Longrightarrow> s = a @ c # b"
proof -
  assume r: "rsplit1 c s = Some (a, b)"
  then have c: "c \<in> set (rev s)" by (auto simp: rsplit1_def split: if_splits)
  then have "dropWhile (\<lambda>x. x \<noteq> c) (rev s) \<noteq> []" by (auto simp: dropWhile_eq_Nil_conv)
  then have "hd (dropWhile (\<lambda>x. x \<noteq> c) (rev s)) = c" using hd_dropWhile [of "\<lambda>x. x \<noteq> c" "rev s"] by blast
  then have "dropWhile (\<lambda>x. x \<noteq> c) (rev s) = c # tl (dropWhile (\<lambda>x. x \<noteq> c) (rev s))"
    using \<open>dropWhile _ _ \<noteq> []\<close> by (metis list.collapse)
  then have "rev s = takeWhile (\<lambda>x. x \<noteq> c) (rev s) @ c # tl (dropWhile (\<lambda>x. x \<noteq> c) (rev s))"
    by (metis takeWhile_dropWhile_id)
  then have "s = rev (takeWhile (\<lambda>x. x \<noteq> c) (rev s) @ c # tl (dropWhile (\<lambda>x. x \<noteq> c) (rev s)))"
    by (metis rev_rev_ident)
  then show ?thesis using r c by (simp add: rsplit1_def)
qed

lemma length_hex_word: "hex_word n s \<Longrightarrow> length s = n + 2"
  by (simp add: hex_word_def)

text \<open>The digest is 64 lower-case hexadecimal digits, as \<open>hexdigest\<close> of SHA-256 gives.\<close>

definition digests :: "(string \<Rightarrow> string) \<Rightarrow> bool" where
  "digests sign \<longleftrightarrow> (\<forall>p. length (sign p) = 64 \<and> list_all is_lower_hex (sign p))"

lemma payload_length:
  assumes "evm_address sender" "known_service service" "tx_hash_ok tx" "c < 10 ^ 16" "e < 10 ^ 100"
  shows "length (token_payload sender service c e tx) \<le> 300"
  using length_hex_word [OF assms(1)] length_hex_word [OF assms(3)] colon_free_service [OF assms(2)]
    length_dec [OF assms(4)] length_dec [OF assms(5)]
  by (simp add: token_payload_def)

lemma verify_payload:
  assumes d: "digests sign" and f: "evm_address sender" "known_service service" "tx_hash_ok tx"
    and c: "0 < c" "int c \<le> max_usdc" and e: "0 < e" "e < 10 ^ 100"
  shows "verify_token sign allow_expired now (''nx_'' @ token_payload sender service c e tx @ '':'' @ sign (token_payload sender service c e tx))
    = (if \<not> allow_expired \<and> now > real e then None
       else Some \<lparr>se_token = ''nx_'' @ token_payload sender service c e tx @ '':'' @ sign (token_payload sender service c e tx),
              se_service = service, se_credits = int c, se_created = now, se_expires = real e, se_tx = tx, se_sender = sender\<rparr>)"
proof -
  let ?p = "token_payload sender service c e tx"
  have s: "length (sign ?p) = 64" "list_all is_lower_hex (sign ?p)" using d by (auto simp: digests_def)
  have nc: "CHR '':'' \<notin> set (sign ?p)" using s(2) not_colon(3) by (auto simp: list_all_iff)
  have "length ?p \<le> 300" using payload_length [OF f] c e by (simp add: max_usdc_def)
  then have len: "length (''nx_'' @ ?p @ '':'' @ sign ?p) \<le> max_token_chars" using s(1) by (simp add: max_token_chars_def)
  have r: "rsplit1 (CHR '':'') (?p @ '':'' @ sign ?p) = Some (?p, sign ?p)" using rsplit1_append [OF nc, of ?p] by simp
  show ?thesis
    unfolding verify_token_def using len r s f c e split_payload [OF f, of c e] by (simp add: Let_def)
qed

text \<open>What an accepted token is.\<close>

lemma verify_token_SomeD:
  assumes "verify_token sign allow_expired now token = Some s"
  shows "\<exists>payload. token = ''nx_'' @ payload @ '':'' @ sign payload \<and> se_token s = token \<and> se_created s = now
    \<and> known_service (se_service s) \<and> 0 < se_credits s \<and> se_credits s \<le> max_usdc
    \<and> evm_address (se_sender s) \<and> tx_hash_ok (se_tx s) \<and> length token \<le> max_token_chars
    \<and> (\<exists>e. 0 < e \<and> se_expires s = real e) \<and> (allow_expired \<or> now \<le> se_expires s)
    \<and> (\<exists>raw_c raw_e. split_on (CHR '':'') [] payload = [se_sender s, se_service s, raw_c, raw_e, se_tx s]
         \<and> se_credits s = int (undec raw_c) \<and> se_expires s = real (undec raw_e))"
proof -
  from assms obtain payload sig where r: "rsplit1 (CHR '':'') (drop 3 token) = Some (payload, sig)"
    and h: "sig = sign payload" and t: "take 3 token = ''nx_''" "length token \<le> max_token_chars"
    unfolding verify_token_def by (auto split: if_splits option.splits)
  then have body: "drop 3 token = payload @ CHR '':'' # sign payload" using rsplit1_Some by metis
  have tok: "token = ''nx_'' @ payload @ '':'' @ sign payload"
    using append_take_drop_id [of 3 token] unfolding t body by simp
  have "verify_token sign allow_expired now token = Some s \<Longrightarrow>
    se_token s = token \<and> se_created s = now
    \<and> known_service (se_service s) \<and> 0 < se_credits s \<and> se_credits s \<le> max_usdc
    \<and> evm_address (se_sender s) \<and> tx_hash_ok (se_tx s)
    \<and> (\<exists>e. 0 < e \<and> se_expires s = real e) \<and> (allow_expired \<or> now \<le> se_expires s)
    \<and> (\<exists>raw_c raw_e. split_on (CHR '':'') [] payload = [se_sender s, se_service s, raw_c, raw_e, se_tx s]
         \<and> se_credits s = int (undec raw_c) \<and> se_expires s = real (undec raw_e))"
    unfolding verify_token_def r using h by (auto simp: Let_def split: if_splits list.splits)
  with tok t assms show ?thesis by blast
qed


section \<open>Properties\<close>

lemma make_token_eq:
  assumes "make_token sign now sender service (PInt c) tx (PInt e) = Inr token"
  shows "evm_address sender \<and> known_service service \<and> tx_hash_ok tx \<and> 0 < c \<and> c \<le> max_usdc \<and> 0 < e
    \<and> token = ''nx_'' @ token_payload sender service (nat c) (nat e) tx @ '':'' @ sign (token_payload sender service (nat c) (nat e) tx)"
  using assms by (auto simp: make_token_def Let_def split: if_splits)

text \<open>
  A token carries exactly the session that was paid. A token made by \<open>_make_token\<close> for a sender, a service,
  an amount of credits, a transaction and an expiry (below ten to the hundredth power) passes \<open>_verify_token\<close> as a
  session with exactly these fields until its expiry, and as none after it.\<close>

lemma token_roundtrip:
  assumes "digests sign" and "make_token sign now sender service (PInt c) tx (PInt e) = Inr token" and "e < 10 ^ 100"
  shows "verify_token sign False later token =
    (if later > of_int e then None
     else Some \<lparr>se_token = token, se_service = service, se_credits = c, se_created = later,
            se_expires = of_int e, se_tx = tx, se_sender = sender\<rparr>)"
proof -
  note m = make_token_eq [OF assms(2)]
  have "nat e < 10 ^ 100" using assms(3) m by (simp add: nat_less_iff)
  then show ?thesis
    using verify_payload [OF assms(1), of sender service tx "nat c" "nat e" False later] m by simp
qed

definition demo_sign :: "string \<Rightarrow> string" where
  "demo_sign p = replicate 64 (CHR ''a'')"

definition demo_sender :: string where
  "demo_sender = ''0x'' @ replicate 40 (CHR ''1'')"

definition demo_tx :: string where
  "demo_tx = ''0x'' @ replicate 64 (CHR ''2'')"

lemma demo_words: "digests demo_sign" "evm_address demo_sender" "tx_hash_ok demo_tx" "known_service ''debug''"
  by (simp_all add: digests_def demo_sign_def demo_sender_def demo_tx_def hex_word_def list_all_iff is_lower_hex_def
      is_hex_def is_digit_def known_service_def service_prices_def)

definition demo_token :: string where
  "demo_token = ''nx_'' @ token_payload demo_sender ''debug'' 750000 90000 demo_tx @ '':'' @ replicate 64 (CHR ''a'')"

lemma demo_make: "make_token demo_sign 100 demo_sender ''debug'' (PInt 750000) demo_tx (PInt 90000) = Inr demo_token"
  using demo_words by (simp add: make_token_def max_usdc_def demo_token_def demo_sign_def Let_def)

lemma token_roundtrip_witness:
  "verify_token demo_sign False 200 demo_token = Some \<lparr>se_token = demo_token, se_service = ''debug'', se_credits = 750000,
     se_created = 200, se_expires = 90000, se_tx = demo_tx, se_sender = demo_sender\<rparr>
   \<and> verify_token demo_sign False 90001 demo_token = None"
  using token_roundtrip [OF demo_words(1) demo_make, of 200] token_roundtrip [OF demo_words(1) demo_make, of 90001] by simp

definition transfers :: "string \<Rightarrow> string \<Rightarrow> int \<Rightarrow> bool" where
  "transfers wallet input amount \<longleftrightarrow> take 10 input = ''0xa9059cbb'' \<and> 138 \<le> length input
     \<and> py_lower (''0x'' @ take 40 (drop 34 input)) = py_lower wallet
     \<and> hex_int (take 64 (drop 74 input)) = Some amount"

definition settled :: "string \<Rightarrow> (int \<Rightarrow> int) option \<Rightarrow> chain \<Rightarrow> string \<Rightarrow> transaction \<Rightarrow> receipt \<Rightarrow> int \<Rightarrow> bool" where
  "settled wallet eth_usdc chain txh t r amount \<longleftrightarrow>
     ch_connected chain = Some True \<and> ch_id chain = Some 8453
     \<and> ch_transaction chain = Some (Some t) \<and> ch_receipt chain = Some (Some r)
     \<and> rc_status r = 1 \<and> 0 < rc_block r \<and> (\<exists>current. ch_block chain = Some current \<and> rc_block r + 3 \<le> current)
     \<and> (if py_lower (tr_to t) = py_lower wallet then \<exists>f. eth_usdc = Some f \<and> amount = f (tr_value t)
        else py_lower (tr_to t) = py_lower usdc_contract
          \<and> transfers wallet (call_data t) amount)"

text \<open>
  C7 Only a settled payment is accepted. \<open>verify_payment\<close> reports a valid payment of an amount exactly when the
  wallet is configured, the hash and the service are well formed, the node is connected to Base, knows the transaction
  and its receipt with status 1 and at least three confirmations, the amount covers the service's price, and
  either the transaction went to the wallet while an ETH rate is configured and the amount is its conversion, or it is a
  \<open>transfer\<close> of the USDC contract to the wallet with that amount in its call data.\<close>

theorem payment_accepted_iff_settled:
  "pv_valid (verify_payment wallet eth_usdc chain raw_tx service) \<and> pv_amount (verify_payment wallet eth_usdc chain raw_tx service) = amount
   \<longleftrightarrow> known_service service \<and> evm_address wallet \<and> tx_hash_ok (py_strip raw_tx)
     \<and> (\<exists>t r. settled wallet eth_usdc chain (py_strip raw_tx) t r amount) \<and> the (map_of service_prices service) \<le> amount"
proof -
  have inv: "\<not> pv_valid (invalid_payment n)" for n by (simp add: invalid_payment_def)
  have st: "pv_valid (settle_payment x service b t n) \<and> pv_amount (settle_payment x service b t n) = amount
      \<longleftrightarrow> n = amount \<and> the (map_of service_prices service) \<le> n" for x b t n
    by (auto simp: settle_payment_def inv)
  have us: "pv_valid (usdc_payment wallet x service b t) \<and> pv_amount (usdc_payment wallet x service b t) = amount
      \<longleftrightarrow> transfers wallet (call_data t) amount \<and> the (map_of service_prices service) \<le> amount" for x b t
    unfolding usdc_payment_def transfers_def Let_def by (cases "hex_int (take 64 (drop 74 (call_data t)))") (auto simp: inv st)
  show ?thesis
    unfolding verify_payment_def settled_def Let_def by (auto simp: inv st us split: option.splits) metis
qed

end
