(* ===== verification/Payment_Store.thy ===== *)
theory Payment_Store
  imports Payment_Token Atomic
begin

text \<open>
  \<open>norax/commerce/payment_gate.py\<close>, second half: \<open>SessionStore\<close>, the durable books of paid sessions that several
  workers share. A worker's memory is a \<open>store\<close>, the file a \<open>sdisk\<close>; every operation runs under the file lock and
  reads the file again when its signature changed. The keyed digest, one clock reading per operation, the encoded size
  and the outcome of the atomic write are arguments. The file is its decoded JSON value, \<open>None\<close> when reading or
  decoding raises; the order of keys in the file cannot be observed and is kept.
\<close>

section \<open>The file\<close>

record store_file =
  sf_sig :: nat
  sf_data :: "pyval option"

type_synonym sdisk = "store_file option"

record store =
  st_sessions :: "(string, session) dict"
  st_redeemed :: "(string, string) dict"
  st_error :: bool
  st_sig :: "nat option"
  st_had :: bool

definition new_store :: store where
  "new_store = \<lparr>st_sessions = [], st_redeemed = [], st_error = False, st_sig = None, st_had = False\<rparr>"

record store_io =
  so_now :: real
  so_bytes :: "pyval \<Rightarrow> nat"
  so_write :: write_outcome
  so_sig :: nat

definition max_records :: nat where
  "max_records = 250000"

definition get_str :: "pyval \<Rightarrow> string \<Rightarrow> string option" where
  "get_str row k = (case row of PDict d \<Rightarrow> (case get_or d k (PStr []) of PStr s \<Rightarrow> Some s | _ \<Rightarrow> None) | _ \<Rightarrow> None)"

text \<open>The reading of legacy credits, \<open>int((Decimal(str(v)) * 1000000).to_integral_value())\<close>, is the argument
  \<open>legacy\<close>.\<close>

definition row_credits :: "(pyval \<Rightarrow> int option) \<Rightarrow> bool \<Rightarrow> pyval \<Rightarrow> int res" where
  "row_credits legacy v1 v =
     (case (if v1 then legacy v else plain_int v) of
        Some c \<Rightarrow> Inr c | None \<Rightarrow> Inl (ValueError ''invalid paid-session credits''))"

definition session_from_dict :: "(string \<Rightarrow> string) \<Rightarrow> (pyval \<Rightarrow> int option) \<Rightarrow> bool \<Rightarrow> real \<Rightarrow> string \<Rightarrow> pyval
    \<Rightarrow> (session \<times> session) res" where
  "session_from_dict sign legacy v1 now token row =
     (if length token > max_token_chars then Inl (ValueError ''invalid paid-session token'')
      else case verify_token sign True now token of
        None \<Rightarrow> Inl (ValueError ''paid-session token signature is invalid'')
      | Some g \<Rightarrow>
          rbind (row_credits legacy v1 (pget row ''credits_remaining'')) (\<lambda>credits.
          case (finite_number (pget row ''created_at''), finite_number (pget row ''expires_at'')) of
            (Some created, Some expires) \<Rightarrow>
              if created \<le> 0 \<or> expires \<noteq> of_int \<lfloor>expires\<rfloor> \<or> expires < created \<or> expires > created + of_int session_ttl + 1
              then Inl (ValueError ''invalid paid-session timestamps'')
              else
                (case (pget row ''service'', get_str row ''tx_hash'', get_str row ''sender'') of
                   (PStr service, Some tx, Some sender) \<Rightarrow>
                     if service \<noteq> se_service g \<or> py_lower tx \<noteq> py_lower (se_tx g) \<or> py_lower sender \<noteq> py_lower (se_sender g)
                        \<or> expires \<noteq> se_expires g \<or> \<not> (0 \<le> credits \<and> credits \<le> se_credits g)
                     then Inl (ValueError ''paid-session state does not match its signed token'')
                     else Inr (\<lparr>se_token = token, se_service = service, se_credits = credits, se_created = created,
                                se_expires = expires, se_tx = py_lower tx, se_sender = py_lower sender\<rparr>, g)
                 | _ \<Rightarrow> Inl (ValueError ''paid-session state does not match its signed token''))
          | _ \<Rightarrow> Inl (ValueError ''invalid paid-session timestamps'')))"

fun load_redeemed :: "(string \<Rightarrow> string) \<Rightarrow> real \<Rightarrow> (string \<times> pyval) list \<Rightarrow> (string, string) dict \<Rightarrow> (string, string) dict res" where
  "load_redeemed sign now [] acc = Inr acc"
| "load_redeemed sign now ((tx, v) # rows) acc =
     (case v of
        PStr token \<Rightarrow>
          if \<not> tx_hash_ok tx then Inl (ValueError ''invalid redeemed transaction record'')
          else (case verify_token sign True now token of
              None \<Rightarrow> Inl (ValueError ''redeemed transaction has an invalid signed token'')
            | Some g \<Rightarrow>
                if py_lower (se_tx g) \<noteq> py_lower tx then Inl (ValueError ''redeemed transaction does not match its signed token'')
                else load_redeemed sign now rows (dset (py_lower tx) token acc))
      | _ \<Rightarrow> Inl (ValueError ''invalid redeemed transaction record''))"

fun load_sessions :: "(string \<Rightarrow> string) \<Rightarrow> (pyval \<Rightarrow> int option) \<Rightarrow> bool \<Rightarrow> real \<Rightarrow> (string \<times> pyval) list
    \<Rightarrow> (string, session) dict \<Rightarrow> (string, string) dict \<Rightarrow> ((string, session) dict \<times> (string, string) dict) res" where
  "load_sessions sign legacy v1 now [] ss rs = Inr (ss, rs)"
| "load_sessions sign legacy v1 now ((token, row) # rows) ss rs =
     (if \<not> is_dict row then Inl (ValueError ''commerce session store contains a non-object session'')
      else rbind (session_from_dict sign legacy v1 now token row) (\<lambda>(s, g).
        let ss' = (if now \<le> se_expires s then dset token s ss else ss);
            tx = py_lower (se_tx g);
            rs' = dsetdefault tx token rs in
        if map_of rs' tx \<noteq> Some token then Inl (ValueError ''transaction is associated with conflicting session tokens'')
        else load_sessions sign legacy v1 now rows ss' rs'))"

definition store_version :: "pyval \<Rightarrow> int res" where
  "store_version v =
     (if v = PNone then Inr 1
      else case plain_int v of
        None \<Rightarrow> Inl (ValueError ''invalid commerce session store version'')
      | Some n \<Rightarrow> if n \<in> {1, 2} then Inr n else Inl (ValueError ''unsupported commerce session store version''))"

definition load_data :: "(string \<Rightarrow> string) \<Rightarrow> (pyval \<Rightarrow> int option) \<Rightarrow> real \<Rightarrow> pyval option
    \<Rightarrow> ((string, session) dict \<times> (string, string) dict) res" where
  "load_data sign legacy now data =
     (case data of
        Some (PDict d) \<Rightarrow>
          rbind (store_version (pget (PDict d) ''version'')) (\<lambda>n.
          case (if n = 2 then (get_or d ''sessions'' (PDict []), get_or d ''redeemed_tx_hashes'' (PDict [])) else (PDict d, PDict [])) of
            (PDict ss, PDict rs) \<Rightarrow>
              if max_records < length ss \<or> max_records < length rs
              then Inl (ValueError ''commerce session store exceeds its record limit'')
              else rbind (load_redeemed sign now rs []) (load_sessions sign legacy (n = 1) now ss [])
          | _ \<Rightarrow> Inl (ValueError ''invalid commerce session store''))
      | _ \<Rightarrow> Inl (ValueError ''commerce session store must be an object''))"


definition store_load :: "(string \<Rightarrow> string) \<Rightarrow> (pyval \<Rightarrow> int option) \<Rightarrow> bool \<Rightarrow> real \<Rightarrow> sdisk \<Rightarrow> store \<Rightarrow> store" where
  "store_load sign legacy force now disk s =
     (if \<not> force \<and> map_option sf_sig disk = st_sig s \<and> \<not> st_error s then s
      else case disk of
        None \<Rightarrow> if st_had s then s\<lparr>st_error := True\<rparr>
                else s\<lparr>st_sessions := [], st_redeemed := [], st_sig := None, st_error := False\<rparr>
      | Some f \<Rightarrow>
          (case load_data sign legacy now (sf_data f) of
             Inr (ss, rs) \<Rightarrow> s\<lparr>st_sessions := ss, st_redeemed := rs, st_sig := Some (sf_sig f), st_had := True, st_error := False\<rparr>
           | Inl _ \<Rightarrow> s\<lparr>st_sessions := [], st_redeemed := [], st_sig := Some (sf_sig f), st_error := True\<rparr>))"

definition session_row :: "session \<Rightarrow> pyval" where
  "session_row s = PDict
     [(''service'', PStr (se_service s)), (''credits_remaining'', PInt (se_credits s)),
      (''created_at'', PFloat (Fin (se_created s))), (''expires_at'', PFloat (Fin (se_expires s))),
      (''tx_hash'', PStr (se_tx s)), (''sender'', PStr (se_sender s))]"

definition live :: "real \<Rightarrow> (string, session) dict \<Rightarrow> (string, session) dict" where
  "live now ss = filter (\<lambda>p. \<not> expired now (snd p)) ss"

definition books_data :: "(string, session) dict \<Rightarrow> (string, string) dict \<Rightarrow> pyval" where
  "books_data ss rs = PDict
     [(''version'', PInt 2), (''sessions'', PDict (map (\<lambda>(k, s). (k, session_row s)) ss)),
      (''redeemed_tx_hashes'', PDict (map (\<lambda>(k, t). (k, PStr t)) rs))]"

definition persist_unlocked :: "store_io \<Rightarrow> sdisk \<times> store \<Rightarrow> bool \<times> (sdisk \<times> store)" where
  "persist_unlocked io p =
     (let s = snd p in
      if max_records < length (st_sessions s) \<or> max_records < length (st_redeemed s) then (False, p)
      else let data = books_data (live (so_now io) (st_sessions s)) (st_redeemed s);
               file = Some \<lparr>sf_sig = so_sig io, sf_data = Some data\<rparr> in
        if so_bytes io data > 128 * 1024 * 1024 then (False, p)
        else case so_write io of
          Not_written \<Rightarrow> (False, p)
        | Written_unconfirmed \<Rightarrow> (False, (file, s))
        | Written \<Rightarrow> (True, (file, s\<lparr>st_sig := Some (so_sig io), st_had := True\<rparr>)))"

section \<open>Operations\<close>

definition persist_error :: "'a res" where
  "persist_error = Inl (SessionPersistenceError ''session store'')"

text \<open>\<open>with self._transaction(): self._load(); self._require_healthy(); ...\<close>\<close>

definition with_store :: "(string \<Rightarrow> string) \<Rightarrow> (pyval \<Rightarrow> int option) \<Rightarrow> store_io \<Rightarrow> (sdisk \<times> store \<Rightarrow> 'a res \<times> (sdisk \<times> store))
    \<Rightarrow> sdisk \<times> store \<Rightarrow> 'a res \<times> (sdisk \<times> store)" where
  "with_store sign legacy io body p =
     (let s = store_load sign legacy False (so_now io) (fst p) (snd p) in
      if st_error s then (persist_error, (fst p, s)) else body (fst p, s))"

definition create_session :: "(string \<Rightarrow> string) \<Rightarrow> (pyval \<Rightarrow> int option) \<Rightarrow> store_io \<Rightarrow> string \<Rightarrow> string \<Rightarrow> pyval \<Rightarrow> string
    \<Rightarrow> sdisk \<times> store \<Rightarrow> session res \<times> (sdisk \<times> store)" where
  "create_session sign legacy io sender0 service credits tx0 p =
     (if \<not> known_service service then (Inl (ValueError ''unknown service''), p)
      else case plain_int credits of
        None \<Rightarrow> (Inl (ValueError ''credits must be a positive integer number of micro-units''), p)
      | Some c \<Rightarrow>
          if \<not> (0 < c \<and> c \<le> max_usdc) then (Inl (ValueError ''credits must be a positive integer number of micro-units''), p)
          else let sender = py_lower sender0; tx = py_lower tx0 in
            if \<not> evm_address sender then (Inl (ValueError ''sender must be a valid EVM address''), p)
            else if \<not> tx_hash_ok tx then (Inl (ValueError ''tx_hash must be a valid transaction hash''), p)
            else with_store sign legacy io (\<lambda>(disk, s).
              let now = so_now io;
                  fresh = (let expires = \<lfloor>now\<rfloor> + session_ttl in
                    case make_token sign now sender service credits tx (PInt expires) of
                      Inl e \<Rightarrow> (Inl e, (disk, s))
                    | Inr token \<Rightarrow>
                        let sess = \<lparr>se_token = token, se_service = service, se_credits = c, se_created = now,
                              se_expires = of_int expires, se_tx = tx, se_sender = sender\<rparr>;
                            s1 = s\<lparr>st_sessions := dset token sess (st_sessions s), st_redeemed := dset tx token (st_redeemed s)\<rparr>;
                            (ok, (disk', s2)) = persist_unlocked io (disk, s1) in
                        if ok then (Inr sess, (disk', s2))
                        else (persist_error, (disk', s2\<lparr>st_sessions := ddel token (st_sessions s2),
                               st_redeemed := (if map_of (st_redeemed s2) tx = Some token then ddel tx (st_redeemed s2) else st_redeemed s2)\<rparr>)))
              in case map_of (st_redeemed s) tx of
                   None \<Rightarrow> fresh
                 | Some token \<Rightarrow>
                     if token = [] then fresh
                     else (case map_of (st_sessions s) token of
                         Some existing \<Rightarrow>
                           if \<not> expired now existing \<and> py_lower (se_sender existing) = sender \<and> se_service existing = service
                           then (Inr existing, (disk, s)) else (Inl PaymentAlreadyRedeemedError, (disk, s))
                       | None \<Rightarrow> (Inl PaymentAlreadyRedeemedError, (disk, s)))) p)"

text \<open>Dropping an expired session, the common branch of \<open>get\<close>, \<open>consume\<close> and \<open>refund\<close>.\<close>

definition drop_expired :: "store_io \<Rightarrow> string \<Rightarrow> 'a \<Rightarrow> sdisk \<times> store \<Rightarrow> 'a res \<times> (sdisk \<times> store)" where
  "drop_expired io token answer p =
     (let (ok, p') = persist_unlocked io (fst p, (snd p)\<lparr>st_sessions := ddel token (st_sessions (snd p))\<rparr>) in
      (if ok then Inr answer else persist_error, p'))"

definition get_session :: "(string \<Rightarrow> string) \<Rightarrow> (pyval \<Rightarrow> int option) \<Rightarrow> store_io \<Rightarrow> string \<Rightarrow> sdisk \<times> store
    \<Rightarrow> session option res \<times> (sdisk \<times> store)" where
  "get_session sign legacy io token p =
     (if max_token_chars < length token then (Inr None, p)
      else with_store sign legacy io (\<lambda>p.
        case map_of (st_sessions (snd p)) token of
          None \<Rightarrow> (Inr None, p)
        | Some sess \<Rightarrow> if expired (so_now io) sess then drop_expired io token None p else (Inr (Some sess), p)) p)"

text \<open>Writing a changed session; the old one returns to memory when the write fails.\<close>

definition put_session :: "store_io \<Rightarrow> string \<Rightarrow> session \<Rightarrow> session \<Rightarrow> sdisk \<times> store \<Rightarrow> bool res \<times> (sdisk \<times> store)" where
  "put_session io token before after p =
     (let (ok, (disk', s')) = persist_unlocked io (fst p, (snd p)\<lparr>st_sessions := dset token after (st_sessions (snd p))\<rparr>) in
      if ok then (Inr True, (disk', s'))
      else (persist_error, (disk', s'\<lparr>st_sessions := dset token before (st_sessions s')\<rparr>)))"

definition consume_credits :: "(string \<Rightarrow> string) \<Rightarrow> (pyval \<Rightarrow> int option) \<Rightarrow> store_io \<Rightarrow> string \<Rightarrow> pyval \<Rightarrow> sdisk \<times> store
    \<Rightarrow> bool res \<times> (sdisk \<times> store)" where
  "consume_credits sign legacy io token amount p =
     (if max_token_chars < length token then (Inr False, p)
      else with_store sign legacy io (\<lambda>p.
        case map_of (st_sessions (snd p)) token of
          None \<Rightarrow> (Inr False, p)
        | Some sess \<Rightarrow>
            if expired (so_now io) sess then drop_expired io token False p
            else (case session_consume (so_now io) amount sess of
                (False, _) \<Rightarrow> (Inr False, p)
              | (True, sess') \<Rightarrow> put_session io token sess sess' p)) p)"

definition refund_credits :: "(string \<Rightarrow> string) \<Rightarrow> (pyval \<Rightarrow> int option) \<Rightarrow> store_io \<Rightarrow> string \<Rightarrow> pyval \<Rightarrow> sdisk \<times> store
    \<Rightarrow> bool res \<times> (sdisk \<times> store)" where
  "refund_credits sign legacy io token amount p =
     (case plain_int amount of
        None \<Rightarrow> (Inr False, p)
      | Some a \<Rightarrow>
          if max_token_chars < length token \<or> a \<le> 0 then (Inr False, p)
          else with_store sign legacy io (\<lambda>p.
            case map_of (st_sessions (snd p)) token of
              None \<Rightarrow> (Inr False, p)
            | Some sess \<Rightarrow>
                if expired (so_now io) sess then drop_expired io token False p
                else (case verify_token sign False (so_now io) token of
                    None \<Rightarrow> (Inr False, p)
                  | Some g \<Rightarrow>
                      if se_credits sess + a > se_credits g then (Inr False, p)
                      else put_session io token sess (sess\<lparr>se_credits := se_credits sess + a\<rparr>) p)) p)"

definition active_count :: "(string \<Rightarrow> string) \<Rightarrow> (pyval \<Rightarrow> int option) \<Rightarrow> store_io \<Rightarrow> sdisk \<times> store \<Rightarrow> nat res \<times> (sdisk \<times> store)" where
  "active_count sign legacy io =
     with_store sign legacy io (\<lambda>p. (Inr (length (live (so_now io) (st_sessions (snd p)))), p))"

definition persist_store :: "(string \<Rightarrow> string) \<Rightarrow> (pyval \<Rightarrow> int option) \<Rightarrow> store_io \<Rightarrow> sdisk \<times> store \<Rightarrow> bool res \<times> (sdisk \<times> store)" where
  "persist_store sign legacy io =
     with_store sign legacy io (\<lambda>p. let (ok, p') = persist_unlocked io p in (Inr ok, p'))"

definition open_store :: "(string \<Rightarrow> string) \<Rightarrow> (pyval \<Rightarrow> int option) \<Rightarrow> real \<Rightarrow> sdisk \<Rightarrow> store" where
  "open_store sign legacy now disk = store_load sign legacy True now disk new_store"


section \<open>Several workers\<close>

datatype pay_call = Create string string pyval string | Get string | Consume string pyval | Refund string pyval | Active | Persist

datatype answer = A_session "session option" | A_bool bool | A_count nat

definition answer_of :: "('a \<Rightarrow> answer) \<Rightarrow> 'a res \<times> (sdisk \<times> store) \<Rightarrow> answer res \<times> (sdisk \<times> store)" where
  "answer_of f q = (rbind (fst q) (\<lambda>a. Inr (f a)), snd q)"

fun run_call :: "(string \<Rightarrow> string) \<Rightarrow> (pyval \<Rightarrow> int option) \<Rightarrow> store_io \<Rightarrow> pay_call \<Rightarrow> sdisk \<times> store \<Rightarrow> answer res \<times> (sdisk \<times> store)" where
  "run_call sign legacy io (Create sender service credits tx) p =
     answer_of (\<lambda>s. A_session (Some s)) (create_session sign legacy io sender service credits tx p)"
| "run_call sign legacy io (Get token) p = answer_of A_session (get_session sign legacy io token p)"
| "run_call sign legacy io (Consume token amount) p = answer_of A_bool (consume_credits sign legacy io token amount p)"
| "run_call sign legacy io (Refund token amount) p = answer_of A_bool (refund_credits sign legacy io token amount p)"
| "run_call sign legacy io Active p = answer_of A_count (active_count sign legacy io p)"
| "run_call sign legacy io Persist p = answer_of A_bool (persist_store sign legacy io p)"

text \<open>An observer's account of every token: what was served and given back by calls that returned true, and the
  amounts of calls that raised, whose effect the caller cannot know; and the tokens that \<open>create\<close> handed out.\<close>

record account =
  ac_spent :: "string \<Rightarrow> int"
  ac_refunded :: "string \<Rightarrow> int"
  ac_unknown :: "string \<Rightarrow> int"
  ac_granted :: "(string \<times> string) list"

definition no_account :: account where
  "no_account = \<lparr>ac_spent = (\<lambda>_. 0), ac_refunded = (\<lambda>_. 0), ac_unknown = (\<lambda>_. 0), ac_granted = []\<rparr>"

definition add_at :: "string \<Rightarrow> int \<Rightarrow> (string \<Rightarrow> int) \<Rightarrow> string \<Rightarrow> int" where
  "add_at k n f = f(k := f k + n)"

definition note_unknown :: "string \<Rightarrow> pyval \<Rightarrow> account \<Rightarrow> account" where
  "note_unknown token amount a =
     (case plain_int amount of Some n \<Rightarrow> a\<lparr>ac_unknown := add_at token (max 0 n) (ac_unknown a)\<rparr> | None \<Rightarrow> a)"

definition the_int :: "pyval \<Rightarrow> int" where
  "the_int v = (case plain_int v of Some n \<Rightarrow> n | None \<Rightarrow> 0)"

fun observe_call :: "pay_call \<Rightarrow> answer res \<Rightarrow> account \<Rightarrow> account" where
  "observe_call (Consume token amount) (Inr (A_bool True)) a = a\<lparr>ac_spent := add_at token (the_int amount) (ac_spent a)\<rparr>"
| "observe_call (Consume token amount) (Inl e) a = note_unknown token amount a"
| "observe_call (Refund token amount) (Inr (A_bool True)) a = a\<lparr>ac_refunded := add_at token (the_int amount) (ac_refunded a)\<rparr>"
| "observe_call (Refund token amount) (Inl e) a = note_unknown token amount a"
| "observe_call (Create sender service credits tx) (Inr (A_session (Some s))) a =
     a\<lparr>ac_granted := (se_tx s, se_token s) # ac_granted a\<rparr>"
| "observe_call c r a = a"

type_synonym gate = "real \<times> nat set \<times> sdisk \<times> (nat \<Rightarrow> store) \<times> account"

definition clock_ok :: "real \<Rightarrow> bool" where
  "clock_ok t \<longleftrightarrow> 0 < t \<and> t < 10 ^ 90"

text \<open>
  Two assumptions on the environment are premises of the steps. The clock of the workers, which is shared, never
  goes back (\<open>now \<le> so_now io\<close>). And every write gives the file a signature no earlier one had
  (\<open>so_sig io \<notin> used\<close>): \<open>_file_signature\<close> reads the inode, the size and the times in nanoseconds of
  a file that \<open>os.replace\<close> has just put there. Were one to recur, a worker would keep a stale cache.
\<close>

inductive pay_step :: "(string \<Rightarrow> string) \<Rightarrow> (pyval \<Rightarrow> int option) \<Rightarrow> gate \<Rightarrow> gate \<Rightarrow> bool" for sign legacy where
  serve: "now \<le> so_now io \<Longrightarrow> clock_ok (so_now io) \<Longrightarrow> so_sig io \<notin> used \<Longrightarrow>
     run_call sign legacy io c (disk, w i) = (r, disk', s') \<Longrightarrow>
     pay_step sign legacy (now, used, disk, w, a) (so_now io, insert (so_sig io) used, disk', w(i := s'), observe_call c r a)"
| restart: "now \<le> now' \<Longrightarrow>
     pay_step sign legacy (now, used, disk, w, a) (now', used, disk, w(i := open_store sign legacy now' disk), a)"

inductive pay_reachable :: "(string \<Rightarrow> string) \<Rightarrow> (pyval \<Rightarrow> int option) \<Rightarrow> gate \<Rightarrow> bool" for sign legacy where
  pay_init: "pay_reachable sign legacy (now, {}, None, \<lambda>_. new_store, no_account)"
| pay_more: "pay_reachable sign legacy g \<Longrightarrow> pay_step sign legacy g g' \<Longrightarrow> pay_reachable sign legacy g'"

section \<open>Books that the file can hold\<close>

definition signed_of :: "(string \<Rightarrow> string) \<Rightarrow> string \<Rightarrow> session option" where
  "signed_of sign token = verify_token sign True 0 token"

lemma verify_signed: "verify_token sign True now token = map_option (\<lambda>g. g\<lparr>se_created := now\<rparr>) (signed_of sign token)"
  by (auto simp: verify_token_def signed_of_def Let_def split: option.split list.split)

lemma signed_of_SomeD:
  assumes "signed_of sign token = Some g"
  shows "length token \<le> max_token_chars \<and> 0 < se_credits g \<and> (\<exists>e. se_expires g = real e) \<and> token \<noteq> []"
  using verify_token_SomeD [OF assms [unfolded signed_of_def]] by auto

lemma lower_char_idem [simp]: "lower_char (lower_char c) = lower_char c"
  by (auto simp: lower_char_def Let_def of_char_of)

lemma py_lower_idem [simp]: "py_lower (py_lower s) = py_lower s"
  by (simp add: py_lower_def)

definition sess_ok :: "(string \<Rightarrow> string) \<Rightarrow> (string, string) dict \<Rightarrow> string \<Rightarrow> session \<Rightarrow> bool" where
  "sess_ok sign rs token s \<longleftrightarrow> (\<exists>g. signed_of sign token = Some g \<and> se_token s = token \<and> se_service s = se_service g
     \<and> se_tx s = py_lower (se_tx g) \<and> se_sender s = py_lower (se_sender g) \<and> se_expires s = se_expires g
     \<and> 0 \<le> se_credits s \<and> se_credits s \<le> se_credits g
     \<and> 0 < se_created s \<and> se_created s \<le> se_expires s \<and> se_expires s \<le> se_created s + of_int session_ttl + 1
     \<and> map_of rs (se_tx s) = Some token)"

definition red_ok :: "(string \<Rightarrow> string) \<Rightarrow> string \<Rightarrow> string \<Rightarrow> bool" where
  "red_ok sign tx token \<longleftrightarrow> tx_hash_ok tx \<and> py_lower tx = tx
     \<and> (\<exists>g. signed_of sign token = Some g \<and> py_lower (se_tx g) = tx)"

definition books :: "(string \<Rightarrow> string) \<Rightarrow> (string, session) dict \<Rightarrow> (string, string) dict \<Rightarrow> bool" where
  "books sign ss rs \<longleftrightarrow> dict_ok ss \<and> dict_ok rs \<and> length ss \<le> max_records \<and> length rs \<le> max_records
     \<and> (\<forall>(k, s) \<in> set ss. sess_ok sign rs k s) \<and> (\<forall>(tx, k) \<in> set rs. red_ok sign tx k)"

lemma load_redeemed_books:
  "(\<forall>(tx, k) \<in> set rs. red_ok sign tx k) \<Longrightarrow> dict_ok (acc @ rs) \<Longrightarrow>
   load_redeemed sign now (map (\<lambda>(k, t). (k, PStr t)) rs) acc = Inr (acc @ rs)"
proof (induction rs arbitrary: acc)
  case (Cons p rs)
  obtain tx k where p: "p = (tx, k)" by (cases p)
  have "tx \<notin> fst ` set acc" using Cons.prems(2) p by (auto simp: dict_ok_def)
  then have "dset tx k acc = acc @ [(tx, k)]" by (rule dset_absent)
  then show ?case using Cons p by (auto simp: red_ok_def verify_signed)
qed simp

lemma session_from_row:
  assumes "sess_ok sign rs token s"
  shows "\<exists>g. session_from_dict sign legacy False now token (session_row s) = Inr (s, g) \<and> py_lower (se_tx g) = se_tx s"
proof -
  obtain g where g: "signed_of sign token = Some g" "se_token s = token" "se_service s = se_service g"
    "se_tx s = py_lower (se_tx g)" "se_sender s = py_lower (se_sender g)" "se_expires s = se_expires g"
    "0 \<le> se_credits s" "se_credits s \<le> se_credits g" "0 < se_created s" "se_created s \<le> se_expires s"
    "se_expires s \<le> se_created s + of_int session_ttl + 1"
    using assms by (auto simp: sess_ok_def)
  obtain e where e: "se_expires g = real e" "length token \<le> max_token_chars" using signed_of_SomeD [OF g(1)] by blast
  have "session_from_dict sign legacy False now token (session_row s) = Inr (s, g\<lparr>se_created := now\<rparr>)"
    using g e by (cases s) (simp add: session_from_dict_def verify_signed session_row_def row_credits_def get_str_def get_or_def)
  then show ?thesis using g(4) by auto
qed

lemma load_sessions_books:
  "(\<forall>(k, s) \<in> set ss. sess_ok sign rs k s) \<Longrightarrow> dict_ok (acc @ ss) \<Longrightarrow>
   load_sessions sign legacy False now (map (\<lambda>(k, s). (k, session_row s)) ss) acc rs = Inr (acc @ live now ss, rs)"
proof (induction ss arbitrary: acc)
  case (Cons p ss)
  obtain k s where p: "p = (k, s)" by (cases p)
  then have s: "sess_ok sign rs k s" using Cons.prems(1) by simp
  obtain g where g: "session_from_dict sign legacy False now k (session_row s) = Inr (s, g)" "py_lower (se_tx g) = se_tx s"
    using session_from_row [OF s] by blast
  have "map_of rs (se_tx s) = Some k" using s by (auto simp: sess_ok_def)
  then have r: "dsetdefault (se_tx s) k rs = rs" "map_of rs (se_tx s) = Some k" by (simp_all add: dsetdefault_def)
  have "k \<notin> fst ` set acc" using Cons.prems(2) p by (auto simp: dict_ok_def)
  then have a: "dset k s acc = acc @ [(k, s)]" by (rule dset_absent)
  have "dict_ok (acc @ ss)" "dict_ok ((acc @ [(k, s)]) @ ss)" using Cons.prems(2) p by (auto simp: dict_ok_def)
  with Cons.IH [of acc] Cons.IH [of "acc @ [(k, s)]"] Cons.prems(1) p g r a show ?case
    by (auto simp: session_row_def live_def expired_def not_less)
qed (simp add: live_def)

lemma load_books:
  assumes "books sign ss rs"
  shows "load_data sign legacy now (Some (books_data ss rs)) = Inr (live now ss, rs)"
  using assms load_redeemed_books [of rs sign "[]" now] load_sessions_books [of ss sign rs "[]" legacy now]
  by (simp add: books_def load_data_def books_data_def store_version_def get_or_def)


section \<open>Live sessions\<close>

lemma live_live [simp]: "now \<le> now' \<Longrightarrow> live now' (live now ss) = live now' ss"
  by (induction ss) (auto simp: live_def expired_def)

lemma live_Nil [simp]: "live now [] = []"
  by (simp add: live_def)

lemma dict_ok_live [simp]: "dict_ok ss \<Longrightarrow> dict_ok (live now ss)"
  by (simp add: live_def)

lemma set_live: "p \<in> set (live now ss) \<longleftrightarrow> p \<in> set ss \<and> \<not> expired now (snd p)"
  by (auto simp: live_def)

lemma length_live: "length (live now ss) \<le> length ss"
  by (simp add: live_def)

lemma map_of_live: "dict_ok ss \<Longrightarrow>
  map_of (live now ss) k = (case map_of ss k of None \<Rightarrow> None | Some s \<Rightarrow> if expired now s then None else Some s)"
  unfolding live_def by (subst map_of_filter) (auto split: option.split)

lemma live_ddel: "live now (ddel k ss) = ddel k (live now ss)"
  by (induction ss) (auto simp: live_def ddel_def)

lemma live_dset_new: "k \<notin> fst ` set ss \<Longrightarrow> \<not> expired now s \<Longrightarrow> live now (dset k s ss) = live now ss @ [(k, s)]"
  by (simp add: dset_absent live_def)

lemma live_dset: "\<not> expired now s \<Longrightarrow> map_of ss k = Some s0 \<Longrightarrow> \<not> expired now s0 \<Longrightarrow> live now (dset k s ss) = dset k s (live now ss)"
  by (induction ss) (auto simp: live_def)

lemma dset_twice: "dset k s0 (dset k s ss) = dset k s0 ss"
  by (induction ss) auto

lemma dset_same: "map_of ss k = Some s \<Longrightarrow> dict_ok ss \<Longrightarrow> dset k s ss = ss"
  by (induction ss) (auto simp: dict_ok_def)

lemma ddel_dset [simp]: "ddel k (dset k s ss) = ddel k ss"
  by (induction ss) (auto simp: ddel_def)

lemma ddel_expired: "dict_ok ss \<Longrightarrow> map_of ss k = Some s \<Longrightarrow> expired now s \<Longrightarrow> live now (ddel k ss) = live now ss"
proof -
  assume d: "dict_ok ss" "map_of ss k = Some s" "expired now s"
  then have "map_of (live now ss) k = None" by (simp add: map_of_live)
  then have "k \<notin> fst ` set (live now ss)" by (simp add: map_of_None_iff)
  then show ?thesis by (simp add: live_ddel)
qed

lemma ddel_new: "map_of ss k = None \<Longrightarrow> ddel k ss = ss"
  by (simp add: map_of_None_iff)

section \<open>What a worker knows\<close>

lemma books_tokens:
  assumes "books sign ss rs"
  shows "fst ` set ss \<subseteq> snd ` set rs"
proof
  fix k assume "k \<in> fst ` set ss"
  then obtain s where "(k, s) \<in> set ss" by auto
  then have "sess_ok sign rs k s" using assms by (auto simp: books_def)
  then have "(se_tx s, k) \<in> set rs" by (auto simp: sess_ok_def dest: map_of_SomeD)
  then show "k \<in> snd ` set rs" by force
qed

lemma fst_live: "fst ` set (live now ss) \<subseteq> fst ` set ss"
  by (auto simp: live_def)

definition mem_ok :: "real \<Rightarrow> (string, session) dict \<Rightarrow> (string, string) dict \<Rightarrow> store \<Rightarrow> bool" where
  "mem_ok now ss rs m \<longleftrightarrow> st_redeemed m = rs \<and> live now (st_sessions m) = live now ss
     \<and> dict_ok (st_sessions m) \<and> \<not> st_error m \<and> fst ` set (st_sessions m) \<subseteq> snd ` set rs"

text \<open>A worker that has just read the file \<open>disk\<close> of the books \<open>ss\<close>, \<open>rs\<close>.\<close>

definition view :: "real \<Rightarrow> sdisk \<Rightarrow> (string, session) dict \<Rightarrow> (string, string) dict \<Rightarrow> store \<Rightarrow> bool" where
  "view now disk ss rs m \<longleftrightarrow> mem_ok now ss rs m \<and> st_sig m = map_option sf_sig disk \<and> (disk = None \<longrightarrow> m = new_store)"

definition disk_books :: "(string \<Rightarrow> string) \<Rightarrow> nat set \<Rightarrow> sdisk \<Rightarrow> (string, session) dict \<Rightarrow> (string, string) dict \<Rightarrow> bool" where
  "disk_books sign used disk ss rs \<longleftrightarrow> books sign ss rs
     \<and> (case disk of None \<Rightarrow> ss = [] \<and> rs = [] | Some f \<Rightarrow> sf_data f = Some (books_data ss rs) \<and> sf_sig f \<in> used)"

definition store_ok :: "real \<Rightarrow> nat set \<Rightarrow> sdisk \<Rightarrow> (string, session) dict \<Rightarrow> (string, string) dict \<Rightarrow> store \<Rightarrow> bool" where
  "store_ok now used disk ss rs m \<longleftrightarrow> m = new_store
     \<or> (\<exists>sig. st_sig m = Some sig \<and> sig \<in> used \<and> \<not> st_error m \<and> disk \<noteq> None
          \<and> (map_option sf_sig disk = Some sig \<longrightarrow> mem_ok now ss rs m))"

lemma mem_ok_later: "mem_ok now ss rs m \<Longrightarrow> now \<le> now' \<Longrightarrow> mem_ok now' ss rs m"
  using live_live [of now now' "st_sessions m"] live_live [of now now' ss] by (simp add: mem_ok_def)

lemma store_ok_later: "store_ok now used disk ss rs m \<Longrightarrow> now \<le> now' \<Longrightarrow> used \<subseteq> used' \<Longrightarrow> store_ok now' used' disk ss rs m"
  using mem_ok_later by (auto simp: store_ok_def)

lemma disk_books_later: "disk_books sign used disk ss rs \<Longrightarrow> used \<subseteq> used' \<Longrightarrow> disk_books sign used' disk ss rs"
  by (auto simp: disk_books_def split: option.splits)

lemma load_view:
  assumes d: "disk_books sign used disk ss rs" and m: "store_ok now used disk ss rs m" and n: "now \<le> now'"
  shows "view now' disk ss rs (store_load sign legacy False now' disk m)"
proof (cases disk)
  case None
  then have "m = new_store" using m by (auto simp: store_ok_def)
  then show ?thesis using None d by (simp add: store_load_def new_store_def view_def mem_ok_def disk_books_def)
next
  case (Some f)
  have f: "sf_data f = Some (books_data ss rs)" "books sign ss rs" using d Some by (auto simp: disk_books_def)
  show ?thesis
  proof (cases "st_sig m = Some (sf_sig f) \<and> \<not> st_error m")
    case True
    then have "mem_ok now ss rs m" using m Some by (auto simp: store_ok_def new_store_def)
    then show ?thesis using True Some mem_ok_later [OF _ n] by (simp add: store_load_def view_def)
  next
    case False
    then have "store_load sign legacy False now' disk m
        = m\<lparr>st_sessions := live now' ss, st_redeemed := rs, st_sig := Some (sf_sig f), st_had := True, st_error := False\<rparr>"
      using Some f load_books [OF f(2)] by (auto simp: store_load_def)
    then show ?thesis using Some f(2) books_tokens [OF f(2)] fst_live [of now' ss] by (auto simp: view_def mem_ok_def books_def)
  qed
qed

lemma view_store_ok: "view now disk ss rs m \<Longrightarrow> disk_books sign used disk ss rs \<Longrightarrow> store_ok now used disk ss rs m"
  by (cases disk) (auto simp: view_def store_ok_def disk_books_def mem_ok_def)

lemma open_view: "disk_books sign used disk ss rs \<Longrightarrow> view now disk ss rs (open_store sign legacy now disk)"
proof -
  assume d: "disk_books sign used disk ss rs"
  have "open_store sign legacy now disk = store_load sign legacy False now disk new_store"
    by (cases disk) (simp_all add: open_store_def store_load_def new_store_def)
  then show ?thesis using load_view [OF d, of now new_store now] by (simp add: store_ok_def)
qed

section \<open>Writing\<close>

text \<open>The outcome of a write of new books by a worker whose memory was \<open>m\<close>.\<close>

definition wrote :: "store_io \<Rightarrow> (string, session) dict \<Rightarrow> (string, string) dict \<Rightarrow> bool \<Rightarrow> store \<Rightarrow> sdisk \<times> store \<Rightarrow> bool" where
  "wrote io ss rs ok m p \<longleftrightarrow> fst p = Some \<lparr>sf_sig = so_sig io, sf_data = Some (books_data ss rs)\<rparr>
     \<and> (ok \<longrightarrow> st_sig (snd p) = Some (so_sig io) \<and> mem_ok (so_now io) ss rs (snd p))
     \<and> (\<not> ok \<longrightarrow> st_sig (snd p) = st_sig m \<and> \<not> st_error (snd p) \<and> (m = new_store \<longrightarrow> snd p = new_store))"

lemma persist_cases:
  assumes "persist_unlocked io (disk, s) = (ok, disk', s')"
  shows "\<not> ok \<and> disk' = disk \<and> s' = s
    \<or> (length (st_sessions s) \<le> max_records \<and> length (st_redeemed s) \<le> max_records
       \<and> disk' = Some \<lparr>sf_sig = so_sig io, sf_data = Some (books_data (live (so_now io) (st_sessions s)) (st_redeemed s))\<rparr>
       \<and> (if ok then s' = s\<lparr>st_sig := Some (so_sig io), st_had := True\<rparr> else s' = s))"
  using assms by (auto simp: persist_unlocked_def Let_def split: if_splits write_outcome.splits)


lemma books_live: "books sign ss rs \<Longrightarrow> books sign (live now ss) rs"
  using length_live [of now ss] by (auto simp: books_def set_live)

lemma view_lookup:
  assumes "view now disk ss rs m" "books sign ss rs" "map_of (st_sessions m) k = Some s" "\<not> expired now s"
  shows "map_of (live now ss) k = Some s" "sess_ok sign rs k s"
proof -
  have "map_of (live now (st_sessions m)) k = Some s"
    using assms(1,3,4) map_of_live [of "st_sessions m" now k] by (simp add: view_def mem_ok_def)
  then show l: "map_of (live now ss) k = Some s" using assms(1) by (simp add: view_def mem_ok_def)
  then have "(k, s) \<in> set ss" using map_of_SomeD set_live by fast
  then show "sess_ok sign rs k s" using assms(2) by (auto simp: books_def)
qed

lemma drop_expired_cases:
  assumes v: "view (so_now io) disk ss rs m" and l: "map_of (st_sessions m) k = Some s" "expired (so_now io) s"
    and r: "drop_expired io k a (disk, m) = (r, disk', m')"
  shows "(r = persist_error \<and> disk' = disk \<and> view (so_now io) disk ss rs m')
    \<or> (\<exists>ok. wrote io (live (so_now io) ss) rs ok m (disk', m') \<and> r = (if ok then Inr a else persist_error))"
proof -
  let ?m = "m\<lparr>st_sessions := ddel k (st_sessions m)\<rparr>"
  obtain ok where p: "persist_unlocked io (disk, ?m) = (ok, disk', m')" and r': "r = (if ok then Inr a else persist_error)"
    using r by (auto simp: drop_expired_def Let_def split: prod.splits)
  have d: "dict_ok (st_sessions m)" "st_redeemed m = rs" "live (so_now io) (st_sessions m) = live (so_now io) ss"
    "fst ` set (ddel k (st_sessions m)) \<subseteq> snd ` set rs"
    using v by (auto simp: view_def mem_ok_def)
  have lv: "live (so_now io) (ddel k (st_sessions m)) = live (so_now io) ss" using ddel_expired [OF d(1) l] d(3) by simp
  have mk: "mem_ok (so_now io) ss rs ?m" "mem_ok (so_now io) (live (so_now io) ss) rs ?m"
    using v lv d by (simp_all add: view_def mem_ok_def)
  have ne: "m \<noteq> new_store" using l by (auto simp: new_store_def)
  then have "view (so_now io) disk ss rs ?m" using v mk by (auto simp: view_def)
  moreover have "st_sig ?m = st_sig m" "\<not> st_error ?m" using v by (auto simp: view_def mem_ok_def)
  ultimately show ?thesis
    using persist_cases [OF p] r' mk(2) lv d(2) ne by (auto simp: wrote_def mem_ok_def split: if_splits)
qed

lemma put_session_cases:
  assumes v: "view (so_now io) disk ss rs m" and l: "map_of (st_sessions m) k = Some before"
    and x: "\<not> expired (so_now io) before" "\<not> expired (so_now io) after"
    and r: "put_session io k before after (disk, m) = (r, disk', m')"
  shows "(r = persist_error \<and> disk' = disk \<and> m' = m)
    \<or> (\<exists>ok. wrote io (dset k after (live (so_now io) ss)) rs ok m (disk', m') \<and> r = (if ok then Inr True else persist_error))"
proof -
  let ?m = "m\<lparr>st_sessions := dset k after (st_sessions m)\<rparr>"
  obtain ok s2 where p: "persist_unlocked io (disk, ?m) = (ok, disk', s2)"
    and r': "r = (if ok then Inr True else persist_error)" "m' = (if ok then s2 else s2\<lparr>st_sessions := dset k before (st_sessions s2)\<rparr>)"
    using r by (auto simp: put_session_def Let_def split: prod.splits if_splits)
  have d: "dict_ok (st_sessions m)" "st_redeemed m = rs" "live (so_now io) (st_sessions m) = live (so_now io) ss"
    "fst ` set (st_sessions m) \<subseteq> snd ` set rs" "\<not> st_error m"
    using v by (auto simp: view_def mem_ok_def)
  have lv: "live (so_now io) (dset k after (st_sessions m)) = dset k after (live (so_now io) ss)"
    using live_dset [OF x(2) l x(1)] d(3) by simp
  then have idem: "live (so_now io) (dset k after (live (so_now io) ss)) = dset k after (live (so_now io) ss)"
    by (metis live_live order_refl)
  have restore: "?m\<lparr>st_sessions := dset k before (dset k after (st_sessions m))\<rparr> = m"
    using dset_twice dset_same [OF l d(1)] by (cases m) (simp add: dset_twice)
  have mk: "mem_ok (so_now io) (dset k after (live (so_now io) ss)) rs ?m"
    using lv idem d map_of_in_dom [OF l] by (auto simp: mem_ok_def)
  have ne: "m \<noteq> new_store" using l by (auto simp: new_store_def)
  show ?thesis
  proof (cases ok)
    case True
    with persist_cases [OF p] r' mk lv d show ?thesis by (auto simp: wrote_def mem_ok_def)
  next
    case False
    with persist_cases [OF p] have s2: "s2 = ?m" by auto
    then have "m' = m" using False r'(2) restore by simp
    with False persist_cases [OF p] r' lv d ne show ?thesis by (auto simp: wrote_def)
  qed
qed


section \<open>A new session\<close>

lemma new_token:
  assumes "digests sign" "clock_ok now"
    and "make_token sign now sender service (PInt c) tx (PInt (\<lfloor>now\<rfloor> + session_ttl)) = Inr token"
  shows "\<exists>g. signed_of sign token = Some g \<and> se_service g = service \<and> se_credits g = c
    \<and> se_expires g = of_int (\<lfloor>now\<rfloor> + session_ttl) \<and> se_tx g = tx \<and> se_sender g = sender \<and> se_token g = token"
proof -
  note m = make_token_eq [OF assms(3)]
  have "\<lfloor>now\<rfloor> < 10 ^ 90" using assms(2) by (simp add: clock_ok_def floor_less_iff)
  then have "\<lfloor>now\<rfloor> + session_ttl < 10 ^ 100" by (simp add: session_ttl_def)
  then have "nat (\<lfloor>now\<rfloor> + session_ttl) < 10 ^ 100" using m by (simp add: nat_less_iff)
  then show ?thesis
    using verify_payload [OF assms(1), of sender service tx "nat c" "nat (\<lfloor>now\<rfloor> + session_ttl)" True 0] m
    by (simp add: signed_of_def)
qed

lemma new_token_unused:
  assumes "books sign ss rs" "signed_of sign token = Some g" "py_lower (se_tx g) = tx" "map_of rs tx = None"
  shows "token \<notin> snd ` set rs"
proof
  assume "token \<in> snd ` set rs"
  then obtain tx' where "(tx', token) \<in> set rs" by force
  then have "red_ok sign tx' token" using assms(1) by (auto simp: books_def)
  then have "tx' = tx" using assms(2,3) by (auto simp: red_ok_def)
  with \<open>(tx', token) \<in> set rs\<close> assms(4) show False by (auto simp: map_of_None_iff image_iff)
qed

lemma fresh_session_books:
  assumes d: "digests sign" and c: "clock_ok now" and b: "books sign ss rs" and n: "map_of rs tx = None"
    and mt: "make_token sign now sender service (PInt cr) tx (PInt (\<lfloor>now\<rfloor> + session_ttl)) = Inr token"
    and low: "py_lower tx = tx" "py_lower sender = sender" and len: "length ss < max_records" "length rs < max_records"
    and s: "s = \<lparr>se_token = token, se_service = service, se_credits = cr, se_created = now,
       se_expires = of_int (\<lfloor>now\<rfloor> + session_ttl), se_tx = tx, se_sender = sender\<rparr>"
  shows "books sign (ss @ [(token, s)]) (rs @ [(tx, token)])"
proof -
  note m = make_token_eq [OF mt]
  obtain g where g: "signed_of sign token = Some g" "se_service g = service" "se_credits g = cr"
    "se_expires g = of_int (\<lfloor>now\<rfloor> + session_ttl)" "se_tx g = tx" "se_sender g = sender"
    using new_token [OF d c mt] by blast
  have un: "token \<notin> snd ` set rs" using new_token_unused [OF b g(1) _ n] g(5) low by simp
  have keys: "token \<notin> fst ` set ss" "tx \<notin> fst ` set rs" using un books_tokens [OF b] n by (auto simp: map_of_None_iff)
  have mo: "map_of (rs @ [(tx, token)]) = (map_of rs)(tx \<mapsto> token)" using keys(2) by (rule map_of_append_new)
  have fl: "now \<le> of_int (\<lfloor>now\<rfloor> + session_ttl)" "of_int (\<lfloor>now\<rfloor> + session_ttl) \<le> now + of_int session_ttl + 1"
    by (simp_all add: session_ttl_def) linarith+
  have pos: "0 < now" "0 < cr" "tx_hash_ok tx" using c m by (auto simp: clock_ok_def)
  have old: "sess_ok sign (rs @ [(tx, token)]) k x" if "(k, x) \<in> set ss" for k x
  proof -
    have so: "sess_ok sign rs k x" using b that by (auto simp: books_def)
    then have "map_of rs (se_tx x) = Some k" by (auto simp: sess_ok_def)
    then have "map_of (rs @ [(tx, token)]) (se_tx x) = Some k" using n mo by auto
    with so show ?thesis by (auto simp: sess_ok_def)
  qed
  have "sess_ok sign (rs @ [(tx, token)]) token s"
    unfolding sess_ok_def mo using g low pos fl s by (intro exI [of _ g]) simp
  moreover have "red_ok sign tx token" using g low pos by (simp add: red_ok_def)
  ultimately show ?thesis
    using b old len dict_ok_append_new [OF _ keys(1)] dict_ok_append_new [OF _ keys(2)] by (auto simp: books_def)
qed


section \<open>Calls\<close>

definition unchanged :: "store_io \<Rightarrow> sdisk \<Rightarrow> (string, session) dict \<Rightarrow> (string, string) dict \<Rightarrow> store \<Rightarrow> sdisk \<times> store \<Rightarrow> bool" where
  "unchanged io disk ss rs w p \<longleftrightarrow> fst p = disk \<and> (snd p = w \<or> view (so_now io) disk ss rs (snd p))"

definition changed :: "(string \<Rightarrow> string) \<Rightarrow> store_io \<Rightarrow> sdisk \<Rightarrow> (string, session) dict \<Rightarrow> (string, string) dict
    \<Rightarrow> (string, session) dict \<Rightarrow> (string, string) dict \<Rightarrow> bool \<Rightarrow> sdisk \<times> store \<Rightarrow> bool" where
  "changed sign io disk ss rs ss' rs' ok p \<longleftrightarrow>
     books sign ss' rs' \<and> (\<exists>m. view (so_now io) disk ss rs m \<and> wrote io ss' rs' ok m p)"

lemma with_store_view:
  assumes "view (so_now io) disk ss rs (store_load sign legacy False (so_now io) disk w)"
  shows "with_store sign legacy io body (disk, w) = body (disk, store_load sign legacy False (so_now io) disk w)"
  using assms by (simp add: with_store_def Let_def view_def mem_ok_def)

lemma create_cases:
  assumes d: "digests sign" and c: "clock_ok (so_now io)" and b: "books sign ss rs"
    and v: "view (so_now io) disk ss rs (store_load sign legacy False (so_now io) disk w)"
    and r: "create_session sign legacy io sender service credits tx (disk, w) = (r, p)"
  shows "(unchanged io disk ss rs w p \<and> (\<forall>s. r = Inr s \<longrightarrow> map_of rs (se_tx s) = Some (se_token s)))
    \<or> (\<exists>ok s g. changed sign io disk ss rs (live (so_now io) ss @ [(se_token s, s)]) (rs @ [(se_tx s, se_token s)]) ok p
         \<and> map_of rs (se_tx s) = None \<and> se_token s \<notin> snd ` set rs
         \<and> signed_of sign (se_token s) = Some g \<and> se_credits s = se_credits g
         \<and> r = (if ok then Inr s else persist_error))"
proof -
  let ?m = "store_load sign legacy False (so_now io) disk w" and ?now = "so_now io"
  let ?snd = "py_lower sender" and ?tx = "py_lower tx"
  have m: "st_redeemed ?m = rs" "live ?now (st_sessions ?m) = live ?now ss" "dict_ok (st_sessions ?m)" "\<not> st_error ?m"
    "fst ` set (st_sessions ?m) \<subseteq> snd ` set rs"
    using v by (auto simp: view_def mem_ok_def)
  have same: "unchanged io disk ss rs w (disk, w)" "unchanged io disk ss rs w (disk, ?m)"
    using v by (auto simp: unchanged_def)
  show ?thesis
  proof (cases "known_service service \<and> (\<exists>cr. plain_int credits = Some cr \<and> 0 < cr \<and> cr \<le> max_usdc) \<and> evm_address ?snd \<and> tx_hash_ok ?tx")
    case False
    then show ?thesis using r same(1) by (auto simp: create_session_def Let_def split: option.splits if_splits)
  next
    case True
    then obtain cr where cr: "credits = PInt cr" "0 < cr" "cr \<le> max_usdc" by (cases credits) auto
    show ?thesis
    proof (cases "map_of rs ?tx")
      case (Some token)
      then have "(?tx, token) \<in> set rs" by (rule map_of_SomeD)
      then have ne: "token \<noteq> []" using b signed_of_SomeD by (fastforce simp: books_def red_ok_def)
      have eq: "create_session sign legacy io sender service credits tx (disk, w) =
         (case map_of (st_sessions ?m) token of
            Some existing \<Rightarrow>
              if \<not> expired ?now existing \<and> py_lower (se_sender existing) = ?snd \<and> se_service existing = service
              then (Inr existing, (disk, ?m)) else (Inl PaymentAlreadyRedeemedError, (disk, ?m))
          | None \<Rightarrow> (Inl PaymentAlreadyRedeemedError, (disk, ?m)))"
        using True cr Some ne m(1) by (simp add: create_session_def with_store_view [OF v] Let_def)
      have "map_of rs (se_tx s) = Some (se_token s)" if "map_of (st_sessions ?m) token = Some s" "\<not> expired ?now s" for s
        using view_lookup(2) [OF v b that] by (auto simp: sess_ok_def)
      then show ?thesis using r same(2) unfolding eq by (auto split: option.splits if_splits)
    next
      case None
      have "0 \<le> \<lfloor>?now\<rfloor>" using c by (simp add: clock_ok_def)
      then have fl: "\<not> \<lfloor>?now\<rfloor> + session_ttl \<le> 0" unfolding session_ttl_def by linarith
      have mt0: "\<exists>token. make_token sign ?now ?snd service (PInt cr) ?tx (PInt (\<lfloor>?now\<rfloor> + session_ttl)) = Inr token"
        using True cr fl by (auto simp: make_token_def Let_def)
      then obtain token where mt: "make_token sign ?now ?snd service (PInt cr) ?tx (PInt (\<lfloor>?now\<rfloor> + session_ttl)) = Inr token" ..
      define s where "s = \<lparr>se_token = token, se_service = service, se_credits = cr, se_created = ?now,
         se_expires = of_int (\<lfloor>?now\<rfloor> + session_ttl), se_tx = ?tx, se_sender = ?snd\<rparr>"
      let ?s1 = "?m\<lparr>st_sessions := dset token s (st_sessions ?m), st_redeemed := dset ?tx token (st_redeemed ?m)\<rparr>"
      obtain ok disk' s2 where p2: "persist_unlocked io (disk, ?s1) = (ok, disk', s2)" by (metis prod.collapse)
      have eq: "create_session sign legacy io sender service credits tx (disk, w) =
         (if ok then (Inr s, (disk', s2))
          else (persist_error, (disk', s2\<lparr>st_sessions := ddel token (st_sessions s2),
             st_redeemed := (if map_of (st_redeemed s2) ?tx = Some token then ddel ?tx (st_redeemed s2) else st_redeemed s2)\<rparr>)))"
        using True cr None m(1) mt p2
        by (simp add: create_session_def with_store_view [OF v] Let_def s_def)
      obtain g where g: "signed_of sign token = Some g" "se_credits g = cr" "se_tx g = ?tx" using new_token [OF d c mt] by blast
      have un: "token \<notin> snd ` set rs" using new_token_unused [OF b g(1) _ None] g(3) by simp
      have keys: "token \<notin> fst ` set (st_sessions ?m)" "?tx \<notin> fst ` set rs" "token \<notin> fst ` set ss"
        using un m(5) books_tokens [OF b] None by (auto simp: map_of_None_iff)
      have undo: "?s1\<lparr>st_sessions := ddel token (st_sessions ?s1), st_redeemed := (if map_of (st_redeemed ?s1) ?tx = Some token then ddel ?tx (st_redeemed ?s1) else st_redeemed ?s1)\<rparr> = ?m"
        using keys m(1) by (cases "?m") simp
      have alive: "\<not> expired ?now s" by (simp add: s_def expired_def session_ttl_def not_less) linarith
      have lv: "live ?now (st_sessions ?s1) = live ?now ss @ [(token, s)]" "st_redeemed ?s1 = rs @ [(?tx, token)]"
        using live_dset_new [OF keys(1) alive] m(1,2) dset_absent [OF keys(2)] by simp_all
      have undone: "s2 = ?s1 \<Longrightarrow> s2\<lparr>st_sessions := ddel token (st_sessions s2),
             st_redeemed := (if map_of (st_redeemed s2) ?tx = Some token then ddel ?tx (st_redeemed s2) else st_redeemed s2)\<rparr> = ?m"
        using undo by simp
      from persist_cases [OF p2] show ?thesis
      proof (elim disjE conjE)
        assume "\<not> ok" "disk' = disk" "s2 = ?s1"
        then have "r = persist_error" "p = (disk, ?m)" using r undone unfolding eq by auto
        then show ?thesis using same(2) by (auto simp: persist_error_def)
      next
        assume len: "length (st_sessions ?s1) \<le> max_records" "length (st_redeemed ?s1) \<le> max_records"
          and dk: "disk' = Some \<lparr>sf_sig = so_sig io, sf_data = Some (books_data (live ?now (st_sessions ?s1)) (st_redeemed ?s1))\<rparr>"
          and s2: "if ok then s2 = ?s1\<lparr>st_sig := Some (so_sig io), st_had := True\<rparr> else s2 = ?s1"
        have "length (live ?now ss) < max_records" "length rs < max_records"
          using len lv length_live [of ?now "st_sessions ?s1"] by auto
        then have bk: "books sign (live ?now ss @ [(token, s)]) (rs @ [(?tx, token)])"
          using fresh_session_books [OF d c books_live [OF b] None mt _ _ _ _ s_def] by simp
        have mk: "mem_ok ?now (live ?now ss @ [(token, s)]) (rs @ [(?tx, token)]) (?s1\<lparr>st_sig := Some (so_sig io), st_had := True\<rparr>)"
        proof -
          have "live ?now (live ?now ss @ [(token, s)]) = live ?now ss @ [(token, s)]"
            using alive by (simp add: live_def)
          then show ?thesis using lv m keys by (auto simp: mem_ok_def)
        qed
        have "wrote io (live ?now ss @ [(token, s)]) (rs @ [(?tx, token)]) ok ?m p"
          using r dk s2 mk undone lv m(4) unfolding eq by (cases ok) (auto simp: wrote_def)
        then have ch: "changed sign io disk ss rs (live ?now ss @ [(token, s)]) (rs @ [(?tx, token)]) ok p"
          using bk v by (auto simp: changed_def)
        have f: "se_token s = token" "se_tx s = ?tx" "se_credits s = cr" by (simp_all add: s_def)
        have "r = (if ok then Inr s else persist_error)" using r unfolding eq by auto
        then show ?thesis using ch None un g f by (intro disjI2 exI [of _ ok] exI [of _ s] exI [of _ g]) auto
      qed
    qed
  qed
qed


text \<open>The other calls either leave the books, drop what expired, or move the credits of one live session.\<close>

definition moves :: "(string \<Rightarrow> string) \<Rightarrow> store_io \<Rightarrow> sdisk \<Rightarrow> (string, session) dict \<Rightarrow> (string, string) dict \<Rightarrow> store
    \<Rightarrow> string \<Rightarrow> int \<Rightarrow> bool res \<Rightarrow> sdisk \<times> store \<Rightarrow> bool" where
  "moves sign io disk ss rs w k n r p \<longleftrightarrow> (\<exists>ok b g. map_of (live (so_now io) ss) k = Some b \<and> signed_of sign k = Some g
     \<and> 0 \<le> se_credits b + n \<and> se_credits b + n \<le> se_credits g
     \<and> changed sign io disk ss rs (dset k (b\<lparr>se_credits := se_credits b + n\<rparr>) (live (so_now io) ss)) rs ok p
     \<and> r = (if ok then Inr True else persist_error))"

definition harmless :: "(string \<Rightarrow> string) \<Rightarrow> store_io \<Rightarrow> sdisk \<Rightarrow> (string, session) dict \<Rightarrow> (string, string) dict \<Rightarrow> store
    \<Rightarrow> sdisk \<times> store \<Rightarrow> bool" where
  "harmless sign io disk ss rs w p \<longleftrightarrow> unchanged io disk ss rs w p
     \<or> (\<exists>ok. changed sign io disk ss rs (live (so_now io) ss) rs ok p)"

lemma drop_expired_harmless:
  assumes b: "books sign ss rs" and v: "view (so_now io) disk ss rs m"
    and l: "map_of (st_sessions m) k = Some s" "expired (so_now io) s" and r: "drop_expired io k a (disk, m) = (r, p)"
  shows "harmless sign io disk ss rs w p \<and> (r = persist_error \<or> r = Inr a)"
proof -
  obtain disk' m' where p: "p = (disk', m')" by (cases p)
  from drop_expired_cases [OF v l r [unfolded p]] books_live [OF b] v show ?thesis
    by (auto simp: p harmless_def unchanged_def changed_def)
qed

lemma put_session_moves:
  assumes b: "books sign ss rs" and v: "view (so_now io) disk ss rs m"
    and l: "map_of (st_sessions m) k = Some s" "\<not> expired (so_now io) s" and g: "signed_of sign k = Some g"
    and n: "0 \<le> se_credits s + n" "se_credits s + n \<le> se_credits g"
    and r: "put_session io k s (s\<lparr>se_credits := se_credits s + n\<rparr>) (disk, m) = (r, p)"
  shows "(r = persist_error \<and> unchanged io disk ss rs w p) \<or> moves sign io disk ss rs w k n r p"
proof -
  let ?s = "s\<lparr>se_credits := se_credits s + n\<rparr>"
  obtain disk' m' where p: "p = (disk', m')" by (cases p)
  have e: "\<not> expired (so_now io) ?s" using l(2) by (simp add: expired_def)
  have lk: "map_of (live (so_now io) ss) k = Some s" "sess_ok sign rs k s" using view_lookup [OF v b l] by auto
  have "k \<in> fst ` set (live (so_now io) ss)" using map_of_in_dom [OF lk(1)] .
  then have len: "length (dset k ?s (live (so_now io) ss)) \<le> max_records"
    using b length_live [of "so_now io" ss] by (simp add: length_dset books_def)
  have so: "sess_ok sign rs k ?s" using lk(2) g n by (auto simp: sess_ok_def)
  have "(\<forall>(x, y) \<in> set (dset k ?s (live (so_now io) ss)). sess_ok sign rs x y)"
    using set_dset_subset [of k ?s "live (so_now io) ss"] so b by (fastforce simp: books_def set_live)
  then have bk: "books sign (dset k ?s (live (so_now io) ss)) rs" using len b by (auto simp: books_def)
  from put_session_cases [OF v l(1) l(2) e r [unfolded p]] show ?thesis
  proof (elim disjE exE conjE)
    assume "r = persist_error" "disk' = disk" "m' = m"
    then show ?thesis using v by (simp add: p unchanged_def)
  next
    fix ok assume "wrote io (dset k ?s (live (so_now io) ss)) rs ok m (disk', m')" "r = (if ok then Inr True else persist_error)"
    then have "moves sign io disk ss rs w k n r p"
      unfolding moves_def changed_def p using lk(1) g n bk v by (intro exI [of _ ok] exI [of _ s] exI [of _ g]) auto
    then show ?thesis ..
  qed
qed

lemma get_cases:
  assumes b: "books sign ss rs" and v: "view (so_now io) disk ss rs (store_load sign legacy False (so_now io) disk w)"
    and r: "get_session sign legacy io k (disk, w) = (r, p)"
  shows "harmless sign io disk ss rs w p"
proof (cases "max_token_chars < length k")
  case True
  then show ?thesis using r by (auto simp: get_session_def harmless_def unchanged_def)
next
  case False
  let ?m = "store_load sign legacy False (so_now io) disk w"
  have eq: "get_session sign legacy io k (disk, w) = (case map_of (st_sessions ?m) k of
      None \<Rightarrow> (Inr None, (disk, ?m))
    | Some s \<Rightarrow> if expired (so_now io) s then drop_expired io k None (disk, ?m) else (Inr (Some s), (disk, ?m)))"
    using False by (simp add: get_session_def with_store_view [OF v])
  have same: "harmless sign io disk ss rs w (disk, ?m)" using v by (simp add: harmless_def unchanged_def)
  show ?thesis
  proof (cases "map_of (st_sessions ?m) k")
    case None
    then show ?thesis using r same unfolding eq by auto
  next
    case (Some s)
    show ?thesis
    proof (cases "expired (so_now io) s")
      case True
      then show ?thesis using r drop_expired_harmless [OF b v Some True, of None r p w] unfolding eq Some by simp
    next
      case False
      then show ?thesis using r same unfolding eq Some by auto
    qed
  qed
qed

lemma consume_cases:
  assumes b: "books sign ss rs" and v: "view (so_now io) disk ss rs (store_load sign legacy False (so_now io) disk w)"
    and r: "consume_credits sign legacy io k amount (disk, w) = (r, p)"
  shows "(harmless sign io disk ss rs w p \<and> r \<noteq> Inr True)
    \<or> (\<exists>n. plain_int amount = Some n \<and> 0 < n \<and> moves sign io disk ss rs w k (- n) r p)"
proof (cases "max_token_chars < length k")
  case True
  then show ?thesis using r by (auto simp: consume_credits_def harmless_def unchanged_def)
next
  case False
  let ?m = "store_load sign legacy False (so_now io) disk w"
  have eq: "consume_credits sign legacy io k amount (disk, w) = (case map_of (st_sessions ?m) k of
      None \<Rightarrow> (Inr False, (disk, ?m))
    | Some s \<Rightarrow> if expired (so_now io) s then drop_expired io k False (disk, ?m)
        else (case session_consume (so_now io) amount s of
                (False, _) \<Rightarrow> (Inr False, (disk, ?m))
              | (True, s') \<Rightarrow> put_session io k s s' (disk, ?m)))"
    using False by (simp add: consume_credits_def with_store_view [OF v])
  have same: "harmless sign io disk ss rs w (disk, ?m)" using v by (simp add: harmless_def unchanged_def)
  show ?thesis
  proof (cases "map_of (st_sessions ?m) k")
    case None
    then show ?thesis using r same unfolding eq by auto
  next
    case (Some s)
    show ?thesis
    proof (cases "expired (so_now io) s \<or> \<not> fst (session_consume (so_now io) amount s)")
      case True
      then show ?thesis
        using r same drop_expired_harmless [OF b v Some, of False r p w] unfolding eq Some
        by (auto simp: persist_error_def split: if_splits prod.splits)
    next
      case False
      then obtain n where n: "plain_int amount = Some n" "0 < n" "n \<le> se_credits s"
        and s': "session_consume (so_now io) amount s = (True, s\<lparr>se_credits := se_credits s + - n\<rparr>)"
        by (auto simp: session_consume_def split: option.splits if_splits)
      have so: "sess_ok sign rs k s" using view_lookup(2) [OF v b Some] False by blast
      then obtain g where g: "signed_of sign k = Some g" "se_credits s \<le> se_credits g" by (auto simp: sess_ok_def)
      have "put_session io k s (s\<lparr>se_credits := se_credits s + - n\<rparr>) (disk, ?m) = (r, p)"
        using r False unfolding eq Some by (simp add: s')
      from put_session_moves [OF b v Some _ g(1) _ _ this, of w] False n g(2) show ?thesis
        by (auto simp: harmless_def persist_error_def)
    qed
  qed
qed

lemma refund_cases:
  assumes b: "books sign ss rs" and v: "view (so_now io) disk ss rs (store_load sign legacy False (so_now io) disk w)"
    and r: "refund_credits sign legacy io k amount (disk, w) = (r, p)"
  shows "(harmless sign io disk ss rs w p \<and> r \<noteq> Inr True)
    \<or> (\<exists>n. plain_int amount = Some n \<and> 0 < n \<and> moves sign io disk ss rs w k n r p)"
proof (cases "\<exists>n. plain_int amount = Some n \<and> 0 < n \<and> length k \<le> max_token_chars")
  case False
  then show ?thesis using r by (auto simp: refund_credits_def harmless_def unchanged_def not_less split: option.splits if_splits)
next
  case True
  then obtain n where n: "plain_int amount = Some n" "0 < n" "length k \<le> max_token_chars" by blast
  let ?m = "store_load sign legacy False (so_now io) disk w"
  have eq: "refund_credits sign legacy io k amount (disk, w) = (case map_of (st_sessions ?m) k of
      None \<Rightarrow> (Inr False, (disk, ?m))
    | Some s \<Rightarrow> if expired (so_now io) s then drop_expired io k False (disk, ?m)
        else (case verify_token sign False (so_now io) k of
            None \<Rightarrow> (Inr False, (disk, ?m))
          | Some g \<Rightarrow> if se_credits s + n > se_credits g then (Inr False, (disk, ?m))
              else put_session io k s (s\<lparr>se_credits := se_credits s + n\<rparr>) (disk, ?m)))"
    using n by (simp add: refund_credits_def with_store_view [OF v])
  have same: "harmless sign io disk ss rs w (disk, ?m)" using v by (simp add: harmless_def unchanged_def)
  show ?thesis
  proof (cases "map_of (st_sessions ?m) k")
    case None
    then show ?thesis using r same unfolding eq by auto
  next
    case (Some s)
    show ?thesis
    proof (cases "expired (so_now io) s")
      case True
      then show ?thesis
        using r same drop_expired_harmless [OF b v Some, of False r p w] unfolding eq Some by (auto simp: persist_error_def)
    next
      case False
      have so: "sess_ok sign rs k s" using view_lookup(2) [OF v b Some False] .
      show ?thesis
      proof (cases "verify_token sign False (so_now io) k")
        case None
        then show ?thesis using r same False Some unfolding eq by auto
      next
        case (Some g)
        have "verify_token sign True (so_now io) k = Some g"
          using Some by (auto simp: verify_token_def Let_def split: option.splits list.splits if_splits)
        then obtain g0 where g: "signed_of sign k = Some g0" "se_credits g = se_credits g0"
          by (auto simp: verify_signed)
        show ?thesis
        proof (cases "se_credits s + n > se_credits g")
          case True
          then show ?thesis using r same False Some \<open>map_of (st_sessions ?m) k = Some s\<close> unfolding eq by auto
        next
          case le: False
          then have "put_session io k s (s\<lparr>se_credits := se_credits s + n\<rparr>) (disk, ?m) = (r, p)"
            using r False Some \<open>map_of (st_sessions ?m) k = Some s\<close> unfolding eq by simp
          from put_session_moves [OF b v \<open>map_of (st_sessions ?m) k = Some s\<close> False g(1) _ _ this, of w] so le n g
          show ?thesis by (auto simp: harmless_def persist_error_def sess_ok_def)
        qed
      qed
    qed
  qed
qed

lemma persist_harmless:
  assumes b: "books sign ss rs" and v: "view (so_now io) disk ss rs (store_load sign legacy False (so_now io) disk w)"
    and r: "persist_store sign legacy io (disk, w) = (r, p)"
  shows "harmless sign io disk ss rs w p"
proof -
  let ?m = "store_load sign legacy False (so_now io) disk w"
  obtain ok where p: "persist_unlocked io (disk, ?m) = (ok, p)"
    using r by (auto simp: persist_store_def with_store_view [OF v] Let_def split: prod.splits)
  obtain disk' m' where p': "p = (disk', m')" by (cases p)
  have m: "mem_ok (so_now io) ss rs ?m" "mem_ok (so_now io) (live (so_now io) ss) rs ?m" "\<not> st_error ?m" "st_redeemed ?m = rs"
    "live (so_now io) (st_sessions ?m) = live (so_now io) ss"
    using v by (auto simp: view_def mem_ok_def)
  from persist_cases [OF p [unfolded p']] show ?thesis
  proof (elim disjE conjE)
    assume "\<not> ok" "disk' = disk" "m' = ?m"
    then show ?thesis using v by (simp add: p' harmless_def unchanged_def)
  next
    assume "disk' = Some \<lparr>sf_sig = so_sig io, sf_data = Some (books_data (live (so_now io) (st_sessions ?m)) (st_redeemed ?m))\<rparr>"
      "if ok then m' = ?m\<lparr>st_sig := Some (so_sig io), st_had := True\<rparr> else m' = ?m"
    then have "wrote io (live (so_now io) ss) rs ok ?m (disk', m')" using m by (cases ok) (auto simp: wrote_def mem_ok_def)
    then show ?thesis using books_live [OF b] v by (auto simp: p' harmless_def changed_def)
  qed
qed


section \<open>The account of every token\<close>

definition tokens :: "(string, string) dict \<Rightarrow> string set" where
  "tokens rs = snd ` set rs"

lemma tokens_snoc [simp]: "tokens (rs @ [(tx, k)]) = insert k (tokens rs)"
  by (simp add: tokens_def)

definition account_ok :: "(string \<Rightarrow> string) \<Rightarrow> real \<Rightarrow> (string, session) dict \<Rightarrow> (string, string) dict \<Rightarrow> account \<Rightarrow> bool" where
  "account_ok sign now ss rs a \<longleftrightarrow> (\<forall>k. 0 \<le> ac_unknown a k)
     \<and> (\<forall>k. k \<notin> tokens rs \<longrightarrow> ac_spent a k = 0 \<and> ac_refunded a k = 0)
     \<and> (\<forall>k g. k \<in> tokens rs \<and> signed_of sign k = Some g \<longrightarrow>
          (\<exists>c. 0 \<le> c \<and> c \<le> se_credits g \<and> \<bar>se_credits g - ac_spent a k + ac_refunded a k - c\<bar> \<le> ac_unknown a k
             \<and> (\<forall>s. map_of (live now ss) k = Some s \<longrightarrow> se_credits s = c)))
     \<and> (\<forall>(tx, k) \<in> set (ac_granted a). map_of rs tx = Some k)"

definition token_ok :: "real \<Rightarrow> (string, session) dict \<Rightarrow> account \<Rightarrow> string \<Rightarrow> session \<Rightarrow> bool" where
  "token_ok now ss a k g \<longleftrightarrow> (\<exists>c. 0 \<le> c \<and> c \<le> se_credits g
     \<and> \<bar>se_credits g - ac_spent a k + ac_refunded a k - c\<bar> \<le> ac_unknown a k
     \<and> (\<forall>s. map_of (live now ss) k = Some s \<longrightarrow> se_credits s = c))"

lemma account_okI:
  assumes "\<And>k. 0 \<le> ac_unknown a k" "\<And>k. k \<notin> tokens rs \<Longrightarrow> ac_spent a k = 0 \<and> ac_refunded a k = 0"
    and "\<And>k g. k \<in> tokens rs \<Longrightarrow> signed_of sign k = Some g \<Longrightarrow> token_ok now ss a k g"
    and "\<And>tx k. (tx, k) \<in> set (ac_granted a) \<Longrightarrow> map_of rs tx = Some k"
  shows "account_ok sign now ss rs a"
  using assms unfolding account_ok_def token_ok_def by blast

lemma account_okD:
  assumes "account_ok sign now ss rs a"
  shows "0 \<le> ac_unknown a k" "k \<notin> tokens rs \<Longrightarrow> ac_spent a k = 0 \<and> ac_refunded a k = 0"
    and "k \<in> tokens rs \<Longrightarrow> signed_of sign k = Some g \<Longrightarrow> token_ok now ss a k g"
    and "(tx, k) \<in> set (ac_granted a) \<Longrightarrow> map_of rs tx = Some k"
  using assms unfolding account_ok_def token_ok_def by blast+

lemma token_ok_later:
  assumes "token_ok now ss a k g" "dict_ok ss" "now \<le> now'"
  shows "token_ok now' ss a k g" "token_ok now' (live now' ss) a k g"
proof -
  have "map_of (live now ss) k = Some s" if "map_of (live now' ss) k = Some s" for s
    using that assms(2,3) by (auto simp: map_of_live expired_def split: option.splits if_splits)
  then show "token_ok now' ss a k g" using assms(1) unfolding token_ok_def by blast
  then show "token_ok now' (live now' ss) a k g" by (simp add: token_ok_def)
qed

lemma account_later:
  assumes "account_ok sign now ss rs a" "dict_ok ss" "now \<le> now'"
  shows "account_ok sign now' ss rs a" "account_ok sign now' (live now' ss) rs a"
proof -
  note d = account_okD [OF assms(1)]
  note l = token_ok_later [OF _ assms(2,3)]
  show "account_ok sign now' ss rs a" by (rule account_okI) (simp_all add: d l(1))
  show "account_ok sign now' (live now' ss) rs a" by (rule account_okI) (simp_all add: d l(2))
qed

lemma account_note:
  assumes a: "account_ok sign now ss rs a"
  shows "account_ok sign now ss rs (note_unknown k v a)"
proof (cases "plain_int v")
  case (Some n)
  have le: "ac_unknown a j \<le> ac_unknown (note_unknown k v a) j" for j
    using Some by (auto simp: note_unknown_def add_at_def)
  have eq: "ac_spent (note_unknown k v a) = ac_spent a" "ac_refunded (note_unknown k v a) = ac_refunded a"
    "ac_granted (note_unknown k v a) = ac_granted a" using Some by (simp_all add: note_unknown_def)
  have "token_ok now ss (note_unknown k v a) j g" if "token_ok now ss a j g" for j g
    using that le [of j] unfolding token_ok_def eq by (meson order_trans)
  then show ?thesis
    by (intro account_okI; use account_okD [OF a] order_trans [OF account_okD(1) [OF a] le] in \<open>simp only: eq; blast\<close>)
qed (use a in \<open>simp add: note_unknown_def\<close>)

text \<open>One live session moves by \<open>d\<close> while the account of its token moves by \<open>x\<close>, \<open>y\<close> and \<open>z\<close>.\<close>

lemma account_move:
  assumes a: "account_ok sign now ss rs a" and dk: "dict_ok ss" and k: "k \<in> tokens rs"
    and b: "map_of (live now ss) k = Some b" and g: "signed_of sign k = Some g"
    and n: "0 \<le> se_credits b + d" "se_credits b + d \<le> se_credits g" and z: "\<bar>d + x - y\<bar> \<le> z"
    and a': "ac_spent a' = add_at k x (ac_spent a)" "ac_refunded a' = add_at k y (ac_refunded a)"
      "ac_unknown a' = add_at k z (ac_unknown a)" "ac_granted a' = ac_granted a"
  shows "account_ok sign now (dset k (b\<lparr>se_credits := se_credits b + d\<rparr>) (live now ss)) rs a'"
proof -
  let ?b = "b\<lparr>se_credits := se_credits b + d\<rparr>"
  have "(k, b) \<in> set ss" "\<not> expired now b" using b set_live by (fastforce dest: map_of_SomeD)+
  then have e: "\<not> expired now ?b" by (simp add: expired_def)
  have "live now (dset k ?b (live now ss)) = dset k ?b (live now (live now ss))"
    using live_dset [OF e b] \<open>\<not> expired now b\<close> by simp
  then have lv: "live now (dset k ?b (live now ss)) = dset k ?b (live now ss)" by simp
  have tok: "token_ok now (dset k ?b (live now ss)) a' j h" if j: "j \<in> tokens rs" "signed_of sign j = Some h" for j h
  proof -
    obtain c where c: "0 \<le> c" "c \<le> se_credits h" "\<bar>se_credits h - ac_spent a j + ac_refunded a j - c\<bar> \<le> ac_unknown a j"
      "\<forall>s. map_of (live now ss) j = Some s \<longrightarrow> se_credits s = c"
      using account_okD(3) [OF a j] by (auto simp: token_ok_def)
    show ?thesis
    proof (cases "j = k")
      case True
      then have "c = se_credits b" "h = g" using c(4) b g j(2) by auto
      then show ?thesis using True c n z unfolding token_ok_def
        by (intro exI [of _ "se_credits b + d"]) (auto simp: lv a' add_at_def)
    next
      case False
      then show ?thesis using c unfolding token_ok_def by (intro exI [of _ c]) (auto simp: lv a' add_at_def)
    qed
  qed
  have "0 \<le> z" using z by linarith
  then show ?thesis
    using account_okD [OF a] k tok by (auto intro!: account_okI simp: a' add_at_def)
qed

lemma account_new:
  assumes a: "account_ok sign now ss rs a" and dk: "dict_ok ss" and n: "map_of rs (se_tx s) = None" "se_token s \<notin> tokens rs"
    and g: "signed_of sign (se_token s) = Some g" "se_credits s = se_credits g"
    and b: "books sign (live now ss @ [(se_token s, s)]) (rs @ [(se_tx s, se_token s)])"
    and a': "a' = a \<or> a' = a\<lparr>ac_granted := (se_tx s, se_token s) # ac_granted a\<rparr>"
  shows "account_ok sign now (live now ss @ [(se_token s, s)]) (rs @ [(se_tx s, se_token s)]) a'"
proof -
  have fields: "ac_spent a' = ac_spent a" "ac_refunded a' = ac_refunded a" "ac_unknown a' = ac_unknown a"
    "set (ac_granted a') \<subseteq> insert (se_tx s, se_token s) (set (ac_granted a))" using a' by auto
  have mr: "map_of (rs @ [(se_tx s, se_token s)]) = (map_of rs)(se_tx s \<mapsto> se_token s)"
    using n(1) by (intro map_of_append_new) (simp add: map_of_None_iff)
  have dk2: "dict_ok (live now ss @ [(se_token s, s)])" using b by (simp add: books_def)
  have lookup: "(k = se_token s \<longrightarrow> t = s) \<and> (k \<noteq> se_token s \<longrightarrow> map_of (live now ss) k = Some t)"
    if "map_of (live now (live now ss @ [(se_token s, s)])) k = Some t" for k t
  proof -
    have "map_of (live now ss @ [(se_token s, s)]) k = Some t"
      using that by (auto simp: map_of_live [OF dk2] split: option.splits if_splits)
    moreover have "map_of (live now ss @ [(se_token s, s)]) = (map_of (live now ss))(se_token s \<mapsto> s)"
      using dk2 by (intro map_of_append_new) (auto simp: dict_ok_def)
    ultimately have "((map_of (live now ss))(se_token s \<mapsto> s)) k = Some t" by metis
    then show ?thesis by (auto split: if_splits)
  qed
  have tok: "token_ok now (live now ss @ [(se_token s, s)]) a k h"
    if k: "k \<in> tokens (rs @ [(se_tx s, se_token s)])" "signed_of sign k = Some h" for k h
  proof (cases "k = se_token s")
    case True
    have "0 < se_credits g" using signed_of_SomeD [OF g(1)] by blast
    moreover have "ac_spent a k = 0" "ac_refunded a k = 0" "0 \<le> ac_unknown a k" using account_okD(1,2) [OF a] n(2) True by auto
    ultimately show ?thesis
      using True g k(2) unfolding token_ok_def by (intro exI [of _ "se_credits g"]) (auto dest!: lookup)
  next
    case False
    then have "k \<in> tokens rs" using k(1) by auto
    then obtain c where "0 \<le> c" "c \<le> se_credits h" "\<bar>se_credits h - ac_spent a k + ac_refunded a k - c\<bar> \<le> ac_unknown a k"
      "\<forall>s. map_of (live now ss) k = Some s \<longrightarrow> se_credits s = c" using account_okD(3) [OF a _ k(2)] unfolding token_ok_def by blast
    with False show ?thesis unfolding token_ok_def by (intro exI [of _ c]) (auto dest!: lookup)
  qed
  have gr: "map_of (rs @ [(se_tx s, se_token s)]) tx = Some k" if "(tx, k) \<in> set (ac_granted a')" for tx k
    using that fields(4) account_okD(4) [OF a, of tx k] n(1) unfolding mr by auto
  show ?thesis
    using account_okD(1,2) [OF a] tok gr by (intro account_okI) (auto simp: fields(1-3) token_ok_def)
qed


section \<open>Every call keeps the books balanced\<close>

definition balanced :: "(string \<Rightarrow> string) \<Rightarrow> store_io \<Rightarrow> sdisk \<Rightarrow> (string, session) dict \<Rightarrow> (string, string) dict \<Rightarrow> store
    \<Rightarrow> sdisk \<times> store \<Rightarrow> account \<Rightarrow> bool" where
  "balanced sign io disk ss rs w p a \<longleftrightarrow> (unchanged io disk ss rs w p \<and> account_ok sign (so_now io) ss rs a)
     \<or> (\<exists>ss' rs' ok. changed sign io disk ss rs ss' rs' ok p \<and> account_ok sign (so_now io) ss' rs' a)"

lemma harmless_balanced:
  assumes "harmless sign io disk ss rs w p" "account_ok sign (so_now io) ss rs a" "dict_ok ss"
  shows "balanced sign io disk ss rs w p a"
  using assms(1,2) account_later(2) [OF assms(2,3) order_refl] unfolding harmless_def balanced_def by blast

lemma moves_balanced:
  assumes m: "moves sign io disk ss rs w k n r p" and b: "books sign ss rs" and a: "account_ok sign (so_now io) ss rs a"
    and up: "r = Inr True \<Longrightarrow> ac_spent a' = add_at k sp (ac_spent a) \<and> ac_refunded a' = add_at k (n + sp) (ac_refunded a)
        \<and> ac_unknown a' = ac_unknown a \<and> ac_granted a' = ac_granted a"
    and uk: "r \<noteq> Inr True \<Longrightarrow> ac_spent a' = ac_spent a \<and> ac_refunded a' = ac_refunded a
        \<and> ac_unknown a' = add_at k \<bar>n\<bar> (ac_unknown a) \<and> ac_granted a' = ac_granted a"
  shows "balanced sign io disk ss rs w p a'"
proof -
  obtain ok bb g where l: "map_of (live (so_now io) ss) k = Some bb" "signed_of sign k = Some g"
    "0 \<le> se_credits bb + n" "se_credits bb + n \<le> se_credits g"
    and c: "changed sign io disk ss rs (dset k (bb\<lparr>se_credits := se_credits bb + n\<rparr>) (live (so_now io) ss)) rs ok p"
    and r: "r = (if ok then Inr True else persist_error)"
    using m by (auto simp: moves_def)
  have dk: "dict_ok ss" using b by (simp add: books_def)
  have kr: "k \<in> tokens rs"
    using subsetD [OF books_tokens [OF b] subsetD [OF fst_live map_of_in_dom [OF l(1)]]] by (simp add: tokens_def)
  have z0: "add_at k 0 f = f" for f by (simp add: add_at_def)
  show ?thesis
  proof (cases ok)
    case True
    then have "ac_spent a' = add_at k sp (ac_spent a) \<and> ac_refunded a' = add_at k (n + sp) (ac_refunded a)
        \<and> ac_unknown a' = ac_unknown a \<and> ac_granted a' = ac_granted a" using up r by simp
    then have "account_ok sign (so_now io) (dset k (bb\<lparr>se_credits := se_credits bb + n\<rparr>) (live (so_now io) ss)) rs a'"
      by (intro account_move [OF a dk kr l, of sp "n + sp" 0]) (simp_all add: z0)
    then show ?thesis using c unfolding balanced_def by blast
  next
    case False
    then have "account_ok sign (so_now io) (dset k (bb\<lparr>se_credits := se_credits bb + n\<rparr>) (live (so_now io) ss)) rs a'"
      using uk r by (intro account_move [OF a dk kr l, of 0 0 "\<bar>n\<bar>"]) (simp_all add: z0 persist_error_def)
    then show ?thesis using c unfolding balanced_def by blast
  qed
qed


lemma answer_of_eq: "answer_of f q = (r, p) \<Longrightarrow> \<exists>r0. q = (r0, p) \<and> r = rbind r0 (\<lambda>a. Inr (f a))"
  by (cases q) (auto simp: answer_of_def)

lemma run_call_balanced:
  assumes d: "digests sign" and c: "clock_ok (so_now io)" and b: "books sign ss rs"
    and a: "account_ok sign (so_now io) ss rs a"
    and v: "view (so_now io) disk ss rs (store_load sign legacy False (so_now io) disk w)"
    and r: "run_call sign legacy io cl (disk, w) = (r, p)"
  shows "balanced sign io disk ss rs w p (observe_call cl r a)"
proof -
  have dk: "dict_ok ss" using b by (simp add: books_def)
  have noted: "account_ok sign (so_now io) ss rs (note_unknown k x a)" for k x using account_note [OF a] .
  show ?thesis
  proof (cases cl)
    case (Create sender service credits tx)
    then obtain r0 where r0: "create_session sign legacy io sender service credits tx (disk, w) = (r0, p)"
      and rr: "r = rbind r0 (\<lambda>s. Inr (A_session (Some s)))"
      using answer_of_eq r by fastforce
    from create_cases [OF d c b v r0] show ?thesis
    proof (elim disjE exE conjE)
      assume u: "unchanged io disk ss rs w p" and g: "\<forall>s. r0 = Inr s \<longrightarrow> map_of rs (se_tx s) = Some (se_token s)"
      have "account_ok sign (so_now io) ss rs (observe_call cl r a)"
        using a g Create rr by (cases r0) (auto simp: account_ok_def)
      with u show ?thesis by (simp add: balanced_def)
    next
      fix ok s g
      assume n: "map_of rs (se_tx s) = None" "se_token s \<notin> snd ` set rs" "signed_of sign (se_token s) = Some g"
        "se_credits s = se_credits g" and r1: "r0 = (if ok then Inr s else persist_error)"
        and ch: "changed sign io disk ss rs (live (so_now io) ss @ [(se_token s, s)]) (rs @ [(se_tx s, se_token s)]) ok p"
      have "observe_call cl r a = a \<or> observe_call cl r a = a\<lparr>ac_granted := (se_tx s, se_token s) # ac_granted a\<rparr>"
        using Create rr r1 by (simp add: persist_error_def)
      moreover have "books sign (live (so_now io) ss @ [(se_token s, s)]) (rs @ [(se_tx s, se_token s)])"
        using ch by (simp add: changed_def)
      ultimately have "account_ok sign (so_now io) (live (so_now io) ss @ [(se_token s, s)]) (rs @ [(se_tx s, se_token s)]) (observe_call cl r a)"
        using account_new [OF a dk] n by (simp add: tokens_def)
      with ch show ?thesis unfolding balanced_def by blast
    qed
  next
    case (Get k)
    then obtain r0 where r0: "get_session sign legacy io k (disk, w) = (r0, p)" using answer_of_eq r by fastforce
    from harmless_balanced [OF get_cases [OF b v r0] a dk] show ?thesis using Get by simp
  next
    case (Consume k amount)
    then obtain r0 where r0: "consume_credits sign legacy io k amount (disk, w) = (r0, p)"
      and rr: "r = rbind r0 (\<lambda>x. Inr (A_bool x))"
      using answer_of_eq r by fastforce
    from consume_cases [OF b v r0] show ?thesis
    proof (elim disjE exE conjE)
      assume h: "harmless sign io disk ss rs w p" "r0 \<noteq> Inr True"
      then have "observe_call cl r a \<in> {a, note_unknown k amount a}" using Consume rr by (cases r0) auto
      then show ?thesis using harmless_balanced [OF h(1) _ dk] a noted by fastforce
    next
      fix n assume n: "plain_int amount = Some n" "0 < n" and m: "moves sign io disk ss rs w k (- n) r0 p"
      have e: "r0 = Inr True \<or> r0 = persist_error" using m by (auto simp: moves_def)
      show ?thesis
        by (rule moves_balanced [OF m b a, where sp = n])
          (use Consume rr e n in \<open>auto simp: persist_error_def the_int_def note_unknown_def add_at_def\<close>)
    qed
  next
    case (Refund k amount)
    then obtain r0 where r0: "refund_credits sign legacy io k amount (disk, w) = (r0, p)"
      and rr: "r = rbind r0 (\<lambda>x. Inr (A_bool x))"
      using answer_of_eq r by fastforce
    from refund_cases [OF b v r0] show ?thesis
    proof (elim disjE exE conjE)
      assume h: "harmless sign io disk ss rs w p" "r0 \<noteq> Inr True"
      then have "observe_call cl r a \<in> {a, note_unknown k amount a}" using Refund rr by (cases r0) auto
      then show ?thesis using harmless_balanced [OF h(1) _ dk] a noted by fastforce
    next
      fix n assume n: "plain_int amount = Some n" "0 < n" and m: "moves sign io disk ss rs w k n r0 p"
      have e: "r0 = Inr True \<or> r0 = persist_error" using m by (auto simp: moves_def)
      show ?thesis
        by (rule moves_balanced [OF m b a, where sp = 0])
          (use Refund rr e n in \<open>auto simp: persist_error_def the_int_def note_unknown_def add_at_def\<close>)
    qed
  next
    case Active
    have "harmless sign io disk ss rs w p"
      using r v Active by (auto simp: active_count_def with_store_view [OF v] answer_of_def harmless_def unchanged_def)
    from harmless_balanced [OF this a dk] show ?thesis using Active by simp
  next
    case Persist
    then obtain r0 where r0: "persist_store sign legacy io (disk, w) = (r0, p)" using answer_of_eq r by fastforce
    from harmless_balanced [OF persist_harmless [OF b v r0] a dk] show ?thesis using Persist by simp
  qed
qed

fun gate_ok :: "(string \<Rightarrow> string) \<Rightarrow> gate \<Rightarrow> bool" where
  "gate_ok sign (now, used, disk, w, a) \<longleftrightarrow> (\<exists>ss rs. disk_books sign used disk ss rs
     \<and> (\<forall>i. store_ok now used disk ss rs (w i)) \<and> account_ok sign now ss rs a)"

lemma changed_gate:
  assumes ch: "changed sign io disk ss rs ss' rs' ok (disk', m')" and d: "disk_books sign used disk ss rs"
    and fresh: "so_sig io \<notin> used"
  shows "disk_books sign (insert (so_sig io) used) disk' ss' rs'"
    and "store_ok (so_now io) (insert (so_sig io) used) disk' ss' rs' m'"
    and "store_ok now used disk ss rs x \<Longrightarrow> store_ok (so_now io) (insert (so_sig io) used) disk' ss' rs' x"
proof -
  obtain m where m: "view (so_now io) disk ss rs m" "wrote io ss' rs' ok m (disk', m')" "books sign ss' rs'"
    using ch by (auto simp: changed_def)
  show "disk_books sign (insert (so_sig io) used) disk' ss' rs'"
    using m(2,3) by (auto simp: disk_books_def wrote_def)
  show "store_ok now used disk ss rs x \<Longrightarrow> store_ok (so_now io) (insert (so_sig io) used) disk' ss' rs' x"
    using m(2) fresh by (auto simp: store_ok_def wrote_def)
  show "store_ok (so_now io) (insert (so_sig io) used) disk' ss' rs' m'"
  proof (cases ok)
    case True
    then show ?thesis using m(2) by (auto simp: store_ok_def wrote_def mem_ok_def)
  next
    case False
    then show ?thesis using m d fresh by (cases disk) (auto simp: store_ok_def wrote_def view_def disk_books_def)
  qed
qed

lemma pay_step_ok: "pay_step sign legacy g g' \<Longrightarrow> digests sign \<Longrightarrow> gate_ok sign g \<Longrightarrow> gate_ok sign g'"
proof (induction rule: pay_step.induct)
  case (serve now io used c disk w i r disk' s' a)
  then obtain ss rs where d: "disk_books sign used disk ss rs" and w: "\<And>i. store_ok now used disk ss rs (w i)"
    and a: "account_ok sign now ss rs a" by auto
  have b: "books sign ss rs" using d by (simp add: disk_books_def)
  have dk: "dict_ok ss" using b by (simp add: books_def)
  have v: "view (so_now io) disk ss rs (store_load sign legacy False (so_now io) disk (w i))"
    using load_view [OF d w serve(1)] .
  have sub: "used \<subseteq> insert (so_sig io) used" by blast
  from run_call_balanced [OF serve(5) serve(2) b account_later(1) [OF a dk serve(1)] v serve(4)]
  show ?case unfolding balanced_def
  proof (elim disjE exE conjE)
    assume u: "unchanged io disk ss rs (w i) (disk', s')" and a': "account_ok sign (so_now io) ss rs (observe_call c r a)"
    then have "disk' = disk" by (simp add: unchanged_def)
    have "store_ok (so_now io) (insert (so_sig io) used) disk ss rs s'"
      using u store_ok_later [OF w serve(1) sub] view_store_ok [OF _ disk_books_later [OF d sub]] by (auto simp: unchanged_def)
    then have "store_ok (so_now io) (insert (so_sig io) used) disk ss rs ((w(i := s')) j)" for j
      using store_ok_later [OF w serve(1) sub] by simp
    then show ?thesis using disk_books_later [OF d sub] a' \<open>disk' = disk\<close> unfolding gate_ok.simps by blast
  next
    fix ss' rs' ok
    assume ch: "changed sign io disk ss rs ss' rs' ok (disk', s')" and a': "account_ok sign (so_now io) ss' rs' (observe_call c r a)"
    note cg = changed_gate [OF ch d serve(3)]
    have "store_ok (so_now io) (insert (so_sig io) used) disk' ss' rs' ((w(i := s')) j)" for j
      using cg(2) cg(3) [OF w] by simp
    then show ?thesis using cg(1) a' unfolding gate_ok.simps by blast
  qed
next
  case (restart now now' used disk w a i)
  then obtain ss rs where d: "disk_books sign used disk ss rs" and w: "\<And>i. store_ok now used disk ss rs (w i)"
    and a: "account_ok sign now ss rs a" by auto
  have dk: "dict_ok ss" using d by (simp add: disk_books_def books_def)
  have "store_ok now' used disk ss rs ((w(i := open_store sign legacy now' disk)) j)" for j
    using store_ok_later [OF w restart(1) order_refl] view_store_ok [OF open_view [OF d] d] by simp
  then show ?case using d account_later(1) [OF a dk restart(1)] unfolding gate_ok.simps by blast
qed

lemma pay_reachable_ok:
  assumes "digests sign" "pay_reachable sign legacy g"
  shows "gate_ok sign g"
  using assms(2)
proof (induction rule: pay_reachable.induct)
  case (pay_init now)
  have "disk_books sign {} None [] []" by (simp add: disk_books_def books_def max_records_def)
  moreover have "account_ok sign now [] [] no_account" by (simp add: account_ok_def no_account_def tokens_def)
  ultimately show ?case by (fastforce simp: store_ok_def)
qed (use pay_step_ok assms(1) in blast)


section \<open>Properties of the payment gate\<close>

text \<open>A write that raises after its replacement has charged the session all the same.\<close>

lemma unconfirmed_write_charges:
  assumes "so_write io = Written_unconfirmed" "length (dset k after (st_sessions m)) \<le> max_records"
    and "length (st_redeemed m) \<le> max_records"
    and "so_bytes io (books_data (live (so_now io) (dset k after (st_sessions m))) (st_redeemed m)) \<le> 128 * 1024 * 1024"
  shows "\<exists>m'. put_session io k before after (disk, m) = (persist_error,
    Some \<lparr>sf_sig = so_sig io, sf_data = Some (books_data (live (so_now io) (dset k after (st_sessions m))) (st_redeemed m))\<rparr>, m')"
  using assms by (simp add: put_session_def persist_unlocked_def Let_def)

lemma granted_redeemed:
  assumes "gate_ok sign (now, used, disk, w, a)" "(tx, k) \<in> set (ac_granted a)"
  shows "\<exists>ss rs g. disk_books sign used disk ss rs \<and> map_of rs tx = Some k \<and> signed_of sign k = Some g
    \<and> py_lower (se_tx g) = tx \<and> token_ok now ss a k g"
proof -
  obtain ss rs where d: "disk_books sign used disk ss rs" and a: "account_ok sign now ss rs a" using assms(1) by auto
  have m: "map_of rs tx = Some k" using account_okD(4) [OF a assms(2)] .
  then have e: "(tx, k) \<in> set rs" by (rule map_of_SomeD)
  then have "red_ok sign tx k" using d by (auto simp: disk_books_def books_def)
  then obtain g where g: "signed_of sign k = Some g" "py_lower (se_tx g) = tx" by (auto simp: red_ok_def)
  have "k \<in> tokens rs" using e by (force simp: tokens_def)
  from account_okD(3) [OF a this g(1)] d m g show ?thesis by blast
qed

text \<open>
  C4 A payment buys one session. In every history of any number of workers that share the store, with failed,
  unconfirmed and successful writes, restarts and expiry, all calls of \<open>create\<close> that returned a session for the same
  transaction returned the same token. That token is signed for this transaction, and what was served on it
  less what was given back is at most the credits it was signed for, plus the amounts of calls on it that raised.
  The histories are those of \<open>pay_step\<close>: the clock never goes back and no write leaves a file with a signature
  an earlier one had.\<close>

theorem payment_buys_one_session:
  assumes "digests sign" and "pay_reachable sign legacy (now, used, disk, w, a)"
    and "(tx, k) \<in> set (ac_granted a)" and "(tx, k') \<in> set (ac_granted a)"
  shows "k' = k \<and> (\<exists>g. signed_of sign k = Some g \<and> py_lower (se_tx g) = tx
    \<and> ac_spent a k - ac_refunded a k \<le> se_credits g + ac_unknown a k)"
proof -
  have ok: "gate_ok sign (now, used, disk, w, a)" using pay_reachable_ok [OF assms(1,2)] .
  obtain ss rs where d: "disk_books sign used disk ss rs" and a: "account_ok sign now ss rs a" using ok by auto
  have "map_of rs tx = Some k" "map_of rs tx = Some k'"
    using account_okD(4) [OF a assms(3)] account_okD(4) [OF a assms(4)] by auto
  moreover obtain g where "signed_of sign k = Some g" "py_lower (se_tx g) = tx" "\<exists>ss. token_ok now ss a k g"
    using granted_redeemed [OF ok assms(3)] by blast
  ultimately show ?thesis by (auto simp: token_ok_def)
qed

text \<open>
  C5 Credits are conserved. Whatever worker asks for a session, and whatever it has cached, the credits that \<open>get\<close>
  reports are between 0 and the credits the token was signed for, and they equal the signed credits less what was
  served plus what was given back, up to the amounts of the calls on this token that raised: exactly, when none
  did. As in C4 the clock never goes back and no write leaves a file with a signature an earlier one had.\<close>

theorem credits_conserved:
  assumes "digests sign" and "pay_reachable sign legacy (now, used, disk, w, a)" and "now \<le> so_now io"
    and "get_session sign legacy io k (disk, w i) = (Inr (Some s), p)"
  shows "\<exists>g. signed_of sign k = Some g \<and> 0 \<le> se_credits s \<and> se_credits s \<le> se_credits g
    \<and> \<bar>se_credits g - ac_spent a k + ac_refunded a k - se_credits s\<bar> \<le> ac_unknown a k"
proof -
  have ok: "gate_ok sign (now, used, disk, w, a)" using pay_reachable_ok [OF assms(1,2)] .
  then obtain ss rs where d: "disk_books sign used disk ss rs" and w: "store_ok now used disk ss rs (w i)"
    and a: "account_ok sign now ss rs a" by auto
  have b: "books sign ss rs" using d by (simp add: disk_books_def)
  then have dk: "dict_ok ss" by (simp add: books_def)
  note v = load_view [OF d w assms(3), of legacy]
  have l: "map_of (st_sessions (store_load sign legacy False (so_now io) disk (w i))) k = Some s" "\<not> expired (so_now io) s"
    using assms(4) by (auto simp: get_session_def with_store_view [OF v] drop_expired_def Let_def persist_error_def
        split: if_splits option.splits prod.splits)
  note lk = view_lookup [OF v b l]
  obtain g where g: "signed_of sign k = Some g" "0 \<le> se_credits s" "se_credits s \<le> se_credits g"
    using lk(2) by (auto simp: sess_ok_def)
  have "k \<in> tokens rs"
    using subsetD [OF books_tokens [OF b] subsetD [OF fst_live map_of_in_dom [OF lk(1)]]] by (simp add: tokens_def)
  from token_ok_later(1) [OF account_okD(3) [OF a this g(1)] dk assms(3)] lk(1) g show ?thesis
    by (auto simp: token_ok_def)
qed

definition demo_store_io :: store_io where
  "demo_store_io = \<lparr>so_now = 3600, so_bytes = (\<lambda>_. 1000), so_write = Written, so_sig = 1\<rparr>"

definition demo_session :: session where
  "demo_session = \<lparr>se_token = demo_token, se_service = ''debug'', se_credits = 750000, se_created = 3600,
     se_expires = 90000, se_tx = demo_tx, se_sender = demo_sender\<rparr>"

definition demo_paid :: store where
  "demo_paid = \<lparr>st_sessions = [(demo_token, demo_session)], st_redeemed = [(demo_tx, demo_token)], st_error = False,
     st_sig = Some 1, st_had = True\<rparr>"

definition demo_paid_file :: sdisk where
  "demo_paid_file = Some \<lparr>sf_sig = 1, sf_data = Some (books_data [(demo_token, demo_session)] [(demo_tx, demo_token)])\<rparr>"

lemma demo_lower: "py_lower demo_sender = demo_sender" "py_lower demo_tx = demo_tx"
  by code_simp+

lemma demo_create:
  "run_call demo_sign (\<lambda>_. None) demo_store_io (Create demo_sender ''debug'' (PInt 750000) demo_tx) (None, new_store)
     = (Inr (A_session (Some demo_session)), demo_paid_file, demo_paid)"
proof -
  have mt: "make_token demo_sign 3600 demo_sender ''debug'' (PInt 750000) demo_tx (PInt 90000) = Inr demo_token"
    using demo_words by (simp add: make_token_def max_usdc_def demo_token_def demo_sign_def Let_def)
  have lv: "live 3600 [(demo_token, demo_session)] = [(demo_token, demo_session)]"
    by (simp add: live_def expired_def demo_session_def)
  have s: "\<lparr>se_token = demo_token, se_service = ''debug'', se_credits = 750000, se_created = 3600,
     se_expires = 90000, se_tx = demo_tx, se_sender = demo_sender\<rparr> = demo_session" by (simp add: demo_session_def)
  show ?thesis
    using demo_words mt demo_lower lv
    by (simp add: answer_of_def create_session_def with_store_def store_load_def new_store_def persist_unlocked_def
        demo_store_io_def demo_paid_def demo_paid_file_def max_usdc_def session_ttl_def max_records_def Let_def s)
qed

lemma demo_paid_reachable:
  "pay_reachable demo_sign (\<lambda>_. None) (3600, {1}, demo_paid_file, (\<lambda>_. new_store)(0 := demo_paid),
     no_account\<lparr>ac_granted := [(demo_tx, demo_token)]\<rparr>)"
proof -
  have run: "run_call demo_sign (\<lambda>_. None) demo_store_io (Create demo_sender ''debug'' (PInt 750000) demo_tx) (None, (\<lambda>_. new_store) (0::nat))
     = (Inr (A_session (Some demo_session)), demo_paid_file, demo_paid)" using demo_create by simp
  have "pay_step demo_sign (\<lambda>_. None) (10, {}, None, \<lambda>_. new_store, no_account)
     (so_now demo_store_io, insert (so_sig demo_store_io) {}, demo_paid_file, (\<lambda>_. new_store)(0 := demo_paid),
      observe_call (Create demo_sender ''debug'' (PInt 750000) demo_tx) (Inr (A_session (Some demo_session))) no_account)"
    by (rule serve [OF _ _ _ run]) (simp_all add: demo_store_io_def clock_ok_def)
  from pay_more [OF pay_init this] show ?thesis
    by (simp add: demo_store_io_def demo_session_def no_account_def)
qed

theorem payment_buys_one_session_witness:
  "\<exists>g. signed_of demo_sign demo_token = Some g \<and> py_lower (se_tx g) = demo_tx"
  using payment_buys_one_session [OF demo_words(1) demo_paid_reachable, where tx = demo_tx and k = demo_token and k' = demo_token]
  by auto

theorem credits_conserved_witness:
  "\<exists>g. signed_of demo_sign demo_token = Some g \<and> se_credits g = se_credits demo_session"
proof -
  have len: "\<not> max_token_chars < length demo_token"
    using payload_length [of demo_sender "''debug''" demo_tx 750000 90000] demo_words
    by (simp add: demo_token_def max_token_chars_def)
  have "get_session demo_sign (\<lambda>_. None) demo_store_io demo_token (demo_paid_file, ((\<lambda>_. new_store)(0 := demo_paid)) 0)
     = (Inr (Some demo_session), demo_paid_file, demo_paid)"
    using len by (simp add: get_session_def with_store_def store_load_def demo_paid_file_def demo_paid_def
        demo_store_io_def expired_def demo_session_def Let_def)
  from credits_conserved [OF demo_words(1) demo_paid_reachable _ this] show ?thesis
    by (auto simp: demo_store_io_def no_account_def)
qed

end
