(* ===== verification/Interrupts.thy ===== *)
theory Interrupts
  imports PyDict
begin

text \<open>
  \<open>norax/runtime/interrupts.py\<close>: human approval of tool calls. A call that matches a rule is recorded as a
  pending interrupt bound to the digest of the exact call, the owner resolves it, and a retry of the same call consumes
  the decision once. Regular expression search, \<open>str\<close> of a value that is no string, the digest of a call and the fresh identifier are
  arguments, as is every reading of the clock.
\<close>

section \<open>Rules\<close>

datatype interrupt_action = Approve | Reject | Modify

datatype interrupt_reason = Write_operation | Dangerous_command | Sensitive_path | High_cost | Manual_rule

record interrupt_rule =
  ir_tools :: "string list"
  ir_paths :: "string list"
  ir_commands :: "string list"
  ir_reason :: interrupt_reason
  ir_description :: string

text \<open>\<open>compiles\<close> tells which patterns \<open>re.compile\<close> accepts.\<close>

definition make_rule :: "(string \<Rightarrow> bool) \<Rightarrow> string list \<Rightarrow> string list \<Rightarrow> string list \<Rightarrow> interrupt_reason \<Rightarrow> string
    \<Rightarrow> interrupt_rule res" where
  "make_rule compiles tools paths commands reason descr =
     (if 32 < length paths \<or> 32 < length commands
      then Inl (ValueError ''an interrupt rule may contain at most 32 patterns per kind'')
      else if list_ex (\<lambda>p. 512 < length p) (paths @ commands)
      then Inl (ValueError ''interrupt regex patterns are limited to 512 characters'')
      else if \<not> list_all compiles (paths @ commands) then Inl (OtherError ''re.error'' [])
      else Inr \<lparr>ir_tools = tools, ir_paths = paths, ir_commands = commands, ir_reason = reason, ir_description = descr\<rparr>)"

record call_env =
  ie_search :: "string \<Rightarrow> string \<Rightarrow> bool"
  ie_str :: "pyval \<Rightarrow> string"
  ie_digest :: "string \<Rightarrow> (string, pyval) dict \<Rightarrow> string"

definition value_str :: "call_env \<Rightarrow> pyval \<Rightarrow> string" where
  "value_str env v = (case v of PStr s \<Rightarrow> s | _ \<Rightarrow> ie_str env v)"

definition interrupt_path_values :: "call_env \<Rightarrow> (string, pyval) dict \<Rightarrow> string list" where
  "interrupt_path_values env args = concat (map (\<lambda>f. case map_of args f of
      Some (PStr s) \<Rightarrow> [take 4096 s]
    | Some (PList xs) \<Rightarrow> map (\<lambda>x. take 4096 (value_str env x)) (take 32 xs)
    | _ \<Rightarrow> []) [''path'', ''root'', ''cwd'', ''files''])"

definition interrupt_path_text :: "call_env \<Rightarrow> (string, pyval) dict \<Rightarrow> string" where
  "interrupt_path_text env args = take 32768 (join_words [CHR 0x0A] (interrupt_path_values env args))"

definition interrupt_command_text :: "call_env \<Rightarrow> (string, pyval) dict \<Rightarrow> string" where
  "interrupt_command_text env args = take 100000 (value_str env (get_or args ''command'' (PStr [])))"

definition rule_matches :: "call_env \<Rightarrow> string \<Rightarrow> (string, pyval) dict \<Rightarrow> interrupt_rule \<Rightarrow> bool" where
  "rule_matches env tool args r \<longleftrightarrow>
     (ir_tools r = [] \<or> tool \<in> set (ir_tools r))
     \<and> (ir_paths r = [] \<or> list_ex (\<lambda>p. ie_search env p (interrupt_path_text env args)) (ir_paths r))
     \<and> (ir_commands r = [] \<or> list_ex (\<lambda>p. ie_search env p (interrupt_command_text env args)) (ir_commands r))"

fun first_rule :: "call_env \<Rightarrow> string \<Rightarrow> (string, pyval) dict \<Rightarrow> interrupt_rule list \<Rightarrow> interrupt_rule option" where
  "first_rule env tool args [] = None"
| "first_rule env tool args (r # rs) = (if rule_matches env tool args r then Some r else first_rule env tool args rs)"

section \<open>Pending interrupts\<close>

record pending =
  pi_id :: string
  pi_tool :: string
  pi_digest :: string
  pi_reason :: interrupt_reason
  pi_description :: string
  pi_timestamp :: real
  pi_resolved :: bool
  pi_action :: "interrupt_action option"
  pi_modified :: "(string, pyval) dict option"
  pi_resolved_at :: real
  pi_resolved_by :: string

record interrupt_manager =
  im_rules :: "interrupt_rule list"
  im_pending :: "(string, pending) dict"
  im_enabled :: bool
  im_max_pending :: nat
  im_ttl :: real

definition interrupt_init :: "int \<Rightarrow> real \<Rightarrow> interrupt_manager" where
  "interrupt_init max_pending ttl = \<lparr>im_rules = [], im_pending = [], im_enabled = True,
     im_max_pending = nat (min 4096 (max 1 max_pending)), im_ttl = min 604800 (max 60 ttl)\<rparr>"

definition add_rule :: "interrupt_rule \<Rightarrow> interrupt_manager \<Rightarrow> interrupt_manager" where
  "add_rule r m = m\<lparr>im_rules := im_rules m @ [r]\<rparr>"

definition set_enabled :: "bool \<Rightarrow> interrupt_manager \<Rightarrow> interrupt_manager" where
  "set_enabled b m = m\<lparr>im_enabled := b\<rparr>"

definition should_interrupt :: "call_env \<Rightarrow> string \<Rightarrow> (string, pyval) dict \<Rightarrow> interrupt_manager
    \<Rightarrow> bool \<times> interrupt_reason \<times> string" where
  "should_interrupt env tool args m =
     (if \<not> im_enabled m then (False, Manual_rule, [])
      else case first_rule env tool args (im_rules m) of
        Some r \<Rightarrow> (True, ir_reason r, ir_description r)
      | None \<Rightarrow> (False, Manual_rule, []))"

definition expire_interrupts :: "real \<Rightarrow> interrupt_manager \<Rightarrow> interrupt_manager" where
  "expire_interrupts now m = m\<lparr>im_pending := filter (\<lambda>p. \<not> pi_timestamp (snd p) < now - im_ttl m) (im_pending m)\<rparr>"

text \<open>\<open>min(pending, key=timestamp)\<close>: the first key of a least time stamp.\<close>

fun oldest :: "(string \<times> pending) list \<Rightarrow> (string \<times> pending) option" where
  "oldest [] = None"
| "oldest (p # ps) = (case oldest ps of
     None \<Rightarrow> Some p
   | Some q \<Rightarrow> if pi_timestamp (snd q) < pi_timestamp (snd p) then Some q else Some p)"

lemma oldest_in: "oldest d = Some p \<Longrightarrow> p \<in> set d"
  by (induction d arbitrary: p) (auto split: option.splits if_splits)

lemma length_ddel_oldest: "oldest d = Some (k, p) \<Longrightarrow> length (ddel k d) < length d"
  using oldest_in [of d "(k, p)"] by (auto simp: ddel_def intro!: length_filter_less)

function make_room :: "nat \<Rightarrow> (string, pending) dict \<Rightarrow> (string, pending) dict" where
  "make_room n d = (if length d < n then d else case oldest d of None \<Rightarrow> d | Some (k, _) \<Rightarrow> make_room n (ddel k d))"
  by pat_completeness auto

termination by (relation "measure (\<lambda>(n, d). length d)") (auto simp: length_ddel_oldest)

declare make_room.simps [simp del]

definition same_call :: "string \<Rightarrow> string \<Rightarrow> pending \<Rightarrow> bool" where
  "same_call tool digest p \<longleftrightarrow> pi_tool p = tool \<and> pi_digest p = digest"

definition create_interrupt :: "call_env \<Rightarrow> real \<Rightarrow> string \<Rightarrow> string \<Rightarrow> (string, pyval) dict \<Rightarrow> interrupt_reason \<Rightarrow> string
    \<Rightarrow> interrupt_manager \<Rightarrow> pending \<times> interrupt_manager" where
  "create_interrupt env now fresh tool args reason descr m0 =
     (let m = expire_interrupts now m0; digest = ie_digest env tool args in
      case find (\<lambda>p. \<not> pi_resolved p \<and> same_call tool digest p \<and> pi_reason p = reason) (dvals (im_pending m)) of
        Some p \<Rightarrow> (p, m)
      | None \<Rightarrow>
          let p = \<lparr>pi_id = fresh, pi_tool = tool, pi_digest = digest, pi_reason = reason, pi_description = descr,
                   pi_timestamp = now, pi_resolved = False, pi_action = None, pi_modified = None,
                   pi_resolved_at = 0, pi_resolved_by = []\<rparr>
          in (p, m\<lparr>im_pending := dset fresh p (make_room (im_max_pending m) (im_pending m))\<rparr>))"

definition resolve_interrupt :: "real \<Rightarrow> string \<Rightarrow> interrupt_action \<Rightarrow> (string, pyval) dict option \<Rightarrow> string
    \<Rightarrow> (interrupt_manager, bool) op" where
  "resolve_interrupt now k action modified by_whom m0 =
     (if py_strip by_whom = [] then (Inl (ValueError ''resolved_by must identify the authenticated approver''), m0)
      else let m = expire_interrupts now m0 in
        case map_of (im_pending m) k of
          None \<Rightarrow> (Inr False, m)
        | Some p \<Rightarrow>
            if pi_resolved p then (Inr False, m)
            else if action = Modify \<and> modified = None
            then (Inl (ValueError ''modified_args must be a dict for modify resolutions''), m)
            else (Inr True, m\<lparr>im_pending := dset k (p\<lparr>pi_resolved := True, pi_action := Some action,
                    pi_modified := modified, pi_resolved_at := now,
                    pi_resolved_by := take 256 by_whom\<rparr>) (im_pending m)\<rparr>))"

definition get_pending :: "real \<Rightarrow> interrupt_manager \<Rightarrow> pending list \<times> interrupt_manager" where
  "get_pending now m0 = (let m = expire_interrupts now m0 in (filter (\<lambda>p. \<not> pi_resolved p) (dvals (im_pending m)), m))"

definition get_interrupt :: "real \<Rightarrow> string \<Rightarrow> interrupt_manager \<Rightarrow> pending option \<times> interrupt_manager" where
  "get_interrupt now k m0 = (let m = expire_interrupts now m0 in (map_of (im_pending m) k, m))"

definition clear_resolved :: "interrupt_manager \<Rightarrow> nat \<times> interrupt_manager" where
  "clear_resolved m = (length (filter (\<lambda>p. pi_resolved (snd p)) (im_pending m)),
     m\<lparr>im_pending := filter (\<lambda>p. \<not> pi_resolved (snd p)) (im_pending m)\<rparr>)"

datatype resolution = Approved "(string, pyval) dict option" | Rejected | Modified "(string, pyval) dict"

definition resolution_of :: "pending \<Rightarrow> resolution option" where
  "resolution_of p = (if \<not> pi_resolved p then None
     else case pi_action p of
       Some Approve \<Rightarrow> Some (Approved None)
     | Some Reject \<Rightarrow> Some Rejected
     | Some Modify \<Rightarrow> Some (Modified (case pi_modified p of Some d \<Rightarrow> d | None \<Rightarrow> []))
     | None \<Rightarrow> None)"

definition apply_resolution :: "string \<Rightarrow> interrupt_manager \<Rightarrow> resolution option" where
  "apply_resolution k m = (case map_of (im_pending m) k of None \<Rightarrow> None | Some p \<Rightarrow> resolution_of p)"

text \<open>The first resolved record of the call, in the order of creation.\<close>

definition decided_record :: "string \<Rightarrow> string \<Rightarrow> (string, pending) dict \<Rightarrow> (string \<times> pending) option" where
  "decided_record tool digest d = find (\<lambda>e. pi_resolved (snd e) \<and> same_call tool digest (snd e)) d"

definition consume_resolution :: "call_env \<Rightarrow> real \<Rightarrow> string \<Rightarrow> (string, pyval) dict \<Rightarrow> interrupt_manager
    \<Rightarrow> resolution option \<times> interrupt_manager" where
  "consume_resolution env now tool args m0 =
     (if im_pending m0 = [] then (None, m0)
      else let m = expire_interrupts now m0 in
        if im_pending m = [] then (None, m)
        else case decided_record tool (ie_digest env tool args) (im_pending m) of
          None \<Rightarrow> (None, m)
        | Some (k, p) \<Rightarrow>
            (case apply_resolution k m of Some (Approved _) \<Rightarrow> Some (Approved (Some args)) | r \<Rightarrow> r,
             m\<lparr>im_pending := ddel k (im_pending m)\<rparr>))"

section \<open>Histories\<close>

text \<open>
  The calls of the runtime on one manager, and the trail they leave, newest entry first: the record a call opened, the
  decision of the owner on a record, and the decision a retry of the call was answered with.
\<close>

datatype interrupt_call =
    Open_call real string string "(string, pyval) dict" interrupt_reason string
  | Decide real string interrupt_action "(string, pyval) dict option" string
  | Retry real string "(string, pyval) dict"
  | List_pending real
  | Look_up real string
  | Clear_resolved
  | Add_rule interrupt_rule
  | Switch bool

datatype trail_entry =
    Opened string string string real
  | Decided string resolution
  | Consumed string string string resolution real

fun bare :: "resolution \<Rightarrow> resolution" where
  "bare (Approved _) = Approved None"
| "bare r = r"

fun interrupt_step :: "call_env \<Rightarrow> interrupt_manager \<times> trail_entry list \<Rightarrow> interrupt_call
    \<Rightarrow> interrupt_manager \<times> trail_entry list" where
  "interrupt_step env (m, tr) (Open_call now fresh tool args reason descr) =
     (case create_interrupt env now fresh tool args reason descr m of
        (p, m') \<Rightarrow> (m', if pi_id p = fresh then Opened fresh (pi_tool p) (pi_digest p) (pi_timestamp p) # tr else tr))"
| "interrupt_step env (m, tr) (Decide now k action modified who) =
     (case resolve_interrupt now k action modified who m of
        (Inr True, m') \<Rightarrow> (m', case apply_resolution k m' of Some r \<Rightarrow> Decided k r # tr | None \<Rightarrow> tr)
      | (_, m') \<Rightarrow> (m', tr))"
| "interrupt_step env (m, tr) (Retry now tool args) =
     (case consume_resolution env now tool args m of
        (Some r, m') \<Rightarrow> (m', case decided_record tool (ie_digest env tool args) (im_pending (expire_interrupts now m)) of
          Some (k, _) \<Rightarrow> Consumed k tool (ie_digest env tool args) (bare r) now # tr | None \<Rightarrow> tr)
      | (None, m') \<Rightarrow> (m', tr))"
| "interrupt_step env (m, tr) (List_pending now) = (snd (get_pending now m), tr)"
| "interrupt_step env (m, tr) (Look_up now k) = (snd (get_interrupt now k m), tr)"
| "interrupt_step env (m, tr) Clear_resolved = (snd (clear_resolved m), tr)"
| "interrupt_step env (m, tr) (Add_rule r) = (add_rule r m, tr)"
| "interrupt_step env (m, tr) (Switch b) = (set_enabled b m, tr)"

fun opened_in_trail :: "trail_entry list \<Rightarrow> string \<Rightarrow> (string \<times> string \<times> real) option" where
  "opened_in_trail [] k = None"
| "opened_in_trail (Opened k' t d now # tr) k = (if k' = k then Some (t, d, now) else opened_in_trail tr k)"
| "opened_in_trail (_ # tr) k = opened_in_trail tr k"

fun decided :: "trail_entry list \<Rightarrow> string \<Rightarrow> resolution option" where
  "decided [] k = None"
| "decided (Decided k' r # tr) k = (if k' = k then Some r else decided tr k)"
| "decided (_ # tr) k = decided tr k"

fun consumed :: "trail_entry list \<Rightarrow> string \<Rightarrow> bool" where
  "consumed [] k = False"
| "consumed (Consumed k' _ _ _ _ # tr) k = (k' = k \<or> consumed tr k)"
| "consumed (_ # tr) k = consumed tr k"

text \<open>Identifiers of \<open>secrets.token_urlsafe\<close> do not repeat.\<close>

fun fresh_call :: "trail_entry list \<Rightarrow> interrupt_call \<Rightarrow> bool" where
  "fresh_call tr (Open_call now fresh tool args reason descr) = (opened_in_trail tr fresh = None)"
| "fresh_call tr _ = True"

inductive interrupt_reach :: "call_env \<Rightarrow> interrupt_manager \<times> trail_entry list \<Rightarrow> bool" for env where
  ir_init: "interrupt_reach env (interrupt_init max_pending ttl, [])"
| ir_step: "interrupt_reach env s \<Longrightarrow> fresh_call (snd s) c \<Longrightarrow> interrupt_reach env (interrupt_step env s c)"

text \<open>
  The approval protocol a trail must obey: a record is opened once, decided once while it is open, and consumed once,
  by the call it was opened for, with the decision it got, before its time to live ended.
\<close>

fun approval_protocol :: "real \<Rightarrow> trail_entry list \<Rightarrow> bool" where
  "approval_protocol ttl [] = True"
| "approval_protocol ttl (Opened k t d now # tr) = (opened_in_trail tr k = None \<and> approval_protocol ttl tr)"
| "approval_protocol ttl (Decided k r # tr) =
     (opened_in_trail tr k \<noteq> None \<and> decided tr k = None \<and> \<not> consumed tr k \<and> approval_protocol ttl tr)"
| "approval_protocol ttl (Consumed k t d r now # tr) =
     ((case opened_in_trail tr k of None \<Rightarrow> False | Some (t', d', opened_at) \<Rightarrow> t' = t \<and> d' = d \<and> now - ttl \<le> opened_at)
      \<and> decided tr k = Some r \<and> \<not> consumed tr k \<and> approval_protocol ttl tr)"

section \<open>The invariant of a manager\<close>

definition record_ok :: "trail_entry list \<Rightarrow> string \<Rightarrow> pending \<Rightarrow> bool" where
  "record_ok tr k p \<longleftrightarrow> pi_id p = k \<and> opened_in_trail tr k = Some (pi_tool p, pi_digest p, pi_timestamp p)
     \<and> \<not> consumed tr k \<and> decided tr k = resolution_of p \<and> (pi_resolved p \<longrightarrow> pi_action p \<noteq> None)"

fun interrupt_inv :: "interrupt_manager \<times> trail_entry list \<Rightarrow> bool" where
  "interrupt_inv (m, tr) \<longleftrightarrow> dict_ok (im_pending m) \<and> 0 < im_max_pending m \<and> im_max_pending m \<le> 4096
     \<and> length (im_pending m) \<le> im_max_pending m
     \<and> approval_protocol (im_ttl m) tr \<and> (\<forall>k p. map_of (im_pending m) k = Some p \<longrightarrow> record_ok tr k p)"

lemma interrupt_invI:
  assumes "interrupt_inv (m, tr)" "dict_ok (im_pending m')" "im_max_pending m' = im_max_pending m" "im_ttl m' = im_ttl m"
    and "length (im_pending m') \<le> length (im_pending m)" "set (im_pending m') \<subseteq> set (im_pending m)"
  shows "interrupt_inv (m', tr)"
  using assms by (auto simp: dict_ok_map_of [symmetric])

lemma expire_inv [simp, intro]: "interrupt_inv (m, tr) \<Longrightarrow> interrupt_inv (expire_interrupts now m, tr)"
  by (rule interrupt_invI, assumption) (auto simp: expire_interrupts_def)

lemma expire_simps [simp]:
  "im_ttl (expire_interrupts now m) = im_ttl m" "im_max_pending (expire_interrupts now m) = im_max_pending m"
  by (simp_all add: expire_interrupts_def)

lemma expire_lookup:
  "dict_ok (im_pending m) \<Longrightarrow> map_of (im_pending (expire_interrupts now m)) k = Some p
     \<Longrightarrow> map_of (im_pending m) k = Some p \<and> now - im_ttl m \<le> pi_timestamp p"
  by (auto simp: expire_interrupts_def dict_ok_map_of [symmetric])

lemma make_room_facts:
  "dict_ok d \<Longrightarrow> 0 < n \<Longrightarrow> dict_ok (make_room n d) \<and> set (make_room n d) \<subseteq> set d \<and> length (make_room n d) < n"
proof (induction n d rule: make_room.induct)
  case (1 n d)
  show ?case
  proof (cases "length d < n")
    case False
    show ?thesis
    proof (cases "oldest d")
      case None
      then have "d = []" by (cases d) (auto split: option.splits if_splits)
      with 1 False show ?thesis by simp
    next
      case (Some kp)
      obtain k p where kp: "kp = (k, p)" by (rule prod.exhaust)
      have "dict_ok (ddel k d)" using 1(2) by simp
      from 1(1) [OF False Some kp [symmetric] this 1(3)] Some kp False show ?thesis
        by (subst (1 2 3) make_room.simps) auto
    qed
  qed (use 1 in \<open>simp add: make_room.simps\<close>)
qed

lemma unopened_trail:
  "approval_protocol ttl tr \<Longrightarrow> opened_in_trail tr k = None \<Longrightarrow> decided tr k = None \<and> \<not> consumed tr k"
  by (induction ttl tr rule: approval_protocol.induct) (auto split: if_splits option.splits)

lemma record_ok_opened: "record_ok tr k p \<Longrightarrow> opened_in_trail tr fresh = None \<Longrightarrow> record_ok (Opened fresh t d now # tr) k p"
  by (auto simp: record_ok_def)

lemma interrupt_inv_open:
  assumes "interrupt_inv (m, tr)" "opened_in_trail tr fresh = None" "dict_ok d" "set d \<subseteq> set (im_pending m)"
    and "length d < im_max_pending m" and "p = \<lparr>pi_id = fresh, pi_tool = tool, pi_digest = digest, pi_reason = reason,
      pi_description = descr, pi_timestamp = now, pi_resolved = False, pi_action = None, pi_modified = None,
      pi_resolved_at = 0, pi_resolved_by = []\<rparr>"
  shows "interrupt_inv (m\<lparr>im_pending := dset fresh p d\<rparr>, Opened fresh tool digest now # tr)"
proof -
  have ok: "approval_protocol (im_ttl m) tr" using assms(1) by simp
  have "record_ok (Opened fresh tool digest now # tr) k q" if "map_of (dset fresh p d) k = Some q" for k q
  proof (cases "k = fresh")
    case True
    with that assms(6) unopened_trail [OF ok assms(2)] show ?thesis by (auto simp: record_ok_def resolution_of_def)
  next
    case False
    with that assms(3,4) have "(k, q) \<in> set (im_pending m)" by (auto simp: dict_ok_map_of [symmetric])
    with assms(1) have "record_ok tr k q" by (auto simp: dict_ok_map_of)
    then show ?thesis using record_ok_opened assms(2) by blast
  qed
  moreover have "length (dset fresh p d) \<le> im_max_pending m" using assms(5) by (simp add: length_dset)
  ultimately show ?thesis using assms ok by simp
qed

lemma create_inv:
  assumes inv: "interrupt_inv (m, tr)" and new: "opened_in_trail tr fresh = None"
    and c: "create_interrupt env now fresh tool args reason descr m = (p, m')"
  shows "interrupt_inv (m', if pi_id p = fresh then Opened fresh (pi_tool p) (pi_digest p) (pi_timestamp p) # tr else tr)"
proof -
  let ?m = "expire_interrupts now m"
  let ?P = "\<lambda>p. \<not> pi_resolved p \<and> same_call tool (ie_digest env tool args) p \<and> pi_reason p = reason"
  have e: "interrupt_inv (?m, tr)" using inv by (rule expire_inv)
  show ?thesis
  proof (cases "find ?P (dvals (im_pending ?m))")
    case (Some q)
    then have "q \<in> set (dvals (im_pending ?m))" by (auto simp: find_Some_iff)
    then obtain k where "map_of (im_pending ?m) k = Some q" using e by (auto simp: dvals_def dict_ok_map_of)
    then have "record_ok tr k q" using e by auto
    then have "pi_id q \<noteq> fresh" using new by (auto simp: record_ok_def)
    moreover have "p = q" "m' = ?m" using Some c by (simp_all add: create_interrupt_def Let_def)
    ultimately show ?thesis using e by simp
  next
    case None
    have "dict_ok (im_pending ?m)" "0 < im_max_pending ?m" using e by auto
    note r = make_room_facts [OF this]
    have p: "p = \<lparr>pi_id = fresh, pi_tool = tool, pi_digest = ie_digest env tool args, pi_reason = reason,
      pi_description = descr, pi_timestamp = now, pi_resolved = False, pi_action = None, pi_modified = None,
      pi_resolved_at = 0, pi_resolved_by = []\<rparr>"
      and m': "m' = ?m\<lparr>im_pending := dset fresh p (make_room (im_max_pending ?m) (im_pending ?m))\<rparr>"
      using None c by (auto simp: create_interrupt_def Let_def)
    note interrupt_inv_open [OF e new _ _ _ p]
    from this [OF conjunct1 [OF r] conjunct1 [OF conjunct2 [OF r]] conjunct2 [OF conjunct2 [OF r]]]
    show ?thesis unfolding m' by (simp add: p)
  qed
qed

lemma record_ok_entry:
  assumes "record_ok tr k p" "k \<noteq> k'"
  shows "record_ok (Decided k' r # tr) k p" and "record_ok (Consumed k' t d r now # tr) k p"
  using assms by (auto simp: record_ok_def)

lemma resolve_inv:
  assumes inv: "interrupt_inv (m, tr)" and c: "resolve_interrupt now k action modified who m = (Inr True, m')"
  shows "\<exists>r. apply_resolution k m' = Some r \<and> interrupt_inv (m', Decided k r # tr)"
proof -
  let ?m = "expire_interrupts now m"
  have e: "interrupt_inv (?m, tr)" using inv by (rule expire_inv)
  obtain p where p: "map_of (im_pending ?m) k = Some p" "\<not> pi_resolved p"
    and m': "m' = ?m\<lparr>im_pending := dset k (p\<lparr>pi_resolved := True, pi_action := Some action,
      pi_modified := modified, pi_resolved_at := now, pi_resolved_by := take 256 who\<rparr>) (im_pending ?m)\<rparr>"
    using c by (auto simp: resolve_interrupt_def Let_def split: if_splits option.splits)
  let ?q = "p\<lparr>pi_resolved := True, pi_action := Some action, pi_modified := modified, pi_resolved_at := now,
    pi_resolved_by := take 256 who\<rparr>"
  obtain r where r: "resolution_of ?q = Some r" by (cases action) (auto simp: resolution_of_def)
  have ok: "record_ok tr k p" using e p(1) by auto
  have "k \<in> fst ` set (im_pending ?m)" using p(1) by (rule map_of_in_dom)
  then have len: "length (dset k ?q (im_pending ?m)) = length (im_pending ?m)" by (simp add: length_dset)
  have "decided tr k = None" using ok p(2) by (simp add: record_ok_def resolution_of_def)
  then have pr: "approval_protocol (im_ttl ?m) (Decided k r # tr)" using e ok by (simp add: record_ok_def)
  have "record_ok (Decided k r # tr) j x" if "map_of (dset k ?q (im_pending ?m)) j = Some x" for j x
  proof (cases "j = k")
    case True
    with that ok r show ?thesis by (auto simp: record_ok_def)
  next
    case False
    with that e have "record_ok tr j x" by auto
    with False show ?thesis using record_ok_entry(1) by blast
  qed
  with pr len e have "interrupt_inv (m', Decided k r # tr)" unfolding m' by simp
  moreover have "apply_resolution k m' = Some r" unfolding m' apply_resolution_def using r by simp
  ultimately show ?thesis by blast
qed

lemma resolve_other_inv:
  assumes inv: "interrupt_inv (m, tr)" and c: "resolve_interrupt now k action modified who m = (x, m')" "x \<noteq> Inr True"
  shows "interrupt_inv (m', tr)"
proof -
  have "m' = m \<or> m' = expire_interrupts now m"
    using c by (auto simp: resolve_interrupt_def Let_def split: if_splits option.splits)
  with inv expire_inv [OF inv] show ?thesis by blast
qed

lemma find_SomeD: "find P xs = Some x \<Longrightarrow> x \<in> set xs \<and> P x"
  by (induction xs) (auto split: if_splits)

lemma decided_record_Some:
  assumes "decided_record tool digest d = Some (k, p)"
  shows "(k, p) \<in> set d \<and> pi_resolved p \<and> pi_tool p = tool \<and> pi_digest p = digest"
  using find_SomeD [OF assms [unfolded decided_record_def]] by (simp add: same_call_def)

text \<open>What a retry that is answered has read: the record of the very call, decided and not expired.\<close>

lemma consume_Some:
  assumes "consume_resolution env now tool args m = (Some r, m')"
  shows "\<exists>k p. decided_record tool (ie_digest env tool args) (im_pending (expire_interrupts now m)) = Some (k, p)
    \<and> m' = (expire_interrupts now m)\<lparr>im_pending := ddel k (im_pending (expire_interrupts now m))\<rparr>
    \<and> (\<exists>r'. apply_resolution k (expire_interrupts now m) = Some r' \<and> bare r' = bare r)"
  using assms by (auto simp: consume_resolution_def Let_def split: if_splits option.splits resolution.splits)

lemma bare_resolution_of: "resolution_of p = Some r \<Longrightarrow> bare r = r"
  by (auto simp: resolution_of_def split: if_splits option.splits interrupt_action.splits)

lemma consume_inv:
  assumes inv: "interrupt_inv (m, tr)" and c: "consume_resolution env now tool args m = (Some r, m')"
    and k: "decided_record tool (ie_digest env tool args) (im_pending (expire_interrupts now m)) = Some (k, p)"
  shows "interrupt_inv (m', Consumed k tool (ie_digest env tool args) (bare r) now # tr)"
proof -
  let ?m = "expire_interrupts now m" and ?digest = "ie_digest env tool args"
  have e: "interrupt_inv (?m, tr)" using inv by (rule expire_inv)
  obtain r' where m': "m' = ?m\<lparr>im_pending := ddel k (im_pending ?m)\<rparr>"
    and r': "apply_resolution k ?m = Some r'" "bare r' = bare r"
    using consume_Some [OF c] k by auto
  have p: "map_of (im_pending ?m) k = Some p" "pi_tool p = tool" "pi_digest p = ?digest"
    using decided_record_Some [OF k] e by (auto simp: dict_ok_map_of)
  have "dict_ok (im_pending m)" using inv by simp
  then have t: "now - im_ttl m \<le> pi_timestamp p" using expire_lookup p(1) by blast
  have ok: "record_ok tr k p" using e p(1) by auto
  have "resolution_of p = Some (bare r)" using r' p(1) bare_resolution_of by (auto simp: apply_resolution_def)
  then have pr: "approval_protocol (im_ttl ?m) (Consumed k tool ?digest (bare r) now # tr)"
    using e ok t p(2,3) by (simp add: record_ok_def)
  have "record_ok (Consumed k tool ?digest (bare r) now # tr) j x" if "map_of (ddel k (im_pending ?m)) j = Some x" for j x
  proof -
    have "j \<noteq> k" "map_of (im_pending ?m) j = Some x" using that by (auto split: if_splits)
    with e have "record_ok tr j x" by auto
    with \<open>j \<noteq> k\<close> show ?thesis using record_ok_entry(2) by blast
  qed
  with pr e length_ddel_le [of k "im_pending ?m"] show ?thesis unfolding m' by simp
qed

lemma consume_None_inv:
  assumes inv: "interrupt_inv (m, tr)" and c: "consume_resolution env now tool args m = (None, m')"
  shows "interrupt_inv (m', tr)"
proof -
  have "m' = m \<or> m' = expire_interrupts now m \<or> (\<exists>k. m' = (expire_interrupts now m)
      \<lparr>im_pending := ddel k (im_pending (expire_interrupts now m))\<rparr>)"
    using c by (auto simp: consume_resolution_def Let_def split: if_splits option.splits resolution.splits)
  moreover have "interrupt_inv (x\<lparr>im_pending := ddel k (im_pending x)\<rparr>, tr)" if "interrupt_inv (x, tr)" for k x
    using that by (rule interrupt_invI) (use that length_ddel_le in auto)
  ultimately show ?thesis using inv expire_inv by blast
qed

lemma interrupt_step_inv:
  assumes "interrupt_inv (m, tr)" "fresh_call tr c"
  shows "interrupt_inv (interrupt_step env (m, tr) c)"
proof (cases c)
  case (Open_call now fresh tool args reason descr)
  obtain p m' where "create_interrupt env now fresh tool args reason descr m = (p, m')" by (rule prod.exhaust)
  with create_inv [OF assms(1) _ this] assms(2) Open_call show ?thesis by (simp del: interrupt_inv.simps)
next
  case (Decide now k action modified who)
  obtain x m' where c: "resolve_interrupt now k action modified who m = (x, m')" by (rule prod.exhaust)
  show ?thesis
  proof (cases "x = Inr True")
    case True
    with resolve_inv [OF assms(1)] c Decide show ?thesis by (fastforce simp del: interrupt_inv.simps)
  next
    case False
    with resolve_other_inv [OF assms(1) c] c Decide show ?thesis
      by (simp del: interrupt_inv.simps split: sum.splits bool.splits)
  qed
next
  case (Retry now tool args)
  obtain x m' where c: "consume_resolution env now tool args m = (x, m')" by (rule prod.exhaust)
  show ?thesis
  proof (cases x)
    case None
    with consume_None_inv [OF assms(1)] c Retry show ?thesis by (simp del: interrupt_inv.simps)
  next
    case (Some r)
    with consume_Some c obtain k p where
      "decided_record tool (ie_digest env tool args) (im_pending (expire_interrupts now m)) = Some (k, p)" by blast
    with consume_inv [OF assms(1) _ this] Some c Retry show ?thesis by (simp del: interrupt_inv.simps)
  qed
next
  case (List_pending now)
  with expire_inv [OF assms(1)] show ?thesis by (simp add: get_pending_def Let_def del: interrupt_inv.simps)
next
  case (Look_up now k)
  with expire_inv [OF assms(1)] show ?thesis by (simp add: get_interrupt_def Let_def del: interrupt_inv.simps)
next
  case Clear_resolved
  have "interrupt_inv (snd (clear_resolved m), tr)"
    using assms(1) by (rule interrupt_invI) (use assms(1) in \<open>auto simp: clear_resolved_def\<close>)
  with Clear_resolved show ?thesis by (simp del: interrupt_inv.simps)
qed (use assms(1) in \<open>simp_all add: add_rule_def set_enabled_def\<close>)

lemma interrupt_reach_inv: "interrupt_reach env s \<Longrightarrow> interrupt_inv s"
proof (induction rule: interrupt_reach.induct)
  case (ir_step s c)
  then show ?case using interrupt_step_inv by (cases s) simp
qed (auto simp: interrupt_init_def)

text \<open>What the protocol says of the older and of the newer part of a trail at a consumption.\<close>

lemma protocol_append: "approval_protocol ttl (xs @ ys) \<Longrightarrow> approval_protocol ttl ys"
proof (induction xs)
  case (Cons x xs)
  then show ?case by (cases x) auto
qed simp

lemma consumed_append: "consumed (xs @ ys) k \<longleftrightarrow> consumed xs k \<or> consumed ys k"
  by (induction xs k rule: consumed.induct) auto

lemma consumed_once:
  "approval_protocol ttl (xs @ ys) \<Longrightarrow> consumed ys k \<Longrightarrow> \<not> consumed xs k"
proof (induction xs)
  case (Cons x xs)
  then show ?case by (cases x) (auto simp: consumed_append)
qed simp

lemma opened_in_set: "opened_in_trail tr k = Some (t, d, now) \<Longrightarrow> Opened k t d now \<in> set tr"
  by (induction tr k rule: opened_in_trail.induct) (auto split: if_splits)

lemma decided_in: "decided tr k = Some r \<Longrightarrow> Decided k r \<in> set tr"
  by (induction tr k rule: decided.induct) (auto split: if_splits)

section \<open>Properties\<close>

text \<open>
  C8 Approvals are one-shot. Whatever calls reach an interrupt manager, when a retry of a tool call is answered
  with a decision then a record was opened before for a call of that tool with that digest, at most the time to live
  ago, the owner gave this very decision on it, and the record answers no other retry, before or after.\<close>

theorem approval_is_one_shot:
  assumes "interrupt_reach env (m, newer @ Consumed k tool digest r now # older)"
  shows "Decided k r \<in> set older \<and> (\<exists>opened_at. Opened k tool digest opened_at \<in> set older \<and> now - im_ttl m \<le> opened_at)
    \<and> \<not> consumed newer k \<and> \<not> consumed older k"
proof -
  have all: "approval_protocol (im_ttl m) (newer @ Consumed k tool digest r now # older)"
    using interrupt_reach_inv [OF assms] by simp
  from protocol_append [OF this] have "decided older k = Some r" "\<not> consumed older k"
    "\<exists>t. opened_in_trail older k = Some (tool, digest, t) \<and> now - im_ttl m \<le> t"
    by (auto split: option.splits)
  with consumed_once [OF all, of k] show ?thesis using opened_in_set decided_in by fastforce
qed

text \<open>
  Pending approvals are bounded. After any history of calls an interrupt manager that was created for
  \<open>max_pending\<close> records holds between 0 and 4096 of them, never more than it allows, no two share an identifier, and
  every record under an identifier is the one that was opened under it.\<close>

lemma pending_approvals_bounded:
  assumes "interrupt_reach env (m, tr)"
  shows "length (im_pending m) \<le> im_max_pending m \<and> im_max_pending m \<le> 4096 \<and> distinct (map fst (im_pending m))
    \<and> (\<forall>k p. map_of (im_pending m) k = Some p
         \<longrightarrow> pi_id p = k \<and> opened_in_trail tr k = Some (pi_tool p, pi_digest p, pi_timestamp p))"
  using interrupt_reach_inv [OF assms] by (auto simp: dict_ok_def record_ok_def)

definition demo_call_env :: call_env where
  "demo_call_env = \<lparr>ie_search = (\<lambda>p s. is_infix p s), ie_str = (\<lambda>_. []), ie_digest = (\<lambda>t a. t)\<rparr>"

definition demo_call_args :: "(string, pyval) dict" where
  "demo_call_args = [(''command'', PStr ''mkfs'')]"

definition demo_manager :: interrupt_manager where
  "demo_manager = interrupt_init 128 86400"

definition demo_pending :: pending where
  "demo_pending = \<lparr>pi_id = ''i1'', pi_tool = ''exec'', pi_digest = ''exec'', pi_reason = Dangerous_command,
     pi_description = ''destructive'', pi_timestamp = 10, pi_resolved = False, pi_action = None, pi_modified = None,
     pi_resolved_at = 0, pi_resolved_by = []\<rparr>"

definition demo_decided :: pending where
  "demo_decided = demo_pending\<lparr>pi_resolved := True, pi_action := Some Approve, pi_resolved_at := 20,
     pi_resolved_by := ''owner''\<rparr>"

lemmas interrupt_ops = create_interrupt_def resolve_interrupt_def consume_resolution_def expire_interrupts_def
  interrupt_init_def decided_record_def same_call_def apply_resolution_def resolution_of_def make_room.simps Let_def

lemma demo_run:
  "interrupt_step demo_call_env (demo_manager, []) (Open_call 10 ''i1'' ''exec'' demo_call_args Dangerous_command ''destructive'')
     = (demo_manager\<lparr>im_pending := [(''i1'', demo_pending)]\<rparr>, [Opened ''i1'' ''exec'' ''exec'' 10])"
  "interrupt_step demo_call_env (demo_manager\<lparr>im_pending := [(''i1'', demo_pending)]\<rparr>, tr) (Decide 20 ''i1'' Approve None ''owner'')
     = (demo_manager\<lparr>im_pending := [(''i1'', demo_decided)]\<rparr>, Decided ''i1'' (Approved None) # tr)"
  "interrupt_step demo_call_env (demo_manager\<lparr>im_pending := [(''i1'', demo_decided)]\<rparr>, tr) (Retry 30 ''exec'' demo_call_args)
     = (demo_manager, Consumed ''i1'' ''exec'' ''exec'' (Approved None) 30 # tr)"
  by (simp_all add: interrupt_ops demo_call_env_def demo_manager_def demo_pending_def demo_decided_def dvals_def ddel_def
      py_strip_def is_space_def)

lemma demo_reach:
  "interrupt_reach demo_call_env (demo_manager, [Consumed ''i1'' ''exec'' ''exec'' (Approved None) 30,
     Decided ''i1'' (Approved None), Opened ''i1'' ''exec'' ''exec'' 10])"
proof -
  have "interrupt_reach demo_call_env (demo_manager, [])" unfolding demo_manager_def by (rule ir_init)
  from ir_step [OF this, of "Open_call 10 ''i1'' ''exec'' demo_call_args Dangerous_command ''destructive''"]
  have "interrupt_reach demo_call_env (demo_manager\<lparr>im_pending := [(''i1'', demo_pending)]\<rparr>, [Opened ''i1'' ''exec'' ''exec'' 10])"
    unfolding demo_run by simp
  from ir_step [OF this, of "Decide 20 ''i1'' Approve None ''owner''"]
  have "interrupt_reach demo_call_env (demo_manager\<lparr>im_pending := [(''i1'', demo_decided)]\<rparr>,
      [Decided ''i1'' (Approved None), Opened ''i1'' ''exec'' ''exec'' 10])"
    unfolding demo_run by simp
  from ir_step [OF this, of "Retry 30 ''exec'' demo_call_args"] show ?thesis unfolding demo_run by simp
qed

theorem approval_is_one_shot_witness:
  "Decided ''i1'' (Approved None) \<in> set [Decided ''i1'' (Approved None), Opened ''i1'' ''exec'' ''exec'' 10]
    \<and> im_ttl demo_manager = 86400"
  using approval_is_one_shot [where newer = "[]", simplified, OF demo_reach]
  by (simp add: demo_manager_def interrupt_init_def)

lemma pending_approvals_bounded_witness: "length (im_pending demo_manager) \<le> 4096"
  using pending_approvals_bounded [OF demo_reach] by linarith

end
