(* ===== verification/Context_Window.thy ===== *)
theory Context_Window
  imports PyDict Atomic "HOL-Library.Multiset"
begin

text \<open>
  \<open>norax/context/window.py\<close>: the conversation of a channel as frames, the grouping of a tool call with its result, the
  eviction of old groups to archive files of the sleep directory, and the saved form of a window. The text of the
  sidecar for the retriever is left out, its failure is not.
\<close>

section \<open>Frames\<close>

datatype frame_kind = System_frame | User_frame | Assistant_frame | Tool_call | Tool_result

record frame =
  fr_kind :: frame_kind
  fr_content :: string
  fr_ts :: real
  fr_call :: "string option"
  fr_turn :: int
  fr_meta :: "(string, pyval) dict"

definition token_estimate :: "frame \<Rightarrow> int" where
  "token_estimate f = max 1 (int (length (fr_content f) div 4))"

text \<open>\<open>f.call_id\<close> when it is truthy.\<close>

definition call_key :: "frame \<Rightarrow> string option" where
  "call_key f = (case fr_call f of Some c \<Rightarrow> if c = [] then None else Some c | None \<Rightarrow> None)"

definition tokens_of :: "frame list \<Rightarrow> int" where
  "tokens_of fs = sum_list (map token_estimate fs)"

section \<open>Windows\<close>

text \<open>
  The directory of the archives, \<open>sleep_dir\<close>, is the archive that the operations take as an argument; the saved form of a
  window does not hold it. The \<open>tokenizer\<close> field is never used by the code: a frame estimates its own tokens.
\<close>

record window =
  wi_budget :: int
  wi_head_tokens :: int
  wi_tail_turns :: int
  wi_batch :: real
  wi_head :: "frame list"
  wi_body :: "frame list"
  wi_next_turn :: int

definition new_window :: "int \<Rightarrow> window" where
  "new_window budget = \<lparr>wi_budget = budget, wi_head_tokens = 4000, wi_tail_turns = 12, wi_batch = 1 / 4,
     wi_head = [], wi_body = [], wi_next_turn = 1\<rparr>"

definition add_system :: "real \<Rightarrow> string \<Rightarrow> (string, pyval) dict \<Rightarrow> window \<Rightarrow> window" where
  "add_system now content meta w = w\<lparr>wi_head := wi_head w @
     [\<lparr>fr_kind = System_frame, fr_content = content, fr_ts = now, fr_call = None, fr_turn = 0, fr_meta = meta\<rparr>]\<rparr>"

definition start_turn :: "window \<Rightarrow> int \<times> window" where
  "start_turn w = (wi_next_turn w, w\<lparr>wi_next_turn := wi_next_turn w + 1\<rparr>)"

definition add_user :: "real \<Rightarrow> string \<Rightarrow> int option \<Rightarrow> (string, pyval) dict \<Rightarrow> window \<Rightarrow> window" where
  "add_user now content turn meta w =
     (let (tid, w1) = (case turn of Some t \<Rightarrow> (t, w) | None \<Rightarrow> start_turn w) in
      w1\<lparr>wi_body := wi_body w1 @
        [\<lparr>fr_kind = User_frame, fr_content = content, fr_ts = now, fr_call = None, fr_turn = tid, fr_meta = meta\<rparr>]\<rparr>)"

definition add_assistant :: "real \<Rightarrow> string \<Rightarrow> int \<Rightarrow> (string, pyval) dict \<Rightarrow> window \<Rightarrow> window" where
  "add_assistant now content turn meta w = w\<lparr>wi_body := wi_body w @
     [\<lparr>fr_kind = Assistant_frame, fr_content = content, fr_ts = now, fr_call = None, fr_turn = turn, fr_meta = meta\<rparr>]\<rparr>"

definition add_tool_call :: "real \<Rightarrow> string \<Rightarrow> string \<Rightarrow> int \<Rightarrow> (string, pyval) dict \<Rightarrow> window \<Rightarrow> window" where
  "add_tool_call now cid content turn meta w = w\<lparr>wi_body := wi_body w @
     [\<lparr>fr_kind = Tool_call, fr_content = content, fr_ts = now, fr_call = Some cid, fr_turn = turn, fr_meta = meta\<rparr>]\<rparr>"

definition add_tool_result :: "real \<Rightarrow> string \<Rightarrow> string \<Rightarrow> int \<Rightarrow> (string, pyval) dict \<Rightarrow> window \<Rightarrow> window" where
  "add_tool_result now cid content turn meta w = w\<lparr>wi_body := wi_body w @
     [\<lparr>fr_kind = Tool_result, fr_content = content, fr_ts = now, fr_call = Some cid, fr_turn = turn, fr_meta = meta\<rparr>]\<rparr>"

definition total_tokens :: "window \<Rightarrow> int" where
  "total_tokens w = tokens_of (wi_head w) + tokens_of (wi_body w)"

definition needs_eviction :: "window \<Rightarrow> bool" where
  "needs_eviction w \<longleftrightarrow> wi_budget w < total_tokens w"

text \<open>The turns of the last frames, until \<open>n\<close> distinct ones have been seen.\<close>

fun tail_turns :: "int \<Rightarrow> int list \<Rightarrow> frame list \<Rightarrow> int list" where
  "tail_turns n seen [] = seen"
| "tail_turns n seen (f # fs) =
     (let seen' = (if fr_turn f \<in> set seen then seen else seen @ [fr_turn f]) in
      if n \<le> int (length seen') then seen' else tail_turns n seen' fs)"

definition protected_turns :: "window \<Rightarrow> int list" where
  "protected_turns w = tail_turns (wi_tail_turns w) [] (rev (wi_body w))"

section \<open>Groups\<close>

type_synonym grouping = "frame list list \<times> (string, frame list) dict"

fun group_step :: "grouping \<Rightarrow> frame \<Rightarrow> grouping" where
  "group_step (out, pend) f = (case (fr_kind f, call_key f) of
     (Tool_call, Some c) \<Rightarrow> (out, dset c [f] pend)
   | (Tool_result, Some c) \<Rightarrow> (case map_of pend c of
       Some g \<Rightarrow> (out @ [g @ [f]], ddel c pend)
     | None \<Rightarrow> (out @ [[f]], pend))
   | _ \<Rightarrow> (out @ [[f]], pend))"

definition atomic_groups :: "frame list \<Rightarrow> frame list list" where
  "atomic_groups fs = (case foldl group_step ([], []) fs of (out, pend) \<Rightarrow> out @ dvals pend)"

definition group_protected :: "int list \<Rightarrow> frame list \<Rightarrow> bool" where
  "group_protected ids g \<longleftrightarrow> list_ex (\<lambda>f. fr_turn f \<in> set ids) g"

definition has_tool :: "frame list \<Rightarrow> bool" where
  "has_tool g \<longleftrightarrow> list_ex (\<lambda>f. fr_kind f = Tool_call \<or> fr_kind f = Tool_result) g"

section \<open>The sleep archive\<close>

text \<open>
  The archive maps a path to the frames of its lines. \<open>sp_path\<close> is the name drawn from the clock and a random suffix,
  the rest says what the directory creation and the two atomic writes do.
\<close>

type_synonym archive = "(string, frame list) dict"

record spill_io =
  sp_path :: string
  sp_dir_ok :: bool
  sp_frames :: write_outcome
  sp_sidecar :: write_outcome

definition write_spill :: "spill_io \<Rightarrow> frame list \<Rightarrow> archive \<Rightarrow> string res \<times> archive" where
  "write_spill io frames ar =
     (if \<not> sp_dir_ok io then (Inl (OSError ''mkdir''), ar)
      else let ar1 = (if sp_frames io = Not_written then ar else dset (sp_path io) frames ar) in
        if sp_frames io \<noteq> Written then (Inl (OSError ''write''), ar1)
        else if sp_sidecar io \<noteq> Written then (Inl (OSError ''write''), ar1)
        else (Inr (sp_path io), ar1))"

section \<open>Eviction\<close>

record eviction =
  ev_frames :: "frame list"
  ev_path :: string
  ev_freed :: int

definition trunc_real :: "real \<Rightarrow> int" where
  "trunc_real x = (if 0 \<le> x then \<lfloor>x\<rfloor> else \<lceil>x\<rceil>)"

text \<open>Oldest groups first until \<open>target\<close> tokens are freed.\<close>

fun take_groups :: "int \<Rightarrow> int \<Rightarrow> frame list list \<Rightarrow> frame list list \<times> frame list list" where
  "take_groups target freed [] = ([], [])"
| "take_groups target freed (g # gs) =
     (if freed < target then case take_groups target (freed + tokens_of g) gs of (e, r) \<Rightarrow> (g # e, r)
      else ([], g # gs))"

definition eviction_target :: "window \<Rightarrow> int" where
  "eviction_target w = max (total_tokens w - wi_budget w) (trunc_real (of_int (wi_budget w) * wi_batch w))"

definition evict_if_needed :: "spill_io \<Rightarrow> window \<times> archive \<Rightarrow> eviction option res \<times> window \<times> archive" where
  "evict_if_needed io p = (case p of (w, ar) \<Rightarrow>
     if \<not> needs_eviction w then (Inr None, w, ar)
     else let ids = protected_turns w; groups = atomic_groups (wi_body w);
              tail = concat (filter (group_protected ids) groups);
              (out, rest) = take_groups (eviction_target w) 0 (filter (\<lambda>g. \<not> group_protected ids g) groups) in
       if concat out = [] then (Inr None, w, ar)
       else case write_spill io (concat out) ar of
         (Inl e, ar1) \<Rightarrow> (Inl e, w, ar1)
       | (Inr path, ar1) \<Rightarrow>
           (Inr (Some \<lparr>ev_frames = concat out, ev_path = path, ev_freed = tokens_of (concat out)\<rparr>),
            w\<lparr>wi_body := concat rest @ tail\<rparr>, ar1))"

definition compact_solved_turns :: "spill_io \<Rightarrow> spill_io \<Rightarrow> window \<times> archive \<Rightarrow> nat res \<times> window \<times> archive" where
  "compact_solved_turns io1 io2 p = (case p of (w, ar) \<Rightarrow>
     let ids = protected_turns w; groups = atomic_groups (wi_body w);
         old = (\<lambda>g. \<not> group_protected ids g \<and> has_tool g);
         evicted = concat (filter old groups); kept = concat (filter (\<lambda>g. \<not> old g) groups);
         then_evict = (\<lambda>q. case evict_if_needed io2 q of
           (Inl e, q1) \<Rightarrow> (Inl e, q1) | (Inr _, q1) \<Rightarrow> (Inr (length evicted), q1)) in
     if evicted = [] then then_evict (w, ar)
     else case write_spill io1 evicted ar of
       (Inl e, ar1) \<Rightarrow> (Inl e, w, ar1)
     | (Inr _, ar1) \<Rightarrow> then_evict (w\<lparr>wi_body := kept\<rparr>, ar1))"

definition dump_to_sleep :: "spill_io \<Rightarrow> bool \<Rightarrow> window \<times> archive \<Rightarrow> eviction option res \<times> window \<times> archive" where
  "dump_to_sleep io half p = (case p of (w, ar) \<Rightarrow>
     if wi_body w = [] then (Inr None, w, ar)
     else let groups = atomic_groups (wi_body w);
              n = (if half then max 1 (length groups div 2) else length groups);
              dumped = concat (take n groups) in
       if dumped = [] then (Inr None, w, ar)
       else case write_spill io dumped ar of
         (Inl e, ar1) \<Rightarrow> (Inl e, w, ar1)
       | (Inr path, ar1) \<Rightarrow>
           (Inr (Some \<lparr>ev_frames = dumped, ev_path = path, ev_freed = tokens_of dumped\<rparr>),
            w\<lparr>wi_body := concat (drop n groups)\<rparr>, ar1))"

section \<open>Projection for the model\<close>

definition opt_str :: "string option \<Rightarrow> pyval" where
  "opt_str x = (case x of Some s \<Rightarrow> PStr s | None \<Rightarrow> PNone)"

definition body_message :: "frame \<Rightarrow> pyval list" where
  "body_message f = (case fr_kind f of
     User_frame \<Rightarrow> [PDict [(''role'', PStr ''user''), (''content'', PStr (fr_content f))]]
   | Assistant_frame \<Rightarrow> [PDict [(''role'', PStr ''assistant''), (''content'', PStr (fr_content f))]]
   | Tool_call \<Rightarrow> [PDict [(''role'', PStr ''assistant''), (''content'', PStr []),
       (''tool_calls'', PList [PDict [(''id'', opt_str (fr_call f)), (''content'', PStr (fr_content f))]])]]
   | Tool_result \<Rightarrow> [PDict [(''role'', PStr ''tool''), (''tool_call_id'', opt_str (fr_call f)),
       (''content'', PStr (fr_content f))]]
   | System_frame \<Rightarrow> [])"

definition messages :: "window \<Rightarrow> pyval list" where
  "messages w = map (\<lambda>f. PDict [(''role'', PStr ''system''), (''content'', PStr (fr_content f))]) (wi_head w)
     @ concat (map body_message (wi_body w))"

section \<open>The saved form\<close>

definition kind_name :: "frame_kind \<Rightarrow> string" where
  "kind_name k = (case k of System_frame \<Rightarrow> ''system'' | User_frame \<Rightarrow> ''user'' | Assistant_frame \<Rightarrow> ''assistant''
     | Tool_call \<Rightarrow> ''tool_call'' | Tool_result \<Rightarrow> ''tool_result'')"

definition frame_dict :: "frame \<Rightarrow> pyval" where
  "frame_dict f = PDict [(''kind'', PStr (kind_name (fr_kind f))), (''content'', PStr (fr_content f)),
     (''ts'', PFloat (Fin (fr_ts f))), (''call_id'', opt_str (fr_call f)), (''turn_id'', PInt (fr_turn f)),
     (''meta'', PDict (fr_meta f))]"

text \<open>\<open>math.isfinite\<close> of a number that is no \<open>bool\<close>, as \<open>float\<close> would read it.\<close>

definition checked_number :: "string \<Rightarrow> pyval \<Rightarrow> real res" where
  "checked_number msg v = (case v of
     PInt i \<Rightarrow> if \<bar>i\<bar> < int_float_limit then Inr (of_int i)
               else Inl (OtherError ''OverflowError'' ''int too large to convert to float'')
   | PFloat (Fin r) \<Rightarrow> Inr r
   | _ \<Rightarrow> Inl (ValueError msg))"

definition parse_kind :: "pyval \<Rightarrow> frame_kind res" where
  "parse_kind v = (case v of
     PStr s \<Rightarrow>
       (case find (\<lambda>k. kind_name k = s) [System_frame, User_frame, Assistant_frame, Tool_call, Tool_result] of
          Some k \<Rightarrow> Inr k | None \<Rightarrow> Inl (ValueError ''window frame contains an invalid kind''))
   | PList _ \<Rightarrow> Inl (TypeError ''unhashable type'')
   | PDict _ \<Rightarrow> Inl (TypeError ''unhashable type'')
   | _ \<Rightarrow> Inl (ValueError ''window frame contains an invalid kind''))"

definition max_content_chars :: nat where
  "max_content_chars = 1048576"

definition parse_content :: "pyval \<Rightarrow> string res" where
  "parse_content v = (case v of
     PStr s \<Rightarrow> if length s \<le> max_content_chars then Inr s
               else Inl (ValueError ''window frame content is invalid or too large'')
   | _ \<Rightarrow> Inl (ValueError ''window frame content is invalid or too large''))"

definition parse_call :: "pyval \<Rightarrow> string option res" where
  "parse_call v = (case v of
     PNone \<Rightarrow> Inr None
   | PStr s \<Rightarrow> if length s \<le> 512 then Inr (Some s) else Inl (ValueError ''window frame call_id is invalid or too large'')
   | _ \<Rightarrow> Inl (ValueError ''window frame call_id is invalid or too large''))"

definition parse_turn :: "pyval \<Rightarrow> int res" where
  "parse_turn v = (case v of
     PInt i \<Rightarrow> if 0 \<le> i \<and> i \<le> 2147483647 then Inr i else Inl (ValueError ''window frame turn_id is invalid'')
   | _ \<Rightarrow> Inl (ValueError ''window frame turn_id is invalid''))"

text \<open>\<open>meta_bytes\<close> is the encoded size of a metadata object, \<open>None\<close> when \<open>json.dumps\<close> or the encoding raises.\<close>

definition parse_meta :: "((string, pyval) dict \<Rightarrow> nat option) \<Rightarrow> pyval \<Rightarrow> (string, pyval) dict res" where
  "parse_meta meta_bytes v = (case por v (PDict []) of
     PDict m \<Rightarrow> (case meta_bytes m of
         None \<Rightarrow> Inl (ValueError ''window frame metadata is not JSON serializable'')
       | Some n \<Rightarrow> if n \<le> 262144 then Inr m else Inl (ValueError ''window frame metadata is too large''))
   | _ \<Rightarrow> Inl (ValueError ''window frame metadata must be an object''))"

definition frame_from_dict :: "real \<Rightarrow> ((string, pyval) dict \<Rightarrow> nat option) \<Rightarrow> pyval \<Rightarrow> frame res" where
  "frame_from_dict now meta_bytes v = (case v of
     PDict d \<Rightarrow>
       rbind (parse_kind (pget v ''kind'')) (\<lambda>kind.
       rbind (parse_content (pget v ''content'')) (\<lambda>content.
       rbind (checked_number ''window frame timestamp must be finite'' (get_or d ''ts'' (PFloat (Fin now)))) (\<lambda>ts.
       rbind (parse_call (pget v ''call_id'')) (\<lambda>cid.
       rbind (parse_turn (get_or d ''turn_id'' (PInt 0))) (\<lambda>turn.
       rbind (parse_meta meta_bytes (get_or d ''meta'' (PDict []))) (\<lambda>meta.
         Inr \<lparr>fr_kind = kind, fr_content = content, fr_ts = ts, fr_call = cid, fr_turn = turn, fr_meta = meta\<rparr>))))))
   | _ \<Rightarrow> Inl (ValueError ''window frame must be an object''))"

fun parse_frames :: "real \<Rightarrow> ((string, pyval) dict \<Rightarrow> nat option) \<Rightarrow> pyval list \<Rightarrow> frame list res" where
  "parse_frames now meta_bytes [] = Inr []"
| "parse_frames now meta_bytes (v # vs) =
     rbind (frame_from_dict now meta_bytes v) (\<lambda>f. rbind (parse_frames now meta_bytes vs) (\<lambda>fs. Inr (f # fs)))"

definition window_dict :: "window \<Rightarrow> pyval" where
  "window_dict w = PDict [(''budget_tokens'', PInt (wi_budget w)), (''protect_tail_turns'', PInt (wi_tail_turns w)),
     (''protect_head_tokens'', PInt (wi_head_tokens w)), (''eviction_batch_pct'', PFloat (Fin (wi_batch w))),
     (''head'', PList (map frame_dict (wi_head w))), (''body'', PList (map frame_dict (wi_body w)))]"

definition bounded_field :: "(string, pyval) dict \<Rightarrow> string \<Rightarrow> int \<Rightarrow> int \<Rightarrow> int \<Rightarrow> int res" where
  "bounded_field d key dflt lo hi = (case get_or d key (PInt dflt) of
     PInt i \<Rightarrow> if lo \<le> i \<and> i \<le> hi then Inr i else Inl (ValueError ''persisted rolling window field is out of range'')
   | _ \<Rightarrow> Inl (ValueError ''persisted rolling window field must be an integer''))"

definition plain_list :: "pyval \<Rightarrow> pyval list option" where
  "plain_list v = (case v of PList xs \<Rightarrow> Some xs | _ \<Rightarrow> None)"

definition max_window_frames :: nat where
  "max_window_frames = 10000"

definition last_turn :: "frame list \<Rightarrow> int" where
  "last_turn fs = foldr max (map fr_turn fs) 0"

definition parse_window :: "real \<Rightarrow> ((string, pyval) dict \<Rightarrow> nat option) \<Rightarrow> int \<Rightarrow> pyval \<Rightarrow> window res" where
  "parse_window now meta_bytes dflt v = (case v of
     PDict d \<Rightarrow>
       rbind (bounded_field d ''budget_tokens'' dflt 1 4000000) (\<lambda>budget.
       rbind (bounded_field d ''protect_tail_turns'' 12 0 1000) (\<lambda>tail.
       rbind (bounded_field d ''protect_head_tokens'' 4000 0 1000000) (\<lambda>head_tokens.
       rbind (checked_number ''eviction_batch_pct'' (get_or d ''eviction_batch_pct'' (PFloat (Fin (1 / 4))))) (\<lambda>pct.
       rbind (guard (1 / 100 \<le> pct \<and> pct \<le> 1) (ValueError ''eviction_batch_pct'')) (\<lambda>_.
       (case (plain_list (get_or d ''head'' (PList [])), plain_list (get_or d ''body'' (PList []))) of
          (Some hs, Some bs) \<Rightarrow>
            if max_window_frames < length hs + length bs
            then Inl (ValueError ''persisted rolling window contains too many frames'')
            else rbind (parse_frames now meta_bytes hs) (\<lambda>hd.
                 rbind (parse_frames now meta_bytes bs) (\<lambda>body.
                   Inr \<lparr>wi_budget = budget, wi_head_tokens = head_tokens, wi_tail_turns = tail, wi_batch = pct,
                     wi_head = hd, wi_body = body, wi_next_turn = last_turn body + 1\<rparr>))
        | _ \<Rightarrow> Inl (ValueError ''persisted rolling window frames must be arrays'')))))))
   | _ \<Rightarrow> Inl (ValueError ''persisted rolling window root must be an object''))"

text \<open>What \<open>load\<close> finds at the path: no file, bytes that are no JSON or cannot be read, or a JSON value.\<close>

datatype window_file = No_file | Unreadable | Json pyval

definition load_caught :: "py_exn \<Rightarrow> bool" where
  "load_caught e = (case e of ValueError _ \<Rightarrow> True | TypeError _ \<Rightarrow> True | OSError _ \<Rightarrow> True | _ \<Rightarrow> False)"

definition load_window :: "real \<Rightarrow> ((string, pyval) dict \<Rightarrow> nat option) \<Rightarrow> int \<Rightarrow> window_file \<Rightarrow> window res" where
  "load_window now meta_bytes dflt file = (case file of
     Json v \<Rightarrow> (case parse_window now meta_bytes dflt v of
         Inr w \<Rightarrow> Inr w
       | Inl e \<Rightarrow> if load_caught e then Inr (new_window dflt) else Inl e)
   | _ \<Rightarrow> Inr (new_window dflt))"

text \<open>\<open>json_bytes\<close> is the encoded size of the saved object, \<open>None\<close> when \<open>json.dumps\<close> or the encoding raises.\<close>

definition save_window :: "(pyval \<Rightarrow> nat option) \<Rightarrow> write_outcome \<Rightarrow> window \<Rightarrow> window_file \<Rightarrow> unit res \<times> window_file" where
  "save_window json_bytes out w file = (case json_bytes (window_dict w) of
     None \<Rightarrow> (Inl (ValueError ''not JSON''), file)
   | Some n \<Rightarrow> if 16 * 1024 * 1024 < n then (Inl (ValueError ''rolling window exceeds persisted bytes''), file)
       else (case out of
         Not_written \<Rightarrow> (Inl (OSError ''write''), file)
       | Written \<Rightarrow> (Inr (), Json (window_dict w))
       | Written_unconfirmed \<Rightarrow> (Inl (OSError ''write''), Json (window_dict w))))"

section \<open>Groups keep the frames\<close>

definition grouped :: "grouping \<Rightarrow> frame multiset" where
  "grouped p = mset (concat (fst p)) + mset (concat (dvals (snd p)))"

lemma dvals_simps [simp]: "dvals [] = []" "dvals (p # d) = snd p # dvals d"
  by (simp_all add: dvals_def)

lemma pending_dset: "mset (concat (dvals (dset k v d))) \<subseteq># mset v + mset (concat (dvals d))"
proof (induction d)
  case (Cons p d)
  show ?case
  proof (cases "fst p = k")
    case False
    have "mset (snd p) + mset (concat (dvals (dset k v d))) \<subseteq># mset (snd p) + (mset v + mset (concat (dvals d)))"
      using Cons by (rule subset_mset.add_left_mono)
    with False show ?thesis by (simp only: dset.simps dvals_simps concat.simps mset_append if_False add.left_commute)
  qed simp
qed simp

lemma pending_dset_new: "k \<notin> fst ` set d \<Longrightarrow> mset (concat (dvals (dset k v d))) = mset v + mset (concat (dvals d))"
  by (simp add: dset_absent dvals_def)

lemma pending_ddel:
  "dict_ok d \<Longrightarrow> map_of d k = Some g \<Longrightarrow> mset (concat (dvals (ddel k d))) + mset g = mset (concat (dvals d))"
proof (induction d)
  case (Cons p d)
  show ?case
  proof (cases "fst p = k")
    case True
    with Cons.prems(1) have "k \<notin> fst ` set d" by (simp add: dict_ok_def)
    then have "ddel k d = d" by (rule ddel_absent)
    with True Cons.prems(2) show ?thesis by (simp add: ddel_def)
  next
    case False
    with Cons show ?thesis by (auto simp: ddel_def dict_ok_def ac_simps)
  qed
qed simp

text \<open>The call identifiers of the tool calls among the frames.\<close>

definition call_keys :: "frame list \<Rightarrow> string list" where
  "call_keys fs = concat (map (\<lambda>f. case (fr_kind f, call_key f) of (Tool_call, Some c) \<Rightarrow> [c] | _ \<Rightarrow> []) fs)"

lemma group_step_cases:
  obtains (open_group) c where "fr_kind f = Tool_call" "call_key f = Some c" "group_step (out, pend) f = (out, dset c [f] pend)"
      "call_keys (f # fs) = c # call_keys fs"
  | (close_group) c g where "fr_kind f = Tool_result" "call_key f = Some c" "map_of pend c = Some g"
      "group_step (out, pend) f = (out @ [g @ [f]], ddel c pend)" "call_keys (f # fs) = call_keys fs"
  | (single) "group_step (out, pend) f = (out @ [[f]], pend)" "call_keys (f # fs) = call_keys fs"
      "\<not> (fr_kind f = Tool_call \<and> call_key f \<noteq> None)"
      "\<forall>c. fr_kind f = Tool_result \<and> call_key f = Some c \<longrightarrow> map_of pend c = None"
  by (cases "fr_kind f"; cases "call_key f"; cases "map_of pend (the (call_key f))") (auto simp: call_keys_def)

declare group_step.simps [simp del]

lemma group_step_ok: "dict_ok pend \<Longrightarrow> dict_ok (snd (group_step (out, pend) f))"
  by (rule group_step_cases [of f out pend "[]"]) auto

lemma group_step_le:
  assumes "dict_ok pend"
  shows "grouped (group_step (out, pend) f) \<subseteq># add_mset f (grouped (out, pend))"
proof (cases rule: group_step_cases [of f out pend "[]"])
  case (open_group c)
  have "mset (concat out) + mset (concat (dvals (dset c [f] pend))) \<subseteq># mset (concat out) + (mset [f] + mset (concat (dvals pend)))"
    using pending_dset by (rule subset_mset.add_left_mono)
  then show ?thesis using open_group by (simp add: grouped_def)
next
  case (close_group c g)
  have "grouped (group_step (out, pend) f) = add_mset f (grouped (out, pend))"
    unfolding close_group(4) grouped_def fst_conv snd_conv pending_ddel [OF assms close_group(3), symmetric] by simp
  then show ?thesis by simp
next
  case single
  then show ?thesis by (simp add: grouped_def)
qed

lemma fold_groups_le:
  "dict_ok pend \<Longrightarrow> grouped (foldl group_step (out, pend) fs) \<subseteq># mset fs + grouped (out, pend)"
proof (induction fs arbitrary: out pend)
  case (Cons f fs)
  obtain out' pend' where s: "group_step (out, pend) f = (out', pend')" by (rule prod.exhaust)
  with group_step_ok [OF Cons.prems, of out f] have "dict_ok pend'" by simp
  from Cons.IH [OF this, of out'] subset_mset.add_left_mono [OF group_step_le [OF Cons.prems, of out f], of "mset fs"]
  have "grouped (foldl group_step (out', pend') fs) \<subseteq># mset fs + add_mset f (grouped (out, pend))"
    unfolding s by (rule subset_mset.order_trans)
  then show ?case by (simp add: s)
qed simp

lemma atomic_groups_le: "mset (concat (atomic_groups fs)) \<subseteq># mset fs"
  using fold_groups_le [of "[]" "[]" fs] by (auto simp: atomic_groups_def grouped_def split: prod.splits)

text \<open>No frame is lost when no call identifier is opened twice.\<close>

lemma fold_groups_eq:
  "dict_ok pend \<Longrightarrow> distinct (call_keys fs) \<Longrightarrow> set (call_keys fs) \<inter> fst ` set pend = {}
     \<Longrightarrow> grouped (foldl group_step (out, pend) fs) = mset fs + grouped (out, pend)"
proof (induction fs arbitrary: out pend)
  case (Cons f fs)
  show ?case
  proof (rule group_step_cases [of f out pend fs])
    fix c assume f: "group_step (out, pend) f = (out, dset c [f] pend)" "call_keys (f # fs) = c # call_keys fs"
    then have c: "c \<notin> fst ` set pend" using Cons.prems(3) by simp
    have "grouped (foldl group_step (out, dset c [f] pend) fs) = mset fs + grouped (out, dset c [f] pend)"
      using Cons.prems f(2) by (intro Cons.IH) auto
    with f pending_dset_new [OF c, of "[f]"] show ?thesis by (simp add: grouped_def)
  next
    fix c g assume f: "map_of pend c = Some g" "group_step (out, pend) f = (out @ [g @ [f]], ddel c pend)"
      "call_keys (f # fs) = call_keys fs"
    have "grouped (foldl group_step (out @ [g @ [f]], ddel c pend) fs) = mset fs + grouped (out @ [g @ [f]], ddel c pend)"
      using Cons.prems f(3) by (intro Cons.IH) auto
    with f pending_ddel [OF Cons.prems(1) f(1)] show ?thesis by (simp add: grouped_def ac_simps)
  next
    assume f: "group_step (out, pend) f = (out @ [[f]], pend)" "call_keys (f # fs) = call_keys fs"
    with Cons.prems Cons.IH [of pend "out @ [[f]]"] show ?thesis by (simp add: grouped_def)
  qed
qed simp

lemma atomic_groups_eq: "distinct (call_keys fs) \<Longrightarrow> mset (concat (atomic_groups fs)) = mset fs"
  using fold_groups_eq [of "[]" fs "[]"] by (auto simp: atomic_groups_def grouped_def split: prod.splits)

section \<open>Groups keep calls with their results\<close>

text \<open>A conversation is well paired when every identified tool result follows an open call with its identifier.\<close>

fun well_paired :: "string list \<Rightarrow> frame list \<Rightarrow> bool" where
  "well_paired op [] = True"
| "well_paired op (f # fs) = (case (fr_kind f, call_key f) of
     (Tool_call, Some c) \<Rightarrow> well_paired (c # op) fs
   | (Tool_result, Some c) \<Rightarrow> c \<in> set op \<and> well_paired (removeAll c op) fs
   | _ \<Rightarrow> well_paired op fs)"

fun whole :: "frame list \<Rightarrow> bool" where
  "whole [f] = (\<not> (fr_kind f = Tool_result \<and> call_key f \<noteq> None))"
| "whole [f, r] = (fr_kind f = Tool_call \<and> fr_kind r = Tool_result \<and> call_key f \<noteq> None \<and> call_key r = call_key f)"
| "whole _ = False"

lemma well_paired_whole: "whole g \<Longrightarrow> (\<And>ids. well_paired ids fs) \<Longrightarrow> well_paired op (g @ fs)"
  by (cases g rule: whole.cases) (auto split: frame_kind.splits option.splits)

lemma well_paired_groups: "list_all whole gs \<Longrightarrow> well_paired op (concat gs)"
  by (induction gs arbitrary: op) (auto intro: well_paired_whole)

definition open_calls :: "(string, frame list) dict \<Rightarrow> bool" where
  "open_calls pend \<longleftrightarrow>
     (\<forall>c g. map_of pend c = Some g \<longrightarrow> (\<exists>f. g = [f] \<and> fr_kind f = Tool_call \<and> call_key f = Some c))"

lemma fold_whole:
  "list_all whole out \<Longrightarrow> dict_ok pend \<Longrightarrow> open_calls pend \<Longrightarrow> well_paired op fs \<Longrightarrow> set op = dom (map_of pend)
     \<Longrightarrow> foldl group_step (out, pend) fs = (out', pend')
     \<Longrightarrow> list_all whole out' \<and> dict_ok pend' \<and> open_calls pend'"
proof (induction fs arbitrary: out pend op)
  case (Cons f fs)
  show ?case
  proof (cases rule: group_step_cases [of f out pend fs])
    case (open_group c)
    have "open_calls (dset c [f] pend)" using Cons.prems(3) open_group by (auto simp: open_calls_def)
    moreover have "well_paired (c # op) fs" using Cons.prems(4) open_group by simp
    moreover have "set (c # op) = dom (map_of (dset c [f] pend))" using Cons.prems(5) by auto
    moreover have "dict_ok (dset c [f] pend)" using Cons.prems(2) by (rule dict_ok_dset)
    moreover have "foldl group_step (out, dset c [f] pend) fs = (out', pend')" using Cons.prems(6) open_group by simp
    ultimately show ?thesis using Cons.IH [OF Cons.prems(1)] by blast
  next
    case (close_group c g)
    obtain h where "g = [h]" "fr_kind h = Tool_call" "call_key h = Some c"
      using Cons.prems(3) close_group(3) unfolding open_calls_def by blast
    then have "list_all whole (out @ [g @ [f]])" using Cons.prems(1) close_group(1,2) by simp
    moreover have "open_calls (ddel c pend)" using Cons.prems(3) by (auto simp: open_calls_def)
    moreover have "well_paired (removeAll c op) fs" using Cons.prems(4) close_group by simp
    moreover have "set (removeAll c op) = dom (map_of (ddel c pend))" using Cons.prems(5) by auto
    moreover have "dict_ok (ddel c pend)" using Cons.prems(2) by (rule dict_ok_ddel)
    moreover have "foldl group_step (out @ [g @ [f]], ddel c pend) fs = (out', pend')"
      using Cons.prems(6) close_group by simp
    ultimately show ?thesis using Cons.IH by blast
  next
    case single
    have "whole [f]"
    proof -
      have "\<not> (fr_kind f = Tool_result \<and> call_key f = Some c)" for c
        using single(4) Cons.prems(4,5) by auto
      then show ?thesis by (cases "call_key f") auto
    qed
    moreover have "well_paired op fs"
      using single(3) \<open>whole [f]\<close> Cons.prems(4) by (auto split: frame_kind.splits option.splits)
    ultimately show ?thesis using Cons.IH [of "out @ [[f]]" pend op] Cons.prems single by simp
  qed
qed auto

lemma atomic_groups_whole:
  assumes "well_paired [] fs"
  shows "list_all whole (atomic_groups fs)"
proof -
  obtain out pend where f: "foldl group_step ([], []) fs = (out, pend)" by (rule prod.exhaust)
  from fold_whole [OF _ _ _ assms _ f] have o: "list_all whole out" "dict_ok pend" "open_calls pend"
    by (auto simp: open_calls_def)
  have "whole g" if "g \<in> set (dvals pend)" for g
  proof -
    from that obtain c where "map_of pend c = Some g" using o(2) by (auto simp: dvals_def dict_ok_map_of)
    with o(3) obtain f where "g = [f]" "fr_kind f = Tool_call" by (auto simp: open_calls_def)
    then show ?thesis by simp
  qed
  with o(1) show ?thesis unfolding atomic_groups_def f prod.case list_all_append by (auto simp: list_all_iff)
qed

lemma list_all_filterI: "list_all P xs \<Longrightarrow> list_all P (filter Q xs)"
  by (simp add: list_all_iff)

lemma take_groups_append: "take_groups t freed gs = (e, r) \<Longrightarrow> e @ r = gs"
  by (induction t freed gs arbitrary: e rule: take_groups.induct) (auto split: if_splits prod.splits)

lemma take_groups_enough:
  "take_groups t freed gs = (e, r) \<Longrightarrow> r = [] \<or> t \<le> freed + tokens_of (concat e)"
proof (induction t freed gs arbitrary: e rule: take_groups.induct)
  case (2 t freed g gs)
  then show ?case by (auto simp: tokens_of_def split: if_splits prod.splits)
qed simp

section \<open>Frames, tokens and call identifiers as multisets\<close>

lemma tokens_of_mset: "tokens_of fs = sum_mset (image_mset token_estimate (mset fs))"
  unfolding tokens_of_def by (metis mset_map sum_mset_sum_list)

lemma token_estimate_pos: "1 \<le> token_estimate f"
  by (simp add: token_estimate_def)

lemma tokens_of_nonneg: "0 \<le> tokens_of fs"
  unfolding tokens_of_def by (intro sum_list_nonneg) (auto simp: token_estimate_def)

lemma tokens_of_append [simp]: "tokens_of (xs @ ys) = tokens_of xs + tokens_of ys"
  by (simp add: tokens_of_def)

lemma tokens_of_le:
  assumes "mset xs \<subseteq># mset ys"
  shows "tokens_of xs \<le> tokens_of ys"
proof -
  obtain zs where "mset ys = mset (xs @ zs)"
    using assms by (metis ex_mset mset_append subset_mset.less_eqE)
  then have "tokens_of ys = tokens_of xs + tokens_of zs" unfolding tokens_of_mset by simp
  then show ?thesis using tokens_of_nonneg [of zs] by simp
qed

lemma mset_partition: "mset (concat (filter P gs)) + mset (concat (filter (\<lambda>g. \<not> P g) gs)) = mset (concat gs)"
  by (induction gs) (auto simp: add_ac)

definition opens_call :: "frame \<Rightarrow> bool" where
  "opens_call f \<longleftrightarrow> fr_kind f = Tool_call \<and> call_key f \<noteq> None"

lemma call_keys_filter: "call_keys fs = map (\<lambda>f. the (call_key f)) (filter opens_call fs)"
proof (induction fs)
  case (Cons f fs)
  then show ?case by (cases "fr_kind f"; cases "call_key f") (auto simp: call_keys_def opens_call_def)
qed (simp add: call_keys_def)

lemma distinct_sub_mset: "mset xs \<subseteq># mset ys \<Longrightarrow> distinct ys \<Longrightarrow> distinct xs"
  by (metis distinct_append ex_mset mset_append mset_eq_imp_distinct_iff subset_mset.less_eqE)

lemma distinct_call_keys:
  assumes "mset xs \<subseteq># mset ys" "distinct (call_keys ys)"
  shows "distinct (call_keys xs)"
proof (rule distinct_sub_mset [OF _ assms(2)])
  show "mset (call_keys xs) \<subseteq># mset (call_keys ys)"
    unfolding call_keys_filter mset_map mset_filter
    by (intro image_mset_subseteq_mono multiset_filter_mono assms(1))
qed

section \<open>What the operations do to the conversation\<close>

definition archived :: "archive \<Rightarrow> frame multiset" where
  "archived ar = mset (concat (dvals ar))"

lemma write_spill_effect:
  assumes "sp_path io \<notin> fst ` set ar" "write_spill io fs ar = (r, ar')"
  shows "archived ar \<subseteq># archived ar'" and "is_ok r \<Longrightarrow> archived ar' = archived ar + mset fs"
    and "fst ` set ar' \<subseteq> insert (sp_path io) (fst ` set ar)"
    and "set_mset (archived ar') \<subseteq> set_mset (archived ar) \<union> set fs"
proof -
  have c: "ar' = ar \<and> \<not> is_ok r \<or> ar' = dset (sp_path io) fs ar"
    using assms(2) by (auto simp: write_spill_def Let_def split: if_splits)
  have d: "archived (dset (sp_path io) fs ar) = archived ar + mset fs"
    unfolding archived_def pending_dset_new [OF assms(1)] by (rule add.commute)
  show "archived ar \<subseteq># archived ar'" using c d by auto
  show "is_ok r \<Longrightarrow> archived ar' = archived ar + mset fs" using c d by auto
  show "fst ` set ar' \<subseteq> insert (sp_path io) (fst ` set ar)"
    using c fst_set_dset [of "sp_path io" fs ar] by (metis order_refl subset_insertI)
  show "set_mset (archived ar') \<subseteq> set_mset (archived ar) \<union> set fs" using c d by auto
qed

text \<open>
  One operation that takes frames out of the body: the new body has no frame that was not there, and every frame of the
  old body is kept or archived, when no call identifier is open twice.
\<close>

definition window_moves :: "window \<times> archive \<Rightarrow> window \<times> archive \<Rightarrow> bool" where
  "window_moves p q \<longleftrightarrow> (case (p, q) of ((w, ar), (w', ar')) \<Rightarrow>
     mset (wi_body w') \<subseteq># mset (wi_body w) \<and> archived ar \<subseteq># archived ar'
     \<and> (distinct (call_keys (wi_body w)) \<longrightarrow> mset (wi_body w) + archived ar \<subseteq># mset (wi_body w') + archived ar')
     \<and> set_mset (archived ar') \<subseteq> set_mset (archived ar) \<union> set (wi_body w)
     \<and> (well_paired [] (wi_body w) \<longrightarrow> well_paired [] (wi_body w'))
     \<and> wi_head w' = wi_head w \<and> wi_budget w' = wi_budget w \<and> wi_tail_turns w' = wi_tail_turns w)"

lemma window_moves_refl: "window_moves p p"
  by (cases p) (simp add: window_moves_def)

lemma window_moves_trans:
  assumes "window_moves p q" "window_moves q r"
  shows "window_moves p r"
proof -
  obtain w ar w1 ar1 w2 ar2 where p: "p = (w, ar)" "q = (w1, ar1)" "r = (w2, ar2)" by (metis prod.exhaust)
  have b: "mset (wi_body w1) \<subseteq># mset (wi_body w)" "mset (wi_body w2) \<subseteq># mset (wi_body w1)"
    using assms by (auto simp: window_moves_def p)
  have "set (wi_body w1) \<subseteq> set (wi_body w)" using b(1) by (metis set_mset_mono set_mset_mset)
  moreover have "distinct (call_keys (wi_body w1))" if "distinct (call_keys (wi_body w))"
    using distinct_call_keys [OF b(1) that] .
  ultimately show ?thesis using assms by (auto simp: window_moves_def p intro: subset_mset.order_trans)
qed

lemma window_moves_paired: "window_moves (w, ar) q \<Longrightarrow> well_paired [] (wi_body w) \<Longrightarrow> well_paired [] (wi_body (fst q))"
  by (cases q) (simp add: window_moves_def)

lemma window_moves_fail:
  "sp_path io \<notin> fst ` set ar \<Longrightarrow> write_spill io fs ar = (r, ar') \<Longrightarrow> set fs \<subseteq> set (wi_body w) \<Longrightarrow> window_moves (w, ar) (w, ar')"
  using write_spill_effect [of io ar fs r ar'] by (auto simp: window_moves_def intro: subset_mset.add_left_mono)

lemma window_moves_spill:
  assumes "sp_path io \<notin> fst ` set ar" "write_spill io fs ar = (Inr path, ar')"
    and "mset (concat keep) + mset fs = mset (concat (atomic_groups (wi_body w)))"
    and "set keep \<subseteq> set (atomic_groups (wi_body w))"
  shows "window_moves (w, ar) (w\<lparr>wi_body := concat keep\<rparr>, ar')"
proof -
  have a: "archived ar' = archived ar + mset fs" using write_spill_effect(2) [OF assms(1,2)] by simp
  have le: "mset (concat keep) + mset fs \<subseteq># mset (wi_body w)" unfolding assms(3) by (rule atomic_groups_le)
  have "set fs \<subseteq> set (wi_body w)" using set_mset_mono [OF le] by auto
  moreover have "mset (concat keep) \<subseteq># mset (wi_body w)" using le by (meson mset_subset_eq_add_left subset_mset.order_trans)
  moreover have "mset (wi_body w) + archived ar \<subseteq># mset (concat keep) + archived ar'" if "distinct (call_keys (wi_body w))"
    using atomic_groups_eq [OF that] unfolding a assms(3) [symmetric] by (simp add: add_ac)
  moreover have "well_paired [] (concat keep)" if "well_paired [] (wi_body w)"
    using atomic_groups_whole [OF that] assms(4) by (intro well_paired_groups) (auto simp: list_all_iff)
  ultimately show ?thesis by (auto simp: window_moves_def a)
qed

lemma evict_window_moves:
  assumes "sp_path io \<notin> fst ` set ar" "evict_if_needed io (w, ar) = (r, q)"
  shows "window_moves (w, ar) q"
proof -
  let ?ids = "protected_turns w" and ?groups = "atomic_groups (wi_body w)"
  let ?tail = "filter (group_protected ?ids) ?groups" and ?mid = "filter (\<lambda>g. \<not> group_protected ?ids g) ?groups"
  obtain out rest where t: "take_groups (eviction_target w) 0 ?mid = (out, rest)" by (rule prod.exhaust)
  obtain x ar' where s: "write_spill io (concat out) ar = (x, ar')" by (rule prod.exhaust)
  have e: "out @ rest = ?mid" using take_groups_append [OF t] .
  have "mset (concat (rest @ ?tail)) + mset (concat out) = mset (concat (?mid)) + mset (concat ?tail)"
    unfolding e [symmetric] by (simp add: add_ac)
  then have m: "mset (concat (rest @ ?tail)) + mset (concat out) = mset (concat ?groups)"
    using mset_partition [of "group_protected ?ids" ?groups] by (simp only: add.commute)
  have sub: "set (rest @ ?tail) \<subseteq> set ?groups" using e by (metis Un_subset_iff filter_is_subset set_append)
  have "mset (concat out) \<subseteq># mset (wi_body w)"
    using m atomic_groups_le by (metis mset_subset_eq_add_right subset_mset.order_trans)
  then have so: "set (concat out) \<subseteq> set (wi_body w)" by (metis set_mset_mono set_mset_mset)
  have ev: "evict_if_needed io (w, ar) = (if \<not> needs_eviction w then (Inr None, w, ar)
      else if concat out = [] then (Inr None, w, ar)
      else case x of Inl err \<Rightarrow> (Inl err, w, ar')
        | Inr path \<Rightarrow> (Inr (Some \<lparr>ev_frames = concat out, ev_path = path, ev_freed = tokens_of (concat out)\<rparr>),
            w\<lparr>wi_body := concat (rest @ ?tail)\<rparr>, ar'))"
    unfolding evict_if_needed_def Let_def prod.case t s concat_append by (cases x) simp_all
  show ?thesis
  proof (cases "needs_eviction w \<and> concat out \<noteq> []")
    case False
    then have "q = (w, ar)" using assms(2) unfolding ev by (metis prod.inject)
    then show ?thesis by (simp add: window_moves_refl)
  next
    case True
    show ?thesis
    proof (cases x)
      case (Inl err)
      then have "q = (w, ar')" using assms(2) True unfolding ev by (simp del: concat_eq_Nil_conv)
      then show ?thesis using window_moves_fail [OF assms(1) s so] by simp
    next
      case (Inr path)
      then have "q = (w\<lparr>wi_body := concat (rest @ ?tail)\<rparr>, ar')" using assms(2) True unfolding ev by (simp del: concat_eq_Nil_conv)
      then show ?thesis using window_moves_spill [OF assms(1) s [unfolded Inr] m sub] by simp
    qed
  qed
qed

lemma compact_moves:
  assumes "sp_path io1 \<notin> fst ` set ar" "sp_path io2 \<notin> insert (sp_path io1) (fst ` set ar)"
    and c: "compact_solved_turns io1 io2 (w, ar) = (r, q)"
  shows "window_moves (w, ar) q"
proof -
  define old where "old = (\<lambda>g. \<not> group_protected (protected_turns w) g \<and> has_tool g)"
  define groups where "groups = atomic_groups (wi_body w)"
  define evicted where "evicted = concat (filter old groups)"
  define keep where "keep = filter (\<lambda>g. \<not> old g) groups"
  define rest where "rest = (\<lambda>q. case evict_if_needed io2 q of (Inl e, q1) \<Rightarrow> (Inl e, q1) | (Inr x, q1) \<Rightarrow> (Inr (length evicted), q1))"
  have ev: "window_moves p q" if f: "sp_path io2 \<notin> fst ` set (snd p)" and rp: "rest p = (r, q)" for p q r
  proof -
    obtain w ar where p: "p = (w, ar)" by (rule prod.exhaust)
    obtain x where "evict_if_needed io2 (w, ar) = (x, q)"
      using rp unfolding p by (auto simp: rest_def split: prod.splits sum.splits)
    with evict_window_moves [of io2 ar w x q] f show ?thesis by (simp add: p)
  qed
  obtain x ar' where s: "write_spill io1 evicted ar = (x, ar')" by (rule prod.exhaust)
  have def: "compact_solved_turns io1 io2 (w, ar) = (if evicted = [] then rest (w, ar)
      else case x of Inl e \<Rightarrow> (Inl e, w, ar') | Inr path \<Rightarrow> rest (w\<lparr>wi_body := concat keep\<rparr>, ar'))"
    unfolding compact_solved_turns_def Let_def prod.case rest_def s [unfolded evicted_def old_def groups_def]
      evicted_def keep_def old_def groups_def by (cases x) simp_all
  have m: "mset (concat keep) + mset evicted = mset (concat groups)"
    using mset_partition [of old groups] by (simp add: keep_def evicted_def add.commute)
  have "mset evicted \<subseteq># mset (wi_body w)"
    using m atomic_groups_le unfolding groups_def by (metis mset_subset_eq_add_right subset_mset.order_trans)
  then have se: "set evicted \<subseteq> set (wi_body w)" by (metis set_mset_mono set_mset_mset)
  have p2: "sp_path io2 \<notin> fst ` set ar" "sp_path io2 \<notin> fst ` set ar'"
    using assms(2) write_spill_effect(3) [OF assms(1) s] by auto
  show ?thesis
  proof (cases "evicted = []")
    case True
    then show ?thesis using c ev [of "(w, ar)"] p2(1) unfolding def by simp
  next
    case False
    show ?thesis
    proof (cases x)
      case (Inl e)
      then show ?thesis using c False window_moves_fail [OF assms(1) s se] unfolding def by simp
    next
      case (Inr path)
      have "window_moves (w, ar) (w\<lparr>wi_body := concat keep\<rparr>, ar')"
        by (rule window_moves_spill [OF assms(1) s [unfolded Inr] m [unfolded groups_def]]) (simp add: keep_def groups_def)
      moreover have "window_moves (w\<lparr>wi_body := concat keep\<rparr>, ar') q"
        using c False Inr ev [of "(w\<lparr>wi_body := concat keep\<rparr>, ar')"] p2(2) unfolding def by simp
      ultimately show ?thesis by (rule window_moves_trans)
    qed
  qed
qed

lemma dump_moves:
  assumes "sp_path io \<notin> fst ` set ar" and d: "dump_to_sleep io half (w, ar) = (r, q)"
  shows "window_moves (w, ar) q"
proof -
  let ?groups = "atomic_groups (wi_body w)"
  define n where "n = (if half then max 1 (length ?groups div 2) else length ?groups)"
  obtain x ar' where s: "write_spill io (concat (take n ?groups)) ar = (x, ar')" by (rule prod.exhaust)
  have def: "dump_to_sleep io half (w, ar) = (if wi_body w = [] then (Inr None, w, ar)
      else if concat (take n ?groups) = [] then (Inr None, w, ar)
      else case x of Inl e \<Rightarrow> (Inl e, w, ar')
        | Inr path \<Rightarrow> (Inr (Some \<lparr>ev_frames = concat (take n ?groups), ev_path = path,
             ev_freed = tokens_of (concat (take n ?groups))\<rparr>), w\<lparr>wi_body := concat (drop n ?groups)\<rparr>, ar'))"
    unfolding dump_to_sleep_def Let_def prod.case n_def [symmetric] s by (cases x) simp_all
  have m: "mset (concat (drop n ?groups)) + mset (concat (take n ?groups)) = mset (concat ?groups)"
    by (metis append_take_drop_id concat_append mset_append add.commute)
  have "mset (concat (take n ?groups)) \<subseteq># mset (wi_body w)"
    using m atomic_groups_le by (metis mset_subset_eq_add_right subset_mset.order_trans)
  then have sd: "set (concat (take n ?groups)) \<subseteq> set (wi_body w)" by (metis set_mset_mono set_mset_mset)
  consider "q = (w, ar)" | e where "x = Inl e" "q = (w, ar')"
    | path where "x = Inr path" "q = (w\<lparr>wi_body := concat (drop n ?groups)\<rparr>, ar')"
    using d unfolding def by (cases x) (auto simp del: concat_eq_Nil_conv split: if_splits)
  then show ?thesis
  proof cases
    case 1
    then show ?thesis by (simp add: window_moves_refl)
  next
    case 2
    then show ?thesis using window_moves_fail [OF assms(1) s sd] by simp
  next
    case 3
    then show ?thesis using window_moves_spill [OF assms(1) s [unfolded 3(1)] m set_drop_subset] by simp
  qed
qed

section \<open>Histories of a window\<close>

text \<open>The third component collects every frame that was ever added to the body.\<close>

type_synonym wstate = "window \<times> archive \<times> frame list"

datatype window_op =
    Say real string "int option" "(string, pyval) dict"
  | Answer real string int "(string, pyval) dict"
  | Call real string string int "(string, pyval) dict"
  | Result real string string int "(string, pyval) dict"
  | Evict spill_io
  | Compact spill_io spill_io
  | Dump spill_io bool

definition with_added :: "window \<Rightarrow> archive \<Rightarrow> frame list \<Rightarrow> wstate" where
  "with_added w ar added = (w, ar, added @ [last (wi_body w)])"

fun window_step :: "wstate \<Rightarrow> window_op \<Rightarrow> wstate" where
  "window_step (w, ar, added) (Say now content turn meta) = with_added (add_user now content turn meta w) ar added"
| "window_step (w, ar, added) (Answer now content turn meta) = with_added (add_assistant now content turn meta w) ar added"
| "window_step (w, ar, added) (Call now cid content turn meta) = with_added (add_tool_call now cid content turn meta w) ar added"
| "window_step (w, ar, added) (Result now cid content turn meta) = with_added (add_tool_result now cid content turn meta w) ar added"
| "window_step (w, ar, added) (Evict io) = (case evict_if_needed io (w, ar) of (_, w', ar') \<Rightarrow> (w', ar', added))"
| "window_step (w, ar, added) (Compact io1 io2) = (case compact_solved_turns io1 io2 (w, ar) of (_, w', ar') \<Rightarrow> (w', ar', added))"
| "window_step (w, ar, added) (Dump io half) = (case dump_to_sleep io half (w, ar) of (_, w', ar') \<Rightarrow> (w', ar', added))"

text \<open>
  What the environment must provide: a call identifier that no tool call of the body has, open or closed, and archive names
  that are not taken (a time stamp with a random suffix).
\<close>

fun window_fresh :: "wstate \<Rightarrow> window_op \<Rightarrow> bool" where
  "window_fresh (w, ar, added) (Call now cid content turn meta) = (cid \<notin> set (call_keys (wi_body w)))"
| "window_fresh (w, ar, added) (Evict io) = (sp_path io \<notin> fst ` set ar)"
| "window_fresh (w, ar, added) (Compact io1 io2) =
     (sp_path io1 \<notin> fst ` set ar \<and> sp_path io2 \<notin> fst ` set ar \<and> sp_path io1 \<noteq> sp_path io2)"
| "window_fresh (w, ar, added) (Dump io half) = (sp_path io \<notin> fst ` set ar)"
| "window_fresh s c = True"

inductive window_reach :: "wstate \<Rightarrow> bool" where
  wr_init: "window_reach (new_window budget, [], [])"
| wr_step: "window_reach s \<Longrightarrow> window_fresh s c \<Longrightarrow> window_reach (window_step s c)"

fun window_inv :: "wstate \<Rightarrow> bool" where
  "window_inv (w, ar, added) \<longleftrightarrow> distinct (call_keys (wi_body w))
     \<and> mset added \<subseteq># mset (wi_body w) + archived ar
     \<and> set (wi_body w) \<union> set_mset (archived ar) \<subseteq> set added"

lemma window_moves_inv: "window_inv (w, ar, added) \<Longrightarrow> window_moves (w, ar) (w', ar') \<Longrightarrow> window_inv (w', ar', added)"
  using distinct_call_keys [of "wi_body w'" "wi_body w"] set_mset_mono [of "mset (wi_body w')" "mset (wi_body w)"]
  by (auto simp: window_moves_def intro: subset_mset.order_trans)

lemma add_inv:
  assumes "window_inv (w, ar, added)" "wi_body w' = wi_body w @ [f]" "opens_call f \<longrightarrow> the (call_key f) \<notin> set (call_keys (wi_body w))"
  shows "window_inv (with_added w' ar added)"
  using assms by (auto simp: with_added_def call_keys_filter)

lemma window_step_inv:
  assumes inv: "window_inv (w, ar, added)" and fresh: "window_fresh (w, ar, added) c"
  shows "window_inv (window_step (w, ar, added) c)"
proof (cases c)
  case (Say now content turn meta)
  obtain t where "wi_body (add_user now content turn meta w) = wi_body w @ [\<lparr>fr_kind = User_frame, fr_content = content,
      fr_ts = now, fr_call = None, fr_turn = t, fr_meta = meta\<rparr>]"
    by (cases turn) (auto simp: add_user_def start_turn_def)
  from add_inv [OF inv this] Say show ?thesis by (simp add: opens_call_def del: window_inv.simps)
next
  case (Answer now content turn meta)
  have "wi_body (add_assistant now content turn meta w) = wi_body w @ [\<lparr>fr_kind = Assistant_frame, fr_content = content,
      fr_ts = now, fr_call = None, fr_turn = turn, fr_meta = meta\<rparr>]" by (simp add: add_assistant_def)
  from add_inv [OF inv this] Answer show ?thesis by (simp add: opens_call_def del: window_inv.simps)
next
  case (Call now cid content turn meta)
  have "wi_body (add_tool_call now cid content turn meta w) = wi_body w @ [\<lparr>fr_kind = Tool_call, fr_content = content,
      fr_ts = now, fr_call = Some cid, fr_turn = turn, fr_meta = meta\<rparr>]" by (simp add: add_tool_call_def)
  from add_inv [OF inv this] Call fresh show ?thesis by (simp add: opens_call_def call_key_def del: window_inv.simps)
next
  case (Result now cid content turn meta)
  have "wi_body (add_tool_result now cid content turn meta w) = wi_body w @ [\<lparr>fr_kind = Tool_result, fr_content = content,
      fr_ts = now, fr_call = Some cid, fr_turn = turn, fr_meta = meta\<rparr>]" by (simp add: add_tool_result_def)
  from add_inv [OF inv this] Result show ?thesis by (simp add: opens_call_def del: window_inv.simps)
next
  case (Evict io)
  obtain r w' ar' where e: "evict_if_needed io (w, ar) = (r, w', ar')" by (metis prod.exhaust)
  have "window_moves (w, ar) (w', ar')" using evict_window_moves [OF _ e] fresh Evict by simp
  with e Evict show ?thesis using window_moves_inv [OF inv] by (simp del: window_inv.simps)
next
  case (Compact io1 io2)
  obtain r w' ar' where e: "compact_solved_turns io1 io2 (w, ar) = (r, w', ar')" by (metis prod.exhaust)
  have "sp_path io1 \<notin> fst ` set ar" "sp_path io2 \<notin> insert (sp_path io1) (fst ` set ar)"
    using fresh Compact by simp_all metis
  from compact_moves [OF this e] have "window_moves (w, ar) (w', ar')" .
  with e Compact show ?thesis using window_moves_inv [OF inv] by (simp del: window_inv.simps)
next
  case (Dump io half)
  obtain r w' ar' where e: "dump_to_sleep io half (w, ar) = (r, w', ar')" by (metis prod.exhaust)
  have "window_moves (w, ar) (w', ar')" using dump_moves [OF _ e] fresh Dump by simp
  with e Dump show ?thesis using window_moves_inv [OF inv] by (simp del: window_inv.simps)
qed

lemma window_reach_inv: "window_reach s \<Longrightarrow> window_inv s"
proof (induction rule: window_reach.induct)
  case (wr_step s c)
  obtain w ar added where "s = (w, ar, added)" by (metis prod.exhaust)
  with wr_step window_step_inv show ?case by (simp del: window_inv.simps)
qed (simp add: new_window_def call_keys_def archived_def)

section \<open>Properties\<close>

text \<open>
  C30 The window loses nothing. In every history of messages, tool calls, evictions, compactions and dumps, with any
  failure of the archive writes, every frame that was ever added is in the body or in an archive file, as often as it was
  added, and neither holds a frame that was never added. A new tool call must not reuse the identifier of a tool call that is
  still in the body, answered or not: an eviction may move the two past each other, and the next grouping then drops a frame.\<close>

theorem window_loses_no_frame:
  assumes "window_reach (w, ar, added)"
  shows "mset added \<subseteq># mset (wi_body w) + mset (concat (dvals ar))
    \<and> set (wi_body w) \<union> set (concat (dvals ar)) = set added"
proof -
  have i: "mset added \<subseteq># mset (wi_body w) + archived ar" "set (wi_body w) \<union> set_mset (archived ar) \<subseteq> set added"
    using window_reach_inv [OF assms] by auto
  from set_mset_mono [OF i(1)] i show ?thesis by (auto simp: archived_def)
qed

text \<open>
  C31 A call stays with its result. In a conversation in which every identified tool result answers an open call, this
  still holds after an eviction, a compaction and a dump, whatever the archive writes do: no operation keeps a result
  whose call it took out.\<close>

theorem window_keeps_calls_with_results:
  assumes "well_paired [] (wi_body w)" and "sp_path io1 \<notin> fst ` set ar" "sp_path io2 \<notin> insert (sp_path io1) (fst ` set ar)"
  shows "well_paired [] (wi_body (fst (snd (evict_if_needed io1 (w, ar)))))
    \<and> well_paired [] (wi_body (fst (snd (compact_solved_turns io1 io2 (w, ar)))))
    \<and> well_paired [] (wi_body (fst (snd (dump_to_sleep io1 half (w, ar)))))"
proof (intro conjI)
  show "well_paired [] (wi_body (fst (snd (evict_if_needed io1 (w, ar)))))"
    using window_moves_paired [OF evict_window_moves [OF assms(2) surjective_pairing] assms(1)] .
  show "well_paired [] (wi_body (fst (snd (compact_solved_turns io1 io2 (w, ar)))))"
    using window_moves_paired [OF compact_moves [OF assms(2,3) surjective_pairing] assms(1)] .
  show "well_paired [] (wi_body (fst (snd (dump_to_sleep io1 half (w, ar)))))"
    using window_moves_paired [OF dump_moves [OF assms(2) surjective_pairing] assms(1)] .
qed

text \<open>
  C32 Eviction meets the budget. In a body in which no two tool calls have the same identifier, an eviction that does not raise leaves a window within its budget, unless nothing is left
  of the body but groups that touch one of the protected last turns; and it keeps the head and every frame of those
  turns. (With no protected turns configured the last turn is still protected.)\<close>

theorem eviction_meets_budget:
  assumes "distinct (call_keys (wi_body w))" and e: "evict_if_needed io (w, ar) = (Inr r, w', ar')"
  shows "(total_tokens w' \<le> wi_budget w
      \<or> (\<forall>f\<in>set (wi_body w'). \<exists>g\<in>set (atomic_groups (wi_body w)). f \<in> set g \<and> group_protected (protected_turns w) g))
    \<and> wi_head w' = wi_head w
    \<and> {f \<in> set (wi_body w). fr_turn f \<in> set (protected_turns w)} \<subseteq> set (wi_body w')"
proof -
  let ?ids = "protected_turns w" and ?groups = "atomic_groups (wi_body w)"
  let ?tail = "filter (group_protected ?ids) ?groups" and ?mid = "filter (\<lambda>g. \<not> group_protected ?ids g) ?groups"
  have eq: "mset (concat ?groups) = mset (wi_body w)" using atomic_groups_eq [OF assms(1)] .
  then have frames: "set (wi_body w) = (\<Union>g\<in>set ?groups. set g)" by (metis set_concat set_mset_mset)
  obtain out rest where t: "take_groups (eviction_target w) 0 ?mid = (out, rest)" by (rule prod.exhaust)
  have mid: "out @ rest = ?mid" using take_groups_append [OF t] .
  have tail: "{f \<in> set (wi_body w). fr_turn f \<in> set ?ids} \<subseteq> (\<Union>g\<in>set ?tail. set g)"
    using frames by (auto simp: group_protected_def list_ex_iff)
  consider (none) "\<not> needs_eviction w" "w' = w" | (empty) "needs_eviction w" "concat out = []" "w' = w"
    | (some_out) "concat out \<noteq> []" "w' = w\<lparr>wi_body := concat rest @ concat ?tail\<rparr>"
    using e t by (auto simp: evict_if_needed_def Let_def simp del: concat_eq_Nil_conv split: if_splits prod.splits sum.splits)
  then show ?thesis
  proof cases
    case none
    then show ?thesis by (auto simp: needs_eviction_def)
  next
    case empty
    have "0 < eviction_target w" using empty(1) by (auto simp: needs_eviction_def eviction_target_def)
    then have "rest = []" using take_groups_enough [OF t] empty(2) by (auto simp: tokens_of_def)
    then have "(\<Union>g\<in>set ?mid. set g) = {}" using mid empty(2) by (metis append_Nil2 set_concat set_empty)
    then have "\<exists>g\<in>set ?groups. f \<in> set g \<and> group_protected ?ids g" if "f \<in> set (wi_body w)" for f
      using that frames by fastforce
    then show ?thesis using empty(3) by blast
  next
    case some_out
    have "mset (concat out) + (mset (concat rest) + mset (concat ?tail)) = mset (wi_body w)"
      unfolding eq [symmetric] mset_partition [of "group_protected ?ids" ?groups, symmetric]
      by (simp add: mid [symmetric] add_ac)
    then have tok: "tokens_of (concat out) + tokens_of (wi_body w') = tokens_of (wi_body w)"
      using some_out(2) by (simp add: tokens_of_mset flip: image_mset_union sum_mset.union mset_append)
    show ?thesis
    proof (cases "rest = []")
      case True
      then show ?thesis using tail some_out(2) by auto
    next
      case False
      then have "eviction_target w \<le> tokens_of (concat out)" using take_groups_enough [OF t] by simp
      then have "total_tokens w' \<le> wi_budget w" using tok some_out(2) by (auto simp: total_tokens_def eviction_target_def)
      then show ?thesis using tail some_out(2) by auto
    qed
  qed
qed

section \<open>Reading back a saved window\<close>

definition frame_ok :: "((string, pyval) dict \<Rightarrow> nat option) \<Rightarrow> frame \<Rightarrow> bool" where
  "frame_ok meta_bytes f \<longleftrightarrow> length (fr_content f) \<le> max_content_chars
     \<and> (case fr_call f of Some c \<Rightarrow> length c \<le> 512 | None \<Rightarrow> True) \<and> 0 \<le> fr_turn f \<and> fr_turn f \<le> 2147483647
     \<and> (case meta_bytes (fr_meta f) of Some n \<Rightarrow> n \<le> 262144 | None \<Rightarrow> False)"

definition window_ok :: "((string, pyval) dict \<Rightarrow> nat option) \<Rightarrow> window \<Rightarrow> bool" where
  "window_ok meta_bytes w \<longleftrightarrow> 1 \<le> wi_budget w \<and> wi_budget w \<le> 4000000 \<and> 0 \<le> wi_tail_turns w \<and> wi_tail_turns w \<le> 1000
     \<and> 0 \<le> wi_head_tokens w \<and> wi_head_tokens w \<le> 1000000 \<and> 1 / 100 \<le> wi_batch w \<and> wi_batch w \<le> 1
     \<and> length (wi_head w) + length (wi_body w) \<le> max_window_frames
     \<and> list_all (frame_ok meta_bytes) (wi_head w @ wi_body w)"

text \<open>The failures of the parts: the exception is always one that \<open>load\<close> catches.\<close>

definition soft :: "'a res \<Rightarrow> bool" where
  "soft r \<longleftrightarrow> (case r of Inl e \<Rightarrow> load_caught e | Inr _ \<Rightarrow> False)"

lemma soft_rbind: "soft r \<Longrightarrow> soft (rbind r f)"
  by (cases r) (auto simp: soft_def)

lemma soft_simps [simp]: "soft (Inl (ValueError m))" "\<not> soft (Inr a)"
  by (simp_all add: soft_def load_caught_def)

lemma parse_kind_name [simp]: "parse_kind (PStr (kind_name k)) = Inr k"
  by (cases k) (simp_all add: parse_kind_def kind_name_def)

lemma parse_call_opt:
  "parse_call (opt_str x) = (case x of Some c \<Rightarrow> if length c \<le> 512 then Inr x else Inl (ValueError ''window frame call_id is invalid or too large'')
     | None \<Rightarrow> Inr None)"
  by (cases x) (simp_all add: parse_call_def opt_str_def)

lemma parse_meta_dict:
  "parse_meta meta_bytes (PDict m) = (case meta_bytes m of
     None \<Rightarrow> Inl (ValueError ''window frame metadata is not JSON serializable'')
   | Some n \<Rightarrow> if n \<le> 262144 then Inr m else Inl (ValueError ''window frame metadata is too large''))"
  by (cases "m = []") (auto simp: parse_meta_def por_def)

lemma frame_roundtrip:
  "(if frame_ok meta_bytes f then frame_from_dict now meta_bytes (frame_dict f) = Inr f
    else soft (frame_from_dict now meta_bytes (frame_dict f)))"
proof (cases "length (fr_content f) \<le> max_content_chars")
  case True
  then show ?thesis
    by (auto simp: frame_from_dict_def frame_dict_def frame_ok_def get_or_def parse_content_def checked_number_def
        parse_call_opt parse_turn_def parse_meta_dict split: option.splits)
next
  case False
  then show ?thesis by (simp add: frame_from_dict_def frame_dict_def frame_ok_def parse_content_def)
qed

lemma frames_roundtrip:
  "(if list_all (frame_ok meta_bytes) fs then parse_frames now meta_bytes (map frame_dict fs) = Inr fs
    else soft (parse_frames now meta_bytes (map frame_dict fs)))"
proof (induction fs)
  case (Cons f fs)
  then show ?case using frame_roundtrip [of meta_bytes f now] soft_rbind
    by (cases "frame_ok meta_bytes f"; cases "list_all (frame_ok meta_bytes) fs") (auto intro: soft_rbind)
qed simp

lemma window_roundtrip:
  "(if window_ok meta_bytes w
    then parse_window now meta_bytes dflt (window_dict w) = Inr (w\<lparr>wi_next_turn := last_turn (wi_body w) + 1\<rparr>)
    else soft (parse_window now meta_bytes dflt (window_dict w)))"
proof -
  define frames where "frames = rbind (parse_frames now meta_bytes (map frame_dict (wi_head w))) (\<lambda>hd.
      rbind (parse_frames now meta_bytes (map frame_dict (wi_body w))) (\<lambda>body.
        Inr \<lparr>wi_budget = wi_budget w, wi_head_tokens = wi_head_tokens w, wi_tail_turns = wi_tail_turns w,
          wi_batch = wi_batch w, wi_head = hd, wi_body = body, wi_next_turn = last_turn body + 1\<rparr>))"
  have f: "if list_all (frame_ok meta_bytes) (wi_head w @ wi_body w)
      then frames = Inr (w\<lparr>wi_next_turn := last_turn (wi_body w) + 1\<rparr>) else soft frames"
    using frames_roundtrip [of meta_bytes "wi_head w" now] frames_roundtrip [of meta_bytes "wi_body w" now]
    by (cases "list_all (frame_ok meta_bytes) (wi_head w)"; cases "list_all (frame_ok meta_bytes) (wi_body w)")
      (auto simp: frames_def intro: soft_rbind)
  have "parse_window now meta_bytes dflt (window_dict w) = (
      if \<not> (1 \<le> wi_budget w \<and> wi_budget w \<le> 4000000) then Inl (ValueError ''persisted rolling window field is out of range'')
      else if \<not> (0 \<le> wi_tail_turns w \<and> wi_tail_turns w \<le> 1000) then Inl (ValueError ''persisted rolling window field is out of range'')
      else if \<not> (0 \<le> wi_head_tokens w \<and> wi_head_tokens w \<le> 1000000) then Inl (ValueError ''persisted rolling window field is out of range'')
      else if \<not> (1 / 100 \<le> wi_batch w \<and> wi_batch w \<le> 1) then Inl (ValueError ''eviction_batch_pct'')
      else if max_window_frames < length (wi_head w) + length (wi_body w)
      then Inl (ValueError ''persisted rolling window contains too many frames'')
      else frames)"
    by (simp add: parse_window_def window_dict_def bounded_field_def get_or_def checked_number_def plain_list_def guard_def
        frames_def)
  with f show ?thesis by (auto simp: window_ok_def)
qed

text \<open>
  C33 A saved window comes back exactly when it is within the limits of the reader. What \<open>load\<close> makes of the file
  that \<open>save\<close> wrote is the saved window, with the turn counter after its last turn, if every frame and setting is within
  the limits that reading imposes; otherwise it is an empty window: the writer does not impose these limits.\<close>

theorem saved_window_read_back:
  assumes "save_window json_bytes out w old = (Inr (), file)"
  shows "load_window now meta_bytes dflt file
    = (if window_ok meta_bytes w then Inr (w\<lparr>wi_next_turn := last_turn (wi_body w) + 1\<rparr>) else Inr (new_window dflt))"
proof -
  have "file = Json (window_dict w)"
    using assms by (auto simp: save_window_def split: option.splits if_splits write_outcome.splits)
  with window_roundtrip [of meta_bytes w now dflt] show ?thesis
    by (auto simp: load_window_def soft_def split: if_splits sum.splits)
qed

section \<open>Examples\<close>

definition demo_frame :: "frame_kind \<Rightarrow> string option \<Rightarrow> int \<Rightarrow> frame" where
  "demo_frame k c t = \<lparr>fr_kind = k, fr_content = ''12345678'', fr_ts = 0, fr_call = c, fr_turn = t, fr_meta = []\<rparr>"

definition demo_spill :: "string \<Rightarrow> spill_io" where
  "demo_spill path = \<lparr>sp_path = path, sp_dir_ok = True, sp_frames = Written, sp_sidecar = Written\<rparr>"

definition demo_window :: window where
  "demo_window = \<lparr>wi_budget = 6, wi_head_tokens = 4000, wi_tail_turns = 1, wi_batch = 1 / 4, wi_head = [],
     wi_body = [demo_frame Tool_call (Some ''c'') 1, demo_frame Tool_result (Some ''c'') 1, demo_frame User_frame None 2,
       demo_frame Assistant_frame None 2], wi_next_turn = 3\<rparr>"

lemmas demo_window_defs = demo_window_def demo_frame_def demo_spill_def

lemma demo_evict:
  "evict_if_needed (demo_spill ''p'') (demo_window, []) =
     (Inr (Some \<lparr>ev_frames = take 2 (wi_body demo_window), ev_path = ''p'', ev_freed = 4\<rparr>),
      demo_window\<lparr>wi_body := drop 2 (wi_body demo_window)\<rparr>, [(''p'', take 2 (wi_body demo_window))])"
  by (simp add: demo_window_defs evict_if_needed_def needs_eviction_def total_tokens_def tokens_of_def token_estimate_def
      protected_turns_def atomic_groups_def group_step.simps call_key_def group_protected_def eviction_target_def
      trunc_real_def write_spill_def Let_def ddel_def)

theorem eviction_meets_budget_witness:
  "total_tokens (demo_window\<lparr>wi_body := drop 2 (wi_body demo_window)\<rparr>) \<le> 6 \<and> wi_budget demo_window = 6"
proof -
  have "distinct (call_keys (wi_body demo_window))" by (simp add: demo_window_defs call_keys_def call_key_def)
  from eviction_meets_budget [OF this demo_evict] show ?thesis
    by (simp add: demo_window_defs total_tokens_def tokens_of_def token_estimate_def)
qed

theorem window_keeps_calls_with_results_witness:
  "well_paired [] (wi_body (fst (snd (evict_if_needed (demo_spill ''p'') (demo_window, [])))))
   \<and> well_paired [] (wi_body demo_window)"
proof -
  have p: "well_paired [] (wi_body demo_window)" by (simp add: demo_window_defs call_key_def)
  moreover have "sp_path (demo_spill ''p'') \<notin> fst ` set ([] :: archive)"
    "sp_path (demo_spill ''q'') \<notin> insert (sp_path (demo_spill ''p'')) (fst ` set ([] :: archive))"
    by (simp_all add: demo_spill_def)
  ultimately show ?thesis using window_keeps_calls_with_results by blast
qed

lemma demo_window_reach:
  "window_reach (window_step (window_step (new_window 100, [], []) (Say 0 ''hello'' None [])) (Dump (demo_spill ''p'') False))"
proof -
  have "window_reach (window_step (new_window 100, [], []) (Say 0 ''hello'' None []))" by (intro wr_step wr_init) simp
  from wr_step [OF this, of "Dump (demo_spill ''p'') False"] show ?thesis
    by (simp add: with_added_def add_user_def start_turn_def new_window_def)
qed

definition demo_hello :: frame where
  "demo_hello = \<lparr>fr_kind = User_frame, fr_content = ''hello'', fr_ts = 0, fr_call = None, fr_turn = 1, fr_meta = []\<rparr>"

lemma demo_dump:
  "window_step (window_step (new_window 100, [], []) (Say 0 ''hello'' None [])) (Dump (demo_spill ''p'') False)
     = ((new_window 100)\<lparr>wi_next_turn := 2\<rparr>, [(''p'', [demo_hello])], [demo_hello])"
  by (simp add: with_added_def add_user_def start_turn_def new_window_def dump_to_sleep_def atomic_groups_def
      group_step.simps call_key_def write_spill_def demo_spill_def demo_hello_def Let_def)

theorem window_loses_no_frame_witness:
  "mset [demo_hello] \<subseteq># mset (wi_body ((new_window 100)\<lparr>wi_next_turn := 2\<rparr>)) + mset (concat (dvals [(''p'', [demo_hello])]))"
  using window_loses_no_frame [OF demo_window_reach [unfolded demo_dump]] by blast

theorem saved_window_read_back_witness:
  "load_window 0 (\<lambda>_. Some 2) 256000 (Json (window_dict (demo_window\<lparr>wi_next_turn := 9\<rparr>))) = Inr demo_window"
proof -
  have "save_window (\<lambda>_. Some 1000) Written (demo_window\<lparr>wi_next_turn := 9\<rparr>) No_file
      = (Inr (), Json (window_dict (demo_window\<lparr>wi_next_turn := 9\<rparr>)))" by (simp add: save_window_def)
  moreover have "window_ok (\<lambda>_. Some 2) (demo_window\<lparr>wi_next_turn := 9\<rparr>)"
    by (simp add: demo_window_defs window_ok_def frame_ok_def max_window_frames_def max_content_chars_def)
  ultimately show ?thesis using saved_window_read_back [of "\<lambda>_. Some 1000" Written "demo_window\<lparr>wi_next_turn := 9\<rparr>" No_file _ 0 "\<lambda>_. Some 2" 256000]
    by (simp add: demo_window_defs last_turn_def)
qed

text \<open>The grouping drops a call whose identifier is opened again before its result: it is neither kept nor archived.\<close>

lemma reopened_call_is_lost:
  assumes "fs = [demo_frame Tool_call (Some ''c'') 1, demo_frame Tool_call (Some ''c'') 2]"
  shows "atomic_groups fs = [[demo_frame Tool_call (Some ''c'') 2]]"
  by (simp add: assms atomic_groups_def group_step.simps call_key_def demo_frame_def)

end
