(* ===== verification/Turn_Queue.thy ===== *)
theory Turn_Queue
  imports PyDict "HOL-Library.Sublist"
begin

text \<open>
  The turn queues of \<open>norax/runtime/lifecycle.py\<close> and the stop command of \<open>norax/runtime/session.py\<close>: every channel has
  a deque of waiting turns and one worker task that handles them in order, under a global count of pending turns and a
  semaphore of concurrent ones. Deques are objects with an identity (a number): a worker keeps the deque it started with
  while the table of the runtime may already hold another one. The asyncio tasks are cut at their awaits.
\<close>

section \<open>State\<close>

text \<open>
  A worker that was created but has not run yet, one that holds a turn and waits for a slot, one that handles a turn and
  still has its slot or not, a task that is done, and a done task whose callback has run.
\<close>

datatype 'e phase = Fresh | Waiting 'e | Running 'e bool | Ended | Reaped

record 'e worker =
  wk_chan :: string
  wk_queue :: "nat option"
  wk_cancelled :: bool
  wk_phase :: "'e phase"

record 'e turns =
  tq_draining :: bool
  tq_work :: nat
  tq_max :: nat
  tq_max_channel :: nat
  tq_slots :: nat
  tq_heap :: "'e list list"
  tq_queues :: "(string, nat) dict"
  tq_active :: "(string, nat) dict"
  tq_stop :: "string set"
  tq_tasks :: "'e worker list"

text \<open>The three limits from the configuration, as \<open>core.py\<close> clamps them.\<close>

definition turns_init :: "int \<Rightarrow> int \<Rightarrow> 'e turns" where
  "turns_init concurrent pending =
     (let c = max 1 (min 64 (if concurrent = 0 then 8 else concurrent));
          p = max c (min 10000 (if pending = 0 then 256 else pending)) in
      \<lparr>tq_draining = False, tq_work = 0, tq_max = nat p, tq_max_channel = nat (min 32 p), tq_slots = nat c, tq_heap = [],
       tq_queues = [], tq_active = [], tq_stop = {}, tq_tasks = []\<rparr>)"

definition task_done :: "'e turns \<Rightarrow> nat \<Rightarrow> bool" where
  "task_done s t \<longleftrightarrow> wk_phase (tq_tasks s ! t) = Ended \<or> wk_phase (tq_tasks s ! t) = Reaped"

definition set_phase :: "nat \<Rightarrow> 'e phase \<Rightarrow> 'e turns \<Rightarrow> 'e turns" where
  "set_phase t p s = s\<lparr>tq_tasks := (tq_tasks s)[t := (tq_tasks s ! t)\<lparr>wk_phase := p\<rparr>]\<rparr>"

section \<open>Queueing a turn\<close>

definition find_queue :: "string \<Rightarrow> 'e turns \<Rightarrow> nat \<times> 'e turns" where
  "find_queue c s = (case map_of (tq_queues s) c of
     Some q \<Rightarrow> (q, s)
   | None \<Rightarrow> (length (tq_heap s), s\<lparr>tq_heap := tq_heap s @ [[]], tq_queues := dset c (length (tq_heap s)) (tq_queues s)\<rparr>))"

definition worker_busy :: "string \<Rightarrow> 'e turns \<Rightarrow> bool" where
  "worker_busy c s = (case map_of (tq_active s) c of Some t \<Rightarrow> \<not> task_done s t | None \<Rightarrow> False)"

definition start_worker :: "string \<Rightarrow> 'e turns \<Rightarrow> 'e turns" where
  "start_worker c s = s\<lparr>tq_tasks := tq_tasks s @ [\<lparr>wk_chan = c, wk_queue = None, wk_cancelled = False, wk_phase = Fresh\<rparr>],
     tq_active := dset c (length (tq_tasks s)) (tq_active s)\<rparr>"

definition queue_turn :: "string \<Rightarrow> 'e \<Rightarrow> 'e turns \<Rightarrow> bool \<times> 'e turns" where
  "queue_turn c e s =
     (if tq_draining s then (False, s)
      else let (q, s1) = find_queue c s; busy = worker_busy c s1;
               channel_work = length (tq_heap s1 ! q) + (if busy then 1 else 0) in
        if tq_max s1 \<le> tq_work s1 \<or> tq_max_channel s1 \<le> channel_work
        then (False, if tq_heap s1 ! q = [] then s1\<lparr>tq_queues := ddel c (tq_queues s1)\<rparr> else s1)
        else let s2 = s1\<lparr>tq_heap := (tq_heap s1)[q := tq_heap s1 ! q @ [e]], tq_work := tq_work s1 + 1\<rparr> in
          (True, if busy then s2 else start_worker c s2))"

section \<open>The worker\<close>

definition clear_queue :: "nat \<Rightarrow> 'e turns \<Rightarrow> 'e turns" where
  "clear_queue q s = s\<lparr>tq_work := tq_work s - length (tq_heap s ! q), tq_heap := (tq_heap s)[q := []]\<rparr>"

text \<open>The outer \<open>finally\<close> of the worker, and the end of its task.\<close>

definition end_worker :: "nat \<Rightarrow> nat \<Rightarrow> 'e turns \<Rightarrow> 'e turns" where
  "end_worker t q s =
     (let c = wk_chan (tq_tasks s ! t); s1 = clear_queue q s in
      set_phase t Ended (s1\<lparr>tq_queues := (if map_of (tq_queues s1) c = Some q then ddel c (tq_queues s1) else tq_queues s1),
        tq_stop := tq_stop s1 - {c}\<rparr>))"

text \<open>The head of the loop: take the next turn or leave.\<close>

definition next_turn :: "nat \<Rightarrow> nat \<Rightarrow> 'e turns \<Rightarrow> 'e turns" where
  "next_turn t q s = (case tq_heap s ! q of
     e # es \<Rightarrow> if tq_draining s then end_worker t q s
       else set_phase t (Waiting e) (s\<lparr>tq_heap := (tq_heap s)[q := es]\<rparr>)
   | [] \<Rightarrow> end_worker t q s)"

definition begin_worker :: "nat \<Rightarrow> 'e turns \<Rightarrow> 'e turns" where
  "begin_worker t s = (case map_of (tq_queues s) (wk_chan (tq_tasks s ! t)) of
     None \<Rightarrow> set_phase t Ended s
   | Some q \<Rightarrow> next_turn t q (s\<lparr>tq_tasks := (tq_tasks s)[t := (tq_tasks s ! t)\<lparr>wk_queue := Some q\<rparr>]\<rparr>))"

text \<open>A slot is granted; a worker that finds the runtime draining gives it back and returns.\<close>

definition acquire_slot :: "nat \<Rightarrow> nat \<Rightarrow> 'e \<Rightarrow> 'e turns \<Rightarrow> 'e turns" where
  "acquire_slot t q e s =
     (if tq_draining s then end_worker t q (s\<lparr>tq_work := tq_work s - 1\<rparr>)
      else set_phase t (Running e True) (s\<lparr>tq_slots := tq_slots s - 1\<rparr>))"

definition release_slot :: "nat \<Rightarrow> 'e \<Rightarrow> 'e turns \<Rightarrow> 'e turns" where
  "release_slot t e s = set_phase t (Running e False) (s\<lparr>tq_slots := tq_slots s + 1\<rparr>)"

definition leave_turn :: "bool \<Rightarrow> 'e turns \<Rightarrow> 'e turns" where
  "leave_turn held s = s\<lparr>tq_slots := tq_slots s + (if held then 1 else 0), tq_work := tq_work s - 1\<rparr>"

definition complete_turn :: "nat \<Rightarrow> nat \<Rightarrow> bool \<Rightarrow> 'e turns \<Rightarrow> 'e turns" where
  "complete_turn t q held s = next_turn t q (leave_turn held s)"

text \<open>A cancellation that reaches the worker: before its first step it never runs, else its \<open>finally\<close> blocks do.\<close>

definition cancel_worker :: "nat \<Rightarrow> 'e turns \<Rightarrow> 'e turns" where
  "cancel_worker t s = (case (wk_phase (tq_tasks s ! t), wk_queue (tq_tasks s ! t)) of
     (Fresh, _) \<Rightarrow> set_phase t Ended s
   | (Waiting e, Some q) \<Rightarrow> end_worker t q (leave_turn False s)
   | (Running e held, Some q) \<Rightarrow> end_worker t q (leave_turn held s)
   | _ \<Rightarrow> s)"

section \<open>The completion callback and the stop command\<close>

definition drop_queue :: "string \<Rightarrow> 'e turns \<Rightarrow> 'e turns" where
  "drop_queue c s = (case map_of (tq_queues s) c of
     None \<Rightarrow> s
   | Some q \<Rightarrow> clear_queue q (s\<lparr>tq_queues := ddel c (tq_queues s)\<rparr>))"

definition finished_callback :: "nat \<Rightarrow> 'e turns \<Rightarrow> 'e turns" where
  "finished_callback t s =
     (let c = wk_chan (tq_tasks s ! t); s1 = set_phase t Reaped s in
      if map_of (tq_active s1) c = Some t
      then (drop_queue c (s1\<lparr>tq_active := ddel c (tq_active s1)\<rparr>))\<lparr>tq_stop := tq_stop s1 - {c}\<rparr>
      else s1)"

definition stop_worker :: "string \<Rightarrow> nat \<Rightarrow> 'e turns \<Rightarrow> 'e turns" where
  "stop_worker c t s =
     (let s1 = drop_queue c (s\<lparr>tq_stop := insert c (tq_stop s), tq_active := ddel c (tq_active s)\<rparr>) in
      s1\<lparr>tq_tasks := (tq_tasks s1)[t := (tq_tasks s1 ! t)\<lparr>wk_cancelled := True\<rparr>]\<rparr>)"

definition cancel_one :: "string \<Rightarrow> 'e turns \<Rightarrow> bool \<times> 'e turns" where
  "cancel_one c s = (case map_of (tq_active s) c of
     Some t \<Rightarrow> if \<not> task_done s t then (True, stop_worker c t s)
       else (False, s\<lparr>tq_active := ddel c (tq_active s), tq_stop := tq_stop s - {c}\<rparr>)
   | None \<Rightarrow> (False, s\<lparr>tq_stop := tq_stop s - {c}\<rparr>))"

definition cancel_all :: "'e turns \<Rightarrow> bool \<times> 'e turns" where
  "cancel_all s = (let busy = filter (\<lambda>(c, t). \<not> task_done s t) (tq_active s) in
     (busy \<noteq> [], foldl (\<lambda>s (c, t). stop_worker c t s) s busy))"

definition cancel_channel :: "string \<Rightarrow> 'e turns \<Rightarrow> bool \<times> 'e turns" where
  "cancel_channel c s = (if c = [] then cancel_all s else cancel_one c s)"

section \<open>Interleavings\<close>

text \<open>
  One atomic step of the event loop. The trail records the turns that \<open>queue_turn\<close> accepted and those a worker took out
  of its deque, in order, and whether the run is calm: no shutdown, no stop, no cancellation and no rejected turn.
\<close>

record 'e trail =
  tr_accepted :: "(string \<times> 'e) list"
  tr_started :: "(string \<times> 'e) list"
  tr_calm :: bool

datatype 'e turn_event =
    Submit string 'e
  | Begin nat
  | Acquire nat
  | Release nat
  | Complete nat
  | Cancel nat
  | Callback nat
  | Stop string
  | Drain

definition took :: "nat \<Rightarrow> 'e turns \<Rightarrow> 'e trail \<Rightarrow> 'e trail" where
  "took t s' tr = (case wk_phase (tq_tasks s' ! t) of
     Waiting e \<Rightarrow> tr\<lparr>tr_started := tr_started tr @ [(wk_chan (tq_tasks s' ! t), e)]\<rparr> | _ \<Rightarrow> tr)"

inductive turn_step :: "'e turns \<times> 'e trail \<Rightarrow> 'e turn_event \<Rightarrow> 'e turns \<times> 'e trail \<Rightarrow> bool" where
  submit_ok: "queue_turn c e s = (True, s') \<Longrightarrow>
    turn_step (s, tr) (Submit c e) (s', tr\<lparr>tr_accepted := tr_accepted tr @ [(c, e)]\<rparr>)"
| submit_full: "queue_turn c e s = (False, s') \<Longrightarrow> turn_step (s, tr) (Submit c e) (s', tr\<lparr>tr_calm := False\<rparr>)"
| begin_step: "t < length (tq_tasks s) \<Longrightarrow> wk_phase (tq_tasks s ! t) = Fresh \<Longrightarrow> \<not> wk_cancelled (tq_tasks s ! t) \<Longrightarrow>
    begin_worker t s = s' \<Longrightarrow> turn_step (s, tr) (Begin t) (s', took t s' tr)"
| acquire_step: "t < length (tq_tasks s) \<Longrightarrow> wk_phase (tq_tasks s ! t) = Waiting e \<Longrightarrow> wk_queue (tq_tasks s ! t) = Some q \<Longrightarrow>
    0 < tq_slots s \<Longrightarrow> turn_step (s, tr) (Acquire t) (acquire_slot t q e s, tr)"
| release_step: "t < length (tq_tasks s) \<Longrightarrow> wk_phase (tq_tasks s ! t) = Running e True \<Longrightarrow>
    turn_step (s, tr) (Release t) (release_slot t e s, tr)"
| complete_step: "t < length (tq_tasks s) \<Longrightarrow> wk_phase (tq_tasks s ! t) = Running e held \<Longrightarrow> wk_queue (tq_tasks s ! t) = Some q \<Longrightarrow>
    complete_turn t q held s = s' \<Longrightarrow> turn_step (s, tr) (Complete t) (s', took t s' tr)"
| cancel_step: "t < length (tq_tasks s) \<Longrightarrow> turn_step (s, tr) (Cancel t) (cancel_worker t s, tr\<lparr>tr_calm := False\<rparr>)"
| callback_step: "t < length (tq_tasks s) \<Longrightarrow> wk_phase (tq_tasks s ! t) = Ended \<Longrightarrow>
    turn_step (s, tr) (Callback t) (finished_callback t s, tr)"
| stop_step: "cancel_channel c s = (b, s') \<Longrightarrow> turn_step (s, tr) (Stop c) (s', tr\<lparr>tr_calm := False\<rparr>)"
| drain_step: "turn_step (s, tr) Drain (s\<lparr>tq_draining := True\<rparr>, tr\<lparr>tr_calm := False\<rparr>)"

inductive_cases turn_stepE: "turn_step (s, tr) ev (s', tr')"

lemmas turn_step_cases = turn_stepE [consumes 1, case_names submit_ok submit_full begin_step acquire_step release_step
  complete_step cancel_step callback_step stop_step drain_step]

definition empty_trail :: "'e trail" where
  "empty_trail = \<lparr>tr_accepted = [], tr_started = [], tr_calm = True\<rparr>"

inductive turns_reach :: "nat \<Rightarrow> 'e turns \<Rightarrow> 'e trail \<Rightarrow> bool" where
  tr_init: "turns_reach (tq_slots (turns_init concurrent pending :: 'e turns)) (turns_init concurrent pending) empty_trail"
| tr_more: "turns_reach n s tr \<Longrightarrow> turn_step (s, tr) ev (s', tr') \<Longrightarrow> turns_reach n s' tr'"

section \<open>Structure\<close>

definition worker_live :: "'e worker \<Rightarrow> bool" where
  "worker_live w \<longleftrightarrow> wk_phase w \<noteq> Ended \<and> wk_phase w \<noteq> Reaped"

definition queues_ok :: "'e turns \<Rightarrow> bool" where
  "queues_ok s \<longleftrightarrow> (\<forall>c q. map_of (tq_queues s) c = Some q \<longrightarrow> q < length (tq_heap s))
     \<and> (\<forall>c c' q. map_of (tq_queues s) c = Some q \<longrightarrow> map_of (tq_queues s) c' = Some q \<longrightarrow> c = c')
     \<and> (\<forall>q < length (tq_heap s). tq_heap s ! q \<noteq> [] \<longrightarrow> (\<exists>c. map_of (tq_queues s) c = Some q))"

definition active_ok :: "'e turns \<Rightarrow> bool" where
  "active_ok s \<longleftrightarrow> (\<forall>c t. map_of (tq_active s) c = Some t \<longrightarrow> t < length (tq_tasks s) \<and> wk_chan (tq_tasks s ! t) = c)
     \<and> (\<forall>t < length (tq_tasks s). worker_live (tq_tasks s ! t) \<longrightarrow> \<not> wk_cancelled (tq_tasks s ! t)
          \<longrightarrow> map_of (tq_active s) (wk_chan (tq_tasks s ! t)) = Some t)"

definition serving_ok :: "'e turns \<Rightarrow> 'e worker \<Rightarrow> bool" where
  "serving_ok s w \<longleftrightarrow> (case wk_queue w of
       None \<Rightarrow> wk_phase w = Fresh \<or> \<not> worker_live w
     | Some q \<Rightarrow> wk_phase w \<noteq> Fresh \<and> q < length (tq_heap s)
         \<and> (\<forall>c. map_of (tq_queues s) c = Some q \<longrightarrow> c = wk_chan w \<and> \<not> wk_cancelled w))
     \<and> (wk_phase w = Fresh \<longrightarrow> \<not> wk_cancelled w
          \<longrightarrow> (\<exists>q. map_of (tq_queues s) (wk_chan w) = Some q \<and> tq_heap s ! q \<noteq> []))"

definition all_serving_ok :: "'e turns \<Rightarrow> bool" where
  "all_serving_ok s \<longleftrightarrow> (\<forall>t < length (tq_tasks s). serving_ok s (tq_tasks s ! t))"

definition turns_ok :: "'e turns \<Rightarrow> bool" where
  "turns_ok s \<longleftrightarrow> queues_ok s \<and> active_ok s \<and> all_serving_ok s"

lemma fresh_queue:
  "serving_ok s w \<Longrightarrow> wk_phase w = Fresh \<Longrightarrow> \<not> wk_cancelled w
     \<Longrightarrow> \<exists>q. map_of (tq_queues s) (wk_chan w) = Some q \<and> tq_heap s ! q \<noteq> []"
  by (simp add: serving_ok_def)

lemma attached: "serving_ok s w \<Longrightarrow> worker_live w \<Longrightarrow> wk_phase w \<noteq> Fresh \<Longrightarrow> wk_queue w \<noteq> None"
  by (cases "wk_queue w") (simp_all add: serving_ok_def)

lemma live_active:
  "turns_ok s \<Longrightarrow> t < length (tq_tasks s) \<Longrightarrow> worker_live (tq_tasks s ! t) \<Longrightarrow> \<not> wk_cancelled (tq_tasks s ! t)
     \<Longrightarrow> map_of (tq_active s) (wk_chan (tq_tasks s ! t)) = Some t"
  by (simp add: turns_ok_def active_ok_def)

lemma own_queue:
  assumes "turns_ok s" "t < length (tq_tasks s)" "wk_queue (tq_tasks s ! t) = Some q"
  shows "q < length (tq_heap s)" and "tq_heap s ! q \<noteq> [] \<Longrightarrow> map_of (tq_queues s) (wk_chan (tq_tasks s ! t)) = Some q"
proof -
  have w: "serving_ok s (tq_tasks s ! t)" using assms by (simp add: turns_ok_def all_serving_ok_def)
  then show q: "q < length (tq_heap s)" using assms(3) by (simp add: serving_ok_def)
  assume "tq_heap s ! q \<noteq> []"
  then obtain c where "map_of (tq_queues s) c = Some q" using assms(1) q by (auto simp: turns_ok_def queues_ok_def)
  with w assms(3) show "map_of (tq_queues s) (wk_chan (tq_tasks s ! t)) = Some q" by (auto simp: serving_ok_def)
qed

text \<open>A worker changes phase, without becoming live again.\<close>

lemma set_phase_simps [simp]:
  "tq_heap (set_phase t p s) = tq_heap s" "tq_queues (set_phase t p s) = tq_queues s"
  "tq_active (set_phase t p s) = tq_active s" "tq_work (set_phase t p s) = tq_work s"
  "tq_slots (set_phase t p s) = tq_slots s" "tq_draining (set_phase t p s) = tq_draining s"
  "tq_max (set_phase t p s) = tq_max s" "tq_stop (set_phase t p s) = tq_stop s"
  "length (tq_tasks (set_phase t p s)) = length (tq_tasks s)"
  by (simp_all add: set_phase_def)

lemma turns_ok_set_phase:
  assumes "turns_ok s" "t < length (tq_tasks s)" "p \<noteq> Fresh"
    and "p = Ended \<or> p = Reaped \<or> worker_live (tq_tasks s ! t) \<and> wk_queue (tq_tasks s ! t) \<noteq> None"
  shows "turns_ok (set_phase t p s)"
proof -
  let ?w = "(tq_tasks s ! t)\<lparr>wk_phase := p\<rparr>"
  have n: "tq_tasks (set_phase t p s) ! i = (if i = t then ?w else tq_tasks s ! i)" if "i < length (tq_tasks s)" for i
    using that assms(2) by (simp add: set_phase_def nth_list_update)
  have "queues_ok (set_phase t p s)" using assms(1) by (simp add: turns_ok_def queues_ok_def)
  moreover have "active_ok (set_phase t p s)"
    using assms n by (auto simp: turns_ok_def active_ok_def worker_live_def)
  moreover have "serving_ok (set_phase t p s) (tq_tasks (set_phase t p s) ! i)" if i: "i < length (tq_tasks s)" for i
  proof -
    have "serving_ok s (tq_tasks s ! i)" using assms(1) i by (simp add: turns_ok_def all_serving_ok_def)
    then show ?thesis using assms(3,4) n [OF i] by (auto simp: serving_ok_def worker_live_def split: option.splits)
  qed
  ultimately show ?thesis by (simp add: turns_ok_def all_serving_ok_def)
qed

text \<open>
  A deque is emptied, and leaves the table if it is there: no uncancelled worker of its channel may still wait for its
  first step then.
\<close>

lemma turns_ok_drop:
  assumes ok: "turns_ok s" and q: "q < length (tq_heap s)" "\<forall>c'. map_of (tq_queues s) c' = Some q \<longrightarrow> c' = c"
    and fresh: "\<And>t. map_of (tq_queues s) c = Some q \<Longrightarrow> t < length (tq_tasks s) \<Longrightarrow> wk_chan (tq_tasks s ! t) = c
      \<Longrightarrow> wk_phase (tq_tasks s ! t) = Fresh \<Longrightarrow> wk_cancelled (tq_tasks s ! t)"
  shows "turns_ok (s\<lparr>tq_heap := (tq_heap s)[q := []],
    tq_queues := (if map_of (tq_queues s) c = Some q then ddel c (tq_queues s) else tq_queues s)\<rparr>)"
proof -
  define qs where "qs = (if map_of (tq_queues s) c = Some q then ddel c (tq_queues s) else tq_queues s)"
  let ?s = "s\<lparr>tq_heap := (tq_heap s)[q := []], tq_queues := qs\<rparr>"
  have m: "map_of qs c' = Some x \<longleftrightarrow> map_of (tq_queues s) c' = Some x \<and> x \<noteq> q" for c' x
  proof -
    have "map_of qs c' = (if map_of (tq_queues s) c = Some q \<and> c' = c then None else map_of (tq_queues s) c')"
      by (simp add: qs_def)
    with q(2) show ?thesis by (metis option.distinct(1) option.inject)
  qed
  have h: "(tq_heap s)[q := []] ! x = (if x = q then [] else tq_heap s ! x)" for x
    using q(1) by (simp add: nth_list_update)
  have "queues_ok ?s"
  proof -
    have "\<exists>c'. map_of qs c' = Some x" if "x < length (tq_heap s)" "x \<noteq> q" "tq_heap s ! x \<noteq> []" for x
      using that ok m by (metis queues_ok_def turns_ok_def)
    then show ?thesis using ok by (auto simp: turns_ok_def queues_ok_def m h)
  qed
  moreover have "active_ok ?s" using ok by (simp add: turns_ok_def active_ok_def)
  moreover have "serving_ok ?s (tq_tasks s ! t)" if t: "t < length (tq_tasks s)" for t
  proof -
    have w: "serving_ok s (tq_tasks s ! t)" using ok t by (simp add: turns_ok_def all_serving_ok_def)
    have "map_of (tq_queues s) (wk_chan (tq_tasks s ! t)) \<noteq> Some q"
      if "wk_phase (tq_tasks s ! t) = Fresh" "\<not> wk_cancelled (tq_tasks s ! t)"
      using fresh [OF _ t] that q(2) by metis
    with w show ?thesis unfolding serving_ok_def by (auto simp: m h split: option.splits)
  qed
  ultimately show ?thesis unfolding qs_def [symmetric] by (simp add: turns_ok_def all_serving_ok_def)
qed

text \<open>The counters and the stop flags do not matter to the structure.\<close>

lemma serving_ok_counters [simp]:
  "serving_ok (s\<lparr>tq_work := n\<rparr>) w = serving_ok s w" "serving_ok (s\<lparr>tq_slots := n\<rparr>) w = serving_ok s w"
  "serving_ok (s\<lparr>tq_stop := st\<rparr>) w = serving_ok s w" "serving_ok (s\<lparr>tq_draining := b\<rparr>) w = serving_ok s w"
  "serving_ok (s\<lparr>tq_active := d\<rparr>) w = serving_ok s w" "serving_ok (s\<lparr>tq_tasks := ts\<rparr>) w = serving_ok s w"
  by (cases "wk_queue w"; simp add: serving_ok_def)+

lemma turns_ok_counters [simp]:
  "turns_ok (s\<lparr>tq_work := w\<rparr>) = turns_ok s" "turns_ok (s\<lparr>tq_slots := k\<rparr>) = turns_ok s"
  "turns_ok (s\<lparr>tq_stop := st\<rparr>) = turns_ok s" "turns_ok (s\<lparr>tq_draining := b\<rparr>) = turns_ok s"
  by (simp_all add: turns_ok_def queues_ok_def active_ok_def all_serving_ok_def)

lemma end_worker_eq:
  "end_worker t q s = set_phase t Ended (s\<lparr>tq_heap := (tq_heap s)[q := []],
     tq_queues := (if map_of (tq_queues s) (wk_chan (tq_tasks s ! t)) = Some q
       then ddel (wk_chan (tq_tasks s ! t)) (tq_queues s) else tq_queues s),
     tq_work := tq_work s - length (tq_heap s ! q), tq_stop := tq_stop s - {wk_chan (tq_tasks s ! t)}\<rparr>)"
  by (cases s) (simp add: end_worker_def clear_queue_def set_phase_def Let_def)

lemma turns_ok_end:
  assumes ok: "turns_ok s" and t: "t < length (tq_tasks s)" and q: "wk_queue (tq_tasks s ! t) = Some q" and l: "worker_live (tq_tasks s ! t)"
  shows "turns_ok (end_worker t q s)"
proof -
  let ?c = "wk_chan (tq_tasks s ! t)"
  have w: "serving_ok s (tq_tasks s ! t)" using ok t by (simp add: turns_ok_def all_serving_ok_def)
  have fresh: "wk_cancelled (tq_tasks s ! i)"
    if "map_of (tq_queues s) ?c = Some q" "i < length (tq_tasks s)" "wk_chan (tq_tasks s ! i) = ?c" "wk_phase (tq_tasks s ! i) = Fresh" for i
  proof (rule ccontr)
    assume "\<not> wk_cancelled (tq_tasks s ! i)"
    moreover have "\<not> wk_cancelled (tq_tasks s ! t)" using w q that(1) by (simp add: serving_ok_def)
    ultimately have "Some i = Some t"
      using live_active [OF ok t l] live_active [OF ok that(2)] that(3,4) by (simp add: worker_live_def)
    then have "i = t" by simp
    with w q that(4) show False by (simp add: serving_ok_def)
  qed
  have own: "\<forall>c'. map_of (tq_queues s) c' = Some q \<longrightarrow> c' = ?c" using w q by (simp add: serving_ok_def)
  have "turns_ok (s\<lparr>tq_heap := (tq_heap s)[q := []],
      tq_queues := (if map_of (tq_queues s) ?c = Some q then ddel ?c (tq_queues s) else tq_queues s)\<rparr>)"
    by (rule turns_ok_drop [OF ok own_queue(1) [OF ok t q] own]) (rule fresh)
  then show ?thesis unfolding end_worker_eq using t
    by (intro turns_ok_set_phase) (simp_all only: turns_ok_counters, simp_all)
qed

lemma turns_okI:
  assumes "queues_ok s" "active_ok s" "\<And>t. t < length (tq_tasks s) \<Longrightarrow> serving_ok s (tq_tasks s ! t)"
  shows "turns_ok s"
  using assms by (simp add: turns_ok_def all_serving_ok_def)

lemma turns_okD:
  assumes "turns_ok s"
  shows "queues_ok s" "active_ok s" "t < length (tq_tasks s) \<Longrightarrow> serving_ok s (tq_tasks s ! t)"
  using assms by (auto simp: turns_ok_def all_serving_ok_def)

lemma queues_okD:
  assumes "queues_ok s"
  shows "map_of (tq_queues s) c = Some q \<Longrightarrow> q < length (tq_heap s)"
    and "map_of (tq_queues s) c = Some q \<Longrightarrow> map_of (tq_queues s) c' = Some q \<Longrightarrow> c' = c"
    and "q < length (tq_heap s) \<Longrightarrow> tq_heap s ! q \<noteq> [] \<Longrightarrow> \<exists>c. map_of (tq_queues s) c = Some q"
  using assms unfolding queues_ok_def by blast+

text \<open>The contents of a deque of the table change; no worker that has not started may lose its last turn.\<close>

lemma turns_ok_contents:
  assumes ok: "turns_ok s" and q: "map_of (tq_queues s) c = Some q"
    and fresh: "\<And>t. t < length (tq_tasks s) \<Longrightarrow> wk_phase (tq_tasks s ! t) = Fresh \<Longrightarrow> wk_chan (tq_tasks s ! t) = c
      \<Longrightarrow> \<not> wk_cancelled (tq_tasks s ! t) \<Longrightarrow> es \<noteq> []"
  shows "turns_ok (s\<lparr>tq_heap := (tq_heap s)[q := es]\<rparr>)"
proof (rule turns_okI)
  let ?s = "s\<lparr>tq_heap := (tq_heap s)[q := es]\<rparr>"
  note Q = queues_okD [OF turns_okD(1) [OF ok]]
  have h: "(tq_heap s)[q := es] ! x = (if x = q then es else tq_heap s ! x)" for x
    using Q(1) [OF q] by (simp add: nth_list_update)
  have "\<exists>c. map_of (tq_queues s) c = Some x" if "x < length (tq_heap s)" "(tq_heap s)[q := es] ! x \<noteq> []" for x
  proof (cases "x = q")
    case True
    with q show ?thesis by blast
  next
    case False
    with that have "tq_heap s ! x \<noteq> []" by (simp add: h)
    with that(1) show ?thesis by (rule Q(3))
  qed
  with Q(1,2) show "queues_ok ?s" unfolding queues_ok_def by simp
  show "active_ok ?s" using turns_okD(2) [OF ok] by (simp add: active_ok_def)
  fix t assume "t < length (tq_tasks ?s)"
  then have t: "t < length (tq_tasks s)" by simp
  let ?w = "tq_tasks s ! t"
  have f: "es \<noteq> []" if "wk_phase ?w = Fresh" "\<not> wk_cancelled ?w" "map_of (tq_queues s) (wk_chan ?w) = Some q"
    using fresh [OF t that(1)] Q(2) [OF q that(3)] that(2) by blast
  show "serving_ok ?s (tq_tasks ?s ! t)"
    using turns_okD(3) [OF ok t] f by (cases "wk_queue ?w") (auto simp: serving_ok_def h)
qed

lemma active_ok_update:
  assumes a: "active_ok s" and t: "t < length (tq_tasks s)" and c: "wk_chan w = wk_chan (tq_tasks s ! t)"
    and l: "worker_live w \<Longrightarrow> \<not> wk_cancelled w \<Longrightarrow> worker_live (tq_tasks s ! t) \<and> \<not> wk_cancelled (tq_tasks s ! t)"
  shows "active_ok (s\<lparr>tq_tasks := (tq_tasks s)[t := w]\<rparr>)"
proof -
  have A: "map_of (tq_active s) c = Some i \<Longrightarrow> i < length (tq_tasks s) \<and> wk_chan (tq_tasks s ! i) = c"
    "i < length (tq_tasks s) \<Longrightarrow> worker_live (tq_tasks s ! i) \<Longrightarrow> \<not> wk_cancelled (tq_tasks s ! i)
      \<Longrightarrow> map_of (tq_active s) (wk_chan (tq_tasks s ! i)) = Some i" for c i
    using a unfolding active_ok_def by blast+
  have nth: "(tq_tasks s)[t := w] ! i = (if i = t then w else tq_tasks s ! i)" if "i < length (tq_tasks s)" for i
    using that by (simp add: nth_list_update)
  show ?thesis unfolding active_ok_def
  proof (intro conjI allI impI)
    fix c i assume "map_of (tq_active (s\<lparr>tq_tasks := (tq_tasks s)[t := w]\<rparr>)) c = Some i"
    with A(1) [of c i] c show "i < length (tq_tasks (s\<lparr>tq_tasks := (tq_tasks s)[t := w]\<rparr>))"
      "wk_chan (tq_tasks (s\<lparr>tq_tasks := (tq_tasks s)[t := w]\<rparr>) ! i) = c" by (auto simp: nth)
  next
    fix i assume "i < length (tq_tasks (s\<lparr>tq_tasks := (tq_tasks s)[t := w]\<rparr>))"
      and "worker_live (tq_tasks (s\<lparr>tq_tasks := (tq_tasks s)[t := w]\<rparr>) ! i)"
      and "\<not> wk_cancelled (tq_tasks (s\<lparr>tq_tasks := (tq_tasks s)[t := w]\<rparr>) ! i)"
    with A(2) [of i] l c show "map_of (tq_active (s\<lparr>tq_tasks := (tq_tasks s)[t := w]\<rparr>))
        (wk_chan (tq_tasks (s\<lparr>tq_tasks := (tq_tasks s)[t := w]\<rparr>) ! i)) = Some i"
      by (cases "i = t") (auto simp: nth)
  qed
qed

lemma turns_ok_attach:
  assumes ok: "turns_ok s" and t: "t < length (tq_tasks s)" and f: "wk_phase (tq_tasks s ! t) = Fresh"
    and n: "\<not> wk_cancelled (tq_tasks s ! t)" and q: "map_of (tq_queues s) (wk_chan (tq_tasks s ! t)) = Some q"
  shows "turns_ok (s\<lparr>tq_tasks := (tq_tasks s)[t := (tq_tasks s ! t)\<lparr>wk_queue := Some q, wk_phase := Waiting e\<rparr>]\<rparr>)"
proof (rule turns_okI)
  let ?w = "(tq_tasks s ! t)\<lparr>wk_queue := Some q, wk_phase := Waiting e\<rparr>"
  let ?s = "s\<lparr>tq_tasks := (tq_tasks s)[t := ?w]\<rparr>"
  note Q = queues_okD [OF turns_okD(1) [OF ok]]
  show "queues_ok ?s" using turns_okD(1) [OF ok] by (simp add: queues_ok_def)
  have nth: "(tq_tasks s)[t := ?w] ! i = (if i = t then ?w else tq_tasks s ! i)" if "i < length (tq_tasks s)" for i
    using that by (simp add: nth_list_update)
  show "active_ok ?s" by (rule active_ok_update [OF turns_okD(2) [OF ok] t]) (use f n in \<open>simp_all add: worker_live_def\<close>)
  fix i assume "i < length (tq_tasks ?s)"
  then have i: "i < length (tq_tasks s)" by simp
  have "c = wk_chan (tq_tasks s ! t)" if "map_of (tq_queues s) c = Some q" for c using Q(2) [OF q that] .
  then have "serving_ok s ?w" using n Q(1) [OF q] by (simp add: serving_ok_def)
  with turns_okD(3) [OF ok i] show "serving_ok ?s (tq_tasks ?s ! i)" by (simp add: nth [OF i])
qed

lemma turns_ok_next:
  assumes ok: "turns_ok s" and t: "t < length (tq_tasks s)" and q: "wk_queue (tq_tasks s ! t) = Some q" and l: "worker_live (tq_tasks s ! t)"
  shows "turns_ok (next_turn t q s)"
proof (cases "tq_heap s ! q = [] \<or> tq_draining s")
  case True
  then have "next_turn t q s = end_worker t q s" by (auto simp: next_turn_def split: list.splits)
  with turns_ok_end [OF assms] show ?thesis by simp
next
  case False
  then obtain e es where h: "tq_heap s ! q = e # es" by (cases "tq_heap s ! q") auto
  have a: "map_of (tq_queues s) (wk_chan (tq_tasks s ! t)) = Some q" using own_queue(2) [OF ok t q] h by simp
  have w: "serving_ok s (tq_tasks s ! t)" using turns_okD(3) [OF ok t] .
  have "turns_ok (s\<lparr>tq_heap := (tq_heap s)[q := es]\<rparr>)"
  proof (rule turns_ok_contents [OF ok a])
    fix i assume i: "i < length (tq_tasks s)" "wk_phase (tq_tasks s ! i) = Fresh" "wk_chan (tq_tasks s ! i) = wk_chan (tq_tasks s ! t)"
      "\<not> wk_cancelled (tq_tasks s ! i)"
    have "\<not> wk_cancelled (tq_tasks s ! t)" using w q a by (simp add: serving_ok_def)
    then have "Some i = Some t" using live_active [OF ok t l] live_active [OF ok i(1)] i by (simp add: worker_live_def)
    with i(2) w q have False by (simp add: serving_ok_def)
    then show "es \<noteq> []" ..
  qed
  then have "turns_ok (set_phase t (Waiting e) (s\<lparr>tq_heap := (tq_heap s)[q := es]\<rparr>))"
    by (rule turns_ok_set_phase) (use t q l in simp_all)
  with False h show ?thesis by (simp add: next_turn_def)
qed

lemma next_turn_phase:
  "t < length (tq_tasks s) \<Longrightarrow> next_turn t q (s\<lparr>tq_tasks := (tq_tasks s)[t := w\<lparr>wk_phase := p\<rparr>]\<rparr>) = next_turn t q (s\<lparr>tq_tasks := (tq_tasks s)[t := w]\<rparr>)"
  by (auto simp: next_turn_def end_worker_def clear_queue_def set_phase_def Let_def split: list.splits)

lemma begin_worker_eq:
  assumes "turns_ok s" "t < length (tq_tasks s)" "wk_phase (tq_tasks s ! t) = Fresh" "\<not> wk_cancelled (tq_tasks s ! t)"
  shows "\<exists>q e. map_of (tq_queues s) (wk_chan (tq_tasks s ! t)) = Some q \<and> tq_heap s ! q \<noteq> []
    \<and> begin_worker t s = next_turn t q (s\<lparr>tq_tasks := (tq_tasks s)[t := (tq_tasks s ! t)\<lparr>wk_queue := Some q, wk_phase := Waiting e\<rparr>]\<rparr>)"
proof -
  obtain q where q: "map_of (tq_queues s) (wk_chan (tq_tasks s ! t)) = Some q" "tq_heap s ! q \<noteq> []"
    using turns_okD(3) [OF assms(1,2)] assms(3,4) by (auto simp: serving_ok_def)
  have "begin_worker t s = next_turn t q (s\<lparr>tq_tasks := (tq_tasks s)[t := (tq_tasks s ! t)\<lparr>wk_queue := Some q\<rparr>]\<rparr>)"
    using q by (simp add: begin_worker_def)
  also have "\<dots> = next_turn t q (s\<lparr>tq_tasks := (tq_tasks s)[t := (tq_tasks s ! t)\<lparr>wk_queue := Some q, wk_phase := Waiting e\<rparr>]\<rparr>)" for e
    using next_turn_phase [OF assms(2), where w = "(tq_tasks s ! t)\<lparr>wk_queue := Some q\<rparr>" and p = "Waiting e"] by simp
  finally show ?thesis using q by blast
qed

lemma turns_ok_begin:
  assumes "turns_ok s" "t < length (tq_tasks s)" "wk_phase (tq_tasks s ! t) = Fresh" "\<not> wk_cancelled (tq_tasks s ! t)"
  shows "turns_ok (begin_worker t s)"
proof -
  obtain q e where q: "map_of (tq_queues s) (wk_chan (tq_tasks s ! t)) = Some q"
    and b: "begin_worker t s = next_turn t q (s\<lparr>tq_tasks := (tq_tasks s)[t := (tq_tasks s ! t)\<lparr>wk_queue := Some q, wk_phase := Waiting e\<rparr>]\<rparr>)"
    using begin_worker_eq [OF assms] by blast
  show ?thesis unfolding b
    by (rule turns_ok_next [OF turns_ok_attach [OF assms q]]) (use assms(2) in \<open>simp_all add: worker_live_def\<close>)
qed

section \<open>Structure: queueing, callbacks and stops\<close>

lemma find_queue_ok:
  assumes ok: "turns_ok s" and f: "find_queue c s = (q, s1)"
  shows "turns_ok s1" "map_of (tq_queues s1) c = Some q" "tq_active s1 = tq_active s" "tq_tasks s1 = tq_tasks s"
    "tq_work s1 = tq_work s" "tq_slots s1 = tq_slots s" "tq_max s1 = tq_max s" "tq_draining s1 = tq_draining s"
    "tq_heap s1 ! q = (case map_of (tq_queues s) c of Some q \<Rightarrow> tq_heap s ! q | None \<Rightarrow> [])"
    "tq_heap s1 = tq_heap s \<or> tq_heap s1 = tq_heap s @ [[]]"
    "c' \<noteq> c \<Longrightarrow> map_of (tq_queues s1) c' = map_of (tq_queues s) c'"
    "map_of (tq_queues s) c' = Some x \<Longrightarrow> tq_heap s1 ! x = tq_heap s ! x"
    "map_of (tq_queues s) c = None \<or> s1 = s"
proof -
  show "map_of (tq_queues s1) c = Some q" "tq_active s1 = tq_active s" "tq_tasks s1 = tq_tasks s" "tq_work s1 = tq_work s"
    "tq_slots s1 = tq_slots s" "tq_max s1 = tq_max s" "tq_draining s1 = tq_draining s"
    "tq_heap s1 ! q = (case map_of (tq_queues s) c of Some q \<Rightarrow> tq_heap s ! q | None \<Rightarrow> [])"
    "tq_heap s1 = tq_heap s \<or> tq_heap s1 = tq_heap s @ [[]]"
    "c' \<noteq> c \<Longrightarrow> map_of (tq_queues s1) c' = map_of (tq_queues s) c'" "map_of (tq_queues s) c = None \<or> s1 = s"
    using f by (auto simp: find_queue_def split: option.splits)
  note Q = queues_okD [OF turns_okD(1) [OF ok]]
  show "map_of (tq_queues s) c' = Some x \<Longrightarrow> tq_heap s1 ! x = tq_heap s ! x"
    using f Q(1) [of c' x] by (auto simp: find_queue_def nth_append split: option.splits)
  show "turns_ok s1"
  proof (cases "map_of (tq_queues s) c")
    case (Some x)
    with f ok show ?thesis by (simp add: find_queue_def)
  next
    case None
    let ?n = "length (tq_heap s)"
    have s1: "s1 = s\<lparr>tq_heap := tq_heap s @ [[]], tq_queues := dset c ?n (tq_queues s)\<rparr>"
      using f None by (auto simp: find_queue_def)
    have m: "map_of (tq_queues s1) c' = (if c' = c then Some ?n else map_of (tq_queues s) c')" for c' by (simp add: s1)
    show ?thesis
    proof (rule turns_okI)
      have new: "x \<noteq> ?n" if "map_of (tq_queues s) c' = Some x" for c' x using Q(1) [OF that] by simp
      show "queues_ok s1" unfolding queues_ok_def
      proof (intro conjI allI impI)
        fix c' x assume "map_of (tq_queues s1) c' = Some x"
        then show "x < length (tq_heap s1)" using Q(1) [of c' x] by (auto simp: m s1 split: if_splits)
      next
        fix c' c'' x assume "map_of (tq_queues s1) c' = Some x" "map_of (tq_queues s1) c'' = Some x"
        then show "c' = c''" using new Q(2) [of c' x c''] unfolding m by (auto split: if_splits)
      next
        fix x assume x: "x < length (tq_heap s1)" "tq_heap s1 ! x \<noteq> []"
        then have "x < ?n" "tq_heap s ! x \<noteq> []" by (auto simp: s1 nth_append split: if_splits)
        then obtain c' where "map_of (tq_queues s) c' = Some x" using Q(3) by blast
        moreover have "c' \<noteq> c" using calculation None by auto
        ultimately have "map_of (tq_queues s1) c' = Some x" by (simp add: m)
        then show "\<exists>c. map_of (tq_queues s1) c = Some x" ..
      qed
      show "active_ok s1" using turns_okD(2) [OF ok] by (simp add: active_ok_def s1)
      fix t assume "t < length (tq_tasks s1)"
      then have t: "t < length (tq_tasks s)" by (simp add: s1)
      let ?w = "tq_tasks s ! t"
      have w: "serving_ok s ?w" using turns_okD(3) [OF ok t] .
      have "\<exists>q. map_of (tq_queues s1) (wk_chan ?w) = Some q \<and> tq_heap s1 ! q \<noteq> []"
        if fr: "wk_phase ?w = Fresh" "\<not> wk_cancelled ?w"
      proof -
        obtain x where x: "map_of (tq_queues s) (wk_chan ?w) = Some x" "tq_heap s ! x \<noteq> []"
          using fresh_queue [OF w fr] by blast
        then have "map_of (tq_queues s1) (wk_chan ?w) = Some x" using None by (auto simp: m)
        moreover have "tq_heap s1 ! x \<noteq> []" using x Q(1) [OF x(1)] by (simp add: s1 nth_append)
        ultimately show ?thesis by blast
      qed
      moreover have "x < length (tq_heap s1) \<and> (\<forall>c. map_of (tq_queues s1) c = Some x \<longrightarrow> c = wk_chan ?w \<and> \<not> wk_cancelled ?w)"
        if "wk_queue ?w = Some x" for x
        using w that by (auto simp: serving_ok_def m s1 split: if_splits)
      ultimately show "serving_ok s1 (tq_tasks s1 ! t)"
        using w by (cases "wk_queue ?w") (auto simp: serving_ok_def s1)
    qed
  qed
qed

lemma turns_ok_detach:
  assumes ok: "turns_ok s" and q: "map_of (tq_queues s) c = Some q"
    and fresh: "\<And>t. t < length (tq_tasks s) \<Longrightarrow> wk_chan (tq_tasks s ! t) = c \<Longrightarrow> wk_phase (tq_tasks s ! t) = Fresh
      \<Longrightarrow> wk_cancelled (tq_tasks s ! t)"
  shows "turns_ok (s\<lparr>tq_heap := (tq_heap s)[q := []], tq_queues := ddel c (tq_queues s)\<rparr>)"
proof -
  note Q = queues_okD [OF turns_okD(1) [OF ok]]
  have "\<forall>c'. map_of (tq_queues s) c' = Some q \<longrightarrow> c' = c" using Q(2) [OF q] by blast
  from turns_ok_drop [OF ok Q(1) [OF q] this] fresh have "turns_ok (s\<lparr>tq_heap := (tq_heap s)[q := []],
    tq_queues := (if map_of (tq_queues s) c = Some q then ddel c (tq_queues s) else tq_queues s)\<rparr>)" by blast
  with q show ?thesis by simp
qed

lemma not_busy:
  assumes "turns_ok s" "\<not> worker_busy c s" "t < length (tq_tasks s)" "wk_chan (tq_tasks s ! t) = c"
  shows "\<not> worker_live (tq_tasks s ! t) \<or> wk_cancelled (tq_tasks s ! t)"
proof (rule ccontr)
  assume "\<not> (\<not> worker_live (tq_tasks s ! t) \<or> wk_cancelled (tq_tasks s ! t))"
  then have l: "worker_live (tq_tasks s ! t)" "\<not> wk_cancelled (tq_tasks s ! t)" by auto
  from live_active [OF assms(1,3) this] assms(4) have "map_of (tq_active s) c = Some t" by simp
  with assms(2) l(1) show False by (simp add: worker_busy_def task_done_def worker_live_def)
qed

lemma turns_ok_start:
  assumes ok: "turns_ok s" and nb: "\<not> worker_busy c s" and q: "map_of (tq_queues s) c = Some q" "tq_heap s ! q \<noteq> []"
  shows "turns_ok (start_worker c s)"
proof -
  let ?w = "\<lparr>wk_chan = c, wk_queue = None, wk_cancelled = False, wk_phase = Fresh\<rparr>"
  let ?s = "start_worker c s"
  have s': "tq_tasks ?s = tq_tasks s @ [?w]" "tq_active ?s = dset c (length (tq_tasks s)) (tq_active s)"
    "tq_queues ?s = tq_queues s" "tq_heap ?s = tq_heap s" by (simp_all add: start_worker_def)
  have wk: "serving_ok ?s w = serving_ok s w" for w by (cases "wk_queue w") (simp_all add: serving_ok_def s')
  show ?thesis
  proof (rule turns_okI)
    show "queues_ok ?s" using turns_okD(1) [OF ok] by (simp add: queues_ok_def s')
    show "active_ok ?s" unfolding active_ok_def
    proof (intro conjI allI impI)
      fix c' t assume "map_of (tq_active ?s) c' = Some t"
      then show "t < length (tq_tasks ?s)" "wk_chan (tq_tasks ?s ! t) = c'"
        using turns_okD(2) [OF ok] by (auto simp: s' active_ok_def nth_append less_SucI split: if_splits)
    next
      fix t assume t: "t < length (tq_tasks ?s)" "worker_live (tq_tasks ?s ! t)" "\<not> wk_cancelled (tq_tasks ?s ! t)"
      show "map_of (tq_active ?s) (wk_chan (tq_tasks ?s ! t)) = Some t"
      proof (cases "t = length (tq_tasks s)")
        case True
        then show ?thesis by (simp add: s')
      next
        case False
        then have t': "t < length (tq_tasks s)" "worker_live (tq_tasks s ! t)" "\<not> wk_cancelled (tq_tasks s ! t)"
          using t by (auto simp: s' nth_append)
        have "wk_chan (tq_tasks s ! t) \<noteq> c" using not_busy [OF ok nb t'(1)] t'(2,3) by blast
        with live_active [OF ok t'] t'(1) show ?thesis by (simp add: s' nth_append)
      qed
    qed
    fix t assume "t < length (tq_tasks ?s)"
    then consider "t < length (tq_tasks s)" | "t = length (tq_tasks s)" by (auto simp: s' less_Suc_eq)
    then show "serving_ok ?s (tq_tasks ?s ! t)"
    proof cases
      case 1
      then show ?thesis unfolding wk using turns_okD(3) [OF ok] by (simp add: s' nth_append)
    next
      case 2
      then show ?thesis unfolding wk using q by (simp add: s' serving_ok_def)
    qed
  qed
qed

lemma queue_turn_cases:
  assumes "queue_turn c e s = (b, s')"
  obtains (draining) "tq_draining s" "\<not> b" "s' = s"
  | (rejected) q s1 where "\<not> tq_draining s" "\<not> b" "find_queue c s = (q, s1)"
      "s' = (if tq_heap s1 ! q = [] then s1\<lparr>tq_queues := ddel c (tq_queues s1)\<rparr> else s1)"
  | (accepted) q s1 s2 where "\<not> tq_draining s" "b" "find_queue c s = (q, s1)" "tq_work s < tq_max s"
      "s2 = s1\<lparr>tq_heap := (tq_heap s1)[q := tq_heap s1 ! q @ [e]], tq_work := tq_work s + 1\<rparr>"
      "s' = (if worker_busy c s1 then s2 else start_worker c s2)"
proof -
  obtain q s1 where f: "find_queue c s = (q, s1)" by (rule prod.exhaust)
  have "tq_work s1 = tq_work s" "tq_max s1 = tq_max s"
    using f by (auto simp: find_queue_def split: option.splits)
  then show ?thesis using assms f draining rejected accepted
    by (auto simp: queue_turn_def Let_def split: if_splits)
qed

lemma turns_ok_queue:
  assumes ok: "turns_ok s" and b: "queue_turn c e s = (b, s')"
  shows "turns_ok s'"
  using b
proof (cases rule: queue_turn_cases)
  case draining
  with ok show ?thesis by simp
next
  case (rejected q s1)
  note f = find_queue_ok [OF ok rejected(3)]
  show ?thesis
  proof (cases "tq_heap s1 ! q = []")
    case True
    then have h: "(tq_heap s1)[q := []] = tq_heap s1" by (metis list_update_id)
    have "turns_ok (s1\<lparr>tq_heap := (tq_heap s1)[q := []], tq_queues := ddel c (tq_queues s1)\<rparr>)"
    proof (rule turns_ok_detach [OF f(1,2)])
      fix t assume "t < length (tq_tasks s1)" "wk_chan (tq_tasks s1 ! t) = c" "wk_phase (tq_tasks s1 ! t) = Fresh"
      with turns_okD(3) [OF f(1), of t] f(2) True show "wk_cancelled (tq_tasks s1 ! t)" by (auto simp: serving_ok_def)
    qed
    then show ?thesis using True rejected(4) h by simp
  qed (use f(1) rejected(4) in simp)
next
  case (accepted q s1 s2)
  note f = find_queue_ok [OF ok accepted(3)]
  have "turns_ok (s1\<lparr>tq_heap := (tq_heap s1)[q := tq_heap s1 ! q @ [e]]\<rparr>)"
    by (rule turns_ok_contents [OF f(1,2)]) simp
  then have s2: "turns_ok s2" unfolding accepted(5) by simp
  have q: "map_of (tq_queues s2) c = Some q" "tq_heap s2 ! q \<noteq> []"
    using f(2) queues_okD(1) [OF turns_okD(1) [OF f(1)] f(2)] by (simp_all add: accepted(5))
  show ?thesis
  proof (cases "worker_busy c s1")
    case False
    then have "\<not> worker_busy c s2"
      by (cases "map_of (tq_active s1) c") (simp_all add: accepted(5) worker_busy_def task_done_def)
    from turns_ok_start [OF s2 this q] False accepted(6) show ?thesis by simp
  qed (use s2 accepted(6) in simp)
qed

text \<open>The callback and the stop command.\<close>

lemma turns_ok_inactive:
  assumes ok: "turns_ok s"
    and n: "\<And>t. t < length (tq_tasks s) \<Longrightarrow> wk_chan (tq_tasks s ! t) = c \<Longrightarrow> worker_live (tq_tasks s ! t) \<Longrightarrow> wk_cancelled (tq_tasks s ! t)"
  shows "turns_ok (s\<lparr>tq_active := ddel c (tq_active s)\<rparr>)"
proof (rule turns_okI)
  let ?s = "s\<lparr>tq_active := ddel c (tq_active s)\<rparr>"
  show "queues_ok ?s" using turns_okD(1) [OF ok] by (simp add: queues_ok_def)
  show "active_ok ?s" unfolding active_ok_def
  proof (intro conjI allI impI)
    fix c' t assume "map_of (tq_active ?s) c' = Some t"
    then show "t < length (tq_tasks ?s)" "wk_chan (tq_tasks ?s ! t) = c'"
      using turns_okD(2) [OF ok] by (auto simp: active_ok_def split: if_splits)
  next
    fix t assume t: "t < length (tq_tasks ?s)" "worker_live (tq_tasks ?s ! t)" "\<not> wk_cancelled (tq_tasks ?s ! t)"
    then have "wk_chan (tq_tasks s ! t) \<noteq> c" using n [of t] by auto
    with live_active [OF ok, of t] t show "map_of (tq_active ?s) (wk_chan (tq_tasks ?s ! t)) = Some t" by simp
  qed
  fix t assume "t < length (tq_tasks ?s)"
  with turns_okD(3) [OF ok, of t] show "serving_ok ?s (tq_tasks ?s ! t)" by simp
qed

lemma turns_ok_drop_queue:
  assumes ok: "turns_ok s"
    and n: "\<And>t. t < length (tq_tasks s) \<Longrightarrow> wk_chan (tq_tasks s ! t) = c \<Longrightarrow> worker_live (tq_tasks s ! t) \<Longrightarrow> wk_cancelled (tq_tasks s ! t)"
  shows "turns_ok (drop_queue c s)"
proof (cases "map_of (tq_queues s) c")
  case (Some q)
  have e: "drop_queue c s = s\<lparr>tq_heap := (tq_heap s)[q := []], tq_queues := ddel c (tq_queues s),
      tq_work := tq_work s - length (tq_heap s ! q)\<rparr>"
    using Some by (cases s) (simp add: drop_queue_def clear_queue_def)
  have "turns_ok (s\<lparr>tq_heap := (tq_heap s)[q := []], tq_queues := ddel c (tq_queues s)\<rparr>)"
    by (rule turns_ok_detach [OF ok Some]) (use n in \<open>auto simp: worker_live_def\<close>)
  then show ?thesis unfolding e by simp
qed (use ok in \<open>simp add: drop_queue_def\<close>)

lemma turns_ok_callback:
  assumes ok: "turns_ok s" and t: "t < length (tq_tasks s)" "wk_phase (tq_tasks s ! t) = Ended"
  shows "turns_ok (finished_callback t s)"
proof -
  let ?c = "wk_chan (tq_tasks s ! t)" and ?s1 = "set_phase t Reaped s"
  have ok1: "turns_ok ?s1" using ok t(1) by (rule turns_ok_set_phase) simp_all
  show ?thesis
  proof (cases "map_of (tq_active s) ?c = Some t")
    case True
    have n: "wk_cancelled (tq_tasks ?s1 ! i)"
      if "i < length (tq_tasks ?s1)" "wk_chan (tq_tasks ?s1 ! i) = ?c" "worker_live (tq_tasks ?s1 ! i)" for i
    proof (rule ccontr)
      assume "\<not> wk_cancelled (tq_tasks ?s1 ! i)"
      with live_active [OF ok1 that(1,3)] that(2) True have "i = t" by simp
      with that(3) t(1) show False by (simp add: worker_live_def set_phase_def)
    qed
    let ?s2 = "?s1\<lparr>tq_active := ddel ?c (tq_active ?s1)\<rparr>"
    have "turns_ok ?s2" by (rule turns_ok_inactive [OF ok1 n])
    then have "turns_ok (drop_queue ?c ?s2)" by (rule turns_ok_drop_queue) (use n in simp)
    with True show ?thesis by (simp add: finished_callback_def Let_def)
  next
    case False
    with ok1 show ?thesis by (simp add: finished_callback_def Let_def)
  qed
qed

lemma drop_queue_simps [simp]:
  "tq_tasks (drop_queue c s) = tq_tasks s" "tq_active (drop_queue c s) = tq_active s" "tq_slots (drop_queue c s) = tq_slots s"
  "tq_max (drop_queue c s) = tq_max s" "tq_draining (drop_queue c s) = tq_draining s"
  "tq_queues (drop_queue c s) = ddel c (tq_queues s)"
proof -
  show "tq_queues (drop_queue c s) = ddel c (tq_queues s)"
  proof (cases "map_of (tq_queues s) c")
    case None
    then have "ddel c (tq_queues s) = tq_queues s" by (simp add: map_of_None_iff)
    with None show ?thesis by (simp add: drop_queue_def)
  qed (simp add: drop_queue_def clear_queue_def)
qed (auto simp: drop_queue_def clear_queue_def split: option.splits)

text \<open>A stopped worker: flagged, out of the table, its deque empty. The flag may be set first.\<close>

lemma turns_ok_stop:
  assumes ok: "turns_ok s" and t: "map_of (tq_active s) c = Some t" "worker_live (tq_tasks s ! t)"
  shows "turns_ok (stop_worker c t s)"
proof (rule turns_okI)
  have tl: "t < length (tq_tasks s)" "wk_chan (tq_tasks s ! t) = c" using turns_okD(2) [OF ok] t(1) by (auto simp: active_ok_def)
  let ?w = "(tq_tasks s ! t)\<lparr>wk_cancelled := True\<rparr>" and ?s = "stop_worker c t s"
  have tasks: "tq_tasks ?s = (tq_tasks s)[t := ?w]" by (simp add: stop_worker_def Let_def)
  have active: "tq_active ?s = ddel c (tq_active s)" by (simp add: stop_worker_def Let_def)
  have queues: "tq_queues ?s = ddel c (tq_queues s)" by (simp add: stop_worker_def Let_def)
  have heap: "tq_heap ?s = (case map_of (tq_queues s) c of None \<Rightarrow> tq_heap s | Some q \<Rightarrow> (tq_heap s)[q := []])"
    by (simp add: stop_worker_def drop_queue_def clear_queue_def Let_def split: option.splits)
  note Q = queues_okD [OF turns_okD(1) [OF ok]]
  have m: "map_of (tq_queues ?s) c' = (if c' = c then None else map_of (tq_queues s) c')" for c' by (simp add: queues)
  have len: "length (tq_heap ?s) = length (tq_heap s)" by (simp add: heap split: option.splits)
  have keep: "tq_heap ?s ! x = tq_heap s ! x" if "map_of (tq_queues s) c' = Some x" "c' \<noteq> c" for c' x
  proof (cases "map_of (tq_queues s) c")
    case (Some q)
    then have "x \<noteq> q" using Q(2) [OF that(1), of c] that(2) by blast
    with Some show ?thesis by (simp add: heap)
  qed (simp add: heap)
  show "queues_ok ?s" unfolding queues_ok_def
  proof (intro conjI allI impI)
    fix c' x assume "map_of (tq_queues ?s) c' = Some x"
    then show "x < length (tq_heap ?s)" unfolding len m using Q(1) [of c' x] by (auto split: if_splits)
  next
    fix c' c'' x assume "map_of (tq_queues ?s) c' = Some x" "map_of (tq_queues ?s) c'' = Some x"
    then show "c' = c''" unfolding m using Q(2) [of c'' x c'] by (auto split: if_splits)
  next
    fix x assume x: "x < length (tq_heap ?s)" "tq_heap ?s ! x \<noteq> []"
    have "tq_heap s ! x \<noteq> [] \<and> map_of (tq_queues s) c \<noteq> Some x"
    proof (cases "map_of (tq_queues s) c")
      case (Some a)
      then show ?thesis using x Q(1) [OF Some] by (cases "a = x") (simp_all add: heap)
    qed (use x in \<open>simp add: heap\<close>)
    with x(1) Q(3) [of x] len obtain c' where c': "map_of (tq_queues s) c' = Some x" "c' \<noteq> c" by auto
    then have "map_of (tq_queues ?s) c' = Some x" by (simp add: m)
    then show "\<exists>c. map_of (tq_queues ?s) c = Some x" ..
  qed
  have nth: "tq_tasks ?s ! i = (if i = t then ?w else tq_tasks s ! i)" if "i < length (tq_tasks s)" for i
    using that by (simp add: tasks nth_list_update)
  have lent: "length (tq_tasks ?s) = length (tq_tasks s)" by (simp add: tasks)
  have only: "i = t" if "i < length (tq_tasks s)" "wk_chan (tq_tasks s ! i) = c" "worker_live (tq_tasks s ! i)" "\<not> wk_cancelled (tq_tasks s ! i)" for i
    using live_active [OF ok that(1,3,4)] that(2) t(1) by simp
  show "active_ok ?s" unfolding active_ok_def
  proof (intro conjI allI impI)
    fix c' i assume "map_of (tq_active ?s) c' = Some i"
    then have "map_of (tq_active s) c' = Some i" "c' \<noteq> c" unfolding active by (auto split: if_splits)
    then have i: "i < length (tq_tasks s)" "wk_chan (tq_tasks s ! i) = c'" using turns_okD(2) [OF ok] by (auto simp: active_ok_def)
    then show "i < length (tq_tasks ?s)" by (simp add: lent)
    show "wk_chan (tq_tasks ?s ! i) = c'" using i by (cases "i = t") (simp_all add: nth)
  next
    fix i assume i: "i < length (tq_tasks ?s)" "worker_live (tq_tasks ?s ! i)" "\<not> wk_cancelled (tq_tasks ?s ! i)"
    then have i': "i < length (tq_tasks s)" "i \<noteq> t" using nth by (auto simp: lent split: if_splits)
    with i have "worker_live (tq_tasks s ! i)" "\<not> wk_cancelled (tq_tasks s ! i)" by (simp_all add: nth)
    with live_active [OF ok i'(1)] only [OF i'(1)] i'
    show "map_of (tq_active ?s) (wk_chan (tq_tasks ?s ! i)) = Some i" by (auto simp: active nth)
  qed
  fix i assume "i < length (tq_tasks ?s)"
  then have i: "i < length (tq_tasks s)" by (simp add: lent)
  let ?v = "tq_tasks s ! i"
  have v: "serving_ok s ?v" using turns_okD(3) [OF ok i] .
  show "serving_ok ?s (tq_tasks ?s ! i)"
  proof (cases "i = t")
    case True
    have "map_of (tq_queues ?s) c' \<noteq> Some x" if "wk_queue ?v = Some x" for c' x
      using v that True tl(2) by (auto simp: serving_ok_def m split: if_splits)
    with v True i show ?thesis by (cases "wk_queue ?v") (auto simp: serving_ok_def nth len worker_live_def)
  next
    case False
    have "\<exists>q. map_of (tq_queues ?s) (wk_chan ?v) = Some q \<and> tq_heap ?s ! q \<noteq> []"
      if fr: "wk_phase ?v = Fresh" "\<not> wk_cancelled ?v"
    proof -
      have "wk_chan ?v \<noteq> c" using only [OF i] fr False by (auto simp: worker_live_def)
      moreover obtain x where "map_of (tq_queues s) (wk_chan ?v) = Some x" "tq_heap s ! x \<noteq> []"
        using fresh_queue [OF v fr] by blast
      ultimately show ?thesis using keep by (auto simp: m)
    qed
    with v False i show ?thesis by (cases "wk_queue ?v") (auto simp: serving_ok_def nth len m split: if_splits)
  qed
qed

section \<open>Counting\<close>

definition in_hand :: "'e worker \<Rightarrow> nat" where
  "in_hand w = (case wk_phase w of Waiting _ \<Rightarrow> 1 | Running _ _ \<Rightarrow> 1 | _ \<Rightarrow> 0)"

definition holds_slot :: "'e worker \<Rightarrow> nat" where
  "holds_slot w = (case wk_phase w of Running _ True \<Rightarrow> 1 | _ \<Rightarrow> 0)"

definition queued :: "'e turns \<Rightarrow> nat" where
  "queued s = sum_list (map length (tq_heap s))"

definition in_hands :: "'e turns \<Rightarrow> nat" where
  "in_hands s = sum_list (map in_hand (tq_tasks s))"

definition slots_held :: "'e turns \<Rightarrow> nat" where
  "slots_held s = sum_list (map holds_slot (tq_tasks s))"

definition counts :: "nat \<Rightarrow> 'e turns \<Rightarrow> bool" where
  "counts n s \<longleftrightarrow> tq_work s = queued s + in_hands s \<and> tq_slots s + slots_held s = n \<and> tq_work s \<le> tq_max s"

text \<open>The counts without the share of task \<open>t\<close>, which is about to change its phase.\<close>

definition counts_but :: "nat \<Rightarrow> nat \<Rightarrow> 'e turns \<Rightarrow> bool" where
  "counts_but n t s \<longleftrightarrow> tq_work s + in_hand (tq_tasks s ! t) = queued s + in_hands s
     \<and> tq_slots s + slots_held s = n + holds_slot (tq_tasks s ! t) \<and> tq_work s \<le> tq_max s"

lemma sum_list_update_nat:
  "t < length xs \<Longrightarrow> sum_list (map f (xs[t := y])) + f (xs ! t) = sum_list (map f xs) + (f y :: nat)"
proof (induction xs arbitrary: t)
  case (Cons x xs)
  then show ?case by (cases t) (simp_all add: add.assoc)
qed simp

lemma member_le_sum_nat: "t < length xs \<Longrightarrow> f (xs ! t) \<le> sum_list (map f (xs :: 'a list) :: nat list)"
  using elem_le_sum_list [of t "map f xs"] by simp

lemma queued_update: "q < length (tq_heap s) \<Longrightarrow>
    queued (s\<lparr>tq_heap := (tq_heap s)[q := es]\<rparr>) + length (tq_heap s ! q) = queued s + length es"
  unfolding queued_def using sum_list_update_nat [of q "tq_heap s" length es] by simp

lemma in_hands_set_phase:
  assumes "t < length (tq_tasks s)"
  shows "in_hands (set_phase t p s) + in_hand (tq_tasks s ! t) = in_hands s + in_hand ((tq_tasks s ! t)\<lparr>wk_phase := p\<rparr>)"
    and "slots_held (set_phase t p s) + holds_slot (tq_tasks s ! t) = slots_held s + holds_slot ((tq_tasks s ! t)\<lparr>wk_phase := p\<rparr>)"
  unfolding in_hands_def slots_held_def set_phase_def
  using sum_list_update_nat [OF assms, of in_hand] sum_list_update_nat [OF assms, of holds_slot] by simp_all

lemma counts_end:
  assumes "counts_but n t s" "t < length (tq_tasks s)" "q < length (tq_heap s)"
  shows "counts n (end_worker t q s)"
proof -
  let ?s = "s\<lparr>tq_heap := (tq_heap s)[q := []]\<rparr>"
  have e: "queued (end_worker t q s) = queued ?s" "in_hands (end_worker t q s) = in_hands (set_phase t Ended s)"
    "slots_held (end_worker t q s) = slots_held (set_phase t Ended s)"
    "tq_work (end_worker t q s) = tq_work s - length (tq_heap s ! q)" "tq_slots (end_worker t q s) = tq_slots s"
    "tq_max (end_worker t q s) = tq_max s"
    by (simp_all add: end_worker_eq queued_def in_hands_def slots_held_def set_phase_def)
  have z: "in_hand ((tq_tasks s ! t)\<lparr>wk_phase := Ended\<rparr>) = 0" "holds_slot ((tq_tasks s ! t)\<lparr>wk_phase := Ended\<rparr>) = 0"
    by (simp_all add: in_hand_def holds_slot_def)
  from queued_update [OF assms(3), of "[]"] in_hands_set_phase [OF assms(2), of Ended] assms(1) z show ?thesis
    unfolding counts_def counts_but_def e list.size by (elim conjE) (intro conjI; linarith)
qed

lemma counts_next:
  assumes "counts_but n t s" "t < length (tq_tasks s)" "q < length (tq_heap s)"
  shows "counts n (next_turn t q s)"
proof (cases "tq_heap s ! q = [] \<or> tq_draining s")
  case True
  then have "next_turn t q s = end_worker t q s" by (auto simp: next_turn_def split: list.splits)
  with counts_end [OF assms] show ?thesis by simp
next
  case False
  then obtain e es where h: "tq_heap s ! q = e # es" by (cases "tq_heap s ! q") auto
  let ?s = "s\<lparr>tq_heap := (tq_heap s)[q := es]\<rparr>"
  have n: "next_turn t q s = set_phase t (Waiting e) ?s" using False h by (simp add: next_turn_def)
  have e: "queued (set_phase t (Waiting e) ?s) = queued ?s" "in_hands ?s = in_hands s" "slots_held ?s = slots_held s"
    by (simp_all add: queued_def in_hands_def slots_held_def)
  have z: "in_hand ((tq_tasks s ! t)\<lparr>wk_phase := Waiting e\<rparr>) = 1" "holds_slot ((tq_tasks s ! t)\<lparr>wk_phase := Waiting e\<rparr>) = 0"
    by (simp_all add: in_hand_def holds_slot_def)
  from queued_update [OF assms(3), of es] in_hands_set_phase [of t ?s "Waiting e"] assms z h show ?thesis
    unfolding n counts_def counts_but_def e by simp
qed

lemma counts_leave:
  assumes "counts n s" "t < length (tq_tasks s)" "in_hand (tq_tasks s ! t) = 1" "holds_slot (tq_tasks s ! t) = (if held then 1 else 0)"
  shows "counts_but n t (leave_turn held s)"
  using assms member_le_sum_nat [OF assms(2), of in_hand]
  by (auto simp: counts_def counts_but_def leave_turn_def queued_def in_hands_def slots_held_def)

lemma counts_phase:
  assumes "counts n s" "t < length (tq_tasks s)" "in_hand ((tq_tasks s ! t)\<lparr>wk_phase := p\<rparr>) = in_hand (tq_tasks s ! t)"
    and "k + holds_slot ((tq_tasks s ! t)\<lparr>wk_phase := p\<rparr>) = tq_slots s + holds_slot (tq_tasks s ! t)"
  shows "counts n (set_phase t p (s\<lparr>tq_slots := k\<rparr>))"
proof -
  let ?s = "s\<lparr>tq_slots := k\<rparr>"
  have e: "queued (set_phase t p ?s) = queued s" "in_hands ?s = in_hands s" "slots_held ?s = slots_held s"
    by (simp_all add: queued_def in_hands_def slots_held_def)
  from in_hands_set_phase [of t ?s p] assms show ?thesis unfolding counts_def e by simp
qed

lemma counts_drop:
  assumes "counts n s" "queues_ok s"
  shows "counts n (drop_queue c s)"
proof (cases "map_of (tq_queues s) c")
  case (Some q)
  have q: "q < length (tq_heap s)" using queues_okD(1) [OF assms(2) Some] .
  have e: "queued (drop_queue c s) = queued (s\<lparr>tq_heap := (tq_heap s)[q := []]\<rparr>)" "in_hands (drop_queue c s) = in_hands s"
    "slots_held (drop_queue c s) = slots_held s" "tq_work (drop_queue c s) = tq_work s - length (tq_heap s ! q)"
    using Some by (simp_all add: drop_queue_def clear_queue_def queued_def in_hands_def slots_held_def)
  from queued_update [OF q, of "[]"] assms(1) show ?thesis
    unfolding counts_def e drop_queue_simps list.size by (elim conjE) (intro conjI; linarith)
qed (use assms(1) in \<open>simp add: drop_queue_def\<close>)

lemma counts_tables [simp]:
  "counts n (s\<lparr>tq_active := d\<rparr>) = counts n s" "counts n (s\<lparr>tq_queues := d\<rparr>) = counts n s" "counts n (s\<lparr>tq_stop := st\<rparr>) = counts n s"
  "counts n (s\<lparr>tq_draining := b\<rparr>) = counts n s"
  by (simp_all add: counts_def queued_def in_hands_def slots_held_def)

lemma counts_queue:
  assumes "counts n s" "turns_ok s" "queue_turn c e s = (b, s')"
  shows "counts n s'"
  using assms(3)
proof (cases rule: queue_turn_cases)
  case draining
  with assms(1) show ?thesis by simp
next
  case (rejected q s1)
  note f = find_queue_ok [OF assms(2) rejected(3)]
  have "counts n s1" using assms(1) f(10) by (auto simp: counts_def queued_def in_hands_def slots_held_def f(3-7))
  with rejected(4) show ?thesis by simp
next
  case (accepted q s1 s2)
  note f = find_queue_ok [OF assms(2) accepted(3)]
  have q: "q < length (tq_heap s1)" using queues_okD(1) [OF turns_okD(1) [OF f(1)] f(2)] .
  have c1: "counts n s1" using assms(1) f(10) by (auto simp: counts_def queued_def in_hands_def slots_held_def f(3-7))
  have e: "queued s2 = queued (s1\<lparr>tq_heap := (tq_heap s1)[q := tq_heap s1 ! q @ [e]]\<rparr>)" "in_hands s2 = in_hands s1" "slots_held s2 = slots_held s1"
    "tq_work s2 = Suc (tq_work s)" "tq_max s2 = tq_max s1" "tq_slots s2 = tq_slots s1"
    by (simp_all add: accepted(5) queued_def in_hands_def slots_held_def)
  have c2: "counts n s2" using c1 queued_update [OF q, of "tq_heap s1 ! q @ [e]"] accepted(4) f(5,7)
    unfolding counts_def e by simp
  have "counts n (start_worker c s2)" using c2
    by (simp add: counts_def queued_def in_hands_def slots_held_def start_worker_def in_hand_def holds_slot_def)
  with c2 accepted(6) show ?thesis by simp
qed

section \<open>Order\<close>

definition of_chan :: "string \<Rightarrow> (string \<times> 'e) list \<Rightarrow> 'e list" where
  "of_chan c xs = map snd (filter (\<lambda>p. fst p = c) xs)"

definition waiting_turns :: "string \<Rightarrow> 'e turns \<Rightarrow> 'e list" where
  "waiting_turns c s = (case map_of (tq_queues s) c of Some q \<Rightarrow> tq_heap s ! q | None \<Rightarrow> [])"

definition in_order :: "'e turns \<Rightarrow> 'e trail \<Rightarrow> bool" where
  "in_order s tr \<longleftrightarrow> (\<forall>c. subseq (of_chan c (tr_started tr) @ waiting_turns c s) (of_chan c (tr_accepted tr)))"

text \<open>In a calm run nothing is flagged, workers serve the deque of the table, and a dead worker left no deque behind.\<close>

definition calm_ok :: "'e turns \<Rightarrow> 'e trail \<Rightarrow> bool" where
  "calm_ok s tr \<longleftrightarrow> (tr_calm tr \<longrightarrow> \<not> tq_draining s
     \<and> (\<forall>t < length (tq_tasks s). \<not> wk_cancelled (tq_tasks s ! t)
          \<and> (worker_live (tq_tasks s ! t) \<longrightarrow> wk_phase (tq_tasks s ! t) \<noteq> Fresh
               \<longrightarrow> map_of (tq_queues s) (wk_chan (tq_tasks s ! t)) = wk_queue (tq_tasks s ! t)))
     \<and> (\<forall>c t. map_of (tq_active s) c = Some t \<longrightarrow> \<not> worker_live (tq_tasks s ! t) \<longrightarrow> map_of (tq_queues s) c = None)
     \<and> (\<forall>c. of_chan c (tr_started tr) @ waiting_turns c s = of_chan c (tr_accepted tr)))"

lemma subseq_shrink: "subseq (xs @ ys) zs \<Longrightarrow> ys' = ys \<or> ys' = [] \<Longrightarrow> subseq (xs @ ys') zs"
  by (metis append_Nil2 list_emb_append2 prefix_imp_subseq prefixI subseq_order.order_trans)

lemma in_order_shrink:
  assumes "in_order s tr" "\<And>c. waiting_turns c s' = waiting_turns c s \<or> waiting_turns c s' = []"
    and "tr_started tr' = tr_started tr" "tr_accepted tr' = tr_accepted tr"
  shows "in_order s' tr'"
  using assms subseq_shrink unfolding in_order_def by metis

lemma waiting_set_phase [simp]: "waiting_turns c (set_phase t p s) = waiting_turns c s"
  by (simp add: waiting_turns_def cong: option.case_cong)

lemma waiting_fields [simp]:
  "waiting_turns c (s\<lparr>tq_work := n\<rparr>) = waiting_turns c s" "waiting_turns c (s\<lparr>tq_slots := n\<rparr>) = waiting_turns c s"
  "waiting_turns c (s\<lparr>tq_stop := st\<rparr>) = waiting_turns c s" "waiting_turns c (s\<lparr>tq_draining := b\<rparr>) = waiting_turns c s"
  "waiting_turns c (s\<lparr>tq_active := d\<rparr>) = waiting_turns c s" "waiting_turns c (s\<lparr>tq_tasks := ts\<rparr>) = waiting_turns c s"
  by (simp_all add: waiting_turns_def cong: option.case_cong)

lemma waiting_drop:
  assumes "queues_ok s"
  shows "waiting_turns c' (drop_queue c s) = (if c' = c then [] else waiting_turns c' s)"
proof (cases "map_of (tq_queues s) c")
  case None
  then show ?thesis by (simp add: drop_queue_def waiting_turns_def)
next
  case (Some q)
  have "x \<noteq> q" if "map_of (tq_queues s) c' = Some x" "c' \<noteq> c" for x
    using queues_okD(2) [OF assms Some] that by blast
  with Some show ?thesis
    by (cases "map_of (tq_queues s) c'") (auto simp: drop_queue_def clear_queue_def waiting_turns_def)
qed

lemma waiting_end:
  assumes "turns_ok s" "t < length (tq_tasks s)" "wk_queue (tq_tasks s ! t) = Some q"
  shows "waiting_turns c (end_worker t q s)
    = (if map_of (tq_queues s) c = Some q then [] else waiting_turns c s)"
proof -
  let ?c = "wk_chan (tq_tasks s ! t)"
  have own: "map_of (tq_queues s) c = Some q \<Longrightarrow> c = ?c"
    using turns_okD(3) [OF assms(1,2)] assms(3) by (simp add: serving_ok_def)
  have q: "q < length (tq_heap s)" using own_queue(1) [OF assms] .
  have m: "map_of (tq_queues (end_worker t q s)) c = (if map_of (tq_queues s) c = Some q then None else map_of (tq_queues s) c)"
  proof -
    have "map_of (tq_queues (end_worker t q s)) c
        = (if map_of (tq_queues s) ?c = Some q \<and> c = ?c then None else map_of (tq_queues s) c)"
      by (simp add: end_worker_eq)
    with own show ?thesis by metis
  qed
  have h: "tq_heap (end_worker t q s) = (tq_heap s)[q := []]" by (simp add: end_worker_eq)
  show ?thesis
  proof (cases "map_of (tq_queues s) c")
    case None
    then show ?thesis by (simp add: waiting_turns_def m)
  next
    case (Some x)
    then show ?thesis by (cases "x = q") (simp_all add: waiting_turns_def m h)
  qed
qed

text \<open>What the loop head does to the waiting turns: it takes the first of its channel, or leaves.\<close>

lemma next_turn_cases:
  assumes ok: "turns_ok s" and t: "t < length (tq_tasks s)" and q: "wk_queue (tq_tasks s ! t) = Some q"
  obtains (takes) e es where "waiting_turns (wk_chan (tq_tasks s ! t)) s = e # es"
      "wk_phase (tq_tasks (next_turn t q s) ! t) = Waiting e" "map_of (tq_queues s) (wk_chan (tq_tasks s ! t)) = Some q"
      "next_turn t q s = set_phase t (Waiting e) (s\<lparr>tq_heap := (tq_heap s)[q := es]\<rparr>)"
      "\<And>c. waiting_turns c (next_turn t q s) = (if c = wk_chan (tq_tasks s ! t) then es else waiting_turns c s)"
  | (leaves) "tq_heap s ! q = [] \<or> tq_draining s" "next_turn t q s = end_worker t q s"
      "wk_phase (tq_tasks (next_turn t q s) ! t) = Ended"
proof (cases "tq_heap s ! q = [] \<or> tq_draining s")
  case True
  then have n: "next_turn t q s = end_worker t q s" by (auto simp: next_turn_def split: list.splits)
  have "wk_phase (tq_tasks (end_worker t q s) ! t) = Ended" using t by (simp add: end_worker_eq set_phase_def)
  with True n leaves show ?thesis by simp
next
  case False
  then obtain e es where h: "tq_heap s ! q = e # es" by (cases "tq_heap s ! q") auto
  let ?c = "wk_chan (tq_tasks s ! t)"
  have a: "map_of (tq_queues s) ?c = Some q" using own_queue(2) [OF ok t q] h by simp
  have n: "next_turn t q s = set_phase t (Waiting e) (s\<lparr>tq_heap := (tq_heap s)[q := es]\<rparr>)" using False h by (simp add: next_turn_def)
  have ql: "q < length (tq_heap s)" using own_queue(1) [OF ok t q] .
  have u: "x \<noteq> q" if "map_of (tq_queues s) c = Some x" "c \<noteq> ?c" for c x
    using queues_okD(2) [OF turns_okD(1) [OF ok] a] that by blast
  have "waiting_turns c (next_turn t q s) = (if c = ?c then es else waiting_turns c s)" for c
    unfolding n waiting_set_phase using a ql u [of c] by (cases "map_of (tq_queues s) c") (auto simp: waiting_turns_def)
  moreover have "waiting_turns ?c s = e # es" using a h by (simp add: waiting_turns_def)
  moreover have "wk_phase (tq_tasks (next_turn t q s) ! t) = Waiting e" using t by (simp add: n set_phase_def)
  ultimately show ?thesis using takes a n by blast
qed

lemma of_chan_snoc [simp]: "of_chan c (xs @ [(d, e)]) = (if c = d then of_chan c xs @ [e] else of_chan c xs)"
  by (simp add: of_chan_def)

lemma chan_next: "t < length (tq_tasks s) \<Longrightarrow> wk_chan (tq_tasks (next_turn t q s) ! t) = wk_chan (tq_tasks s ! t)"
  by (auto simp: next_turn_def end_worker_eq set_phase_def split: list.splits)

lemma in_order_next:
  assumes ok: "turns_ok s" and t: "t < length (tq_tasks s)" and q: "wk_queue (tq_tasks s ! t) = Some q" and o: "in_order s tr"
  shows "in_order (next_turn t q s) (took t (next_turn t q s) tr)"
  using ok t q
proof (cases rule: next_turn_cases)
  case (takes e es)
  let ?c = "wk_chan (tq_tasks s ! t)"
  have "subseq (of_chan ?c (tr_started tr) @ e # es) (of_chan ?c (tr_accepted tr))"
    using o takes(1) unfolding in_order_def by metis
  with o show ?thesis unfolding in_order_def by (simp add: took_def takes(2,5) chan_next [OF t])
next
  case leaves
  show ?thesis
    by (rule in_order_shrink [OF o]) (use leaves(2,3) waiting_end [OF ok t q] in \<open>auto simp: took_def\<close>)
qed

text \<open>A calm run.\<close>

lemma calm_okD:
  assumes "calm_ok s tr" "tr_calm tr"
  shows "\<not> tq_draining s" "t < length (tq_tasks s) \<Longrightarrow> \<not> wk_cancelled (tq_tasks s ! t)"
    and "t < length (tq_tasks s) \<Longrightarrow> worker_live (tq_tasks s ! t) \<Longrightarrow> wk_phase (tq_tasks s ! t) \<noteq> Fresh
      \<Longrightarrow> map_of (tq_queues s) (wk_chan (tq_tasks s ! t)) = wk_queue (tq_tasks s ! t)"
    and "map_of (tq_active s) c = Some t \<Longrightarrow> \<not> worker_live (tq_tasks s ! t) \<Longrightarrow> map_of (tq_queues s) c = None"
    and "of_chan c (tr_started tr) @ waiting_turns c s = of_chan c (tr_accepted tr)"
  using assms unfolding calm_ok_def by blast+

lemma not_calm [simp]: "\<not> tr_calm tr \<Longrightarrow> calm_ok s tr"
  by (simp add: calm_ok_def)

lemma calm_okI:
  assumes "tr_calm tr \<Longrightarrow> \<not> tq_draining s"
    and "\<And>t. tr_calm tr \<Longrightarrow> t < length (tq_tasks s) \<Longrightarrow> \<not> wk_cancelled (tq_tasks s ! t)"
    and "\<And>t. tr_calm tr \<Longrightarrow> t < length (tq_tasks s) \<Longrightarrow> worker_live (tq_tasks s ! t) \<Longrightarrow> wk_phase (tq_tasks s ! t) \<noteq> Fresh
      \<Longrightarrow> map_of (tq_queues s) (wk_chan (tq_tasks s ! t)) = wk_queue (tq_tasks s ! t)"
    and "\<And>c t. tr_calm tr \<Longrightarrow> map_of (tq_active s) c = Some t \<Longrightarrow> \<not> worker_live (tq_tasks s ! t) \<Longrightarrow> map_of (tq_queues s) c = None"
    and "\<And>c. tr_calm tr \<Longrightarrow> of_chan c (tr_started tr) @ waiting_turns c s = of_chan c (tr_accepted tr)"
  shows "calm_ok s tr"
  using assms unfolding calm_ok_def by blast

text \<open>A step that changes only counters and the phase of a live task to another live one.\<close>

lemma calm_phase:
  assumes c: "calm_ok s tr" and t: "t < length (tq_tasks s)" and l: "worker_live (tq_tasks s ! t)" "wk_phase (tq_tasks s ! t) \<noteq> Fresh"
    and p: "p \<noteq> Ended" "p \<noteq> Reaped"
  shows "calm_ok (set_phase t p (s\<lparr>tq_slots := k\<rparr>)) tr"
proof (rule calm_okI)
  let ?s = "set_phase t p (s\<lparr>tq_slots := k\<rparr>)"
  have nth: "tq_tasks ?s ! i = (if i = t then (tq_tasks s ! t)\<lparr>wk_phase := p\<rparr> else tq_tasks s ! i)" if "i < length (tq_tasks s)" for i
    using that by (simp add: set_phase_def nth_list_update)
  assume calm: "tr_calm tr"
  note C = calm_okD [OF c calm]
  show "\<not> tq_draining ?s" using C(1) by simp
  show "of_chan c (tr_started tr) @ waiting_turns c ?s = of_chan c (tr_accepted tr)" for c using C(5) by simp
  fix i assume i: "i < length (tq_tasks ?s)"
  then have i': "i < length (tq_tasks s)" by simp
  show "\<not> wk_cancelled (tq_tasks ?s ! i)" using C(2) [OF i'] C(2) [OF t] by (simp add: nth [OF i'])
  assume "worker_live (tq_tasks ?s ! i)" "wk_phase (tq_tasks ?s ! i) \<noteq> Fresh"
  then show "map_of (tq_queues ?s) (wk_chan (tq_tasks ?s ! i)) = wk_queue (tq_tasks ?s ! i)"
    using C(3) [OF i'] C(3) [OF t l] by (simp add: nth [OF i'] split: if_splits)
next
  fix c' i assume calm: "tr_calm tr" and a: "map_of (tq_active (set_phase t p (s\<lparr>tq_slots := k\<rparr>))) c' = Some i"
    and d: "\<not> worker_live (tq_tasks (set_phase t p (s\<lparr>tq_slots := k\<rparr>)) ! i)"
  have "i \<noteq> t" using d p t by (auto simp: worker_live_def set_phase_def)
  with calm_okD(4) [OF c calm, of c' i] a d show "map_of (tq_queues (set_phase t p (s\<lparr>tq_slots := k\<rparr>))) c' = None"
    by (simp add: set_phase_def)
qed

lemma calm_next:
  assumes ok: "turns_ok s" and c: "calm_ok s tr" and t: "t < length (tq_tasks s)" and q: "wk_queue (tq_tasks s ! t) = Some q"
    and l: "worker_live (tq_tasks s ! t)"
  shows "calm_ok (next_turn t q s) (took t (next_turn t q s) tr)"
proof (cases "tr_calm tr")
  case False
  then have "\<not> tr_calm (took t (next_turn t q s) tr)" by (simp add: took_def split: phase.splits)
  then show ?thesis by simp
next
  case calm: True
  note C = calm_okD [OF c calm]
  have f: "wk_phase (tq_tasks s ! t) \<noteq> Fresh" using turns_okD(3) [OF ok t] q by (simp add: serving_ok_def)
  have att: "map_of (tq_queues s) (wk_chan (tq_tasks s ! t)) = Some q" using C(3) [OF t l f] q by simp
  show ?thesis
    using ok t q
  proof (cases rule: next_turn_cases)
    case (takes e es)
    let ?s1 = "s\<lparr>tq_heap := (tq_heap s)[q := es]\<rparr>" and ?c = "wk_chan (tq_tasks s ! t)"
    let ?tr = "tr\<lparr>tr_started := tr_started tr @ [(?c, e)]\<rparr>"
    have w: "waiting_turns c' ?s1 = (if c' = ?c then es else waiting_turns c' s)" for c'
      using takes(5) unfolding takes(4) by simp
    have "calm_ok ?s1 ?tr"
    proof (rule calm_okI)
      fix c' show "of_chan c' (tr_started ?tr) @ waiting_turns c' ?s1 = of_chan c' (tr_accepted ?tr)"
        using C(5) [of c'] takes(1) by (cases "c' = ?c") (simp_all add: w)
    qed (use C in simp_all)
    from calm_phase [OF this, of t "Waiting e" "tq_slots s"] t l f
    have "calm_ok (set_phase t (Waiting e) ?s1) ?tr" by simp
    moreover have "took t (next_turn t q s) tr = ?tr" by (simp add: took_def takes(2) chan_next [OF t])
    ultimately show ?thesis by (simp add: takes(4))
  next
    case leaves
    then have e: "tq_heap s ! q = []" using C(1) by simp
    let ?s = "end_worker t q s" and ?c = "wk_chan (tq_tasks s ! t)"
    have tr: "took t (next_turn t q s) tr = tr" using leaves(2,3) by (simp add: took_def)
    have m: "map_of (tq_queues ?s) c' = (if c' = ?c then None else map_of (tq_queues s) c')" for c'
      using att by (simp add: end_worker_eq)
    have nth: "tq_tasks ?s ! i = (if i = t then (tq_tasks s ! t)\<lparr>wk_phase := Ended\<rparr> else tq_tasks s ! i)" if "i < length (tq_tasks s)" for i
      using that by (simp add: end_worker_eq set_phase_def nth_list_update)
    have act: "map_of (tq_active s) ?c = Some t" using live_active [OF ok t l C(2) [OF t]] .
    have "calm_ok ?s tr"
    proof (rule calm_okI)
      show "\<not> tq_draining ?s" using C(1) by (simp add: end_worker_eq)
      have "waiting_turns ?c s = []" using att e by (simp add: waiting_turns_def)
      moreover have "map_of (tq_queues s) c' = Some q \<Longrightarrow> c' = ?c" for c'
        using queues_okD(2) [OF turns_okD(1) [OF ok] att] by blast
      ultimately have "waiting_turns c' ?s = waiting_turns c' s" for c' using waiting_end [OF ok t q, of c'] by auto
      then show "of_chan c' (tr_started tr) @ waiting_turns c' ?s = of_chan c' (tr_accepted tr)" for c' using C(5) by simp
      fix i assume "i < length (tq_tasks ?s)"
      then have i: "i < length (tq_tasks s)" by (simp add: end_worker_eq)
      show "\<not> wk_cancelled (tq_tasks ?s ! i)" using C(2) [OF i] C(2) [OF t] by (simp add: nth [OF i])
      assume li: "worker_live (tq_tasks ?s ! i)" "wk_phase (tq_tasks ?s ! i) \<noteq> Fresh"
      then have it: "i \<noteq> t" "worker_live (tq_tasks s ! i)" "wk_phase (tq_tasks s ! i) \<noteq> Fresh"
        by (auto simp: nth [OF i] worker_live_def split: if_splits)
      then have "wk_chan (tq_tasks s ! i) \<noteq> ?c" using live_active [OF ok i it(2) C(2) [OF i]] act by auto
      with C(3) [OF i it(2,3)] it(1) show "map_of (tq_queues ?s) (wk_chan (tq_tasks ?s ! i)) = wk_queue (tq_tasks ?s ! i)"
        by (simp add: nth [OF i] m)
    next
      fix c' i assume a: "map_of (tq_active ?s) c' = Some i" and d: "\<not> worker_live (tq_tasks ?s ! i)"
      have a': "map_of (tq_active s) c' = Some i" using a by (simp add: end_worker_eq)
      then have i: "i < length (tq_tasks s)" "wk_chan (tq_tasks s ! i) = c'" using turns_okD(2) [OF ok] by (auto simp: active_ok_def)
      show "map_of (tq_queues ?s) c' = None"
      proof (cases "i = t")
        case True
        then show ?thesis using i(2) by (simp add: m)
      next
        case False
        with d have "\<not> worker_live (tq_tasks s ! i)" by (simp add: nth [OF i(1)])
        with C(4) [OF a'] show ?thesis by (simp add: m)
      qed
    qed
    then show ?thesis unfolding tr unfolding leaves(2) .
  qed
qed

lemma calm_attach:
  assumes c: "calm_ok s tr" and t: "t < length (tq_tasks s)" and q: "map_of (tq_queues s) (wk_chan (tq_tasks s ! t)) = Some q"
  shows "calm_ok (s\<lparr>tq_tasks := (tq_tasks s)[t := (tq_tasks s ! t)\<lparr>wk_queue := Some q, wk_phase := Waiting e\<rparr>]\<rparr>) tr"
proof (rule calm_okI)
  let ?w = "(tq_tasks s ! t)\<lparr>wk_queue := Some q, wk_phase := Waiting e\<rparr>"
  let ?s = "s\<lparr>tq_tasks := (tq_tasks s)[t := ?w]\<rparr>"
  have nth: "(tq_tasks s)[t := ?w] ! i = (if i = t then ?w else tq_tasks s ! i)" if "i < length (tq_tasks s)" for i
    using that by (simp add: nth_list_update)
  assume calm: "tr_calm tr"
  note C = calm_okD [OF c calm]
  show "\<not> tq_draining ?s" "of_chan c (tr_started tr) @ waiting_turns c ?s = of_chan c (tr_accepted tr)" for c
    using C(1,5) by simp_all
  fix i assume "i < length (tq_tasks ?s)"
  then have i: "i < length (tq_tasks s)" by simp
  show "\<not> wk_cancelled (tq_tasks ?s ! i)" using C(2) [OF i] C(2) [OF t] by (simp add: nth [OF i])
  assume "worker_live (tq_tasks ?s ! i)" "wk_phase (tq_tasks ?s ! i) \<noteq> Fresh"
  then show "map_of (tq_queues ?s) (wk_chan (tq_tasks ?s ! i)) = wk_queue (tq_tasks ?s ! i)"
    using C(3) [OF i] q by (simp add: nth [OF i] split: if_splits)
next
  let ?s = "s\<lparr>tq_tasks := (tq_tasks s)[t := (tq_tasks s ! t)\<lparr>wk_queue := Some q, wk_phase := Waiting e\<rparr>]\<rparr>"
  fix c' i assume calm: "tr_calm tr" and a: "map_of (tq_active ?s) c' = Some i" and d: "\<not> worker_live (tq_tasks ?s ! i)"
  have "i \<noteq> t" using d t by (auto simp: worker_live_def)
  with calm_okD(4) [OF c calm, of c' i] a d show "map_of (tq_queues ?s) c' = None" by simp
qed

lemma began:
  assumes ok: "turns_ok s" and t: "t < length (tq_tasks s)" "wk_phase (tq_tasks s ! t) = Fresh" "\<not> wk_cancelled (tq_tasks s ! t)"
    and o: "in_order s tr" and c: "calm_ok s tr"
  shows "in_order (begin_worker t s) (took t (begin_worker t s) tr) \<and> calm_ok (begin_worker t s) (took t (begin_worker t s) tr)"
proof -
  obtain q e where q: "map_of (tq_queues s) (wk_chan (tq_tasks s ! t)) = Some q"
    and b: "begin_worker t s = next_turn t q (s\<lparr>tq_tasks := (tq_tasks s)[t := (tq_tasks s ! t)\<lparr>wk_queue := Some q, wk_phase := Waiting e\<rparr>]\<rparr>)"
    using begin_worker_eq [OF ok t] by blast
  let ?s = "s\<lparr>tq_tasks := (tq_tasks s)[t := (tq_tasks s ! t)\<lparr>wk_queue := Some q, wk_phase := Waiting e\<rparr>]\<rparr>"
  have ok1: "turns_ok ?s" by (rule turns_ok_attach [OF ok t q])
  have t1: "t < length (tq_tasks ?s)" "wk_queue (tq_tasks ?s ! t) = Some q" "worker_live (tq_tasks ?s ! t)" using t by (simp_all add: worker_live_def)
  have "in_order ?s tr" by (rule in_order_shrink [OF o]) simp_all
  from in_order_next [OF ok1 t1(1,2) this] calm_next [OF ok1 calm_attach [OF c t(1) q] t1] show ?thesis unfolding b by blast
qed

lemma waiting_queue:
  assumes ok: "turns_ok s" and b: "queue_turn c e s = (b, s')"
  shows "waiting_turns c' s' = (if b \<and> c' = c then waiting_turns c s @ [e] else waiting_turns c' s)"
  using b
proof (cases rule: queue_turn_cases)
  case (rejected q s1)
  note f = find_queue_ok [OF ok rejected(3)]
  show ?thesis
  proof (cases "c' = c")
    case True
    then show ?thesis using rejected(2,4) f(2,9,13)
      by (cases "map_of (tq_queues s) c") (auto simp: waiting_turns_def)
  next
    case False
    then show ?thesis using rejected(2,4) f(11,12)
      by (cases "map_of (tq_queues s) c'") (auto simp: waiting_turns_def)
  qed
next
  case (accepted q s1 s2)
  note f = find_queue_ok [OF ok accepted(3)]
  have q: "q < length (tq_heap s1)" using queues_okD(1) [OF turns_okD(1) [OF f(1)] f(2)] .
  have w: "waiting_turns x s' = waiting_turns x s2" for x
    using accepted(6) by (simp add: start_worker_def)
  have qs: "tq_queues s2 = tq_queues s1" by (simp add: accepted(5))
  show ?thesis
  proof (cases "c' = c")
    case True
    then show ?thesis unfolding w using accepted(2) f(2,9) q qs
      by (cases "map_of (tq_queues s) c") (simp_all add: waiting_turns_def accepted(5))
  next
    case False
    have "x \<noteq> q" if "map_of (tq_queues s1) c' = Some x" for x
      using queues_okD(2) [OF turns_okD(1) [OF f(1)] f(2)] that False by blast
    then show ?thesis unfolding w using False f(11,12) qs
      by (cases "map_of (tq_queues s) c'") (auto simp: waiting_turns_def accepted(5))
  qed
qed simp

lemma in_order_queue:
  assumes ok: "turns_ok s" and o: "in_order s tr" and b: "queue_turn c e s = (b, s')"
  shows "in_order s' (if b then tr\<lparr>tr_accepted := tr_accepted tr @ [(c, e)]\<rparr> else tr\<lparr>tr_calm := False\<rparr>)"
proof -
  have "subseq (of_chan c (tr_started tr) @ waiting_turns c s @ [e]) (of_chan c (tr_accepted tr) @ [e])"
    using o by (metis append_assoc in_order_def subseq_append)
  with o show ?thesis unfolding in_order_def by (simp add: waiting_queue [OF ok b])
qed

lemma calm_queue:
  assumes ok: "turns_ok s" and c: "calm_ok s tr" and b: "queue_turn c e s = (True, s')"
  shows "calm_ok s' (tr\<lparr>tr_accepted := tr_accepted tr @ [(c, e)]\<rparr>)"
proof (cases "tr_calm tr")
  case calm: True
  note C = calm_okD [OF assms(2) calm]
  show ?thesis
    using b
  proof (cases rule: queue_turn_cases)
    case (accepted q s1 s2)
    note f = find_queue_ok [OF ok accepted(3)]
    have qs: "tq_queues s' = tq_queues s1" using accepted(5,6) by (simp add: start_worker_def)
    have busy: "worker_busy c s1 = worker_busy c s" by (simp add: worker_busy_def task_done_def f(3,4) cong: option.case_cong)
    have ts: "tq_tasks s' = (if worker_busy c s then tq_tasks s else tq_tasks s @
        [\<lparr>wk_chan = c, wk_queue = None, wk_cancelled = False, wk_phase = Fresh\<rparr>])"
      and as: "tq_active s' = (if worker_busy c s then tq_active s else dset c (length (tq_tasks s)) (tq_active s))"
      using accepted(5,6) f(3,4) busy by (simp_all add: start_worker_def)
    have A: "i < length (tq_tasks s) \<and> wk_chan (tq_tasks s ! i) = c'" if "map_of (tq_active s) c' = Some i" for c' i
      using turns_okD(2) [OF ok] that by (auto simp: active_ok_def)
    show ?thesis
    proof (rule calm_okI)
      show "\<not> tq_draining s'" using accepted(1,5,6) f(8) by (simp add: start_worker_def)
      show "of_chan c' (tr_started (tr\<lparr>tr_accepted := tr_accepted tr @ [(c, e)]\<rparr>)) @ waiting_turns c' s'
          = of_chan c' (tr_accepted (tr\<lparr>tr_accepted := tr_accepted tr @ [(c, e)]\<rparr>))" for c'
        using C(5) [of c'] waiting_queue [OF ok b, of c'] by (cases "c' = c") simp_all
      fix i assume i: "i < length (tq_tasks s')"
      show "\<not> wk_cancelled (tq_tasks s' ! i)"
        using i C(2) [of i] by (auto simp: ts nth_append less_Suc_eq split: if_splits)
      assume l: "worker_live (tq_tasks s' ! i)" "wk_phase (tq_tasks s' ! i) \<noteq> Fresh"
      then have i': "i < length (tq_tasks s)" "tq_tasks s' ! i = tq_tasks s ! i"
        using i by (auto simp: ts nth_append less_Suc_eq split: if_splits)
      let ?v = "tq_tasks s ! i"
      have v: "map_of (tq_queues s) (wk_chan ?v) = wk_queue ?v" using C(3) [OF i'(1)] l i'(2) by simp
      have "wk_queue ?v \<noteq> None" using attached [OF turns_okD(3) [OF ok i'(1)]] l i'(2) by simp
      with v have "map_of (tq_queues s1) (wk_chan ?v) = wk_queue ?v" using f(11) [of "wk_chan ?v"] f(13)
        by (cases "wk_chan ?v = c") auto
      then show "map_of (tq_queues s') (wk_chan (tq_tasks s' ! i)) = wk_queue (tq_tasks s' ! i)" by (simp add: qs i'(2))
    next
      fix c' i assume a: "map_of (tq_active s') c' = Some i" and d: "\<not> worker_live (tq_tasks s' ! i)"
      have "c' \<noteq> c"
      proof
        assume "c' = c"
        show False
        proof (cases "worker_busy c s")
          case True
          with a d \<open>c' = c\<close> show False by (auto simp: ts as worker_busy_def task_done_def worker_live_def)
        next
          case False
          with a d \<open>c' = c\<close> show False by (auto simp: ts as worker_live_def)
        qed
      qed
      then have a': "map_of (tq_active s) c' = Some i" using a by (auto simp: as split: if_splits)
      then have "\<not> worker_live (tq_tasks s ! i)" using d A by (auto simp: ts nth_append split: if_splits)
      with C(4) [OF a'] \<open>c' \<noteq> c\<close> f(11) show "map_of (tq_queues s') c' = None" by (simp add: qs)
    qed
  qed simp_all
qed simp

section \<open>The invariant of all interleavings\<close>

definition turns_inv :: "nat \<Rightarrow> 'e turns \<Rightarrow> 'e trail \<Rightarrow> bool" where
  "turns_inv n s tr \<longleftrightarrow> turns_ok s \<and> counts n s \<and> dict_ok (tq_active s) \<and> in_order s tr \<and> calm_ok s tr"

lemma turns_invI:
  assumes "turns_ok s" "counts n s" "dict_ok (tq_active s)" "in_order s tr" "calm_ok s tr"
  shows "turns_inv n s tr"
  using assms by (simp add: turns_inv_def)

lemma turns_invD:
  assumes "turns_inv n s tr"
  shows "turns_ok s" "counts n s" "dict_ok (tq_active s)" "in_order s tr" "calm_ok s tr"
  using assms by (auto simp: turns_inv_def)

lemma active_fields [simp]:
  "tq_active (end_worker t q s) = tq_active s" "tq_active (next_turn t q s) = tq_active s"
  by (auto simp: end_worker_eq next_turn_def split: list.splits)

lemma active_begin [simp]: "tq_active (begin_worker t s) = tq_active s"
  by (simp add: begin_worker_def split: option.splits)

lemma step_end:
  assumes "turns_ok s" "counts_but n t s" "dict_ok (tq_active s)" "in_order s tr" "t < length (tq_tasks s)"
    and "wk_queue (tq_tasks s ! t) = Some q" "worker_live (tq_tasks s ! t)" "\<not> tr_calm tr"
  shows "turns_inv n (end_worker t q s) tr"
proof (rule turns_invI)
  show "turns_ok (end_worker t q s)" by (rule turns_ok_end [OF assms(1,5,6,7)])
  show "counts n (end_worker t q s)" by (rule counts_end [OF assms(2,5) own_queue(1) [OF assms(1,5,6)]])
  show "in_order (end_worker t q s) tr"
    by (rule in_order_shrink [OF assms(4)]) (use waiting_end [OF assms(1,5,6)] in simp_all)
qed (use assms(3,8) in simp_all)

lemma leave_turn_facts:
  assumes "turns_ok s" "in_order s tr"
  shows "turns_ok (leave_turn held s)" "in_order (leave_turn held s) tr" "tq_active (leave_turn held s) = tq_active s"
    "tq_tasks (leave_turn held s) = tq_tasks s"
proof -
  have e: "leave_turn held s = s\<lparr>tq_slots := tq_slots s + (if held then 1 else 0), tq_work := tq_work s - 1\<rparr>"
    by (simp add: leave_turn_def)
  show "turns_ok (leave_turn held s)" unfolding e using assms(1) by simp
  show "in_order (leave_turn held s) tr" unfolding e by (rule in_order_shrink [OF assms(2)]) simp_all
  show "tq_active (leave_turn held s) = tq_active s" "tq_tasks (leave_turn held s) = tq_tasks s" by (simp_all add: e)
qed

lemma calm_leave: "calm_ok s tr \<Longrightarrow> calm_ok (leave_turn held s) tr"
  by (simp add: calm_ok_def leave_turn_def)

lemma step_cancel:
  assumes "turns_inv n s tr" "t < length (tq_tasks s)" "\<not> tr_calm tr'" "tr_started tr' = tr_started tr" "tr_accepted tr' = tr_accepted tr"
  shows "turns_inv n (cancel_worker t s) tr'"
proof -
  note I = turns_invD [OF assms(1)]
  have o: "in_order s tr'" by (rule in_order_shrink [OF I(4)]) (use assms(4,5) in simp_all)
  have fin: "turns_inv n (end_worker t q (leave_turn held s)) tr'"
    if "in_hand (tq_tasks s ! t) = 1" "holds_slot (tq_tasks s ! t) = (if held then 1 else 0)" "worker_live (tq_tasks s ! t)"
      "wk_queue (tq_tasks s ! t) = Some q" for q held
    using leave_turn_facts [OF I(1) o, of held] counts_leave [OF I(2) assms(2) that(1,2)] I(3) assms(2,3) that(3,4)
    by (intro step_end) simp_all
  have stay: "turns_inv n s tr'" using I o assms(3) by (intro turns_invI) simp_all
  have fresh: "turns_inv n (set_phase t Ended s) tr'" if "wk_phase (tq_tasks s ! t) = Fresh"
  proof (rule turns_invI)
    show "turns_ok (set_phase t Ended s)" by (rule turns_ok_set_phase [OF I(1) assms(2)]) simp_all
    show "counts n (set_phase t Ended s)"
      using counts_phase [OF I(2) assms(2), of Ended "tq_slots s"] that by (simp add: in_hand_def holds_slot_def)
    show "in_order (set_phase t Ended s) tr'" by (rule in_order_shrink [OF o]) simp_all
  qed (use I(3) assms(3) in simp_all)
  show ?thesis
  proof (cases "wk_phase (tq_tasks s ! t)")
    case Fresh
    with fresh show ?thesis by (simp add: cancel_worker_def)
  next
    case (Waiting e)
    with fin [where held = False] stay show ?thesis
      by (cases "wk_queue (tq_tasks s ! t)") (simp_all add: cancel_worker_def in_hand_def holds_slot_def worker_live_def)
  next
    case (Running e held)
    with fin [where held = held] stay show ?thesis
      by (cases "wk_queue (tq_tasks s ! t)"; cases held) (simp_all add: cancel_worker_def in_hand_def holds_slot_def worker_live_def)
  qed (use stay in \<open>simp_all add: cancel_worker_def\<close>)
qed

lemma step_callback:
  assumes "turns_inv n s tr" "t < length (tq_tasks s)" "wk_phase (tq_tasks s ! t) = Ended"
  shows "turns_inv n (finished_callback t s) tr"
proof -
  note I = turns_invD [OF assms(1)]
  let ?c = "wk_chan (tq_tasks s ! t)" and ?s1 = "set_phase t Reaped s"
  have c1: "counts n ?s1" using counts_phase [OF I(2) assms(2), of Reaped "tq_slots s"] assms(3)
    by (simp add: in_hand_def holds_slot_def)
  have ok1: "turns_ok ?s1" using I(1) assms(2) by (rule turns_ok_set_phase) simp_all
  have nth: "tq_tasks ?s1 ! i = (if i = t then (tq_tasks s ! t)\<lparr>wk_phase := Reaped\<rparr> else tq_tasks s ! i)" if "i < length (tq_tasks s)" for i
    using that by (simp add: set_phase_def nth_list_update)
  have dead: "worker_live (tq_tasks ?s1 ! i) = worker_live (tq_tasks s ! i)" if "i < length (tq_tasks s)" for i
    using assms(3) by (simp add: nth [OF that] worker_live_def)
  have calm1: "calm_ok ?s1 tr"
  proof (rule calm_okI)
    assume calm: "tr_calm tr"
    note C = calm_okD [OF I(5) calm]
    show "\<not> tq_draining ?s1" "of_chan c (tr_started tr) @ waiting_turns c ?s1 = of_chan c (tr_accepted tr)" for c
      using C(1,5) by simp_all
    fix i assume "i < length (tq_tasks ?s1)"
    then have i: "i < length (tq_tasks s)" by simp
    show "\<not> wk_cancelled (tq_tasks ?s1 ! i)" using C(2) [OF i] C(2) [OF assms(2)] by (simp add: nth [OF i])
    assume l: "worker_live (tq_tasks ?s1 ! i)" "wk_phase (tq_tasks ?s1 ! i) \<noteq> Fresh"
    then have "i \<noteq> t" using nth [OF i] by (auto simp: worker_live_def)
    with C(3) [OF i] l show "map_of (tq_queues ?s1) (wk_chan (tq_tasks ?s1 ! i)) = wk_queue (tq_tasks ?s1 ! i)"
      by (simp add: nth [OF i])
  next
    fix c i assume calm: "tr_calm tr" and a: "map_of (tq_active ?s1) c = Some i" and d: "\<not> worker_live (tq_tasks ?s1 ! i)"
    then have "map_of (tq_active s) c = Some i" by simp
    moreover have "i < length (tq_tasks s)" using turns_okD(2) [OF I(1)] calculation by (auto simp: active_ok_def)
    ultimately show "map_of (tq_queues ?s1) c = None" using calm_okD(4) [OF I(5) calm] d dead by simp
  qed
  have o1: "in_order ?s1 tr" by (rule in_order_shrink [OF I(4)]) simp_all
  show ?thesis
  proof (cases "map_of (tq_active s) ?c = Some t")
    case False
    then have "finished_callback t s = ?s1" by (simp add: finished_callback_def Let_def)
    with ok1 c1 o1 calm1 I(3) show ?thesis by (simp add: turns_inv_def)
  next
    case True
    let ?s2 = "?s1\<lparr>tq_active := ddel ?c (tq_active ?s1)\<rparr>"
    have e: "finished_callback t s = (drop_queue ?c ?s2)\<lparr>tq_stop := tq_stop ?s1 - {?c}\<rparr>"
      using True by (simp add: finished_callback_def Let_def)
    have q2: "queues_ok ?s2" using turns_okD(1) [OF ok1] by (simp add: queues_ok_def)
    show ?thesis
    proof (rule turns_invI)
      show "turns_ok (finished_callback t s)" by (rule turns_ok_callback [OF I(1) assms(2,3)])
      show "counts n (finished_callback t s)" unfolding e counts_tables by (rule counts_drop [OF _ q2]) (use c1 in simp)
      show "dict_ok (tq_active (finished_callback t s))" using I(3) by (simp add: e)
      show "in_order (finished_callback t s) tr"
        by (rule in_order_shrink [OF o1]) (use waiting_drop [OF q2] in \<open>simp_all add: e\<close>)
      show "calm_ok (finished_callback t s) tr"
      proof (cases "tr_calm tr")
        case calm: True
        note C = calm_okD [OF calm1 calm]
        have "\<not> worker_live (tq_tasks ?s1 ! t)" using assms(2) by (simp add: set_phase_def worker_live_def)
        then have none: "map_of (tq_queues s) ?c = None" using C(4) [of ?c t] True by simp
        then have d: "drop_queue ?c ?s2 = ?s2" by (simp add: drop_queue_def)
        show ?thesis unfolding e d
        proof (rule calm_okI)
          fix c i assume a: "map_of (tq_active (?s2\<lparr>tq_stop := tq_stop ?s1 - {?c}\<rparr>)) c = Some i"
            and dd: "\<not> worker_live (tq_tasks (?s2\<lparr>tq_stop := tq_stop ?s1 - {?c}\<rparr>) ! i)"
          then have "map_of (tq_active s) c = Some i" by (auto split: if_splits)
          then show "map_of (tq_queues (?s2\<lparr>tq_stop := tq_stop ?s1 - {?c}\<rparr>)) c = None" using C(4) [of c i] dd by simp
        qed (use C(1,2,3,5) in simp_all)
      qed simp
    qed
  qed
qed

lemma counts_stop:
  assumes "counts n s" "turns_ok s" "t < length (tq_tasks s)"
  shows "counts n (stop_worker c t s)"
proof -
  let ?s = "s\<lparr>tq_stop := insert c (tq_stop s), tq_active := ddel c (tq_active s)\<rparr>"
  have "queues_ok ?s" using turns_okD(1) [OF assms(2)] by (simp add: queues_ok_def)
  then have c: "counts n (drop_queue c ?s)" by (rule counts_drop [rotated]) (use assms(1) in simp)
  let ?w = "(tq_tasks s ! t)\<lparr>wk_cancelled := True\<rparr>"
  have w: "in_hand ?w = in_hand (tq_tasks s ! t)" "holds_slot ?w = holds_slot (tq_tasks s ! t)"
    by (simp_all add: in_hand_def holds_slot_def)
  have "in_hands (stop_worker c t s) = in_hands s" "slots_held (stop_worker c t s) = slots_held s"
    using sum_list_update_nat [OF assms(3), of in_hand ?w] sum_list_update_nat [OF assms(3), of holds_slot ?w]
    by (simp_all add: w in_hands_def slots_held_def stop_worker_def Let_def)
  with c show ?thesis by (simp add: counts_def queued_def in_hands_def slots_held_def stop_worker_def Let_def)
qed

lemma step_stop_worker:
  assumes "turns_inv n s tr" "map_of (tq_active s) c = Some t" "worker_live (tq_tasks s ! t)"
    and "\<not> tr_calm tr'" "tr_started tr' = tr_started tr" "tr_accepted tr' = tr_accepted tr"
  shows "turns_inv n (stop_worker c t s) tr'"
proof -
  note I = turns_invD [OF assms(1)]
  have t: "t < length (tq_tasks s)" using turns_okD(2) [OF I(1)] assms(2) by (simp add: active_ok_def)
  let ?s = "s\<lparr>tq_stop := insert c (tq_stop s), tq_active := ddel c (tq_active s)\<rparr>"
  have q: "queues_ok ?s" using turns_okD(1) [OF I(1)] by (simp add: queues_ok_def)
  have o: "in_order s tr'" by (rule in_order_shrink [OF I(4)]) (use assms(5,6) in simp_all)
  show ?thesis
  proof (rule turns_invI)
    show "turns_ok (stop_worker c t s)" by (rule turns_ok_stop [OF I(1) assms(2,3)])
    show "counts n (stop_worker c t s)" by (rule counts_stop [OF I(2,1) t])
    show "dict_ok (tq_active (stop_worker c t s))" using I(3) by (simp add: stop_worker_def Let_def)
    show "in_order (stop_worker c t s) tr'"
      by (rule in_order_shrink [OF o]) (use waiting_drop [OF q, of _ c] in \<open>auto simp: stop_worker_def Let_def\<close>)
  qed (use assms(4) in simp)
qed

lemma live_stop: "t < length (tq_tasks s) \<Longrightarrow> worker_live (tq_tasks (stop_worker c t s) ! i) = worker_live (tq_tasks s ! i)"
  by (cases "i = t") (simp_all add: stop_worker_def Let_def worker_live_def)

lemma step_stop_all:
  assumes "turns_inv n s tr" "distinct (map fst xs)" "\<And>c t. (c, t) \<in> set xs \<Longrightarrow> map_of (tq_active s) c = Some t \<and> worker_live (tq_tasks s ! t)"
    and "\<not> tr_calm tr"
  shows "turns_inv n (foldl (\<lambda>s (c, t). stop_worker c t s) s xs) tr"
  using assms
proof (induction xs arbitrary: s)
  case (Cons p xs)
  obtain c t where p: "p = (c, t)" by (rule prod.exhaust)
  have a: "map_of (tq_active s) c = Some t" "worker_live (tq_tasks s ! t)" using Cons.prems(3) p by auto
  have t: "t < length (tq_tasks s)"
    using turns_okD(2) [OF turns_invD(1) [OF Cons.prems(1)]] a(1) by (simp add: active_ok_def)
  have "turns_inv n (stop_worker c t s) tr" by (rule step_stop_worker [OF Cons.prems(1) a]) (use Cons.prems(4) in simp_all)
  moreover have "map_of (tq_active (stop_worker c t s)) c' = Some t' \<and> worker_live (tq_tasks (stop_worker c t s) ! t')"
    if "(c', t') \<in> set xs" for c' t'
  proof -
    have "c' \<noteq> c" using Cons.prems(2) that by (force simp: p)
    moreover have "map_of (tq_active s) c' = Some t'" "worker_live (tq_tasks s ! t')" using Cons.prems(3) that by auto
    ultimately show ?thesis by (simp add: live_stop [OF t]) (simp add: stop_worker_def Let_def)
  qed
  ultimately have "turns_inv n (foldl (\<lambda>s (c, t). stop_worker c t s) (stop_worker c t s) xs) tr"
    using Cons.prems(2,4) by (intro Cons.IH) simp_all
  then show ?case by (simp add: p)
qed simp

lemma turns_step_inv:
  assumes "turns_inv n s tr" "turn_step (s, tr) ev (s', tr')"
  shows "turns_inv n s' tr'"
proof -
  note I = turns_invD [OF assms(1)]
  have active: "dict_ok (tq_active s'')" if "queue_turn c e s = (b, s'')" for c b s'' and e :: 'a
    using that I(3) by (cases rule: queue_turn_cases) (auto simp: find_queue_ok(3) [OF I(1)] start_worker_def)
  show ?thesis
    using assms(2)
  proof (cases rule: turn_step_cases)
    case (submit_ok c e)
    then show ?thesis using turns_ok_queue [OF I(1)] counts_queue [OF I(2,1)] active in_order_queue [OF I(1,4), of c e True s']
        calm_queue [OF I(1,5)] by (intro turns_invI) simp_all
  next
    case (submit_full c e)
    then show ?thesis using turns_ok_queue [OF I(1)] counts_queue [OF I(2,1)] active in_order_queue [OF I(1,4), of c e False s']
      by (intro turns_invI) simp_all
  next
    case (begin_step t)
    obtain q e where q: "map_of (tq_queues s) (wk_chan (tq_tasks s ! t)) = Some q"
      and b: "begin_worker t s = next_turn t q (s\<lparr>tq_tasks := (tq_tasks s)[t := (tq_tasks s ! t)\<lparr>wk_queue := Some q\<rparr>]\<rparr>)"
      using begin_worker_eq [OF I(1) begin_step(3,4,5)] by (auto simp: begin_worker_def)
    let ?w = "(tq_tasks s ! t)\<lparr>wk_queue := Some q\<rparr>"
    let ?s = "s\<lparr>tq_tasks := (tq_tasks s)[t := ?w]\<rparr>"
    have z: "in_hand ?w = 0" "holds_slot ?w = 0" "in_hand (tq_tasks s ! t) = 0" "holds_slot (tq_tasks s ! t) = 0"
      using begin_step(4) by (simp_all add: in_hand_def holds_slot_def)
    have "in_hands ?s = in_hands s" "slots_held ?s = slots_held s"
      using sum_list_update_nat [OF begin_step(3), of in_hand ?w] sum_list_update_nat [OF begin_step(3), of holds_slot ?w] z
      by (simp_all add: in_hands_def slots_held_def)
    then have "counts_but n t ?s" using I(2) begin_step(3) z by (simp add: counts_but_def counts_def queued_def)
    moreover have "q < length (tq_heap ?s)" using queues_okD(1) [OF turns_okD(1) [OF I(1)] q] by simp
    ultimately have "counts n (begin_worker t s)" unfolding b using begin_step(3) by (intro counts_next) simp_all
    with began [OF I(1) begin_step(3,4,5) I(4,5)] turns_ok_begin [OF I(1) begin_step(3,4,5)] I(3) begin_step(2,6)
    show ?thesis by (auto simp: turns_inv_def)
  next
    case (acquire_step t e q)
    have l: "worker_live (tq_tasks s ! t)" "wk_phase (tq_tasks s ! t) \<noteq> Fresh" using acquire_step(3) by (simp_all add: worker_live_def)
    have h: "in_hand (tq_tasks s ! t) = 1" "holds_slot (tq_tasks s ! t) = 0" using acquire_step(3) by (simp_all add: in_hand_def holds_slot_def)
    show ?thesis
    proof (cases "tq_draining s")
      case True
      then have "\<not> tr_calm tr" using calm_okD(1) [OF I(5)] by blast
      have e: "acquire_slot t q e s = end_worker t q (leave_turn False s)" using True by (simp add: acquire_slot_def leave_turn_def)
      show ?thesis unfolding acquire_step(6) acquire_step(7) e
        using leave_turn_facts [OF I(1,4), of False] counts_leave [OF I(2) acquire_step(2) h(1), of False] h I(3) acquire_step(2,4) l(1)
          \<open>\<not> tr_calm tr\<close> by (intro step_end) simp_all
    next
      case False
      let ?s = "s\<lparr>tq_slots := tq_slots s - 1\<rparr>"
      have e: "acquire_slot t q e s = set_phase t (Running e True) ?s" using False by (simp add: acquire_slot_def)
      show ?thesis unfolding acquire_step(6) acquire_step(7) e
      proof (rule turns_invI)
        show "turns_ok (set_phase t (Running e True) ?s)"
          by (rule turns_ok_set_phase) (use I(1) acquire_step(2,4) l in simp_all)
        show "counts n (set_phase t (Running e True) ?s)"
          by (rule counts_phase [OF I(2) acquire_step(2)]) (use acquire_step(3,5) in \<open>simp_all add: in_hand_def holds_slot_def\<close>)
        show "in_order (set_phase t (Running e True) ?s) tr" by (rule in_order_shrink [OF I(4)]) simp_all
        show "calm_ok (set_phase t (Running e True) ?s) tr" by (rule calm_phase [OF I(5) acquire_step(2) l]) simp_all
      qed (use I(3) in simp)
    qed
  next
    case (release_step t e)
    have l: "worker_live (tq_tasks s ! t)" "wk_phase (tq_tasks s ! t) \<noteq> Fresh" using release_step(3) by (simp_all add: worker_live_def)
    let ?s = "s\<lparr>tq_slots := tq_slots s + 1\<rparr>"
    have e: "release_slot t e s = set_phase t (Running e False) ?s" by (simp add: release_slot_def)
    show ?thesis unfolding release_step(4) release_step(5) e
    proof (rule turns_invI)
      show "turns_ok (set_phase t (Running e False) ?s)"
        by (rule turns_ok_set_phase) (use I(1) release_step(2) l attached [OF turns_okD(3) [OF I(1) release_step(2)]] in simp_all)
      show "counts n (set_phase t (Running e False) ?s)"
        by (rule counts_phase [OF I(2) release_step(2)]) (use release_step(3) in \<open>simp_all add: in_hand_def holds_slot_def\<close>)
      show "in_order (set_phase t (Running e False) ?s) tr" by (rule in_order_shrink [OF I(4)]) simp_all
      show "calm_ok (set_phase t (Running e False) ?s) tr" by (rule calm_phase [OF I(5) release_step(2) l]) simp_all
    qed (use I(3) in simp)
  next
    case (complete_step t e held q)
    have l: "worker_live (tq_tasks s ! t)" using complete_step(4) by (simp add: worker_live_def)
    have h: "in_hand (tq_tasks s ! t) = 1" "holds_slot (tq_tasks s ! t) = (if held then 1 else 0)"
      using complete_step(4) by (cases held; simp add: in_hand_def holds_slot_def)+
    let ?s = "leave_turn held s"
    note f = leave_turn_facts [OF I(1,4), of held]
    have t: "t < length (tq_tasks ?s)" "wk_queue (tq_tasks ?s ! t) = Some q" "worker_live (tq_tasks ?s ! t)" using complete_step(3,5) l f(4) by simp_all
    have "counts n (next_turn t q ?s)"
      by (rule counts_next [OF counts_leave [OF I(2) complete_step(3) h] t(1) own_queue(1) [OF f(1) t(1,2)]])
    with turns_ok_next [OF f(1) t] in_order_next [OF f(1) t(1,2) f(2)] calm_next [OF f(1) calm_leave [OF I(5)] t] I(3) f(3)
      complete_step(2,6) show ?thesis by (auto simp: turns_inv_def complete_turn_def)
  next
    case (cancel_step t)
    then show ?thesis using step_cancel [OF assms(1), of t tr'] by simp
  next
    case (callback_step t)
    then show ?thesis using step_callback [OF assms(1)] by simp
  next
    case (stop_step c b)
    then have same: "tr_started tr' = tr_started tr" "tr_accepted tr' = tr_accepted tr" "\<not> tr_calm tr'" by simp_all
    have o: "in_order s tr'" by (rule in_order_shrink [OF I(4)]) (use same in simp_all)
    show ?thesis
    proof (cases "c = []")
      case True
      let ?xs = "filter (\<lambda>(c, t). \<not> task_done s t) (tq_active s)"
      have e: "s' = foldl (\<lambda>s (c, t). stop_worker c t s) s ?xs" using True stop_step by (simp add: cancel_channel_def cancel_all_def Let_def)
      have i: "turns_inv n s tr'" using I(1,2,3) o stop_step by (intro turns_invI) simp_all
      have d: "distinct (map fst ?xs)" using I(3) by (simp add: dict_ok_def distinct_map_filter)
      have l: "map_of (tq_active s) c = Some t \<and> worker_live (tq_tasks s ! t)" if "(c, t) \<in> set ?xs" for c t
        using that I(3) by (auto simp: dict_ok_map_of worker_live_def task_done_def)
      show ?thesis unfolding e by (rule step_stop_all [OF i d l]) (use stop_step in simp_all)
    next
      case n: False
      show ?thesis
      proof (cases "map_of (tq_active s) c")
        case None
        then have e: "s' = s\<lparr>tq_stop := tq_stop s - {c}\<rparr>" using n stop_step by (simp add: cancel_channel_def cancel_one_def)
        have "in_order s' tr'" by (rule in_order_shrink [OF o]) (simp_all add: e)
        then show ?thesis using I(1,2,3) same by (intro turns_invI) (simp_all add: e)
      next
        case (Some t)
        show ?thesis
        proof (cases "task_done s t")
          case False
          then have e: "s' = stop_worker c t s" using n Some stop_step by (simp add: cancel_channel_def cancel_one_def)
          have "worker_live (tq_tasks s ! t)" using False by (simp add: worker_live_def task_done_def)
          from step_stop_worker [OF assms(1) Some this] same show ?thesis by (simp add: e)
        next
          case True
          then have e: "s' = s\<lparr>tq_active := ddel c (tq_active s), tq_stop := tq_stop s - {c}\<rparr>"
            using n Some stop_step by (simp add: cancel_channel_def cancel_one_def)
          have "turns_ok (s\<lparr>tq_active := ddel c (tq_active s)\<rparr>)"
          proof (rule turns_ok_inactive [OF I(1)], rule ccontr)
            fix i assume i: "i < length (tq_tasks s)" "wk_chan (tq_tasks s ! i) = c" "worker_live (tq_tasks s ! i)" "\<not> wk_cancelled (tq_tasks s ! i)"
            from live_active [OF I(1) i(1,3,4)] i(2) Some have "i = t" by simp
            with i(3) True show False by (simp add: worker_live_def task_done_def)
          qed
          moreover have "in_order s' tr'" by (rule in_order_shrink [OF o]) (simp_all add: e)
          ultimately show ?thesis using I(2,3) same by (intro turns_invI) (simp_all add: e)
        qed
      qed
    qed
  next
    case drain_step
    have "in_order s' tr'" by (rule in_order_shrink [OF I(4)]) (use drain_step in simp_all)
    then show ?thesis using I(1,2,3) drain_step by (intro turns_invI) simp_all
  qed
qed

lemma turns_inv_start:
  assumes "s = (\<lparr>tq_draining = False, tq_work = 0, tq_max = m, tq_max_channel = k, tq_slots = n, tq_heap = [], tq_queues = [],
    tq_active = [], tq_stop = {}, tq_tasks = []\<rparr> :: 'e turns)"
  shows "turns_inv (tq_slots s) s empty_trail"
proof (rule turns_invI)
  show "turns_ok s" by (rule turns_okI) (simp_all add: assms queues_ok_def active_ok_def)
  show "counts (tq_slots s) s" by (simp add: assms counts_def queued_def in_hands_def slots_held_def)
  show "dict_ok (tq_active s)" by (simp add: assms)
  show "in_order s empty_trail" by (simp add: assms in_order_def empty_trail_def of_chan_def waiting_turns_def)
  show "calm_ok s empty_trail" by (simp add: assms calm_ok_def empty_trail_def of_chan_def waiting_turns_def)
qed

lemma turns_reach_inv: "turns_reach n s tr \<Longrightarrow> turns_inv n s tr"
proof (induction rule: turns_reach.induct)
  case (tr_init concurrent pending)
  show ?case by (rule turns_inv_start) (simp only: turns_init_def Let_def)
qed (rule turns_step_inv)

section \<open>Properties\<close>

text \<open>
  The count of pending turns is exact. In every interleaving of arriving turns, workers, slot releases, cancellations, stop
  commands, completion callbacks and shutdown, the runtime's counter equals the turns that wait in some deque plus those a
  worker has taken, it never passes the configured maximum, and the free slots plus the slots held by workers are the
  number of slots it started with.\<close>

lemma pending_turns_counted:
  assumes "turns_reach n s tr"
  shows "tq_work s = sum_list (map length (tq_heap s)) + sum_list (map in_hand (tq_tasks s)) \<and> tq_work s \<le> tq_max s
    \<and> tq_slots s + sum_list (map holds_slot (tq_tasks s)) = n"
  using turns_invD(2) [OF turns_reach_inv [OF assms]] by (simp add: counts_def queued_def in_hands_def slots_held_def)

text \<open>
  C18 A channel has one worker. Two tasks that are both alive and that no stop command has cancelled never serve the same
  channel, in any interleaving.\<close>

theorem one_worker_per_channel:
  assumes "turns_reach n s tr" and "i < length (tq_tasks s)" "j < length (tq_tasks s)"
    and "worker_live (tq_tasks s ! i)" "worker_live (tq_tasks s ! j)" "\<not> wk_cancelled (tq_tasks s ! i)" "\<not> wk_cancelled (tq_tasks s ! j)"
    and "wk_chan (tq_tasks s ! i) = wk_chan (tq_tasks s ! j)"
  shows "i = j"
  using live_active [OF turns_invD(1) [OF turns_reach_inv [OF assms(1)]]] assms(2-8) by (metis option.inject)

text \<open>
  C9 Turns keep their order. The turns of a channel that were started, followed by those that still wait, are in the
  order in which they were accepted, in any interleaving. As long as there was no shutdown, stop command, cancellation or
  rejected turn, they are exactly the accepted turns: none is lost or started twice.\<close>

theorem turns_started_in_order:
  assumes "turns_reach n s tr"
  shows "subseq (of_chan c (tr_started tr) @ waiting_turns c s) (of_chan c (tr_accepted tr))
    \<and> (tr_calm tr \<longrightarrow> of_chan c (tr_started tr) @ waiting_turns c s = of_chan c (tr_accepted tr))"
  using turns_invD(4,5) [OF turns_reach_inv [OF assms]] by (auto simp: in_order_def calm_ok_def)

section \<open>Runs\<close>

text \<open>The events of a run applied in order, for examples.\<close>

fun run_event :: "'e turns \<times> 'e trail \<Rightarrow> 'e turn_event \<Rightarrow> ('e turns \<times> 'e trail) option" where
  "run_event (s, tr) (Submit c e) = (case queue_turn c e s of
     (True, s') \<Rightarrow> Some (s', tr\<lparr>tr_accepted := tr_accepted tr @ [(c, e)]\<rparr>) | (False, s') \<Rightarrow> Some (s', tr\<lparr>tr_calm := False\<rparr>))"
| "run_event (s, tr) (Begin t) = (if t < length (tq_tasks s) \<and> \<not> wk_cancelled (tq_tasks s ! t) then
     (case wk_phase (tq_tasks s ! t) of Fresh \<Rightarrow> Some (begin_worker t s, took t (begin_worker t s) tr) | _ \<Rightarrow> None) else None)"
| "run_event (s, tr) (Acquire t) = (if t < length (tq_tasks s) \<and> 0 < tq_slots s then
     (case (wk_phase (tq_tasks s ! t), wk_queue (tq_tasks s ! t)) of
        (Waiting e, Some q) \<Rightarrow> Some (acquire_slot t q e s, tr) | _ \<Rightarrow> None) else None)"
| "run_event (s, tr) (Complete t) = (if t < length (tq_tasks s) then
     (case (wk_phase (tq_tasks s ! t), wk_queue (tq_tasks s ! t)) of
        (Running e held, Some q) \<Rightarrow> Some (complete_turn t q held s, took t (complete_turn t q held s) tr) | _ \<Rightarrow> None) else None)"
| "run_event (s, tr) (Callback t) = (if t < length (tq_tasks s) then
     (case wk_phase (tq_tasks s ! t) of Ended \<Rightarrow> Some (finished_callback t s, tr) | _ \<Rightarrow> None) else None)"
| "run_event (s, tr) (Stop c) = Some (snd (cancel_channel c s), tr\<lparr>tr_calm := False\<rparr>)"
| "run_event s ev = None"

fun run_events :: "'e turns \<times> 'e trail \<Rightarrow> 'e turn_event list \<Rightarrow> ('e turns \<times> 'e trail) option" where
  "run_events s [] = Some s"
| "run_events s (ev # evs) = (case run_event s ev of None \<Rightarrow> None | Some s' \<Rightarrow> run_events s' evs)"

lemma run_event_step: "run_event (s, tr) ev = Some (s', tr') \<Longrightarrow> turn_step (s, tr) ev (s', tr')"
  by (cases ev) (auto intro: turn_step.intros split: prod.splits bool.splits if_splits phase.splits option.splits
      intro!: stop_step [OF surjective_pairing])

lemma run_events_reach: "turns_reach n s tr \<Longrightarrow> run_events (s, tr) evs = Some (s', tr') \<Longrightarrow> turns_reach n s' tr'"
proof (induction evs arbitrary: s tr)
  case (Cons ev evs)
  then obtain s1 tr1 where "run_event (s, tr) ev = Some (s1, tr1)" "run_events (s1, tr1) evs = Some (s', tr')"
    by (auto split: option.splits)
  with Cons.IH tr_more [OF Cons.prems(1) run_event_step] show ?case by blast
qed simp

lemma turns_init_two: "turns_init 2 2 = (\<lparr>tq_draining = False, tq_work = 0, tq_max = 2, tq_max_channel = 2, tq_slots = 2,
    tq_heap = [], tq_queues = [], tq_active = [], tq_stop = {}, tq_tasks = []\<rparr> :: nat turns)"
  by (simp add: turns_init_def Let_def)

lemma two_reach: "turns_reach 2 (turns_init 2 2 :: nat turns) empty_trail"
proof -
  have "turns_reach (tq_slots (turns_init 2 2 :: nat turns)) (turns_init 2 2 :: nat turns) empty_trail" by (rule tr_init)
  then show ?thesis by (simp only: turns_init_two turns.simps)
qed

lemmas turn_steps_eval = queue_turn_def find_queue_def worker_busy_def task_done_def start_worker_def begin_worker_def next_turn_def
  end_worker_def clear_queue_def set_phase_def acquire_slot_def complete_turn_def leave_turn_def finished_callback_def drop_queue_def
  stop_worker_def cancel_channel_def cancel_one_def took_def ddel_def Let_def

text \<open>A turn that is rejected while the deque of its channel is empty: the deque is detached, its worker stays.\<close>

lemma rejected_detaches:
  assumes "queue_turn c x s = (False, s')" "\<not> tq_draining s" "map_of (tq_queues s) c = Some q" "tq_heap s ! q = []"
  shows "s' = s\<lparr>tq_queues := ddel c (tq_queues s)\<rparr>"
  using assms by (simp add: queue_turn_def find_queue_def Let_def split: if_splits)

lemma complete_empty:
  assumes "tq_heap s ! q = []"
  shows "complete_turn t q held s = set_phase t Ended (s\<lparr>tq_slots := tq_slots s + (if held then 1 else 0), tq_work := tq_work s - 1,
    tq_queues := (if map_of (tq_queues s) (wk_chan (tq_tasks s ! t)) = Some q then ddel (wk_chan (tq_tasks s ! t)) (tq_queues s) else tq_queues s),
    tq_stop := tq_stop s - {wk_chan (tq_tasks s ! t)}\<rparr>)"
proof -
  have "(tq_heap s)[q := []] = tq_heap s" using assms by (metis list_update_id)
  with assms show ?thesis by (simp add: complete_turn_def next_turn_def leave_turn_def end_worker_def clear_queue_def Let_def)
qed

text \<open>A turn accepted for a channel without a deque whose worker still runs: a new deque, and no new worker.\<close>

lemma accepted_detached:
  assumes "queue_turn c y s = (True, s')" "map_of (tq_queues s) c = None" "map_of (tq_active s) c = Some t" "\<not> task_done s t"
  shows "s' = s\<lparr>tq_heap := tq_heap s @ [[y]], tq_queues := dset c (length (tq_heap s)) (tq_queues s), tq_work := tq_work s + 1\<rparr>"
  using assms by (auto simp: queue_turn_def find_queue_def worker_busy_def task_done_def Let_def split: if_splits)

text \<open>A stop command on a channel with a running worker, and the next turn of that channel.\<close>

lemma stopped_state:
  assumes "map_of (tq_active s) c = Some t" "\<not> task_done s t" "c \<noteq> []"
  shows "snd (cancel_channel c s) = stop_worker c t s"
  using assms by (simp add: cancel_channel_def cancel_one_def)

lemma accepted_fresh:
  assumes "queue_turn c x s = (True, s')" "map_of (tq_queues s) c = None" "map_of (tq_active s) c = None"
  shows "s' = start_worker c (s\<lparr>tq_heap := tq_heap s @ [[x]], tq_queues := dset c (length (tq_heap s)) (tq_queues s), tq_work := tq_work s + 1\<rparr>)
    \<and> \<not> tq_draining s"
  using assms by (auto simp: queue_turn_def find_queue_def worker_busy_def start_worker_def Let_def split: if_splits)

text \<open>
  C19 An accepted turn can be dropped although nothing was cancelled. Take any reachable state in which the worker \<open>t\<close> of a
  channel handles a turn, its deque is the one of the table and is empty, the worker \<open>u\<close> of another channel handles its last
  turn, and a message \<open>x\<close> of the first channel is rejected. If the next message \<open>y\<close> of that channel is accepted once \<open>u\<close> has
  finished, it is lost: when \<open>t\<close> finishes its turn and its completion callback has run, \<open>y\<close> counts as accepted, no further
  turn was started, the channel has neither a waiting turn nor a deque nor an active worker, and \<open>t\<close> was not cancelled. The rejection
  detaches the deque that \<open>t\<close> reads, and \<open>y\<close> goes into a new one, which the callback clears.\<close>

theorem accepted_turn_dropped:
  assumes "turns_reach n s tr" "\<not> tq_draining s"
    and t: "t < length (tq_tasks s)" "tq_tasks s ! t = \<lparr>wk_chan = c, wk_queue = Some q, wk_cancelled = False, wk_phase = Running e h\<rparr>"
      "map_of (tq_queues s) c = Some q" "tq_heap s ! q = []"
    and u: "u < length (tq_tasks s)" "tq_tasks s ! u = \<lparr>wk_chan = d, wk_queue = Some p, wk_cancelled = False, wk_phase = Running e' h'\<rparr>"
      "d \<noteq> c" "tq_heap s ! p = []"
    and rejected: "queue_turn c x s = (False, s1)"
    and accepted: "queue_turn c y (complete_turn u p h' s1) = (True, s2)"
  shows "\<exists>s' tr'. run_events (s, tr) [Submit c x, Complete u, Submit c y, Complete t, Callback t] = Some (s', tr')
    \<and> turns_reach n s' tr' \<and> tr_accepted tr' = tr_accepted tr @ [(c, y)] \<and> tr_started tr' = tr_started tr \<and> waiting_turns c s' = []
    \<and> map_of (tq_queues s') c = None \<and> map_of (tq_active s') c = None
    \<and> wk_phase (tq_tasks s' ! t) = Reaped \<and> \<not> wk_cancelled (tq_tasks s' ! t) \<and> \<not> tq_draining s'"
proof -
  note ok = turns_invD(1) [OF turns_reach_inv [OF assms(1)]]
  have act: "map_of (tq_active s) c = Some t" using live_active [OF ok t(1)] t(2) by (simp add: worker_live_def)
  have q: "q < length (tq_heap s)" using queues_okD(1) [OF turns_okD(1) [OF ok] t(3)] .
  have ut: "u \<noteq> t" using t(2) u(2,3) by auto
  have e1: "s1 = s\<lparr>tq_queues := ddel c (tq_queues s)\<rparr>" by (rule rejected_detaches [OF rejected assms(2) t(3,4)])
  define s1' where "s1' = complete_turn u p h' s1"
  have e1': "s1' = set_phase u Ended (s1\<lparr>tq_slots := tq_slots s1 + (if h' then 1 else 0), tq_work := tq_work s1 - 1,
    tq_queues := (if map_of (tq_queues s1) d = Some p then ddel d (tq_queues s1) else tq_queues s1), tq_stop := tq_stop s1 - {d}\<rparr>)"
    unfolding s1'_def by (subst complete_empty) (simp_all add: e1 u)
  have f1: "tq_heap s1' = tq_heap s" "tq_active s1' = tq_active s" "tq_draining s1' = tq_draining s"
    "map_of (tq_queues s1') c = None" "tq_tasks s1' ! t = tq_tasks s ! t" "length (tq_tasks s1') = length (tq_tasks s)"
    "wk_phase (tq_tasks s1' ! u) = Ended"
    using ut u(1) by (simp_all add: e1' e1 set_phase_def)
  have e2: "s2 = s1'\<lparr>tq_heap := tq_heap s1' @ [[y]], tq_queues := dset c (length (tq_heap s1')) (tq_queues s1'), tq_work := tq_work s1' + 1\<rparr>"
  proof (rule accepted_detached [OF accepted [folded s1'_def] f1(4)])
    show "map_of (tq_active s1') c = Some t" by (simp add: f1 act)
    show "\<not> task_done s1' t" unfolding task_done_def f1(5) by (simp add: t(2))
  qed
  have h2: "tq_heap s2 ! q = []" using q t(4) by (simp add: e2 f1 nth_append)
  define s3 where "s3 = complete_turn t q h s2"
  have e3: "s3 = set_phase t Ended (s2\<lparr>tq_slots := tq_slots s2 + (if h then 1 else 0), tq_work := tq_work s2 - 1, tq_stop := tq_stop s2 - {c}\<rparr>)"
    unfolding s3_def by (subst complete_empty [OF h2]) (use q in \<open>cases h; simp add: e2 f1 t(2) set_phase_def\<close>)
  have f3: "tq_active s3 = tq_active s" "tq_draining s3 = tq_draining s" "length (tq_tasks s3) = length (tq_tasks s)"
    "tq_tasks s3 ! t = (tq_tasks s ! t)\<lparr>wk_phase := Ended\<rparr>" "map_of (tq_queues s3) c = Some (length (tq_heap s))"
    using t(1) by (simp_all add: e3 e2 f1 set_phase_def)
  define s4 where "s4 = finished_callback t s3"
  have f4: "tq_queues s4 = ddel c (tq_queues s3)" "tq_active s4 = ddel c (tq_active s3)" "tq_draining s4 = tq_draining s"
    "wk_phase (tq_tasks s4 ! t) = Reaped" "wk_cancelled (tq_tasks s4 ! t) = False"
    using t(1) by (simp_all add: s4_def finished_callback_def Let_def drop_queue_def clear_queue_def set_phase_def f3 t(2) act)
  define tr' where "tr' = tr\<lparr>tr_calm := False, tr_accepted := tr_accepted tr @ [(c, y)]\<rparr>"
  have run: "run_events (s, tr) [Submit c x, Complete u, Submit c y, Complete t, Callback t] = Some (s4, tr')"
  proof -
    have a: "run_event (s, tr) (Submit c x) = Some (s1, tr\<lparr>tr_calm := False\<rparr>)" by (simp add: rejected)
    have b: "run_event (s1, tr1) (Complete u) = Some (s1', tr1)" for tr1 :: "'a trail"
      using u(1) f1(7) by (simp add: e1 u(2) took_def s1'_def)
    have c: "run_event (s1', tr1) (Submit c y) = Some (s2, tr1\<lparr>tr_accepted := tr_accepted tr1 @ [(c, y)]\<rparr>)" for tr1
      using accepted by (simp add: s1'_def)
    have d: "run_event (s2, tr1) (Complete t) = Some (s3, tr1)" for tr1 :: "'a trail"
    proof -
      have "tq_tasks s2 ! t = tq_tasks s ! t" "length (tq_tasks s2) = length (tq_tasks s)" by (simp_all add: e2 f1)
      then show ?thesis using t(1) by (simp add: t(2) took_def s3_def [symmetric] f3)
    qed
    have e: "run_event (s3, tr1) (Callback t) = Some (s4, tr1)" for tr1 :: "'a trail"
      using t(1) by (simp add: f3 s4_def)
    show ?thesis by (simp only: run_events.simps a b c d e option.simps prod.case tr'_def) simp
  qed
  show ?thesis
  proof (intro exI conjI)
    show "turns_reach n s4 tr'" by (rule run_events_reach [OF assms(1) run])
    show "run_events (s, tr) [Submit c x, Complete u, Submit c y, Complete t, Callback t] = Some (s4, tr')" by (rule run)
  qed (use assms(2) in \<open>simp_all add: tr'_def waiting_turns_def f3 f4 act\<close>)
qed

text \<open>
  C20 A stop lets two turns of a channel overlap. In any reachable state in which a worker \<open>t\<close> that was not cancelled handles a
  turn of a channel and a slot is free: after a stop command for this channel, the next message that is accepted for it gets
  a worker \<open>u\<close> of its own, which starts the new turn while the cancelled worker, whose cancellation has not ended it yet (it
  may still clean up), is inside the old one: both handle a turn of the same channel at the same time.\<close>

theorem stopped_turn_overlaps:
  assumes "turns_reach n s tr" "t < length (tq_tasks s)" "wk_chan (tq_tasks s ! t) = c" "\<not> wk_cancelled (tq_tasks s ! t)"
    "wk_phase (tq_tasks s ! t) = Running e h" "c \<noteq> []" "0 < tq_slots s"
    and accepted: "queue_turn c x (snd (cancel_channel c s)) = (True, s1)"
  shows "\<exists>s' tr' u. run_events (s, tr) [Stop c, Submit c x, Begin u, Acquire u] = Some (s', tr') \<and> turns_reach n s' tr' \<and> u \<noteq> t
    \<and> wk_chan (tq_tasks s' ! t) = c \<and> wk_cancelled (tq_tasks s' ! t) \<and> wk_phase (tq_tasks s' ! t) = Running e h
    \<and> wk_chan (tq_tasks s' ! u) = c \<and> \<not> wk_cancelled (tq_tasks s' ! u) \<and> wk_phase (tq_tasks s' ! u) = Running x True"
proof -
  note ok = turns_invD(1) [OF turns_reach_inv [OF assms(1)]]
  have act: "map_of (tq_active s) c = Some t" using live_active [OF ok assms(2)] assms(3-5) by (simp add: worker_live_def)
  define u where "u = length (tq_tasks s)"
  define s0 where "s0 = stop_worker c t s"
  have c0: "snd (cancel_channel c s) = s0" unfolding s0_def by (rule stopped_state [OF act _ assms(6)]) (simp add: task_done_def assms(5))
  have f0: "map_of (tq_queues s0) c = None" "map_of (tq_active s0) c = None" "length (tq_tasks s0) = u" "tq_slots s0 = tq_slots s"
    "tq_tasks s0 ! t = (tq_tasks s ! t)\<lparr>wk_cancelled := True\<rparr>"
    using assms(2) by (simp_all add: s0_def stop_worker_def drop_queue_def clear_queue_def u_def Let_def split: option.split)
  have acc: "queue_turn c x s0 = (True, s1)" using accepted c0 by simp
  have e1: "s1 = start_worker c (s0\<lparr>tq_heap := tq_heap s0 @ [[x]], tq_queues := dset c (length (tq_heap s0)) (tq_queues s0),
    tq_work := tq_work s0 + 1\<rparr>)" and dr: "\<not> tq_draining s0" using accepted_fresh [OF acc f0(1,2)] by simp_all
  have f1: "tq_tasks s1 = tq_tasks s0 @ [\<lparr>wk_chan = c, wk_queue = None, wk_cancelled = False, wk_phase = Fresh\<rparr>]"
    "map_of (tq_queues s1) c = Some (length (tq_heap s0))" "tq_heap s1 = tq_heap s0 @ [[x]]" "tq_draining s1 = tq_draining s0" "tq_slots s1 = tq_slots s"
    by (simp_all add: e1 start_worker_def f0)
  define w where "w = \<lparr>wk_chan = c, wk_queue = Some (length (tq_heap s0)), wk_cancelled = False, wk_phase = Waiting x\<rparr>"
  define s2 where "s2 = begin_worker u s1"
  have f2: "tq_tasks s2 = tq_tasks s0 @ [w]" "tq_draining s2 = tq_draining s0" "tq_slots s2 = tq_slots s"
    using dr by (simp_all add: s2_def begin_worker_def f1 f0 nth_append next_turn_def set_phase_def w_def list_update_append)
  define s3 where "s3 = acquire_slot u (length (tq_heap s0)) x s2"
  have f3: "tq_tasks s3 = tq_tasks s0 @ [w\<lparr>wk_phase := Running x True\<rparr>]"
    using dr by (simp add: s3_def acquire_slot_def f2 set_phase_def nth_append f0 list_update_append)
  define tr1 where "tr1 = tr\<lparr>tr_calm := False, tr_accepted := tr_accepted tr @ [(c, x)]\<rparr>"
  have run: "run_events (s, tr) [Stop c, Submit c x, Begin u, Acquire u] = Some (s3, took u s2 tr1)"
    using assms(7) by (simp add: c0 acc f1 f0 nth_append s2_def [symmetric] f2 w_def s3_def tr1_def)
  have ut: "u \<noteq> t" using assms(2) by (simp add: u_def)
  have t2: "tq_tasks s3 ! t = tq_tasks s0 ! t" "tq_tasks s3 ! u = w\<lparr>wk_phase := Running x True\<rparr>"
    using assms(2) f0(3) by (simp_all add: f3 nth_append u_def)
  show ?thesis
  proof (intro exI conjI)
    show "turns_reach n s3 (took u s2 tr1)" by (rule run_events_reach [OF assms(1) run])
    show "run_events (s, tr) [Stop c, Submit c x, Begin u, Acquire u] = Some (s3, took u s2 tr1)" "u \<noteq> t" by (rule run, rule ut)
  qed (simp_all add: t2 f0 assms w_def)
qed

definition started_pair :: "nat turns \<times> nat trail" where
  "started_pair = (\<lparr>tq_draining = False, tq_work = 1, tq_max = 2, tq_max_channel = 2, tq_slots = 2,
     tq_heap = [[]], tq_queues = [(''a'', 0)], tq_active = [(''a'', 0)], tq_stop = {},
     tq_tasks = [\<lparr>wk_chan = ''a'', wk_queue = Some 0, wk_cancelled = False, wk_phase = Waiting 1\<rparr>]\<rparr>,
     \<lparr>tr_accepted = [(''a'', 1)], tr_started = [(''a'', 1)], tr_calm = True\<rparr>)"

lemma started_pair_reach: "turns_reach 2 (fst started_pair) (snd started_pair)"
proof -
  have "run_events (turns_init 2 2, empty_trail) [Submit ''a'' 1, Begin 0] = Some started_pair"
    by (simp add: started_pair_def turns_init_two empty_trail_def turn_steps_eval)
  then have "run_events (turns_init 2 2, empty_trail) [Submit ''a'' 1, Begin 0] = Some (fst started_pair, snd started_pair)"
    by (simp only: prod.collapse)
  then show ?thesis by (rule run_events_reach [OF two_reach])
qed

lemma pending_turns_counted_witness:
  "tq_work (fst started_pair) = sum_list (map length (tq_heap (fst started_pair))) + sum_list (map in_hand (tq_tasks (fst started_pair)))
    \<and> tq_work (fst started_pair) = 1"
  using pending_turns_counted [OF started_pair_reach] by (simp add: started_pair_def)

theorem one_worker_per_channel_witness:
  "\<exists>i. i < length (tq_tasks (fst started_pair)) \<and> worker_live (tq_tasks (fst started_pair) ! i) \<and> i = (0 :: nat)"
proof -
  have p: "0 < length (tq_tasks (fst started_pair))" "worker_live (tq_tasks (fst started_pair) ! 0)" "\<not> wk_cancelled (tq_tasks (fst started_pair) ! 0)"
    by (simp_all add: started_pair_def worker_live_def)
  from one_worker_per_channel [OF started_pair_reach p(1) p(1) p(2) p(2) p(3) p(3) refl] p show ?thesis by blast
qed

theorem turns_started_in_order_witness:
  "of_chan ''a'' (tr_started (snd started_pair)) @ waiting_turns ''a'' (fst started_pair) = [1]"
  using turns_started_in_order [OF started_pair_reach, of "''a''"] by (simp add: started_pair_def of_chan_def)

text \<open>A state with two channels, each handling its only turn, and one with a single running turn.\<close>

definition two_running :: "nat turns \<times> nat trail" where
  "two_running = (\<lparr>tq_draining = False, tq_work = 2, tq_max = 2, tq_max_channel = 2, tq_slots = 0,
     tq_heap = [[], []], tq_queues = [(''a'', 0), (''b'', 1)], tq_active = [(''a'', 0), (''b'', 1)], tq_stop = {},
     tq_tasks = [\<lparr>wk_chan = ''a'', wk_queue = Some 0, wk_cancelled = False, wk_phase = Running 1 True\<rparr>,
       \<lparr>wk_chan = ''b'', wk_queue = Some 1, wk_cancelled = False, wk_phase = Running 2 True\<rparr>]\<rparr>,
     \<lparr>tr_accepted = [(''a'', 1), (''b'', 2)], tr_started = [(''a'', 1), (''b'', 2)], tr_calm = True\<rparr>)"

definition one_running :: "nat turns \<times> nat trail" where
  "one_running = (\<lparr>tq_draining = False, tq_work = 1, tq_max = 2, tq_max_channel = 2, tq_slots = 1,
     tq_heap = [[]], tq_queues = [(''a'', 0)], tq_active = [(''a'', 0)], tq_stop = {},
     tq_tasks = [\<lparr>wk_chan = ''a'', wk_queue = Some 0, wk_cancelled = False, wk_phase = Running 1 True\<rparr>]\<rparr>,
     \<lparr>tr_accepted = [(''a'', 1)], tr_started = [(''a'', 1)], tr_calm = True\<rparr>)"

lemma two_running_reach: "turns_reach 2 (fst two_running) (snd two_running)"
proof -
  have "run_events (turns_init 2 2, empty_trail) [Submit ''a'' 1, Begin 0, Submit ''b'' 2, Begin 1, Acquire 0, Acquire 1] = Some two_running"
    by (simp add: two_running_def turns_init_two empty_trail_def turn_steps_eval)
  then show ?thesis by (metis run_events_reach [OF two_reach] prod.collapse)
qed

lemma one_running_reach: "turns_reach 2 (fst one_running) (snd one_running)"
proof -
  have "run_events (turns_init 2 2, empty_trail) [Submit ''a'' 1, Begin 0, Acquire 0] = Some one_running"
    by (simp add: one_running_def turns_init_two empty_trail_def turn_steps_eval)
  then show ?thesis by (metis run_events_reach [OF two_reach] prod.collapse)
qed

theorem accepted_turn_dropped_witness:
  "\<exists>s' tr'. run_events two_running [Submit ''a'' 3, Complete 1, Submit ''a'' 4, Complete 0, Callback 0] = Some (s', tr')
    \<and> tr_accepted tr' = [(''a'', 1), (''b'', 2), (''a'', 4)] \<and> tr_started tr' = [(''a'', 1), (''b'', 2)] \<and> waiting_turns ''a'' s' = []"
proof -
  have r: "queue_turn ''a'' 3 (fst two_running) = (False, (fst two_running)\<lparr>tq_queues := [(''b'', 1)]\<rparr>)"
    by (simp add: two_running_def turn_steps_eval)
  have a: "\<exists>s2. queue_turn ''a'' 4 (complete_turn 1 1 True ((fst two_running)\<lparr>tq_queues := [(''b'', 1)]\<rparr>)) = (True, s2)"
    by (simp add: two_running_def turn_steps_eval)
  then obtain s2 where a: "queue_turn ''a'' 4 (complete_turn 1 1 True ((fst two_running)\<lparr>tq_queues := [(''b'', 1)]\<rparr>)) = (True, s2)" ..
  have "\<not> tq_draining (fst two_running)" "0 < length (tq_tasks (fst two_running))" "1 < length (tq_tasks (fst two_running))"
    "tq_tasks (fst two_running) ! 0 = \<lparr>wk_chan = ''a'', wk_queue = Some 0, wk_cancelled = False, wk_phase = Running 1 True\<rparr>"
    "tq_tasks (fst two_running) ! 1 = \<lparr>wk_chan = ''b'', wk_queue = Some 1, wk_cancelled = False, wk_phase = Running 2 True\<rparr>"
    "map_of (tq_queues (fst two_running)) ''a'' = Some 0" "tq_heap (fst two_running) ! 0 = []" "tq_heap (fst two_running) ! 1 = []"
    by (simp_all add: two_running_def)
  from accepted_turn_dropped [OF two_running_reach this(1,2,4,6,7,3,5) _ this(8) r a]
  obtain s' tr' where "run_events (fst two_running, snd two_running) [Submit ''a'' 3, Complete 1, Submit ''a'' 4, Complete 0, Callback 0] = Some (s', tr')"
    "tr_accepted tr' = tr_accepted (snd two_running) @ [(''a'', 4)]" "tr_started tr' = tr_started (snd two_running)" "waiting_turns ''a'' s' = []" by auto
  then show ?thesis by (auto simp: two_running_def simp del: run_events.simps)
qed

theorem stopped_turn_overlaps_witness:
  "\<exists>s' tr' u. run_events one_running [Stop ''a'', Submit ''a'' 2, Begin u, Acquire u] = Some (s', tr') \<and> u \<noteq> 0
    \<and> wk_phase (tq_tasks s' ! 0) = Running 1 True \<and> wk_cancelled (tq_tasks s' ! 0) \<and> wk_phase (tq_tasks s' ! u) = Running 2 True"
proof -
  have "\<exists>s1. queue_turn ''a'' 2 (snd (cancel_channel ''a'' (fst one_running))) = (True, s1)"
    by (simp add: one_running_def turn_steps_eval)
  then obtain s1 where a: "queue_turn ''a'' 2 (snd (cancel_channel ''a'' (fst one_running))) = (True, s1)" ..
  have "0 < length (tq_tasks (fst one_running))" "wk_chan (tq_tasks (fst one_running) ! 0) = ''a''" "\<not> wk_cancelled (tq_tasks (fst one_running) ! 0)"
    "wk_phase (tq_tasks (fst one_running) ! 0) = Running 1 True" "0 < tq_slots (fst one_running)"
    by (simp_all add: one_running_def)
  from stopped_turn_overlaps [OF one_running_reach this(1-4) _ this(5) a]
  obtain s' tr' u where "run_events (fst one_running, snd one_running) [Stop ''a'', Submit ''a'' 2, Begin u, Acquire u] = Some (s', tr')" "u \<noteq> 0"
    "wk_cancelled (tq_tasks s' ! 0)" "wk_phase (tq_tasks s' ! 0) = Running 1 True" "wk_phase (tq_tasks s' ! u) = Running 2 True" by blast
  then show ?thesis by (auto simp del: run_events.simps)
qed

end
