(* ===== verification/Multi_Agent.thy ===== *)
theory Multi_Agent
  imports PyDict
begin

text \<open>
  The sub-agents of \<open>norax/brain/multi_agent.py\<close>: splitting a task, running the parts along their dependencies with bounded
  concurrency, and fusing the results. The agent loop behind a sub-agent is a parameter. \<open>dag_rounds\<close> runs the batches
  one after the other, \<open>dag_step\<close> is the interleaving of the asyncio tasks under the semaphore.
\<close>

section \<open>Roles, subtasks and results\<close>

definition role_research :: string where "role_research = ''research''"
definition role_code :: string where "role_code = ''code''"
definition role_verify :: string where "role_verify = ''verify''"
definition role_plan :: string where "role_plan = ''plan''"
definition role_general :: string where "role_general = ''general''"

definition role_prompts :: "(string, string) dict" where
  "role_prompts = [
     (role_research, ''You are a research specialist. Your job is to gather information, ''
       @ ''read documentation, search the web, and synthesize findings. ''
       @ ''Focus on thoroughness and accuracy. Always cite sources.''),
     (role_code, ''You are a code specialist. Your job is to write, edit, and test code. ''
       @ ''Focus on correctness, edge cases, and verification. Always run tests.''),
     (role_verify, ''You are a verification specialist. Your job is to check claims, ''
       @ ''verify file contents, run tests, and confirm correctness. ''
       @ ''Focus on finding errors. Report pass/fail with evidence.''),
     (role_plan, ''You are a planning specialist. Your job is to decompose complex tasks ''
       @ ''into steps, identify dependencies, and create execution plans. ''
       @ ''Focus on completeness and ordering.''),
     (role_general, ''You are a general-purpose agent. Handle the task directly.'')]"

definition role_tool_sets :: "(string, string list) dict" where
  "role_tool_sets = [
     (role_research, [''read'', ''list_dir'', ''web_search'', ''web_fetch'', ''search_memory'', ''repo_explore'']),
     (role_code, [''read'', ''write'', ''write_chunk'', ''edit'', ''exec'', ''shell'', ''list_dir'', ''search_memory'']),
     (role_verify, [''read'', ''exec'', ''shell'', ''list_dir'', ''search_memory'', ''status'']),
     (role_plan, [''read'', ''list_dir'', ''search_memory'', ''web_search'']),
     (role_general, [])]"

record subtask =
  su_id :: string
  su_description :: string
  su_role :: string
  su_tools :: "string list"
  su_context :: string
  su_max_rounds :: pyval
  su_depends_on :: "string list"

record 'c sub_result =
  sr_subtask_id :: string
  sr_role :: string
  sr_success :: bool
  sr_output :: string
  sr_tool_calls :: "'c list"
  sr_rounds :: int
  sr_error :: string
  sr_usage :: "(string, int) dict"

record 'c fusion =
  fu_summary :: string
  fu_sub_results :: "'c sub_result list"
  fu_tool_calls :: nat
  fu_rounds :: int
  fu_usage :: "(string, int) dict"

definition new_subtask :: "string \<Rightarrow> string \<Rightarrow> string \<Rightarrow> string list \<Rightarrow> string \<Rightarrow> string list \<Rightarrow> subtask" where
  "new_subtask i description role tools context deps = \<lparr>su_id = i, su_description = description, su_role = role,
     su_tools = tools, su_context = context, su_max_rounds = PInt 250, su_depends_on = deps\<rparr>"

definition failed_result :: "subtask \<Rightarrow> string \<Rightarrow> 'c sub_result" where
  "failed_result st err = \<lparr>sr_subtask_id = su_id st, sr_role = su_role st, sr_success = False, sr_output = [],
     sr_tool_calls = [], sr_rounds = 0, sr_error = err, sr_usage = []\<rparr>"

definition verified_outcome :: "'c fusion \<Rightarrow> bool" where
  "verified_outcome f \<longleftrightarrow> fu_sub_results f \<noteq> [] \<and> list_all sr_success (fu_sub_results f)"

section \<open>Splitting a task\<close>

definition mentions :: "string list \<Rightarrow> string \<Rightarrow> bool" where
  "mentions ws t = list_ex (\<lambda>w. is_infix w t) ws"

definition tool_set :: "string \<Rightarrow> string list \<Rightarrow> string list" where
  "tool_set role allowed = (case map_of role_tool_sets role of Some ts \<Rightarrow> ts | None \<Rightarrow> allowed)"

definition auto_decompose :: "string \<Rightarrow> string list \<Rightarrow> subtask list" where
  "auto_decompose task allowed =
     (let t = py_lower task;
          has_research = mentions [''research'', ''investigate'', ''analyze'', ''study''] t;
          has_code = mentions [''implement'', ''code'', ''write'', ''build'', ''create''] t;
          has_verify = mentions [''verify'', ''test'', ''check'', ''validate''] t in
      if has_research \<and> (has_code \<or> has_verify) then
        let execute_role = if has_code then role_code else role_verify in
        [new_subtask ''s_research'' (''Research phase: '' @ task) role_research (tool_set role_research allowed) [] [],
         new_subtask ''s_execute'' (''Execution phase (use research findings): '' @ task) execute_role
           (tool_set execute_role allowed) ''Use findings from the research phase.'' [''s_research'']]
      else if has_research then [new_subtask ''s0'' task role_research (tool_set role_research allowed) [] []]
      else if has_code \<and> has_verify then
        [new_subtask ''s_code'' (''Code phase: '' @ task) role_code (tool_set role_code allowed) [] [],
         new_subtask ''s_verify'' (''Verify the code changes from the code phase: '' @ task) role_verify
           (tool_set role_verify allowed) ''Verify the code written in the code phase.'' [''s_code'']]
      else [new_subtask ''s0'' task role_general allowed [] []])"

definition should_decompose :: "string \<Rightarrow> bool" where
  "should_decompose task =
     (let t = py_lower task;
          count = (\<lambda>ws. length (filter (\<lambda>w. is_infix w t) ws));
          phases = count ['' and '', '' then '', '' after that '', '' first '', '' second '', '' finally ''];
          roles = count [''research'', ''implement'', ''verify'', ''test'', ''build'', ''analyze''] in
      1 \<le> phases \<and> 2 \<le> roles \<or> 3 \<le> roles)"

section \<open>One sub-agent\<close>

text \<open>\<open>int(v)\<close>; \<open>parse\<close> is the reading of a decimal literal, \<open>None\<close> when it raises.\<close>

fun to_int :: "(string \<Rightarrow> int option) \<Rightarrow> pyval \<Rightarrow> int res" where
  "to_int parse (PBool b) = Inr (if b then 1 else 0)"
| "to_int parse (PInt i) = Inr i"
| "to_int parse (PFloat (Fin r)) = Inr (if 0 \<le> r then \<lfloor>r\<rfloor> else \<lceil>r\<rceil>)"
| "to_int parse (PFloat NaN) = Inl (ValueError ''cannot convert float NaN to integer'')"
| "to_int parse (PFloat _) = Inl (OtherError ''OverflowError'' ''cannot convert float infinity to integer'')"
| "to_int parse (PStr s) =
     (case parse s of Some i \<Rightarrow> Inr i | None \<Rightarrow> Inl (ValueError ''invalid literal for int() with base 10''))"
| "to_int parse _ = Inl (TypeError ''int() argument must be a string, a bytes-like object or a real number'')"

text \<open>\<open>int(v)\<close> where \<open>TypeError\<close> and \<open>ValueError\<close> become a \<open>ValueError\<close> with another text.\<close>

definition checked_int :: "(string \<Rightarrow> int option) \<Rightarrow> string \<Rightarrow> pyval \<Rightarrow> int res" where
  "checked_int parse msg v = (case to_int parse v of
     Inl (ValueError _) \<Rightarrow> Inl (ValueError msg) | Inl (TypeError _) \<Rightarrow> Inl (ValueError msg) | r \<Rightarrow> r)"

record loop_call =
  lc_model :: string
  lc_system :: string
  lc_user :: string
  lc_tools :: "string list"
  lc_rounds :: int

record loop_response =
  lr_content :: string
  lr_raw :: "(string, pyval) dict"
  lr_usage :: "(string, pyval) dict"

text \<open>
  What a sub-agent uses: the three places a model name is looked up, the agent loop with its response, trace and round
  count, \<open>str\<close> of a value and of an exception, and integer literals.
\<close>

record 'c agent_env =
  ae_default_model :: "string option"
  ae_gateway_default :: "string option"
  ae_gateway_effective :: "string option"
  ae_loop :: "loop_call \<Rightarrow> (loop_response option \<times> 'c list \<times> int) res"
  ae_str :: "pyval \<Rightarrow> string"
  ae_exn_str :: "py_exn \<Rightarrow> string"
  ae_parse :: "string \<Rightarrow> int option"

definition opt_or :: "string option \<Rightarrow> string option \<Rightarrow> string option" where
  "opt_or a b = (case a of Some s \<Rightarrow> if s \<noteq> [] then Some s else b | None \<Rightarrow> b)"

definition agent_model :: "'c agent_env \<Rightarrow> string res" where
  "agent_model env = (case opt_or (ae_default_model env) (opt_or (ae_gateway_default env) (ae_gateway_effective env)) of
     Some m \<Rightarrow> if m \<noteq> [] then Inr m else Inl (RuntimeError ''multi-agent execution requires a configured model'')
   | None \<Rightarrow> Inl (RuntimeError ''multi-agent execution requires a configured model''))"

definition newline :: string where "newline = [CHR 0x0A]"

definition sub_system :: "string \<Rightarrow> subtask \<Rightarrow> string" where
  "sub_system system st =
     (let prompt = (case map_of role_prompts (su_role st) of Some p \<Rightarrow> p | None \<Rightarrow> the (map_of role_prompts role_general));
          s = prompt @ newline @ newline @ system in
      if su_context st \<noteq> [] then s @ newline @ newline @ ''Context: '' @ su_context st else s)"

definition sub_tools :: "string list \<Rightarrow> subtask \<Rightarrow> string list" where
  "sub_tools allowed st = (if su_tools st \<noteq> [] then filter (\<lambda>t. t \<in> set allowed) (su_tools st) else allowed)"

definition round_budget :: "'c agent_env \<Rightarrow> subtask \<Rightarrow> int res" where
  "round_budget env st = rbind (checked_int (ae_parse env) ''subtask max_rounds must be an integer'' (su_max_rounds st))
     (\<lambda>n. Inr (min 250 (max 1 n)))"

definition usage_count :: "'c agent_env \<Rightarrow> (string, pyval) dict \<Rightarrow> string \<Rightarrow> int res" where
  "usage_count env usage key = to_int (ae_parse env) (por (get_or usage key PNone) (PInt 0))"

definition sub_reply :: "'c agent_env \<Rightarrow> subtask \<Rightarrow> loop_response option \<Rightarrow> 'c list \<Rightarrow> int \<Rightarrow> 'c sub_result res" where
  "sub_reply env st resp trace rounds =
     (let content = (case resp of Some r \<Rightarrow> lr_content r | None \<Rightarrow> []);
          raw = (case resp of Some r \<Rightarrow> lr_raw r | None \<Rightarrow> []);
          usage = (case resp of Some r \<Rightarrow> lr_usage r | None \<Rightarrow> []);
          success = (py_strip content \<noteq> [] \<and> get_or raw ''verified_outcome'' PNone = PBool True);
          reason = ae_str env (por (get_or raw ''limit_reason'' PNone) (por (get_or raw ''incomplete_reason'' PNone)
            (por (get_or raw ''stop_reason'' PNone) (PStr ''sub-agent returned an unverified or empty result'')))) in
      rbind (usage_count env usage ''input_tokens'') (\<lambda>i.
      rbind (usage_count env usage ''output_tokens'') (\<lambda>out.
      Inr \<lparr>sr_subtask_id = su_id st, sr_role = su_role st, sr_success = success, sr_output = content,
        sr_tool_calls = trace, sr_rounds = rounds, sr_error = (if success then [] else reason),
        sr_usage = [(''input_tokens'', i), (''output_tokens'', out)]\<rparr>)))"

definition spend_guard :: "py_exn \<Rightarrow> bool" where
  "spend_guard e = (case e of OtherError k _ \<Rightarrow> k = ''SpendGuardTripped'' | _ \<Rightarrow> False)"

definition run_sub_agent :: "'c agent_env \<Rightarrow> string \<Rightarrow> string list \<Rightarrow> subtask \<Rightarrow> 'c sub_result res" where
  "run_sub_agent env system allowed st =
     (case rbind (agent_model env) (\<lambda>m. rbind (round_budget env st) (\<lambda>n.
         rbind (ae_loop env \<lparr>lc_model = m, lc_system = sub_system system st, lc_user = su_description st,
             lc_tools = sub_tools allowed st, lc_rounds = n\<rparr>) (\<lambda>(resp, trace, rounds). sub_reply env st resp trace rounds))) of
       Inr r \<Rightarrow> Inr r
     | Inl e \<Rightarrow> if spend_guard e \<or> \<not> is_Exception e then Inl e else Inr (failed_result st (ae_exn_str env e)))"

section \<open>Dependencies\<close>

text \<open>The context of a subtask with the outputs of its predecessors, or the predecessor that failed.\<close>

fun dep_context :: "(string, 'c sub_result) dict \<Rightarrow> string list \<Rightarrow> string \<Rightarrow> string + string" where
  "dep_context results [] ctx = Inr ctx"
| "dep_context results (d # ds) ctx = (case map_of results d of
     None \<Rightarrow> dep_context results ds ctx
   | Some r \<Rightarrow>
       if sr_success r \<and> sr_output r \<noteq> [] then
         dep_context results ds (ctx @ newline @ newline @ ''[From '' @ d @ '' ('' @ sr_role r @ '')]:'' @ newline @ take 4000 (sr_output r))
       else if \<not> sr_success r then Inl d
       else dep_context results ds ctx)"

definition run_one :: "(subtask \<Rightarrow> 'c sub_result res) \<Rightarrow> (string, 'c sub_result) dict \<Rightarrow> subtask \<Rightarrow> 'c sub_result res" where
  "run_one agent results st = (case dep_context results (su_depends_on st) (su_context st) of
     Inl d \<Rightarrow> Inr (failed_result st (''dependency '' @ d @ '' failed''))
   | Inr ctx \<Rightarrow> agent (st\<lparr>su_context := ctx\<rparr>))"

definition ready_tasks :: "subtask list \<Rightarrow> (string, 'c sub_result) dict \<Rightarrow> subtask list" where
  "ready_tasks remaining results = filter (\<lambda>st. list_all (\<lambda>d. map_of results d \<noteq> None) (su_depends_on st)) remaining"

fun run_all :: "('a \<Rightarrow> 'b res) \<Rightarrow> 'a list \<Rightarrow> 'b list res" where
  "run_all f [] = Inr []"
| "run_all f (x # xs) = rbind (f x) (\<lambda>r. rbind (run_all f xs) (\<lambda>rs. Inr (r # rs)))"

fun collect_batch :: "subtask list \<Rightarrow> 'c sub_result list \<Rightarrow> subtask list \<times> (string, 'c sub_result) dict
    \<Rightarrow> subtask list \<times> (string, 'c sub_result) dict" where
  "collect_batch (st # sts) (r # rs) (remaining, results) =
     collect_batch sts rs (filter (\<lambda>t. su_id t \<noteq> su_id st) remaining, dset (su_id st) r results)"
| "collect_batch _ _ s = s"

definition fail_rest :: "subtask list \<Rightarrow> (string, 'c sub_result) dict \<Rightarrow> (string, 'c sub_result) dict" where
  "fail_rest remaining results = foldl (\<lambda>d st. dset (su_id st) (failed_result st ''unresolvable dependency'') d) results remaining"

lemma collect_shrinks: "length (fst (collect_batch sts rs s)) \<le> length (fst s)"
  by (induction sts rs s rule: collect_batch.induct) (auto intro: le_trans)

lemma length_run_all: "run_all f xs = Inr rs \<Longrightarrow> length rs = length xs"
  by (induction xs arbitrary: rs) auto

lemma collect_ready_shrinks:
  assumes "ready_tasks remaining results \<noteq> []" "length rs = length (ready_tasks remaining results)"
  shows "length (fst (collect_batch (ready_tasks remaining results) rs (remaining, results))) < length remaining"
proof -
  obtain st sts where r: "ready_tasks remaining results = st # sts" using assms(1) by (cases "ready_tasks remaining results") auto
  moreover obtain x xs where "rs = x # xs" using assms(2) r by (cases rs) auto
  moreover have "st \<in> set remaining" using r unfolding ready_tasks_def
    by (metis (no_types, lifting) list.set_intros(1) mem_Collect_eq set_filter)
  then have "length (filter (\<lambda>t. su_id t \<noteq> su_id st) remaining) < length remaining"
    by (rule length_filter_less) simp
  moreover have "length (fst (collect_batch sts xs (filter (\<lambda>t. su_id t \<noteq> su_id st) remaining, dset (su_id st) x results)))
      \<le> length (filter (\<lambda>t. su_id t \<noteq> su_id st) remaining)"
    using collect_shrinks [of sts xs "(filter (\<lambda>t. su_id t \<noteq> su_id st) remaining, dset (su_id st) x results)"] by simp
  ultimately show ?thesis by simp
qed

text \<open>The loop of \<open>_run_dag\<close>; \<open>remaining\<close> is a dict in the code, keyed by the ids of its values.\<close>

function dag_rounds :: "(subtask \<Rightarrow> 'c sub_result res) \<Rightarrow> subtask list \<Rightarrow> (string, 'c sub_result) dict
    \<Rightarrow> (string, 'c sub_result) dict res" where
  "dag_rounds agent remaining results =
     (if remaining = [] then Inr results
      else if ready_tasks remaining results = [] then Inr (fail_rest remaining results)
      else case run_all (run_one agent results) (ready_tasks remaining results) of
        Inl e \<Rightarrow> Inl e
      | Inr rs \<Rightarrow> dag_rounds agent (fst (collect_batch (ready_tasks remaining results) rs (remaining, results)))
                    (snd (collect_batch (ready_tasks remaining results) rs (remaining, results))))"
  by pat_completeness auto
termination
  by (relation "measure (\<lambda>(agent, remaining, results). length remaining)")
    (use collect_ready_shrinks length_run_all in \<open>force simp: case_prod_beta\<close>)+

declare dag_rounds.simps [simp del]

definition run_dag :: "(subtask \<Rightarrow> 'c sub_result res) \<Rightarrow> subtask list \<Rightarrow> 'c sub_result list res" where
  "run_dag agent subtasks =
     (if \<not> distinct (map su_id subtasks)
      then Inr (map (\<lambda>st. failed_result st (''duplicate subtask id: '' @ su_id st)) subtasks)
      else rbind (dag_rounds agent subtasks []) (\<lambda>results. Inr (map (\<lambda>st. the (map_of results (su_id st))) subtasks)))"

section \<open>Fusion\<close>

definition result_line :: "'c sub_result \<Rightarrow> string" where
  "result_line r = ''  ['' @ sr_role r @ ''] '' @ sr_error r"

definition failure_line :: "'c sub_result \<Rightarrow> string" where
  "failure_line r = ''  ['' @ sr_role r @ ''] '' @ sr_subtask_id r @ '': '' @ sr_error r"

definition success_part :: "'c sub_result \<Rightarrow> string" where
  "success_part r = ''## ['' @ sr_role r @ ''] '' @ sr_subtask_id r @ newline @ sr_output r"

definition fuse :: "'c sub_result list \<Rightarrow> 'c fusion" where
  "fuse results =
     (let successful = filter sr_success results;
          failed = filter (\<lambda>r. \<not> sr_success r) results;
          summary =
            (if length results = 1 \<and> sr_success (results ! 0) then sr_output (results ! 0)
             else if successful = [] then ''All sub-agents failed:'' @ newline @ join_words newline (map result_line failed)
             else join_words (newline @ newline) (map success_part successful
               @ (if failed \<noteq> [] then [''## Failures'' @ newline @ join_words newline (map failure_line failed)] else []))) in
      \<lparr>fu_summary = summary, fu_sub_results = results, fu_tool_calls = sum_list (map (\<lambda>r. length (sr_tool_calls r)) results),
       fu_rounds = sum_list (map sr_rounds results),
       fu_usage = map (\<lambda>key. (key, sum_list (map (\<lambda>r. case map_of (sr_usage r) key of Some n \<Rightarrow> n | None \<Rightarrow> 0) results)))
         [''input_tokens'', ''output_tokens'']\<rparr>)"

section \<open>The orchestrator\<close>

definition max_subtasks :: nat where "max_subtasks = 8"

definition planned_subtasks :: "string \<Rightarrow> string list \<Rightarrow> subtask list option \<Rightarrow> subtask list" where
  "planned_subtasks task allowed given =
     (let sts = (case given of None \<Rightarrow> auto_decompose task allowed | Some sts \<Rightarrow> sts) in
      if sts = [] then [new_subtask ''s0'' task role_general allowed [] []] else sts)"

definition concurrency_limit :: "(string \<Rightarrow> int option) \<Rightarrow> pyval \<Rightarrow> nat res" where
  "concurrency_limit parse v = rbind (checked_int parse ''max_concurrent must be an integer'' v) (\<lambda>n. Inr (nat (min 4 (max 1 n))))"

definition run_agents :: "'c agent_env \<Rightarrow> string \<Rightarrow> string \<Rightarrow> string list \<Rightarrow> subtask list option \<Rightarrow> pyval \<Rightarrow> 'c fusion res" where
  "run_agents env task system allowed given max_concurrent =
     (let subtasks = planned_subtasks task allowed given in
      if max_subtasks < length subtasks then Inl (ValueError ''multi-agent task count exceeds limit of 8'')
      else rbind (concurrency_limit (ae_parse env) max_concurrent) (\<lambda>n.
        rbind (run_dag (run_sub_agent env system allowed) subtasks) (\<lambda>results. Inr (fuse results))))"

section \<open>Interleavings of a batch\<close>

text \<open>
  A task that waits for the semaphore, one whose agent runs, one that has a result. \<open>dg_calls\<close> records the subtasks that
  were handed to an agent, in order; \<open>dg_end\<close> is set when the loop has ended. An agent's outcome is a function of its
  subtask, which is no restriction as no subtask is handed out twice.
\<close>

datatype 'c job = Queued | Inside | Finished "'c sub_result"

record 'c dag =
  dg_remaining :: "subtask list"
  dg_results :: "(string, 'c sub_result) dict"
  dg_batch :: "(subtask \<times> 'c job) list"
  dg_free :: nat
  dg_calls :: "subtask list"
  dg_end :: "(string, 'c sub_result) dict res option"

definition dag_start :: "nat \<Rightarrow> subtask list \<Rightarrow> 'c dag" where
  "dag_start n subtasks = \<lparr>dg_remaining = subtasks, dg_results = [], dg_batch = [], dg_free = n, dg_calls = [], dg_end = None\<rparr>"

fun job_result :: "'c job \<Rightarrow> 'c sub_result option" where
  "job_result (Finished r) = Some r"
| "job_result _ = None"

inductive dag_step :: "(subtask \<Rightarrow> 'c sub_result res) \<Rightarrow> 'c dag \<Rightarrow> 'c dag \<Rightarrow> bool" for agent where
  open_batch: "dg_end s = None \<Longrightarrow> dg_batch s = [] \<Longrightarrow> ready_tasks (dg_remaining s) (dg_results s) \<noteq> [] \<Longrightarrow>
    dag_step agent s (s\<lparr>dg_batch := map (\<lambda>st. (st, Queued)) (ready_tasks (dg_remaining s) (dg_results s))\<rparr>)"
| no_ready: "dg_end s = None \<Longrightarrow> dg_batch s = [] \<Longrightarrow> dg_remaining s \<noteq> [] \<Longrightarrow> ready_tasks (dg_remaining s) (dg_results s) = [] \<Longrightarrow>
    dag_step agent s (s\<lparr>dg_end := Some (Inr (fail_rest (dg_remaining s) (dg_results s)))\<rparr>)"
| all_done: "dg_end s = None \<Longrightarrow> dg_batch s = [] \<Longrightarrow> dg_remaining s = [] \<Longrightarrow>
    dag_step agent s (s\<lparr>dg_end := Some (Inr (dg_results s))\<rparr>)"
| enter: "dg_end s = None \<Longrightarrow> i < length (dg_batch s) \<Longrightarrow> dg_batch s ! i = (st, Queued) \<Longrightarrow> 0 < dg_free s \<Longrightarrow>
    dep_context (dg_results s) (su_depends_on st) (su_context st) = Inr ctx \<Longrightarrow>
    dag_step agent s (s\<lparr>dg_batch := (dg_batch s)[i := (st, Inside)], dg_free := dg_free s - 1,
      dg_calls := dg_calls s @ [st\<lparr>su_context := ctx\<rparr>]\<rparr>)"
| blocked: "dg_end s = None \<Longrightarrow> i < length (dg_batch s) \<Longrightarrow> dg_batch s ! i = (st, Queued) \<Longrightarrow> 0 < dg_free s \<Longrightarrow>
    dep_context (dg_results s) (su_depends_on st) (su_context st) = Inl d \<Longrightarrow>
    dag_step agent s (s\<lparr>dg_batch := (dg_batch s)[i := (st, Finished (failed_result st (''dependency '' @ d @ '' failed'')))]\<rparr>)"
| agent_returns: "dg_end s = None \<Longrightarrow> i < length (dg_batch s) \<Longrightarrow> dg_batch s ! i = (st, Inside) \<Longrightarrow>
    run_one agent (dg_results s) st = Inr r \<Longrightarrow>
    dag_step agent s (s\<lparr>dg_batch := (dg_batch s)[i := (st, Finished r)], dg_free := dg_free s + 1\<rparr>)"
| agent_raises: "dg_end s = None \<Longrightarrow> i < length (dg_batch s) \<Longrightarrow> dg_batch s ! i = (st, Inside) \<Longrightarrow>
    run_one agent (dg_results s) st = Inl e \<Longrightarrow> dag_step agent s (s\<lparr>dg_end := Some (Inl e)\<rparr>)"
| collect_all: "dg_end s = None \<Longrightarrow> dg_batch s \<noteq> [] \<Longrightarrow> map (job_result \<circ> snd) (dg_batch s) = map Some rs \<Longrightarrow>
    collect_batch (map fst (dg_batch s)) rs (dg_remaining s, dg_results s) = (remaining, results) \<Longrightarrow>
    dag_step agent s (s\<lparr>dg_batch := [], dg_remaining := remaining, dg_results := results\<rparr>)"

inductive_cases dag_stepE: "dag_step agent s s'"

lemmas dag_step_cases = dag_stepE [consumes 1, case_names open_batch no_ready all_done enter blocked agent_returns agent_raises collect_all]

inductive dag_reach :: "(subtask \<Rightarrow> 'c sub_result res) \<Rightarrow> nat \<Rightarrow> subtask list \<Rightarrow> 'c dag \<Rightarrow> bool" for agent n subtasks where
  dag_first: "dag_reach agent n subtasks (dag_start n subtasks)"
| dag_next: "dag_reach agent n subtasks s \<Longrightarrow> dag_step agent s s' \<Longrightarrow> dag_reach agent n subtasks s'"


section \<open>Sequential facts\<close>

lemma dag_rounds_simps:
  "dag_rounds agent [] results = Inr results"
  "remaining \<noteq> [] \<Longrightarrow> ready_tasks remaining results = [] \<Longrightarrow> dag_rounds agent remaining results = Inr (fail_rest remaining results)"
  "remaining \<noteq> [] \<Longrightarrow> ready_tasks remaining results \<noteq> [] \<Longrightarrow> run_all (run_one agent results) (ready_tasks remaining results) = Inl e
     \<Longrightarrow> dag_rounds agent remaining results = Inl e"
  "remaining \<noteq> [] \<Longrightarrow> ready_tasks remaining results \<noteq> [] \<Longrightarrow> run_all (run_one agent results) (ready_tasks remaining results) = Inr rs
     \<Longrightarrow> dag_rounds agent remaining results = dag_rounds agent (fst (collect_batch (ready_tasks remaining results) rs (remaining, results)))
       (snd (collect_batch (ready_tasks remaining results) rs (remaining, results)))"
  by (simp_all add: dag_rounds.simps [of agent])

lemma run_all_Inr: "run_all f xs = Inr rs \<longleftrightarrow> map f xs = map Inr rs"
  by (induction xs arbitrary: rs) (auto simp: Cons_eq_map_conv)

lemma run_all_Inl: "x \<in> set xs \<Longrightarrow> f x = Inl e \<Longrightarrow> \<exists>e'. run_all f xs = Inl e'"
  by (induction xs) (auto simp: rbind_def split: sum.splits)

lemma ready_nonempty: "ready_tasks remaining results \<noteq> [] \<Longrightarrow> remaining \<noteq> []"
  by (auto simp: ready_tasks_def)

lemma fst_collect: "length rs = length sts
    \<Longrightarrow> fst (collect_batch sts rs s) = filter (\<lambda>t. su_id t \<notin> su_id ` set sts) (fst s)"
  by (induction sts rs s rule: collect_batch.induct) (auto intro!: filter_cong simp: conj_commute)

lemma snd_collect: "length rs = length sts
    \<Longrightarrow> snd (collect_batch sts rs s) = foldl (\<lambda>d (st, r). dset (su_id st) r d) (snd s) (zip sts rs)"
  by (induction sts rs s rule: collect_batch.induct) auto

section \<open>The invariant of the interleavings\<close>

definition inside_count :: "'c dag \<Rightarrow> nat" where
  "inside_count s = length (filter (\<lambda>p. snd p = Inside) (dg_batch s))"

text \<open>
  The loop from here on gives what it gives from the start; a batch holds the ready subtasks, and its results are those
  of the agents; free permits and running agents add up.
\<close>

definition dag_inv :: "(subtask \<Rightarrow> 'c sub_result res) \<Rightarrow> nat \<Rightarrow> subtask list \<Rightarrow> 'c dag \<Rightarrow> bool" where
  "dag_inv agent n subtasks s \<longleftrightarrow>
     dag_rounds agent (dg_remaining s) (dg_results s) = dag_rounds agent subtasks []
   \<and> (dg_batch s \<noteq> [] \<longrightarrow> map fst (dg_batch s) = ready_tasks (dg_remaining s) (dg_results s))
   \<and> (\<forall>st r. (st, Finished r) \<in> set (dg_batch s) \<longrightarrow> run_one agent (dg_results s) st = Inr r)
   \<and> dg_free s + inside_count s = n
   \<and> (\<forall>x. dg_end s = Some (Inr x) \<longrightarrow> dag_rounds agent subtasks [] = Inr x)
   \<and> (\<forall>e. dg_end s = Some (Inl e) \<longrightarrow> (\<exists>e'. dag_rounds agent subtasks [] = Inl e'))"

lemma filter_update:
  "i < length xs \<Longrightarrow> length (filter P (xs[i := y])) + (if P (xs ! i) then 1 else 0) = length (filter P xs) + (if P y then 1 else 0)"
proof (induction xs arbitrary: i)
  case (Cons x xs)
  then show ?case by (cases i) auto
qed simp

lemma inside_update:
  assumes "i < length (dg_batch s)"
  shows "length (filter (\<lambda>p. snd p = Inside) ((dg_batch s)[i := p])) + (if snd (dg_batch s ! i) = Inside then 1 else 0)
    = inside_count s + (if snd p = Inside then 1 else 0)"
  unfolding inside_count_def using filter_update [OF assms, of "\<lambda>p. snd p = Inside" p] by simp

lemma map_fst_update: "i < length xs \<Longrightarrow> fst (xs ! i) = st \<Longrightarrow> map fst (xs[i := (st, j)]) = map fst xs"
  by (metis fst_conv list_update_id map_update nth_map)

lemma batch_job_change:
  assumes inv: "dag_inv agent n subtasks s" and i: "i < length (dg_batch s)" "dg_batch s ! i = (st, j)"
    and j': "\<And>r. j' = Finished r \<Longrightarrow> run_one agent (dg_results s) st = Inr r" and e: "dg_end s = None"
    and f: "f + (if j' = Inside then 1 else 0) = dg_free s + (if j = Inside then 1 else 0)"
  shows "dag_inv agent n subtasks (s\<lparr>dg_batch := (dg_batch s)[i := (st, j')], dg_free := f, dg_calls := cs\<rparr>)"
proof -
  have "inside_count (s\<lparr>dg_batch := (dg_batch s)[i := (st, j')], dg_free := f, dg_calls := cs\<rparr>)
      = length (filter (\<lambda>p. snd p = Inside) ((dg_batch s)[i := (st, j')]))"
    by (simp add: inside_count_def)
  then have "f + inside_count (s\<lparr>dg_batch := (dg_batch s)[i := (st, j')], dg_free := f, dg_calls := cs\<rparr>) = n"
    using inside_update [OF i(1), of "(st, j')"] i(2) f inv by (simp add: dag_inv_def split: if_splits)
  moreover have "map fst ((dg_batch s)[i := (st, j')]) = map fst (dg_batch s)" using i by (simp add: map_fst_update)
  moreover have "run_one agent (dg_results s) st' = Inr r" if "(st', Finished r) \<in> set ((dg_batch s)[i := (st, j')])" for st' r
  proof -
    have "(st', Finished r) = (st, j') \<or> (st', Finished r) \<in> set (dg_batch s)" using that set_update_subset_insert by fastforce
    with j' inv show ?thesis by (auto simp: dag_inv_def)
  qed
  ultimately show ?thesis using inv e by (simp add: dag_inv_def)
qed

lemma dag_step_inv:
  assumes inv: "dag_inv agent n subtasks s" and step: "dag_step agent s s'"
  shows "dag_inv agent n subtasks s'"
  using step
proof (cases rule: dag_step_cases)
  case open_batch
  have "filter (\<lambda>p. snd p = Inside) (map (\<lambda>st. (st, Queued)) sts) = ([] :: (subtask \<times> 'c job) list)" for sts
    by (induction sts) auto
  moreover have "inside_count s = 0" using open_batch(3) by (simp add: inside_count_def)
  ultimately show ?thesis using inv open_batch by (auto simp: dag_inv_def inside_count_def comp_def)
next
  case no_ready
  then show ?thesis using inv by (simp add: dag_inv_def inside_count_def dag_rounds_simps(2))
next
  case all_done
  then show ?thesis using inv by (simp add: dag_inv_def inside_count_def dag_rounds_simps(1))
next
  case (enter i st ctx)
  show ?thesis unfolding enter(1) by (rule batch_job_change [OF inv enter(3,4)]) (use enter in simp_all)
next
  case (blocked i st d)
  have "dag_inv agent n subtasks (s\<lparr>dg_batch := (dg_batch s)[i := (st, Finished (failed_result st (''dependency '' @ d @ '' failed'')))],
      dg_free := dg_free s, dg_calls := dg_calls s\<rparr>)"
    by (rule batch_job_change [OF inv blocked(3,4)]) (use blocked in \<open>simp_all add: run_one_def\<close>)
  then show ?thesis unfolding blocked(1) by simp
next
  case (agent_returns i st r)
  have "dag_inv agent n subtasks (s\<lparr>dg_batch := (dg_batch s)[i := (st, Finished r)], dg_free := dg_free s + 1, dg_calls := dg_calls s\<rparr>)"
    by (rule batch_job_change [OF inv agent_returns(3,4)]) (use agent_returns in simp_all)
  then show ?thesis unfolding agent_returns(1) by simp
next
  case (agent_raises i st e)
  have ne: "dg_batch s \<noteq> []" using agent_raises(3) by auto
  then have b: "map fst (dg_batch s) = ready_tasks (dg_remaining s) (dg_results s)" using inv by (simp add: dag_inv_def)
  have "st \<in> set (map fst (dg_batch s))" using agent_raises(3,4) by (metis fst_conv length_map nth_map nth_mem)
  with b agent_raises(5) obtain e' where e': "run_all (run_one agent (dg_results s)) (ready_tasks (dg_remaining s) (dg_results s)) = Inl e'"
    using run_all_Inl by metis
  have r: "ready_tasks (dg_remaining s) (dg_results s) \<noteq> []" using b ne by auto
  have "dag_rounds agent (dg_remaining s) (dg_results s) = Inl e'"
    by (rule dag_rounds_simps(3) [OF ready_nonempty [OF r] r e'])
  then have "dag_rounds agent subtasks [] = Inl e'" using inv by (simp add: dag_inv_def)
  then show ?thesis using inv agent_raises by (simp add: dag_inv_def inside_count_def)
next
  case (collect_all rs remaining results)
  have b: "map fst (dg_batch s) = ready_tasks (dg_remaining s) (dg_results s)" using inv collect_all(3) by (simp add: dag_inv_def)
  then have r: "ready_tasks (dg_remaining s) (dg_results s) \<noteq> []" using collect_all(3) by auto
  have "map (run_one agent (dg_results s)) (map fst (dg_batch s)) = map Inr rs"
  proof (rule nth_equalityI)
    have l: "length (dg_batch s) = length rs" using collect_all(4) by (metis length_map)
    then show "length (map (run_one agent (dg_results s)) (map fst (dg_batch s))) = length (map Inr rs :: _ res list)" by simp
    fix i assume "i < length (map (run_one agent (dg_results s)) (map fst (dg_batch s)))"
    then have i: "i < length (dg_batch s)" "i < length rs" using l by simp_all
    obtain st j where p: "dg_batch s ! i = (st, j)" by (cases "dg_batch s ! i") auto
    have "job_result j = Some (rs ! i)" using arg_cong [OF collect_all(4), of "\<lambda>xs. xs ! i"] i p by simp
    then have "j = Finished (rs ! i)" by (cases j) auto
    then have "(st, Finished (rs ! i)) \<in> set (dg_batch s)" using p i(1) by (metis nth_mem)
    then show "map (run_one agent (dg_results s)) (map fst (dg_batch s)) ! i = map Inr rs ! i"
      using inv i p by (simp add: dag_inv_def)
  qed
  then have a: "run_all (run_one agent (dg_results s)) (ready_tasks (dg_remaining s) (dg_results s)) = Inr rs"
    by (simp add: run_all_Inr b)
  have "dag_rounds agent remaining results = dag_rounds agent (dg_remaining s) (dg_results s)"
    using dag_rounds_simps(4) [OF ready_nonempty [OF r] r a] collect_all(5) b by simp
  moreover have "inside_count s = 0"
  proof -
    have "snd p \<noteq> Inside" if "p \<in> set (dg_batch s)" for p
    proof -
      have "job_result (snd p) \<in> set (map (job_result \<circ> snd) (dg_batch s))" using that by auto
      with collect_all(4) show ?thesis by auto
    qed
    then show ?thesis by (simp add: inside_count_def filter_empty_conv)
  qed
  ultimately show ?thesis using inv collect_all by (simp add: dag_inv_def inside_count_def)
qed

lemma dag_reach_inv: "dag_reach agent n subtasks s \<Longrightarrow> dag_inv agent n subtasks s"
proof (induction rule: dag_reach.induct)
  case dag_first
  show ?case by (simp add: dag_inv_def dag_start_def inside_count_def)
next
  case (dag_next s s')
  then show ?case by (blast intro: dag_step_inv)
qed


section \<open>Calls of agents\<close>

definition deps_succeeded :: "(string, 'c sub_result) dict \<Rightarrow> subtask \<Rightarrow> bool" where
  "deps_succeeded results st \<longleftrightarrow> (\<forall>d \<in> set (su_depends_on st). \<exists>r. map_of results d = Some r \<and> sr_success r)"

definition call_inv :: "subtask list \<Rightarrow> 'c dag \<Rightarrow> bool" where
  "call_inv subtasks s \<longleftrightarrow>
     distinct (map su_id (dg_remaining s)) \<and> set (dg_remaining s) \<subseteq> set subtasks
   \<and> (\<forall>st \<in> set (dg_remaining s). map_of (dg_results s) (su_id st) = None)
   \<and> distinct (map su_id (dg_calls s))
   \<and> (\<forall>c \<in> set (dg_calls s). deps_succeeded (dg_results s) c
        \<and> (\<exists>st \<in> set subtasks. c = st\<lparr>su_context := su_context c\<rparr>)
        \<and> (map_of (dg_results s) (su_id c) \<noteq> None \<or> (\<exists>st j. (st, j) \<in> set (dg_batch s) \<and> j \<noteq> Queued \<and> su_id st = su_id c)))"

lemma dep_context_Inr:
  "dep_context results ds ctx = Inr c \<Longrightarrow> d \<in> set ds \<Longrightarrow> map_of results d = Some r \<Longrightarrow> sr_success r"
  by (induction ds arbitrary: ctx) (auto split: option.splits if_splits)

lemma ready_deps: "st \<in> set (ready_tasks remaining results) \<Longrightarrow> d \<in> set (su_depends_on st) \<Longrightarrow> map_of results d \<noteq> None"
  by (auto simp: ready_tasks_def list_all_iff)

lemma ready_deps_succeeded:
  assumes "st \<in> set (ready_tasks remaining results)" "dep_context results (su_depends_on st) ctx = Inr c"
  shows "deps_succeeded results st"
  unfolding deps_succeeded_def
proof
  fix d assume d: "d \<in> set (su_depends_on st)"
  then obtain r where "map_of results d = Some r" using ready_deps [OF assms(1)] by blast
  with dep_context_Inr [OF assms(2) d] show "\<exists>r. map_of results d = Some r \<and> sr_success r" by blast
qed

lemma collect_keeps:
  assumes "length rs = length sts" "\<forall>st \<in> set sts. map_of (snd s) (su_id st) = None" "distinct (map su_id sts)"
  shows "map_of (snd s) k = Some v \<Longrightarrow> map_of (snd (collect_batch sts rs s)) k = Some v"
    and "i < length sts \<Longrightarrow> map_of (snd (collect_batch sts rs s)) (su_id (sts ! i)) = Some (rs ! i)"
    and "map_of (snd (collect_batch sts rs s)) k = Some w \<Longrightarrow> map_of (snd s) k = Some w \<or> k \<in> su_id ` set sts"
proof -
  have "(map_of (snd s) k = Some v \<longrightarrow> map_of (snd (collect_batch sts rs s)) k = Some v)
    \<and> (\<forall>i < length sts. map_of (snd (collect_batch sts rs s)) (su_id (sts ! i)) = Some (rs ! i))
    \<and> (map_of (snd (collect_batch sts rs s)) k = Some w \<longrightarrow> map_of (snd s) k = Some w \<or> k \<in> su_id ` set sts)" for k v w
    using assms
  proof (induction sts rs s arbitrary: k v w rule: collect_batch.induct)
    case (1 st sts r rs remaining results)
    let ?s = "(filter (\<lambda>t. su_id t \<noteq> su_id st) remaining, dset (su_id st) r results)"
    have IH: "(map_of (snd ?s) k = Some v \<longrightarrow> map_of (snd (collect_batch sts rs ?s)) k = Some v)
      \<and> (\<forall>i < length sts. map_of (snd (collect_batch sts rs ?s)) (su_id (sts ! i)) = Some (rs ! i))
      \<and> (map_of (snd (collect_batch sts rs ?s)) k = Some w \<longrightarrow> map_of (snd ?s) k = Some w \<or> k \<in> su_id ` set sts)" for k v w
      by (rule "1.IH") (use "1.prems" in \<open>force simp: image_iff\<close>)+
    have st: "map_of results (su_id st) = None" using "1.prems"(2) by simp
    have first: "map_of (snd (collect_batch sts rs ?s)) (su_id st) = Some r"
      using IH [of "su_id st" r w] by simp
    have a: "map_of (snd (collect_batch sts rs ?s)) k = Some v" if "map_of results k = Some v"
    proof -
      have "map_of (snd ?s) k = Some v" using st that by auto
      with IH [of k v w] show ?thesis by blast
    qed
    have b: "map_of results k = Some w \<or> k \<in> su_id ` set (st # sts)" if "map_of (snd (collect_batch sts rs ?s)) k = Some w"
    proof -
      have "map_of (snd ?s) k = Some w \<or> k \<in> su_id ` set sts" using IH [of k v w] that by blast
      then show ?thesis by (auto split: if_splits)
    qed
    have c: "map_of (snd (collect_batch sts rs ?s)) (su_id ((st # sts) ! i)) = Some ((r # rs) ! i)" if "i < length (st # sts)" for i
    proof (cases i)
      case 0
      with first show ?thesis by simp
    next
      case (Suc j)
      with that have "j < length sts" by simp
      with IH [of k v w] Suc show ?thesis by simp
    qed
    show ?case using a b c by simp
  qed auto
  then show "map_of (snd s) k = Some v \<Longrightarrow> map_of (snd (collect_batch sts rs s)) k = Some v"
    and "i < length sts \<Longrightarrow> map_of (snd (collect_batch sts rs s)) (su_id (sts ! i)) = Some (rs ! i)"
    and "map_of (snd (collect_batch sts rs s)) k = Some w \<Longrightarrow> map_of (snd s) k = Some w \<or> k \<in> su_id ` set sts"
    by blast+
qed

lemma ready_subset: "set (ready_tasks remaining results) \<subseteq> set remaining"
  by (auto simp: ready_tasks_def)

lemma ready_distinct: "distinct (map su_id remaining) \<Longrightarrow> distinct (map su_id (ready_tasks remaining results))"
  by (simp add: ready_tasks_def distinct_map_filter)

lemma call_inv_batch:
  assumes "call_inv subtasks s"
    and "\<And>st j. (st, j) \<in> set (dg_batch s) \<Longrightarrow> j \<noteq> Queued \<Longrightarrow> \<exists>j'. (st, j') \<in> set b \<and> j' \<noteq> Queued"
  shows "call_inv subtasks (s\<lparr>dg_batch := b, dg_free := f\<rparr>)"
proof -
  have "map_of (dg_results s) (su_id c) \<noteq> None \<or> (\<exists>st j. (st, j) \<in> set b \<and> j \<noteq> Queued \<and> su_id st = su_id c)"
    if "c \<in> set (dg_calls s)" for c
    using assms that unfolding call_inv_def by metis
  with assms(1) show ?thesis by (simp add: call_inv_def)
qed

lemma open_call:
  assumes "call_inv subtasks s" "c \<in> set (dg_calls s)" "map_of (dg_results s) (su_id c) = None"
  obtains st j where "(st, j) \<in> set (dg_batch s)" "j \<noteq> Queued" "su_id st = su_id c"
proof -
  have "map_of (dg_results s) (su_id c) \<noteq> None \<or> (\<exists>st j. (st, j) \<in> set (dg_batch s) \<and> j \<noteq> Queued \<and> su_id st = su_id c)"
    using assms(1,2) unfolding call_inv_def by blast
  with assms(3) that show thesis by blast
qed

lemma in_update: "i < length xs \<Longrightarrow> p \<in> set xs \<Longrightarrow> p \<noteq> xs ! i \<Longrightarrow> p \<in> set (xs[i := q])"
  by (metis in_set_conv_nth length_list_update nth_list_update_neq)

lemma call_inv_job:
  assumes "call_inv subtasks s" "i < length (dg_batch s)" "dg_batch s ! i = (st, j)" "j' \<noteq> Queued"
  shows "call_inv subtasks (s\<lparr>dg_batch := (dg_batch s)[i := (st, j')], dg_free := f\<rparr>)"
proof (rule call_inv_batch [OF assms(1)])
  fix st1 j1 assume a: "(st1, j1) \<in> set (dg_batch s)" "j1 \<noteq> Queued"
  show "\<exists>j'a. (st1, j'a) \<in> set ((dg_batch s)[i := (st, j')]) \<and> j'a \<noteq> Queued"
  proof (cases "(st1, j1) = dg_batch s ! i")
    case True
    with assms(3) have "st1 = st" by simp
    then show ?thesis using assms(2,4) set_update_memI by metis
  qed (use a in_update [OF assms(2)] in blast)
qed

lemma call_inv_step:
  assumes inv: "dag_inv agent n subtasks s" and c: "call_inv subtasks s" and step: "dag_step agent s s'"
  shows "call_inv subtasks s'"
  using step
proof (cases rule: dag_step_cases)
  case open_batch
  have "call_inv subtasks (s\<lparr>dg_batch := map (\<lambda>st. (st, Queued)) (ready_tasks (dg_remaining s) (dg_results s)), dg_free := dg_free s\<rparr>)"
    by (rule call_inv_batch [OF c]) (simp add: open_batch(3))
  then show ?thesis unfolding open_batch(1) by simp
next
  case (enter i st ctx)
  let ?s = "s\<lparr>dg_batch := (dg_batch s)[i := (st, Inside)], dg_free := dg_free s - 1\<rparr>"
  have c': "call_inv subtasks ?s" by (rule call_inv_job [OF c enter(3,4)]) simp
  have m: "(st, Queued) \<in> set (dg_batch s)" using enter(3,4) by (metis nth_mem)
  have b: "map fst (dg_batch s) = ready_tasks (dg_remaining s) (dg_results s)" using inv enter(3) by (auto simp: dag_inv_def)
  have "st \<in> set (map fst (dg_batch s))" using m by force
  then have r: "st \<in> set (ready_tasks (dg_remaining s) (dg_results s))" using b by simp
  then have rem: "st \<in> set (dg_remaining s)" using ready_subset by blast
  have d: "distinct (map su_id (map fst (dg_batch s)))" unfolding b by (rule ready_distinct) (use c in \<open>simp add: call_inv_def\<close>)
  have "su_id st \<notin> su_id ` set (dg_calls s)"
  proof
    assume "su_id st \<in> su_id ` set (dg_calls s)"
    then obtain c1 where c1: "c1 \<in> set (dg_calls s)" "su_id c1 = su_id st" by auto
    moreover have "map_of (dg_results s) (su_id st) = None" using c rem by (simp add: call_inv_def)
    ultimately obtain st1 j where j: "(st1, j) \<in> set (dg_batch s)" "j \<noteq> Queued" "su_id st1 = su_id st"
      using open_call [OF c c1(1)] by auto
    have "inj_on (su_id \<circ> fst) (set (dg_batch s))" using d by (simp add: distinct_map comp_def)
    from inj_onD [OF this _ j(1) m] j(3) have "j = Queued" by simp
    with j(2) show False by simp
  qed
  moreover have "deps_succeeded (dg_results s) (st\<lparr>su_context := ctx\<rparr>)"
    using ready_deps_succeeded [OF r enter(6)] by (simp add: deps_succeeded_def)
  moreover have "\<exists>st0 \<in> set subtasks. st\<lparr>su_context := ctx\<rparr> = st0\<lparr>su_context := su_context (st\<lparr>su_context := ctx\<rparr>)\<rparr>"
    using rem c by (auto simp: call_inv_def)
  moreover have "(st, Inside) \<in> set (dg_batch ?s)" using enter(3) by (simp add: set_update_memI)
  then have "\<exists>st0 j. (st0, j) \<in> set (dg_batch ?s) \<and> j \<noteq> Queued \<and> su_id st0 = su_id (st\<lparr>su_context := ctx\<rparr>)" by force
  ultimately show ?thesis using c' unfolding enter(1) by (simp add: call_inv_def)
next
  case (blocked i st d)
  have "call_inv subtasks (s\<lparr>dg_batch := (dg_batch s)[i := (st, Finished (failed_result st (''dependency '' @ d @ '' failed'')))], dg_free := dg_free s\<rparr>)"
    by (rule call_inv_job [OF c blocked(3,4)]) simp
  then show ?thesis unfolding blocked(1) by simp
next
  case (agent_returns i st r)
  show ?thesis unfolding agent_returns(1) by (rule call_inv_job [OF c agent_returns(3,4)]) simp
next
  case (collect_all rs remaining results)
  let ?sts = "map fst (dg_batch s)"
  have b: "?sts = ready_tasks (dg_remaining s) (dg_results s)" using inv collect_all(3) by (simp add: dag_inv_def)
  have l: "length rs = length ?sts" using collect_all(4) by (metis length_map)
  have none: "\<forall>st \<in> set ?sts. map_of (snd (dg_remaining s, dg_results s)) (su_id st) = None"
    using c b ready_subset unfolding call_inv_def by fastforce
  have d: "distinct (map su_id ?sts)" unfolding b by (rule ready_distinct) (use c in \<open>simp add: call_inv_def\<close>)
  note K = collect_keeps [OF l none d, unfolded collect_all(5) snd_conv]
  have rem: "remaining = filter (\<lambda>t. su_id t \<notin> su_id ` set ?sts) (dg_remaining s)"
    using fst_collect [OF l, of "(dg_remaining s, dg_results s)"] collect_all(5) by simp
  have "map_of results (su_id st) = None" if "st \<in> set remaining" for st
  proof (rule ccontr)
    assume "map_of results (su_id st) \<noteq> None"
    then obtain w where w: "map_of results (su_id st) = Some w" by blast
    have st: "st \<in> set (dg_remaining s)" "su_id st \<notin> su_id ` set ?sts" using that unfolding rem by simp_all
    moreover have "map_of (dg_results s) (su_id st) = None" using c st(1) by (simp add: call_inv_def)
    ultimately show False using K(3) [OF w] by simp
  qed
  moreover have "deps_succeeded results c1" if "c1 \<in> set (dg_calls s)" for c1
  proof -
    have "deps_succeeded (dg_results s) c1" using c that by (simp add: call_inv_def)
    then show ?thesis using K(1) unfolding deps_succeeded_def by metis
  qed
  moreover have "map_of results (su_id c1) \<noteq> None" if c1: "c1 \<in> set (dg_calls s)" for c1
  proof (cases "map_of (dg_results s) (su_id c1)")
    case None
    obtain st j where j: "(st, j) \<in> set (dg_batch s)" "su_id st = su_id c1" by (rule open_call [OF c c1 None])
    then have "st \<in> set ?sts" by (metis fst_conv image_eqI set_map)
    with j(2) have "st \<in> set ?sts" "su_id st = su_id c1" by simp_all
    then obtain i where "i < length ?sts" "su_id (?sts ! i) = su_id c1" by (metis in_set_conv_nth)
    with K(2) [of i] show ?thesis by simp
  qed (use K(1) in auto)
  ultimately show ?thesis using c unfolding collect_all(1) by (auto simp: call_inv_def rem distinct_map_filter)
qed (use c in \<open>simp_all add: call_inv_def\<close>)

lemma dag_reach_calls: "dag_reach agent n subtasks s \<Longrightarrow> distinct (map su_id subtasks) \<Longrightarrow> call_inv subtasks s"
proof (induction rule: dag_reach.induct)
  case dag_first
  then show ?case by (simp add: call_inv_def dag_start_def)
next
  case (dag_next s s')
  then show ?case by (blast intro: call_inv_step dag_reach_inv)
qed

section \<open>Progress\<close>

fun job_steps :: "'c job \<Rightarrow> nat" where
  "job_steps Queued = 1"
| "job_steps Inside = 2"
| "job_steps (Finished r) = 3"

text \<open>What is left to do: four steps for each remaining subtask, and the end.\<close>

definition dag_work :: "'c dag \<Rightarrow> nat" where
  "dag_work s = (if dg_end s = None then 1 else 0) + 4 * length (dg_remaining s) - sum_list (map (job_steps \<circ> snd) (dg_batch s))"


lemma job_steps_le: "job_steps j \<le> 3"
  by (cases j) simp_all

lemma steps_le: "sum_list (map (job_steps \<circ> snd) b) \<le> 3 * length b"
proof (induction b)
  case (Cons p b)
  then show ?case using job_steps_le [of "snd p"] by simp
qed simp


lemma batch_le: "dag_inv agent n subtasks s \<Longrightarrow> length (dg_batch s) \<le> length (dg_remaining s)"
proof (cases "dg_batch s = []")
  case False
  assume "dag_inv agent n subtasks s"
  with False have "map fst (dg_batch s) = ready_tasks (dg_remaining s) (dg_results s)" by (simp add: dag_inv_def)
  then have "length (dg_batch s) = length (ready_tasks (dg_remaining s) (dg_results s))" by (simp only: length_map [of fst, symmetric])
  then show ?thesis by (simp add: ready_tasks_def)
qed simp

lemma steps_update:
  "i < length b \<Longrightarrow> sum_list (map (job_steps \<circ> snd) (b[i := (st, j)])) + job_steps (snd (b ! i))
     = sum_list (map (job_steps \<circ> snd) b) + job_steps j"
proof (induction b arbitrary: i)
  case (Cons p b)
  then show ?case by (cases i) auto
qed simp

lemma less_work: "a + j = b + j' \<Longrightarrow> b \<le> 3 * m \<Longrightarrow> m \<le> r \<Longrightarrow> 0 < r \<Longrightarrow> j < j' \<Longrightarrow> x + 4 * r - a < x + 4 * r - (b :: nat)"
  by linarith

lemma less_work_collect: "f + k = r \<Longrightarrow> b \<le> f \<Longrightarrow> a \<le> 3 * b \<Longrightarrow> b \<noteq> 0 \<Longrightarrow> Suc (4 * k) < Suc (4 * r) - (a :: nat)"
  by linarith

lemma work_job:
  assumes inv: "dag_inv agent n subtasks s" and i: "i < length (dg_batch s)" "dg_batch s ! i = (st, j)" and lt: "job_steps j < job_steps j'"
  shows "dag_work (s\<lparr>dg_batch := (dg_batch s)[i := (st, j')], dg_free := f, dg_calls := cs\<rparr>) < dag_work s"
proof -
  have "sum_list (map (job_steps \<circ> snd) ((dg_batch s)[i := (st, j')])) + job_steps j = sum_list (map (job_steps \<circ> snd) (dg_batch s)) + job_steps j'"
    using steps_update [OF i(1), of st j'] i(2) by simp
  moreover have "sum_list (map (job_steps \<circ> snd) (dg_batch s)) \<le> 3 * length (dg_batch s)" by (rule steps_le)
  moreover have "length (dg_batch s) \<le> length (dg_remaining s)" by (rule batch_le [OF inv])
  moreover have "0 < length (dg_remaining s)" using i(1) calculation(3) by linarith
  ultimately show ?thesis unfolding dag_work_def using less_work lt by simp
qed

lemma dag_step_works:
  assumes inv: "dag_inv agent n subtasks s" and step: "dag_step agent s s'"
  shows "dag_work s' < dag_work s"
  using step
proof (cases rule: dag_step_cases)
  case open_batch
  have "0 < sum_list (map (job_steps \<circ> snd) (dg_batch s'))"
    unfolding open_batch(1) using open_batch(4) by (cases "ready_tasks (dg_remaining s) (dg_results s)") simp_all
  moreover have "dg_remaining s' = dg_remaining s" "dg_end s' = None" using open_batch(1,2) by simp_all
  ultimately show ?thesis unfolding dag_work_def using open_batch(2,3) by simp
next
  case (enter i st ctx)
  show ?thesis unfolding enter(1) by (rule work_job [OF inv enter(3,4)]) simp
next
  case (blocked i st d)
  have "dag_work (s\<lparr>dg_batch := (dg_batch s)[i := (st, Finished (failed_result st (''dependency '' @ d @ '' failed'')))],
      dg_free := dg_free s, dg_calls := dg_calls s\<rparr>) < dag_work s"
    by (rule work_job [OF inv blocked(3,4)]) simp
  then show ?thesis unfolding blocked(1) by simp
next
  case (agent_returns i st r)
  have "dag_work (s\<lparr>dg_batch := (dg_batch s)[i := (st, Finished r)], dg_free := dg_free s + 1, dg_calls := dg_calls s\<rparr>) < dag_work s"
    by (rule work_job [OF inv agent_returns(3,4)]) simp
  then show ?thesis unfolding agent_returns(1) by simp
next
  case (agent_raises i st e)
  have "length (dg_batch s) \<le> length (dg_remaining s)" by (rule batch_le [OF inv])
  moreover have "sum_list (map (job_steps \<circ> snd) (dg_batch s)) \<le> 3 * length (dg_batch s)" by (rule steps_le)
  ultimately show ?thesis unfolding dag_work_def agent_raises(1) using agent_raises(2) by simp
next
  case (collect_all rs remaining results)
  let ?sts = "map fst (dg_batch s)"
  have b: "?sts = ready_tasks (dg_remaining s) (dg_results s)" using inv collect_all(3) by (simp add: dag_inv_def)
  have l: "length rs = length ?sts" using collect_all(4) by (metis length_map)
  have rem: "remaining = filter (\<lambda>t. su_id t \<notin> su_id ` set ?sts) (dg_remaining s)"
    using fst_collect [OF l, of "(dg_remaining s, dg_results s)"] collect_all(5) by simp
  have "length (filter (\<lambda>t. su_id t \<in> su_id ` set ?sts) (dg_remaining s)) + length remaining = length (dg_remaining s)"
    unfolding rem by (rule sum_length_filter_compl)
  moreover have "length (dg_batch s) \<le> length (filter (\<lambda>t. su_id t \<in> su_id ` set ?sts) (dg_remaining s))"
  proof -
    have "?sts = filter (\<lambda>st. list_all (\<lambda>d. map_of (dg_results s) d \<noteq> None) (su_depends_on st))
        (filter (\<lambda>t. su_id t \<in> su_id ` set ?sts) (dg_remaining s))"
      unfolding b ready_tasks_def by (auto simp: filter_filter intro!: filter_cong)
    then have "length ?sts \<le> length (filter (\<lambda>t. su_id t \<in> su_id ` set ?sts) (dg_remaining s))" by (metis length_filter_le)
    then show ?thesis by simp
  qed
  moreover have "sum_list (map (job_steps \<circ> snd) (dg_batch s)) \<le> 3 * length (dg_batch s)" by (rule steps_le)
  moreover have "length (dg_batch s) \<noteq> 0" using collect_all(3) by simp
  ultimately have "Suc (4 * length remaining) < Suc (4 * length (dg_remaining s)) - sum_list (map (job_steps \<circ> snd) (dg_batch s))"
    by (rule less_work_collect)
  then show ?thesis unfolding dag_work_def collect_all(1) using collect_all(2) by simp
qed (simp_all add: dag_work_def)

lemma dag_step_exists:
  assumes inv: "dag_inv agent n subtasks s" and n: "0 < n" and e: "dg_end s = None"
  shows "\<exists>s'. dag_step agent s s'"
proof (cases "dg_batch s = []")
  case True
  then show ?thesis using e dag_step.open_batch dag_step.no_ready dag_step.all_done by metis
next
  case False
  show ?thesis
  proof (cases "\<exists>i < length (dg_batch s). snd (dg_batch s ! i) = Inside")
    case True
    then obtain i st where i: "i < length (dg_batch s)" "dg_batch s ! i = (st, Inside)" by (metis prod.collapse)
    then show ?thesis using e agent_returns agent_raises by (cases "run_one agent (dg_results s) st") blast+
  next
    case nin: False
    have "snd p \<noteq> Inside" if "p \<in> set (dg_batch s)" for p using nin that by (metis in_set_conv_nth)
    then have "inside_count s = 0" by (simp add: inside_count_def filter_empty_conv)
    then have f: "0 < dg_free s" using inv n by (simp add: dag_inv_def)
    show ?thesis
    proof (cases "\<exists>i < length (dg_batch s). snd (dg_batch s ! i) = Queued")
      case True
      then obtain i st where i: "i < length (dg_batch s)" "dg_batch s ! i = (st, Queued)" by (metis prod.collapse)
      then show ?thesis using e f enter blocked
        by (cases "dep_context (dg_results s) (su_depends_on st) (su_context st)") blast+
    next
      case nq: False
      have j: "job_result (snd p) \<noteq> None" if p: "p \<in> set (dg_batch s)" for p
      proof -
        have "snd p \<noteq> Inside \<and> snd p \<noteq> Queued" using p nin nq by (metis in_set_conv_nth)
        then show ?thesis by (cases "snd p") simp_all
      qed
      define rs where "rs = map (\<lambda>p. the (job_result (snd p))) (dg_batch s)"
      have "map (job_result \<circ> snd) (dg_batch s) = map Some rs" using j by (auto simp: rs_def)
      then show ?thesis using e False collect_all by (metis prod.collapse)
    qed
  qed
qed


section \<open>What a result rests on\<close>

text \<open>Each subtask gets a result: a failure, or that of its agent, called when its predecessors had succeeded.\<close>

definition earned :: "(subtask \<Rightarrow> 'c sub_result res) \<Rightarrow> (string, 'c sub_result) dict \<Rightarrow> subtask \<Rightarrow> 'c sub_result \<Rightarrow> bool" where
  "earned agent results st r \<longleftrightarrow> (\<exists>err. r = failed_result st err)
     \<or> deps_succeeded results st \<and> (\<exists>ctx. agent (st\<lparr>su_context := ctx\<rparr>) = Inr r)"

lemma run_one_earned:
  assumes "st \<in> set (ready_tasks remaining results)" "run_one agent results st = Inr r"
  shows "earned agent results st r"
proof (cases "dep_context results (su_depends_on st) (su_context st)")
  case (Inl d)
  with assms(2) show ?thesis by (auto simp: run_one_def earned_def)
next
  case (Inr ctx)
  with assms show ?thesis using ready_deps_succeeded [OF assms(1)] by (auto simp: run_one_def earned_def)
qed

lemma earned_mono:
  assumes "earned agent results st r" "\<And>k v. map_of results k = Some v \<Longrightarrow> map_of results' k = Some v"
  shows "earned agent results' st r"
  using assms unfolding earned_def deps_succeeded_def by metis

lemma fail_rest_lookup:
  assumes "distinct (map su_id sts)" "st \<in> set sts"
  shows "map_of (fail_rest sts results) (su_id st) = Some (failed_result st ''unresolvable dependency'')"
proof -
  have "(k \<notin> su_id ` set sts \<longrightarrow> map_of (fail_rest sts results) k = map_of results k)
    \<and> (\<forall>st \<in> set sts. map_of (fail_rest sts results) (su_id st) = Some (failed_result st ''unresolvable dependency''))" for k
    using assms(1)
  proof (induction sts arbitrary: k results)
    case (Cons a sts)
    let ?r = "dset (su_id a) (failed_result a ''unresolvable dependency'') results"
    have IH: "(k \<notin> su_id ` set sts \<longrightarrow> map_of (fail_rest sts ?r) k = map_of ?r k)
      \<and> (\<forall>st \<in> set sts. map_of (fail_rest sts ?r) (su_id st) = Some (failed_result st ''unresolvable dependency''))" for k
      by (rule Cons.IH) (use Cons.prems in simp)
    have e: "fail_rest (a # sts) results = fail_rest sts ?r" by (simp add: fail_rest_def)
    have "map_of (fail_rest sts ?r) (su_id a) = Some (failed_result a ''unresolvable dependency'')"
      using IH [of "su_id a"] Cons.prems by simp
    with IH [of k] show ?case unfolding e by auto
  qed (simp add: fail_rest_def)
  with assms(2) show ?thesis by blast
qed

lemma fail_rest_keeps: "k \<notin> su_id ` set sts \<Longrightarrow> map_of (fail_rest sts results) k = map_of results k"
  by (induction sts arbitrary: results) (auto simp: fail_rest_def)

lemma dag_rounds_earned:
  assumes "dag_rounds agent remaining results = Inr out" "distinct (map su_id remaining)"
    and "\<forall>st \<in> set remaining. map_of results (su_id st) = None"
  shows "(\<forall>k v. map_of results k = Some v \<longrightarrow> map_of out k = Some v)
    \<and> (\<forall>st \<in> set remaining. \<exists>r. map_of out (su_id st) = Some r \<and> earned agent out st r)
    \<and> (\<forall>k v. map_of out k = Some v \<longrightarrow> map_of results k = Some v \<or> k \<in> su_id ` set remaining)"
  using assms
proof (induction agent remaining results rule: dag_rounds.induct)
  case (1 agent remaining results)
  let ?sts = "ready_tasks remaining results"
  show ?case
  proof (cases "remaining = []")
    case True
    with "1.prems" show ?thesis by (simp add: dag_rounds_simps)
  next
    case ne: False
    show ?thesis
    proof (cases "?sts = []")
      case True
      have out: "out = fail_rest remaining results" using "1.prems"(1) dag_rounds_simps(2) [OF ne True] by simp
      have "\<exists>r. map_of out (su_id st) = Some r \<and> earned agent out st r" if "st \<in> set remaining" for st
        using fail_rest_lookup [OF "1.prems"(2) that, of results] by (auto simp: out earned_def)
      moreover have "map_of out k = Some v" if "map_of results k = Some v" for k v
      proof -
        have n: "k \<notin> su_id ` set remaining" using "1.prems"(3) that by auto
        show ?thesis using that by (simp add: out fail_rest_keeps [OF n])
      qed
      moreover have "map_of results k = Some v \<or> k \<in> su_id ` set remaining" if "map_of out k = Some v" for k v
        using fail_rest_keeps [of k remaining results] that by (auto simp: out)
      ultimately show ?thesis by blast
    next
      case False
      obtain rs where rs: "run_all (run_one agent results) ?sts = Inr rs"
        using "1.prems"(1) dag_rounds_simps(3) [OF ne False] by (cases "run_all (run_one agent results) ?sts") auto
      let ?c = "collect_batch ?sts rs (remaining, results)"
      have l: "length rs = length ?sts" by (rule length_run_all [OF rs])
      have none: "\<forall>st \<in> set ?sts. map_of (snd (remaining, results)) (su_id st) = None" using "1.prems"(3) ready_subset by fastforce
      note K = collect_keeps [OF l none ready_distinct [OF "1.prems"(2)], unfolded snd_conv]
      have rem: "fst ?c = filter (\<lambda>t. su_id t \<notin> su_id ` set ?sts) remaining" using fst_collect [OF l, of "(remaining, results)"] by simp
      have cNone: "map_of (snd ?c) (su_id st) = None" if "st \<in> set (fst ?c)" for st
        using that K(3) [of "su_id st"] "1.prems"(3) unfolding rem by (cases "map_of (snd ?c) (su_id st)") auto
      have IH: "(\<forall>k v. map_of (snd ?c) k = Some v \<longrightarrow> map_of out k = Some v)
        \<and> (\<forall>st \<in> set (fst ?c). \<exists>r. map_of out (su_id st) = Some r \<and> earned agent out st r)
        \<and> (\<forall>k v. map_of out k = Some v \<longrightarrow> map_of (snd ?c) k = Some v \<or> k \<in> su_id ` set (fst ?c))"
        by (rule "1.IH" [OF ne False rs])
          (use "1.prems" dag_rounds_simps(4) [OF ne False rs] cNone in \<open>simp_all add: rem distinct_map_filter\<close>)
      have grow: "map_of out k = Some v" if "map_of results k = Some v" for k v using that K(1) IH by blast
      have "\<exists>r. map_of out (su_id st) = Some r \<and> earned agent out st r" if st: "st \<in> set remaining" for st
      proof (cases "su_id st \<in> su_id ` set ?sts")
        case True
        then obtain x where x: "x \<in> set ?sts" "su_id x = su_id st" by auto
        then have "x \<in> set remaining" using ready_subset by blast
        with "1.prems"(2) st x(2) have "x = st" by (simp add: distinct_map inj_on_def)
        with x(1) have m: "st \<in> set ?sts" by simp
        then obtain i where i: "i < length ?sts" "?sts ! i = st" by (metis in_set_conv_nth)
        have "run_one agent results st = Inr (rs ! i)"
          using arg_cong [OF rs [unfolded run_all_Inr], of "\<lambda>xs. xs ! i"] i l by simp
        from earned_mono [OF run_one_earned [OF m this] grow] K(2) [OF i(1)] IH i(2) show ?thesis by blast
      next
        case False
        then have "st \<in> set (fst ?c)" using st by (simp add: rem)
        with IH show ?thesis by blast
      qed
      moreover have "map_of results k = Some v \<or> k \<in> su_id ` set remaining" if "map_of out k = Some v" for k v
      proof -
        from IH that consider "map_of (snd ?c) k = Some v" | "k \<in> su_id ` set (fst ?c)" by blast
        then show ?thesis
        proof cases
          case 1
          with K(3) ready_subset [of remaining results] show ?thesis by blast
        qed (auto simp: rem)
      qed
      ultimately show ?thesis using grow by blast
    qed
  qed
qed


lemma run_dag_earned:
  assumes "run_dag agent subtasks = Inr rs"
  shows "length rs = length subtasks \<and> (\<forall>i < length subtasks. \<exists>results. earned agent results (subtasks ! i) (rs ! i)
    \<and> (\<forall>d r. map_of results d = Some r \<longrightarrow> (\<exists>j < length subtasks. su_id (subtasks ! j) = d \<and> rs ! j = r)))"
proof (cases "distinct (map su_id subtasks)")
  case False
  then have rs: "rs = map (\<lambda>st. failed_result st (''duplicate subtask id: '' @ su_id st)) subtasks" using assms by (simp add: run_dag_def)
  have "earned agent [] st (failed_result st err)" for st err unfolding earned_def by blast
  then have "\<exists>results. earned agent results (subtasks ! i) (rs ! i)
      \<and> (\<forall>d r. map_of results d = Some r \<longrightarrow> (\<exists>j < length subtasks. su_id (subtasks ! j) = d \<and> rs ! j = r))"
    if "i < length subtasks" for i
    unfolding rs nth_map [OF that] by (intro exI [of _ "[]"]) simp
  then show ?thesis by (simp add: rs)
next
  case True
  then obtain out where out: "dag_rounds agent subtasks [] = Inr out" and rs: "rs = map (\<lambda>st. the (map_of out (su_id st))) subtasks"
    using assms by (auto simp: run_dag_def)
  have E: "st \<in> set subtasks \<Longrightarrow> \<exists>r. map_of out (su_id st) = Some r \<and> earned agent out st r"
    "map_of out k = Some v \<Longrightarrow> k \<in> su_id ` set subtasks" for st k v
    using dag_rounds_earned [OF out True] by simp_all
  have "\<exists>j < length subtasks. su_id (subtasks ! j) = d \<and> rs ! j = r" if "map_of out d = Some r" for d r
  proof -
    have "d \<in> su_id ` set subtasks" by (rule E(2) [OF that])
    then obtain j where "j < length subtasks" "su_id (subtasks ! j) = d" by (metis image_iff in_set_conv_nth)
    with that rs show ?thesis by auto
  qed
  moreover have "earned agent out (subtasks ! i) (rs ! i)" if i: "i < length subtasks" for i
  proof -
    obtain r where "map_of out (su_id (subtasks ! i)) = Some r" "earned agent out (subtasks ! i) r" using E(1) [OF nth_mem [OF i]] by blast
    with rs i show ?thesis by simp
  qed
  ultimately show ?thesis using rs by auto
qed

lemma sub_agent_result:
  assumes "run_sub_agent env system allowed st = Inr r"
  shows "sr_subtask_id r = su_id st"
    and "sr_success r \<Longrightarrow> \<exists>call resp trace rounds. ae_loop env call = Inr (Some resp, trace, rounds) \<and> lc_user call = su_description st
      \<and> lc_tools call = sub_tools allowed st \<and> py_strip (lr_content resp) \<noteq> []
      \<and> get_or (lr_raw resp) ''verified_outcome'' PNone = PBool True \<and> sr_output r = lr_content resp"
proof -
  have "sr_subtask_id r = su_id st \<and> (sr_success r \<longrightarrow> (\<exists>call resp trace rounds. ae_loop env call = Inr (Some resp, trace, rounds)
      \<and> lc_user call = su_description st \<and> lc_tools call = sub_tools allowed st \<and> py_strip (lr_content resp) \<noteq> []
      \<and> get_or (lr_raw resp) ''verified_outcome'' PNone = PBool True \<and> sr_output r = lr_content resp))"
  proof (cases "\<exists>e. r = failed_result st (ae_exn_str env e)")
    case True
    then show ?thesis by (auto simp: failed_result_def)
  next
    case False
    with assms obtain m n resp trace rounds where
      l: "ae_loop env \<lparr>lc_model = m, lc_system = sub_system system st, lc_user = su_description st,
             lc_tools = sub_tools allowed st, lc_rounds = n\<rparr> = Inr (resp, trace, rounds)"
      and r: "sub_reply env st resp trace rounds = Inr r"
      by (auto simp: run_sub_agent_def split: sum.splits if_splits)
    have id: "sr_subtask_id r = su_id st" using r by (auto simp: sub_reply_def Let_def)
    show ?thesis
    proof (cases resp)
      case None
      then have "\<not> sr_success r" using r by (auto simp: sub_reply_def Let_def py_strip_def)
      with id show ?thesis by simp
    next
      case (Some x)
      have "sr_success r \<longrightarrow> py_strip (lr_content x) \<noteq> [] \<and> get_or (lr_raw x) ''verified_outcome'' PNone = PBool True"
        "sr_output r = lr_content x"
        using r Some by (auto simp: sub_reply_def Let_def)
      with id l Some show ?thesis by fastforce
    qed
  qed
  then show "sr_subtask_id r = su_id st"
    and "sr_success r \<Longrightarrow> \<exists>call resp trace rounds. ae_loop env call = Inr (Some resp, trace, rounds) \<and> lc_user call = su_description st
      \<and> lc_tools call = sub_tools allowed st \<and> py_strip (lr_content resp) \<noteq> []
      \<and> get_or (lr_raw resp) ''verified_outcome'' PNone = PBool True \<and> sr_output r = lr_content resp" by blast+
qed

lemma run_agents_results:
  assumes "run_agents env task system allowed given mc = Inr f"
  obtains rs where "run_dag (run_sub_agent env system allowed) (planned_subtasks task allowed given) = Inr rs"
    "f = fuse rs" "length (planned_subtasks task allowed given) \<le> max_subtasks"
  using assms by (auto simp: run_agents_def Let_def split: if_splits)

lemma fuse_results [simp]: "fu_sub_results (fuse rs) = rs"
  by (simp add: fuse_def Let_def)

section \<open>Fusion keeps the results\<close>

lemma infix_append: "is_infix x s \<Longrightarrow> is_infix x (a @ s)"
  by (induction a) simp_all

lemma infix_prefix: "is_infix x (x @ s)"
proof (cases "x @ s")
  case (Cons c t)
  then have "take (length x) (c # t) = x" by (metis append_eq_conv_conj)
  then show ?thesis by (simp only: Cons is_infix.simps) simp
qed simp

lemma infix_middle: "is_infix x (a @ x @ s)"
  by (rule infix_append) (rule infix_prefix)

lemma infix_append_right: "is_infix x s \<Longrightarrow> is_infix x (s @ t)"
proof (induction s)
  case Nil
  then show ?case using infix_prefix [of x t] by simp
next
  case (Cons c s)
  show ?case
  proof (cases "take (length x) (c # s) = x")
    case True
    then have "(c # s) @ t = x @ drop (length x) (c # s) @ t" by (metis append_assoc append_take_drop_id)
    then show ?thesis using infix_prefix [of x "drop (length x) (c # s) @ t"] by (simp only:)
  next
    case False
    with Cons show ?thesis by simp
  qed
qed

lemma infix_join: "w \<in> set ws \<Longrightarrow> is_infix x w \<Longrightarrow> is_infix x (join_words sep ws)"
proof (induction sep ws rule: join_words.induct)
  case (3 sep w' v vs)
  then consider "w = w'" | "w \<in> set (v # vs)" by auto
  then show ?case
  proof cases
    case 1
    with 3 infix_append_right show ?thesis by (metis join_words.simps(3))
  next
    case 2
    with 3 have "is_infix x (join_words sep (v # vs))" by blast
    then show ?thesis using infix_append by (metis join_words.simps(3))
  qed
qed auto

lemma fusion_keeps:
  assumes "r \<in> set rs"
  shows "is_infix (if sr_success r then sr_output r else sr_error r) (fu_summary (fuse rs))"
proof (cases "length rs = 1 \<and> sr_success (rs ! 0)")
  case True
  then have "rs = [r]" using assms by (cases rs) auto
  with True show ?thesis using infix_prefix [of "sr_output r" "[]"] by (simp add: fuse_def)
next
  case n1: False
  show ?thesis
  proof (cases "filter sr_success rs = []")
    case True
    then have r: "\<not> sr_success r" "r \<in> set (filter (\<lambda>r. \<not> sr_success r) rs)" using assms by (auto simp: filter_empty_conv)
    have "is_infix (sr_error r) (result_line r)"
      using infix_middle [of "sr_error r" "''  ['' @ sr_role r @ ''] ''" "[]"] by (simp add: result_line_def)
    with r(2) have "is_infix (sr_error r) (join_words newline (map result_line (filter (\<lambda>r. \<not> sr_success r) rs)))"
      by (intro infix_join [of "result_line r"]) auto
    from infix_append [OF this, of "''All sub-agents failed:'' @ newline"] show ?thesis
      using True n1 r(1) by (auto simp: fuse_def Let_def simp del: is_infix.simps)
  next
    case False
    let ?failed = "filter (\<lambda>r. \<not> sr_success r) rs"
    let ?parts = "map success_part (filter sr_success rs)
      @ (if ?failed \<noteq> [] then [''## Failures'' @ newline @ join_words newline (map failure_line ?failed)] else [])"
    have e: "fu_summary (fuse rs) = join_words (newline @ newline) ?parts"
      using False n1 unfolding fuse_def Let_def by (simp only: if_False fusion.select_convs)
    show ?thesis
    proof (cases "sr_success r")
      case True
      have "is_infix (sr_output r) (success_part r)"
        using infix_middle [of "sr_output r" "''## ['' @ sr_role r @ ''] '' @ sr_subtask_id r @ newline" "[]"] by (simp add: success_part_def)
      moreover have "success_part r \<in> set ?parts" using True assms by simp
      ultimately show ?thesis using True unfolding e by (simp only: if_True) (rule infix_join)
    next
      case f: False
      have r: "r \<in> set ?failed" using f assms by simp
      have "is_infix (sr_error r) (failure_line r)"
        using infix_middle [of "sr_error r" "''  ['' @ sr_role r @ ''] '' @ sr_subtask_id r @ '': ''" "[]"] by (simp add: failure_line_def)
      with r have "is_infix (sr_error r) (join_words newline (map failure_line ?failed))"
        by (intro infix_join [of "failure_line r"]) auto
      from infix_append [OF this, of "''## Failures'' @ newline"]
      have "is_infix (sr_error r) (''## Failures'' @ newline @ join_words newline (map failure_line ?failed))" by simp
      moreover have "(''## Failures'' @ newline @ join_words newline (map failure_line ?failed)) \<in> set ?parts" using r by (auto simp: filter_empty_conv)
      ultimately show ?thesis using f unfolding e by (simp only: if_False) (rule infix_join)
    qed
  qed
qed


section \<open>Properties\<close>

text \<open>
  C22 The concurrent schedule computes the sequential result. Whatever the order in which sub-agents enter the semaphore
  and return: when the scheduler ends with results they are those of running the batches one after the other, when it ends
  with an exception the sequential run raises as well, and at no moment do more than \<open>n\<close> agents run.\<close>

theorem schedule_is_sequential:
  assumes "dag_reach agent n subtasks s"
  shows "inside_count s \<le> n \<and> (case dg_end s of None \<Rightarrow> True | Some (Inr results) \<Rightarrow> dag_rounds agent subtasks [] = Inr results
    | Some (Inl e) \<Rightarrow> (\<exists>e'. dag_rounds agent subtasks [] = Inl e'))"
  using dag_reach_inv [OF assms] by (auto simp: dag_inv_def split: option.split sum.split)

text \<open>
  C23 The scheduler always ends. With at least one permit, a state that has not ended has a next step, and every step
  lowers the amount of work, which starts at four steps per subtask and one: cycles, unknown dependencies and failed
  predecessors cannot block it.\<close>

theorem schedule_ends:
  assumes "dag_reach agent n subtasks s" "0 < n" "dg_end s = None"
  shows "(\<exists>s'. dag_step agent s s') \<and> (\<forall>s'. dag_step agent s s' \<longrightarrow> dag_work s' < dag_work s)
    \<and> dag_work (dag_start n subtasks :: 'c dag) = 4 * length subtasks + 1"
  using dag_step_exists [OF dag_reach_inv [OF assms(1)] assms(2,3)] dag_step_works [OF dag_reach_inv [OF assms(1)]]
  by (simp add: dag_work_def dag_start_def)

text \<open>
  C21 Agents are called once, after their predecessors. In every reachable state each subtask has been handed to an agent
  at most once, only its context was extended, and all its predecessors had a successful result before.\<close>

theorem agents_called_after_dependencies:
  assumes "dag_reach agent n subtasks s" "distinct (map su_id subtasks)"
  shows "distinct (map su_id (dg_calls s)) \<and> (\<forall>c \<in> set (dg_calls s). (\<exists>st \<in> set subtasks. c = st\<lparr>su_context := su_context c\<rparr>)
    \<and> (\<forall>d \<in> set (su_depends_on c). \<exists>r. map_of (dg_results s) d = Some r \<and> sr_success r))"
  using dag_reach_calls [OF assms] unfolding call_inv_def deps_succeeded_def by blast

text \<open>
  C24 A verified outcome is earned. When the fused result counts as verified, there is one result for each planned
  subtask, in order, and each rests on a run of the agent loop on that subtask's description, with no tool beyond the
  allowed ones, that returned a visible answer and verified evidence.\<close>

theorem verified_outcome_earned:
  assumes "run_agents env task system allowed given mc = Inr f" "verified_outcome f"
  shows "map sr_subtask_id (fu_sub_results f) = map su_id (planned_subtasks task allowed given)
    \<and> (\<forall>i < length (planned_subtasks task allowed given). \<exists>call resp trace rounds. ae_loop env call = Inr (Some resp, trace, rounds)
        \<and> lc_user call = su_description (planned_subtasks task allowed given ! i) \<and> set (lc_tools call) \<subseteq> set allowed
        \<and> py_strip (lr_content resp) \<noteq> [] \<and> get_or (lr_raw resp) ''verified_outcome'' PNone = PBool True
        \<and> sr_output (fu_sub_results f ! i) = lr_content resp)"
proof -
  let ?sts = "planned_subtasks task allowed given"
  obtain rs where rs: "run_dag (run_sub_agent env system allowed) ?sts = Inr rs" "f = fuse rs"
    using run_agents_results [OF assms(1)] by metis
  note E = run_dag_earned [OF rs(1)]
  have ok: "sr_success (rs ! i)" if "i < length ?sts" for i using assms(2) that E rs(2) by (simp add: verified_outcome_def list_all_length)
  have agent: "\<exists>ctx. run_sub_agent env system allowed ((?sts ! i)\<lparr>su_context := ctx\<rparr>) = Inr (rs ! i)" if "i < length ?sts" for i
  proof -
    have "rs ! i \<noteq> failed_result (?sts ! i) err" for err using ok [OF that] by (auto simp: failed_result_def)
    with E that show ?thesis unfolding earned_def by blast
  qed
  have "sr_subtask_id (rs ! i) = su_id (?sts ! i)" if i: "i < length ?sts" for i using agent [OF i] sub_agent_result(1) by fastforce
  then have "map sr_subtask_id rs = map su_id ?sts" using E by (intro nth_equalityI) simp_all
  moreover have "\<exists>call resp trace rounds. ae_loop env call = Inr (Some resp, trace, rounds)
        \<and> lc_user call = su_description (?sts ! i) \<and> set (lc_tools call) \<subseteq> set allowed
        \<and> py_strip (lr_content resp) \<noteq> [] \<and> get_or (lr_raw resp) ''verified_outcome'' PNone = PBool True
        \<and> sr_output (rs ! i) = lr_content resp" if i: "i < length ?sts" for i
  proof -
    obtain ctx where c: "run_sub_agent env system allowed ((?sts ! i)\<lparr>su_context := ctx\<rparr>) = Inr (rs ! i)" using agent [OF i] by blast
    have "set (sub_tools allowed st) \<subseteq> set allowed" for st by (auto simp: sub_tools_def)
    with sub_agent_result(2) [OF c ok [OF i]] show ?thesis by fastforce
  qed
  ultimately show ?thesis by (simp add: rs(2))
qed

text \<open>
  Fusion hides nothing. The fused summary contains the output of every successful sub-agent and the error of every
  failed one.\<close>

lemma fusion_hides_nothing:
  assumes "run_agents env task system allowed given mc = Inr f" "r \<in> set (fu_sub_results f)"
  shows "is_infix (if sr_success r then sr_output r else sr_error r) (fu_summary f)"
proof -
  obtain rs where "f = fuse rs" using run_agents_results [OF assms(1)] by metis
  with fusion_keeps [of r rs] assms(2) show ?thesis by simp
qed

section \<open>Examples\<close>

definition demo_agents :: "unit agent_env" where
  "demo_agents = \<lparr>ae_default_model = Some ''m'', ae_gateway_default = None, ae_gateway_effective = None,
     ae_loop = (\<lambda>call. Inr (Some \<lparr>lr_content = ''done'', lr_raw = [(''verified_outcome'', PBool True)], lr_usage = []\<rparr>, [], 1)),
     ae_str = (\<lambda>v. []), ae_exn_str = (\<lambda>e. []), ae_parse = (\<lambda>s. None)\<rparr>"

definition demo_plan :: "subtask list" where
  "demo_plan = [new_subtask ''b'' ''second'' role_code [] [] [''a''], new_subtask ''a'' ''first'' role_research [] [] []]"

definition demo_result :: "string \<Rightarrow> string \<Rightarrow> unit sub_result" where
  "demo_result i role = \<lparr>sr_subtask_id = i, sr_role = role, sr_success = True, sr_output = ''done'', sr_tool_calls = [], sr_rounds = 1,
     sr_error = [], sr_usage = [(''input_tokens'', 0), (''output_tokens'', 0)]\<rparr>"

lemma demo_sub_agent: "run_sub_agent demo_agents sys tools st = Inr (demo_result (su_id st) (su_role st))" if "su_max_rounds st = PInt k"
  using that by (simp add: run_sub_agent_def agent_model_def opt_or_def round_budget_def checked_int_def sub_reply_def usage_count_def get_or_def
      por_def py_strip_def is_space_def demo_agents_def demo_result_def)

lemma demo_agents_run: "run_agents demo_agents ''t'' ''s'' [''read''] (Some demo_plan) (PInt 2)
    = Inr (fuse [demo_result ''b'' role_code, demo_result ''a'' role_research])"
proof -
  have "dag_rounds (run_sub_agent demo_agents ''s'' [''read'']) demo_plan []
    = Inr [(''a'', demo_result ''a'' role_research), (''b'', demo_result ''b'' role_code)]"
    by (simp add: demo_plan_def new_subtask_def dag_rounds.simps ready_tasks_def run_one_def demo_sub_agent demo_result_def)
  then show ?thesis
    by (simp add: run_agents_def planned_subtasks_def max_subtasks_def run_dag_def concurrency_limit_def checked_int_def demo_plan_def new_subtask_def)
qed

theorem verified_outcome_earned_witness:
  "map sr_subtask_id (fu_sub_results (fuse [demo_result ''b'' role_code, demo_result ''a'' role_research])) = [''b'', ''a'']"
proof -
  have "verified_outcome (fuse [demo_result ''b'' role_code, demo_result ''a'' role_research])"
    by (simp add: verified_outcome_def demo_result_def)
  from verified_outcome_earned [OF demo_agents_run this] show ?thesis by (simp add: planned_subtasks_def demo_plan_def new_subtask_def)
qed

lemma fusion_hides_nothing_witness:
  "is_infix ''done'' (fu_summary (fuse [demo_result ''b'' role_code, demo_result ''a'' role_research]))"
  using fusion_hides_nothing [OF demo_agents_run, of "demo_result ''a'' role_research"] by (simp add: demo_result_def)

definition demo_opened :: "unit dag" where
  "demo_opened = \<lparr>dg_remaining = demo_plan, dg_results = [], dg_batch = [(demo_plan ! 1, Inside)], dg_free = 0,
     dg_calls = [demo_plan ! 1], dg_end = None\<rparr>"

lemma demo_opened_reach: "dag_reach (run_sub_agent demo_agents ''s'' [''read'']) 1 demo_plan demo_opened"
proof -
  let ?agent = "run_sub_agent demo_agents ''s'' [''read'']"
  let ?s1 = "(dag_start 1 demo_plan)\<lparr>dg_batch := [(demo_plan ! 1, Queued)]\<rparr> :: unit dag"
  have "dag_step ?agent (dag_start 1 demo_plan) ?s1"
    using open_batch [of "dag_start 1 demo_plan" ?agent] by (simp add: dag_start_def demo_plan_def ready_tasks_def new_subtask_def)
  then have "dag_reach ?agent 1 demo_plan ?s1" by (rule dag_next [OF dag_first])
  moreover have "dag_step ?agent ?s1 demo_opened"
    using enter [of ?s1 0 "demo_plan ! 1" "[]" ?agent] by (simp add: dag_start_def demo_plan_def new_subtask_def demo_opened_def)
  ultimately show ?thesis by (rule dag_next)
qed

theorem schedule_is_sequential_witness: "inside_count demo_opened = 1 \<and> inside_count demo_opened \<le> 1"
  using schedule_is_sequential [OF demo_opened_reach] by (simp add: demo_opened_def inside_count_def)

theorem schedule_ends_witness: "\<exists>s'. dag_step (run_sub_agent demo_agents ''s'' [''read'']) demo_opened s'"
proof -
  have "dg_end demo_opened = None" by (simp add: demo_opened_def)
  from schedule_ends [OF demo_opened_reach zero_less_one this] show ?thesis by blast
qed

theorem agents_called_after_dependencies_witness:
  "distinct (map su_id (dg_calls demo_opened)) \<and> length (dg_calls demo_opened) = 1"
  using agents_called_after_dependencies [OF demo_opened_reach] by (simp add: demo_opened_def demo_plan_def new_subtask_def)

end
