(* ===== verification/Remote_Registry.thy ===== *)
theory Remote_Registry
  imports Atomic "HOL-Library.List_Lexorder" "HOL-Library.Char_ord"
begin

text \<open>
  The registry of remote nodes of \<open>norax/remote/registry.py\<close>: the file of enrolled nodes with the digests of their tokens,
  which every process reads, changes and replaces under one file lock, and the audit log of remote jobs with its
  redaction. The file is the JSON value it holds, and its replacement has the three outcomes of \<open>Atomic\<close>. The secret
  scrubber, the digest, fresh tokens, the clock and the size of a JSON text are parameters. Values are JSON trees.
\<close>

section \<open>Limits\<close>

definition default_capabilities :: "string list" where
  "default_capabilities = [''exec'', ''read'', ''list'', ''write'']"

definition sensitive_keys :: "string list" where
  "sensitive_keys = [''authorization'', ''credential'', ''credentials'', ''password'', ''private_key'', ''secret'', ''token'']"

definition max_registry_bytes :: nat where "max_registry_bytes = 16777216"
definition max_nodes :: nat where "max_nodes = 4096"
definition max_roots :: nat where "max_roots = 32"
definition max_root_chars :: nat where "max_root_chars = 4096"
definition max_meta_keys :: nat where "max_meta_keys = 100"
definition max_audit_line :: nat where "max_audit_line = 1048576"
definition max_audit_file :: nat where "max_audit_file = 268435456"
definition max_audit_items :: nat where "max_audit_items = 100"
definition max_audit_depth :: nat where "max_audit_depth = 8"
definition audit_budget :: nat where "audit_budget = 10000"
definition max_audit_content :: nat where "max_audit_content = 1000000"

definition node_char :: "char \<Rightarrow> bool" where
  "node_char c = (let n = (of_char c :: nat) in (97 \<le> n \<and> n \<le> 122) \<or> (48 \<le> n \<and> n \<le> 57))"

definition node_id_ok :: "string \<Rightarrow> bool" where
  "node_id_ok s = (case s of [] \<Rightarrow> False
     | c # t \<Rightarrow> node_char c \<and> length t \<le> 119 \<and> list_all (\<lambda>c. node_char c \<or> c = CHR ''_'' \<or> c = CHR ''-'') t)"

definition hex_char :: "char \<Rightarrow> bool" where
  "hex_char c = (let n = (of_char c :: nat) in (97 \<le> n \<and> n \<le> 102) \<or> (48 \<le> n \<and> n \<le> 57))"

definition token_hash_ok :: "string \<Rightarrow> bool" where
  "token_hash_ok s \<longleftrightarrow> length s = 64 \<and> list_all hex_char s"

section \<open>Audited values\<close>

text \<open>
  The scrubber, the mark of a cut string (an ellipsis and a word), the hex digest of a text in UTF-8, and the length of
  that encoding.
\<close>

record remote_env =
  re_redact :: "string \<Rightarrow> string"
  re_mark :: string
  re_sha :: "string \<Rightarrow> string"
  re_bytes :: "string \<Rightarrow> nat"

definition normalized_key :: "string \<Rightarrow> string" where
  "normalized_key k = map (\<lambda>c. if c = CHR ''-'' then CHR ''_'' else c) (py_lower k)"

definition suffix_of :: "string \<Rightarrow> string \<Rightarrow> bool" where
  "suffix_of suffix s \<longleftrightarrow> length suffix \<le> length s \<and> drop (length s - length suffix) s = suffix"

definition sensitive :: "string \<Rightarrow> bool" where
  "sensitive k \<longleftrightarrow> normalized_key k \<in> set sensitive_keys
     \<or> suffix_of ''_token'' (normalized_key k) \<or> suffix_of ''_secret'' (normalized_key k)"

definition audit_string :: "remote_env \<Rightarrow> string \<Rightarrow> string \<Rightarrow> pyval" where
  "audit_string env k s =
     (if normalized_key k = ''content'' then
        let bounded = take max_audit_content s in
        PDict [(''chars'', PInt (int (length s))), (''bytes'', PInt (int (re_bytes env bounded))),
          (''hashed_chars'', PInt (int (length bounded))), (''sha256'', PStr (re_sha env bounded)),
          (''truncated'', PBool (length bounded < length s))]
      else let limit = (if normalized_key k \<in> {''stdout'', ''stderr'', ''command''} then 2000 else 1000);
               bounded = take limit s in
        PStr (re_redact env (if limit < length s then bounded @ re_mark env else bounded)))"

definition audit_float :: "pyfloat \<Rightarrow> pyval" where
  "audit_float f = (case f of Fin r \<Rightarrow> PFloat f | PosInf \<Rightarrow> PStr ''inf'' | NegInf \<Rightarrow> PStr ''-inf'' | NaN \<Rightarrow> PStr ''nan'')"

fun audit_value :: "remote_env \<Rightarrow> string \<Rightarrow> nat \<Rightarrow> pyval \<Rightarrow> nat \<Rightarrow> pyval \<times> nat"
  and audit_items :: "remote_env \<Rightarrow> nat \<Rightarrow> nat \<Rightarrow> pyval list \<Rightarrow> nat \<Rightarrow> pyval list \<times> nat"
  and audit_entries :: "remote_env \<Rightarrow> nat \<Rightarrow> nat \<Rightarrow> (string \<times> pyval) list \<Rightarrow> (string, pyval) dict \<Rightarrow> nat
    \<Rightarrow> (string, pyval) dict \<times> nat" where
  "audit_value env k depth v b =
     (if b = 0 then (PStr ''<TRUNCATED>'', b)
      else if max_audit_depth < depth then (PStr ''<MAX_DEPTH>'', b - 1)
      else if sensitive k then (PStr ''<REDACTED>'', b - 1)
      else case v of
        PDict d \<Rightarrow> (let (out, b') = audit_entries env (Suc depth) max_audit_items d [] (b - 1) in (PDict out, b'))
      | PList xs \<Rightarrow> (let (out, b') = audit_items env (Suc depth) max_audit_items xs (b - 1) in (PList out, b'))
      | PStr s \<Rightarrow> (audit_string env k s, b - 1)
      | PFloat f \<Rightarrow> (audit_float f, b - 1)
      | _ \<Rightarrow> (v, b - 1))"
| "audit_items env depth n [] b = ([], b)"
| "audit_items env depth n (x # xs) b =
     (if n = 0 then ([], b)
      else let (y, b1) = audit_value env [] depth x b; (ys, b2) = audit_items env depth (n - 1) xs b1 in (y # ys, b2))"
| "audit_entries env depth n [] out b = (out, b)"
| "audit_entries env depth n ((k, x) # xs) out b =
     (if n = 0 then (out, b)
      else let (y, b1) = audit_value env (take 120 k) depth x b in audit_entries env depth (n - 1) xs (dset (take 120 k) y out) b1)"

declare audit_value.simps [simp del]

definition audited :: "remote_env \<Rightarrow> pyval \<Rightarrow> pyval" where
  "audited env v = fst (audit_value env [] 0 v audit_budget)"

section \<open>Nodes\<close>

record node_info =
  nd_id :: string
  nd_name :: string
  nd_token_hash :: string
  nd_capabilities :: "string list"
  nd_roots :: "string list"
  nd_enabled :: bool
  nd_created :: int
  nd_last_seen :: "int option"
  nd_meta :: "(string, pyval) dict"

definition registry_corrupt :: "string \<Rightarrow> py_exn" where
  "registry_corrupt s = RegistryCorruptError (''remote registry '' @ s)"

definition millisecond_value :: "pyval \<Rightarrow> int res" where
  "millisecond_value v = (case v of
     PInt i \<Rightarrow> if 0 \<le> i \<and> i \<le> 9223372036854775807 then Inr i else Inl (registry_corrupt ''contains an invalid timestamp'')
   | _ \<Rightarrow> Inl (registry_corrupt ''contains an invalid timestamp''))"

fun strings_of :: "pyval list \<Rightarrow> string list option" where
  "strings_of [] = Some []"
| "strings_of (PStr s # vs) = map_option ((#) s) (strings_of vs)"
| "strings_of (_ # vs) = None"

definition string_list :: "pyval \<Rightarrow> string list option" where
  "string_list v = (case v of PList vs \<Rightarrow> strings_of vs | _ \<Rightarrow> None)"

definition capabilities_ok :: "string list \<Rightarrow> bool" where
  "capabilities_ok cs \<longleftrightarrow> length cs \<le> length default_capabilities \<and> set cs \<subseteq> set default_capabilities \<and> distinct cs"

definition root_ok :: "string \<Rightarrow> bool" where
  "root_ok r \<longleftrightarrow> py_strip r \<noteq> [] \<and> length r \<le> max_root_chars"

definition validated_node :: "remote_env \<Rightarrow> string \<Rightarrow> pyval \<Rightarrow> node_info res" where
  "validated_node env i v =
     (if \<not> node_id_ok i then Inl (registry_corrupt ''contains an invalid node id'')
      else case v of
        PDict d \<Rightarrow>
          if get_or d ''node_id'' PNone \<noteq> PStr i then Inl (registry_corrupt ''node id does not match its key'')
          else (case get_or d ''name'' PNone of
            PStr name \<Rightarrow>
              if py_strip name = [] \<or> 80 < length name then Inl (registry_corrupt ''contains an invalid node name'')
              else (case get_or d ''token_hash'' PNone of
                PStr digest \<Rightarrow>
                  if \<not> token_hash_ok digest then Inl (registry_corrupt ''contains an invalid token hash'')
                  else (case string_list (get_or d ''capabilities'' (PList (map PStr default_capabilities))) of
                    Some caps \<Rightarrow>
                      if \<not> capabilities_ok caps then Inl (registry_corrupt ''contains invalid capabilities'')
                      else (case string_list (get_or d ''roots'' (PList [])) of
                        Some roots \<Rightarrow>
                          if max_roots < length roots \<or> \<not> list_all root_ok roots then Inl (registry_corrupt ''contains invalid roots'')
                          else (case get_or d ''enabled'' (PBool True) of
                            PBool enabled \<Rightarrow>
                              (case get_or d ''meta'' (PDict []) of
                                PDict meta \<Rightarrow>
                                  if max_meta_keys < length meta then Inl (registry_corrupt ''metadata is malformed'')
                                  else (case audited env (PDict meta) of
                                    PDict meta' \<Rightarrow>
                                      rbind (millisecond_value (get_or d ''created_ms'' (PInt 0))) (\<lambda>created.
                                      rbind (case get_or d ''last_seen_ms'' PNone of PNone \<Rightarrow> Inr None
                                             | t \<Rightarrow> rbind (millisecond_value t) (\<lambda>t. Inr (Some t))) (\<lambda>seen.
                                      Inr \<lparr>nd_id = i, nd_name = collapse_spaces name, nd_token_hash = digest, nd_capabilities = caps,
                                        nd_roots = map py_strip roots, nd_enabled = enabled, nd_created = created,
                                        nd_last_seen = seen, nd_meta = meta'\<rparr>))
                                  | _ \<Rightarrow> Inl (registry_corrupt ''metadata is malformed''))
                              | _ \<Rightarrow> Inl (registry_corrupt ''metadata is malformed''))
                          | _ \<Rightarrow> Inl (registry_corrupt ''enabled must be a boolean''))
                      | None \<Rightarrow> Inl (registry_corrupt ''contains invalid roots''))
                  | None \<Rightarrow> Inl (registry_corrupt ''contains invalid capabilities''))
              | _ \<Rightarrow> Inl (registry_corrupt ''contains an invalid token hash''))
          | _ \<Rightarrow> Inl (registry_corrupt ''contains an invalid node name''))
      | _ \<Rightarrow> Inl (registry_corrupt ''node must be an object''))"

fun validated_nodes :: "remote_env \<Rightarrow> (string \<times> pyval) list \<Rightarrow> (string, node_info) dict res" where
  "validated_nodes env [] = Inr []"
| "validated_nodes env ((i, v) # vs) =
     rbind (validated_node env i v) (\<lambda>n. rbind (validated_nodes env vs) (\<lambda>ns. Inr ((i, n) # ns)))"

definition validated_registry :: "remote_env \<Rightarrow> pyval \<Rightarrow> (string, node_info) dict res" where
  "validated_registry env v = (case v of
     PDict d \<Rightarrow> (case get_or d ''nodes'' (PDict []) of
       PDict raw \<Rightarrow> if max_nodes < length raw then Inl (registry_corrupt ''contains too many nodes'') else validated_nodes env raw
     | _ \<Rightarrow> Inl (registry_corrupt ''nodes must be an object''))
   | _ \<Rightarrow> Inl (registry_corrupt ''root must be an object''))"

text \<open>\<open>asdict\<close>, and the registry as a JSON object.\<close>

definition node_dict :: "node_info \<Rightarrow> pyval" where
  "node_dict n = PDict [(''node_id'', PStr (nd_id n)), (''name'', PStr (nd_name n)), (''token_hash'', PStr (nd_token_hash n)),
     (''capabilities'', PList (map PStr (nd_capabilities n))), (''roots'', PList (map PStr (nd_roots n))),
     (''enabled'', PBool (nd_enabled n)), (''created_ms'', PInt (nd_created n)),
     (''last_seen_ms'', case nd_last_seen n of None \<Rightarrow> PNone | Some t \<Rightarrow> PInt t), (''meta'', PDict (nd_meta n))]"

definition registry_value :: "(string, node_info) dict \<Rightarrow> pyval" where
  "registry_value ns = PDict [(''nodes'', PDict (map (\<lambda>(i, n). (i, node_dict n)) ns))]"

section \<open>The file\<close>

text \<open>No file, a file that cannot be read as JSON or is not a plain bounded file, or a JSON value.\<close>

datatype remote_disk = Absent | Garbled | Stored pyval

text \<open>One call: whether the lock file opens and the registry file can be read, the clock, a fresh token, the outcome of
  the replacement, and the size of a JSON text.\<close>

record remote_io =
  ri_locks :: bool
  ri_reads :: bool
  ri_now :: int
  ri_token :: string
  ri_write :: write_outcome
  ri_size :: "pyval \<Rightarrow> nat"

definition registry_transaction :: "remote_io \<Rightarrow> (remote_disk \<Rightarrow> 'a res \<times> remote_disk) \<Rightarrow> remote_disk \<Rightarrow> 'a res \<times> remote_disk" where
  "registry_transaction io f disk = (if ri_locks io then f disk else (Inl (OSError ''lock''), disk))"

definition load_nodes :: "remote_env \<Rightarrow> remote_io \<Rightarrow> remote_disk \<Rightarrow> (string, node_info) dict res" where
  "load_nodes env io disk = (case disk of
     Absent \<Rightarrow> Inr []
   | Garbled \<Rightarrow> Inl (registry_corrupt ''is corrupt or unsafe'')
   | Stored v \<Rightarrow> if ri_reads io then validated_registry env v else Inl (registry_corrupt ''is corrupt or unsafe''))"

text \<open>
  A node is written with sorted keys, at every depth: the nodes are in the order of their ids, and the metadata of each is
  sorted. The order of the other fields of a node does not matter to the reader.
\<close>

fun sorted_json :: "pyval \<Rightarrow> pyval" where
  "sorted_json (PList xs) = PList (map sorted_json xs)"
| "sorted_json (PDict d) = PDict (sort_key fst (map (\<lambda>p. (fst p, sorted_json (snd p))) d))"
| "sorted_json v = v"

definition stored_info :: "node_info \<Rightarrow> node_info" where
  "stored_info n = n\<lparr>nd_meta := sort_key fst (map (\<lambda>p. (fst p, sorted_json (snd p))) (nd_meta n))\<rparr>"

definition stored_nodes :: "(string, node_info) dict \<Rightarrow> (string, node_info) dict" where
  "stored_nodes ns = map (\<lambda>p. (fst p, stored_info (snd p))) (sort_key fst ns)"

definition save_nodes :: "remote_env \<Rightarrow> remote_io \<Rightarrow> (string, node_info) dict \<Rightarrow> remote_disk \<Rightarrow> unit res \<times> remote_disk" where
  "save_nodes env io ns disk = (case validated_registry env (registry_value ns) of
     Inl e \<Rightarrow> (Inl e, disk)
   | Inr ns' \<Rightarrow>
       let v = registry_value (stored_nodes ns') in
       if max_registry_bytes < ri_size io v then (Inl (ValueError ''remote registry exceeds 16777216 bytes''), disk)
       else (case ri_write io of
         Not_written \<Rightarrow> (Inl (OSError ''replace''), disk)
       | Written \<Rightarrow> (Inr (), Stored v)
       | Written_unconfirmed \<Rightarrow> (Inl (OSError ''fsync''), Stored v)))"

section \<open>Operations\<close>

definition alnum :: "char \<Rightarrow> bool" where
  "alnum c = (let n = (of_char c :: nat) in (48 \<le> n \<and> n \<le> 57) \<or> (65 \<le> n \<and> n \<le> 90) \<or> (97 \<le> n \<and> n \<le> 122)
     \<or> n \<in> {170, 178, 179, 181, 185, 186, 188, 189, 190} \<or> (192 \<le> n \<and> n \<noteq> 215 \<and> n \<noteq> 247))"

definition strip_dashes :: "string \<Rightarrow> string" where
  "strip_dashes s = rev (dropWhile (\<lambda>c. c = CHR ''-'') (rev (dropWhile (\<lambda>c. c = CHR ''-'') s)))"

definition node_slug :: "string \<Rightarrow> string" where
  "node_slug name =
     (let s = strip_dashes (map (\<lambda>c. if alnum c \<or> c = CHR ''-'' \<or> c = CHR ''_'' then c else CHR ''-'') (py_lower name)) in
      take 100 (if s = [] then ''node'' else s))"

fun decimal :: "nat \<Rightarrow> string" where
  "decimal n = (if n < 10 then [char_of (48 + n)] else decimal (n div 10) @ [char_of (48 + n mod 10)])"

declare decimal.simps [simp del]

definition numbered :: "string \<Rightarrow> nat \<Rightarrow> string" where
  "numbered slug i = (let suffix = ''-'' @ decimal i in take (120 - length suffix) slug @ suffix)"

lemma decimal_digits: "c \<in> set (decimal n) \<Longrightarrow> c \<noteq> CHR ''-''"
proof (induction n rule: decimal.induct)
  case (1 n)
  have d: "(char_of (48 + k) :: char) \<noteq> CHR ''-''" if "k < 10" for k :: nat
  proof
    assume "(char_of (48 + k) :: char) = CHR ''-''"
    then have "(of_char (char_of (48 + k) :: char) :: nat) = of_char CHR ''-''" by simp
    then have "(48 + k) mod 256 = 45" by simp
    with that show False by simp
  qed
  show ?case
  proof (cases "n < 10")
    case True
    with "1.prems" d show ?thesis by (subst (asm) decimal.simps) auto
  next
    case False
    with "1.prems" have "c \<in> set (decimal (n div 10)) \<or> c = char_of (48 + n mod 10)" by (subst (asm) (1) decimal.simps) auto
    then show ?thesis using "1.IH" [OF False] d [of "n mod 10"] by auto
  qed
qed


lemma decimal_read: "foldl (\<lambda>k c. 10 * k + (of_char c - 48)) (0 :: nat) (decimal n) = n"
proof (induction n rule: decimal.induct)
  case (1 n)
  show ?case
  proof (cases "n < 10")
    case True
    then show ?thesis by (subst decimal.simps) simp
  next
    case False
    then show ?thesis using "1.IH" [OF False] by (subst decimal.simps) simp
  qed
qed

lemma numbered_tail: "takeWhile (\<lambda>c. c \<noteq> CHR ''-'') (rev (numbered slug i)) = rev (decimal i)"
proof -
  have "takeWhile (\<lambda>c. c \<noteq> CHR ''-'') (rev (decimal i) @ CHR ''-'' # t) = rev (decimal i)" for t
    using decimal_digits [of _ i] by (subst takeWhile_append2) auto
  then show ?thesis by (simp add: numbered_def Let_def)
qed

lemma numbered_inj: "inj (numbered slug)"
proof (rule injI)
  fix i j assume "numbered slug i = numbered slug j"
  then have "decimal i = decimal j" by (metis numbered_tail rev_rev_ident)
  then show "i = j" by (metis decimal_read)
qed

lemma numbered_finite: "finite {j. i \<le> j \<and> numbered slug j \<in> set keys}"
  by (rule finite_subset [OF _ finite_vimageI [OF _ numbered_inj, of "set keys"]]) auto

text \<open>The search for a free id, from \<open>slug-2\<close> on.\<close>

function free_number :: "string \<Rightarrow> string list \<Rightarrow> nat \<Rightarrow> string" where
  "free_number slug keys i = (if numbered slug i \<in> set keys then free_number slug keys (Suc i) else numbered slug i)"
  by pat_completeness auto
termination
proof (relation "measure (\<lambda>(slug, keys, i). card {j. i \<le> j \<and> numbered slug j \<in> set keys})")
  fix slug keys i
  assume "numbered slug i \<in> set keys"
  then have "i \<in> {j. i \<le> j \<and> numbered slug j \<in> set keys}" "i \<notin> {j. Suc i \<le> j \<and> numbered slug j \<in> set keys}" by simp_all
  moreover have "{j. Suc i \<le> j \<and> numbered slug j \<in> set keys} \<subseteq> {j. i \<le> j \<and> numbered slug j \<in> set keys}" by auto
  ultimately have "{j. Suc i \<le> j \<and> numbered slug j \<in> set keys} \<subset> {j. i \<le> j \<and> numbered slug j \<in> set keys}" by blast
  from psubset_card_mono [OF numbered_finite this]
  show "((slug, keys, Suc i), slug, keys, i) \<in> measure (\<lambda>(slug, keys, i). card {j. i \<le> j \<and> numbered slug j \<in> set keys})" by simp
qed simp

declare free_number.simps [simp del]

definition fresh_id :: "string \<Rightarrow> string list \<Rightarrow> string" where
  "fresh_id slug keys = (if slug \<in> set keys then free_number slug keys 2 else slug)"

definition enroll_capabilities :: "pyval \<Rightarrow> string list res" where
  "enroll_capabilities v = (case v of
     PNone \<Rightarrow> Inr default_capabilities
   | PList vs \<Rightarrow> (case strings_of vs of
       None \<Rightarrow> Inl (TypeError ''remote capabilities must contain strings'')
     | Some cs \<Rightarrow> if set cs \<subseteq> set default_capabilities then Inr (rev (remdups (rev cs)))
         else Inl (ValueError ''unknown remote capabilities''))
   | _ \<Rightarrow> Inl (TypeError ''remote capabilities must be a list''))"

definition enroll_roots :: "pyval \<Rightarrow> string list res" where
  "enroll_roots v = (case v of
     PNone \<Rightarrow> Inr []
   | PList vs \<Rightarrow> (case strings_of vs of
       None \<Rightarrow> Inl (TypeError ''remote roots must contain strings'')
     | Some rs \<Rightarrow> let sel = filter (\<lambda>r. r \<noteq> []) (map py_strip rs) in
         if max_roots < length sel \<or> list_ex (\<lambda>r. max_root_chars < length r) sel
         then Inl (ValueError ''remote roots exceed configured limits'') else Inr sel)
   | _ \<Rightarrow> Inl (TypeError ''remote roots must be a list''))"

definition enroll_name :: "pyval \<Rightarrow> string res" where
  "enroll_name v = (case v of
     PStr s \<Rightarrow> let n = collapse_spaces s in
       if n = [] \<or> 80 < length n then Inl (ValueError ''node name must contain 1-80 characters'') else Inr n
   | _ \<Rightarrow> Inl (TypeError ''node name must be a string''))"

definition enrolled_node :: "remote_env \<Rightarrow> remote_io \<Rightarrow> string \<Rightarrow> string list \<Rightarrow> string list \<Rightarrow> string list \<Rightarrow> node_info" where
  "enrolled_node env io n cs rs keys = \<lparr>nd_id = fresh_id (node_slug n) keys, nd_name = n, nd_token_hash = re_sha env (ri_token io),
     nd_capabilities = cs, nd_roots = rs, nd_enabled = True, nd_created = ri_now io, nd_last_seen = None, nd_meta = []\<rparr>"

definition enroll :: "remote_env \<Rightarrow> remote_io \<Rightarrow> pyval \<Rightarrow> pyval \<Rightarrow> pyval \<Rightarrow> remote_disk \<Rightarrow> (node_info \<times> string) res \<times> remote_disk" where
  "enroll env io name roots caps disk =
     (case rbind (enroll_name name) (\<lambda>n. rbind (enroll_capabilities caps) (\<lambda>cs. rbind (enroll_roots roots) (\<lambda>rs. Inr (n, cs, rs)))) of
       Inl e \<Rightarrow> (Inl e, disk)
     | Inr (n, cs, rs) \<Rightarrow> registry_transaction io (\<lambda>disk. case load_nodes env io disk of
         Inl e \<Rightarrow> (Inl e, disk)
       | Inr ns \<Rightarrow>
           if max_nodes \<le> length ns then (Inl (ValueError ''remote registry node limit reached''), disk)
           else let info = enrolled_node env io n cs rs (map fst ns) in
             (case save_nodes env io (dset (nd_id info) info ns) disk of
               (Inl e, disk') \<Rightarrow> (Inl e, disk')
             | (Inr _, disk') \<Rightarrow> (Inr (info, ri_token io), disk'))) disk)"

definition list_nodes :: "remote_env \<Rightarrow> remote_io \<Rightarrow> remote_disk \<Rightarrow> node_info list res \<times> remote_disk" where
  "list_nodes env io disk = registry_transaction io (\<lambda>disk. (rbind (load_nodes env io disk) (\<lambda>ns. Inr (map snd ns)), disk)) disk"

definition get_node :: "remote_env \<Rightarrow> remote_io \<Rightarrow> string \<Rightarrow> remote_disk \<Rightarrow> node_info option res \<times> remote_disk" where
  "get_node env io i disk = (if \<not> node_id_ok i then (Inr None, disk)
     else registry_transaction io (\<lambda>disk. (rbind (load_nodes env io disk) (\<lambda>ns. Inr (map_of ns i)), disk)) disk)"

definition token_shape_ok :: "string \<Rightarrow> bool" where
  "token_shape_ok t \<longleftrightarrow> t \<noteq> [] \<and> length t \<le> 4096 \<and> \<not> list_ex is_space t"

definition authenticate :: "remote_env \<Rightarrow> remote_io \<Rightarrow> string \<Rightarrow> string \<Rightarrow> remote_disk \<Rightarrow> node_info option res \<times> remote_disk" where
  "authenticate env io i token disk =
     (if \<not> token_shape_ok token then (Inr None, disk)
      else case get_node env io i disk of
        (Inr (Some n), disk') \<Rightarrow> (Inr (if nd_enabled n \<and> nd_token_hash n = re_sha env token then Some n else None), disk')
      | (Inr None, disk') \<Rightarrow> (Inr None, disk')
      | (Inl e, disk') \<Rightarrow> (Inl e, disk'))"

text \<open>\<open>touch\<close>; the metadata of a heartbeat is a JSON object or absent.\<close>

definition touched :: "remote_env \<Rightarrow> remote_io \<Rightarrow> (string, pyval) dict \<Rightarrow> node_info \<Rightarrow> node_info" where
  "touched env io meta n = (let n1 = n\<lparr>nd_last_seen := Some (ri_now io)\<rparr> in
     if meta = [] then n1 else case audited env (PDict meta) of PDict m \<Rightarrow> n1\<lparr>nd_meta := dupdate (nd_meta n1) m\<rparr> | _ \<Rightarrow> n1)"

definition touch :: "remote_env \<Rightarrow> remote_io \<Rightarrow> string \<Rightarrow> (string, pyval) dict \<Rightarrow> remote_disk \<Rightarrow> unit res \<times> remote_disk" where
  "touch env io i meta = registry_transaction io (\<lambda>disk. case load_nodes env io disk of
     Inl e \<Rightarrow> (Inl e, disk)
   | Inr ns \<Rightarrow> (case map_of ns i of
       None \<Rightarrow> (Inr (), disk)
     | Some n \<Rightarrow> save_nodes env io (dset i (touched env io meta n) ns) disk))"

section \<open>The audit log of jobs\<close>

text \<open>
  The log file, absent, a regular file or something else, and the archives it was renamed to, oldest first. Per call:
  the steps that fail, and how many bytes each \<open>os.write\<close> takes.
\<close>

datatype job_file = No_file | Regular_file string | Other_file

record jobs =
  jb_current :: job_file
  jb_archives :: "string list"

record job_io =
  jo_locks :: bool
  jo_opens :: bool
  jo_renames :: bool
  jo_reopens :: bool
  jo_writes :: "nat \<Rightarrow> nat option"

definition add_bytes :: "string \<Rightarrow> jobs \<Rightarrow> jobs" where
  "add_bytes x j = j\<lparr>jb_current := (case jb_current j of Regular_file s \<Rightarrow> Regular_file (s @ x) | _ \<Rightarrow> Regular_file x)\<rparr>"

function write_rest :: "job_io \<Rightarrow> nat \<Rightarrow> string \<Rightarrow> jobs \<Rightarrow> unit res \<times> jobs" where
  "write_rest io k rest j =
     (if rest = [] then (Inr (), j)
      else case jo_writes io k of
        None \<Rightarrow> (Inl (OSError ''write''), j)
      | Some n \<Rightarrow> if n = 0 then (Inl (OSError ''short write while appending remote audit record''), j)
          else write_rest io (Suc k) (drop n rest) (add_bytes (take n rest) j))"
  by pat_completeness auto
termination by (relation "measure (\<lambda>(io, k, rest, j). length rest)") auto

declare write_rest.simps [simp del]

definition append_job_line :: "job_io \<Rightarrow> string \<Rightarrow> jobs \<Rightarrow> unit res \<times> jobs" where
  "append_job_line io payload j =
     (if \<not> jo_opens io then (Inl (OSError ''open''), j)
      else case jb_current j of
        Other_file \<Rightarrow> (Inl (ValueError ''remote audit path is not a regular file''), j)
      | f \<Rightarrow> let s = (case f of Regular_file s \<Rightarrow> s | _ \<Rightarrow> []); j1 = j\<lparr>jb_current := Regular_file s\<rparr> in
          if max_audit_file < length s + length payload then
            if \<not> jo_renames io then (Inl (OSError ''replace''), j1)
            else if \<not> jo_reopens io then (Inl (OSError ''open''), j1\<lparr>jb_archives := jb_archives j1 @ [s], jb_current := No_file\<rparr>)
            else write_rest io 0 payload (j1\<lparr>jb_archives := jb_archives j1 @ [s], jb_current := Regular_file []\<rparr>)
          else write_rest io 0 payload j1)"

text \<open>The record of a job as bytes: \<open>line\<close> is the JSON text with its newline, encoded.\<close>

definition job_record :: "remote_env \<Rightarrow> int \<Rightarrow> string \<Rightarrow> pyval \<Rightarrow> pyval \<Rightarrow> pyval" where
  "job_record env now i job result = PDict [(''job'', audited env job), (''node_id'', PStr (take 120 i)),
     (''result'', audited env result), (''ts_ms'', PInt now)]"

definition record_job :: "remote_env \<Rightarrow> job_io \<Rightarrow> (pyval \<Rightarrow> string) \<Rightarrow> int \<Rightarrow> string \<Rightarrow> pyval \<Rightarrow> pyval \<Rightarrow> jobs \<Rightarrow> unit res \<times> jobs" where
  "record_job env io line now i job result j =
     (let payload = line (job_record env now i job result) in
      if max_audit_line < length payload then (Inl (ValueError ''remote audit record exceeds 1048576 bytes''), j)
      else if \<not> jo_locks io then (Inl (OSError ''lock''), j)
      else append_job_line io payload j)"


section \<open>Fresh ids\<close>

lemma free_number_fresh: "free_number slug keys i \<notin> set keys"
proof (induction slug keys i rule: free_number.induct)
  case (1 slug keys i)
  then show ?case by (subst free_number.simps) simp
qed

lemma fresh_id_fresh: "fresh_id slug keys \<notin> set keys"
  by (simp add: fresh_id_def free_number_fresh)

section \<open>What was written is accepted\<close>

lemma strings_of_map [simp]: "strings_of (map PStr ss) = Some ss"
  by (induction ss) simp_all

lemma audit_dict:
  obtains m where "audited env (PDict d) = PDict m"
proof -
  have "\<not> sensitive []" by (simp add: sensitive_def normalized_key_def py_lower_def sensitive_keys_def suffix_of_def)
  then have "\<exists>m. audited env (PDict d) = PDict m"
    by (auto simp: audited_def audit_value.simps audit_budget_def max_audit_depth_def case_prod_beta)
  with that show thesis by blast
qed

definition audit_meta :: "remote_env \<Rightarrow> (string, pyval) dict \<Rightarrow> (string, pyval) dict" where
  "audit_meta env d = (case audited env (PDict d) of PDict m \<Rightarrow> m | _ \<Rightarrow> [])"

lemma audited_PDict: "audited env (PDict d) = PDict (audit_meta env d)"
  by (rule audit_dict [of env d]) (simp add: audit_meta_def)

lemma length_dset_le: "length (dset k v d) \<le> Suc (length d)"
  by (induction d) auto

lemma audit_entries_length: "length (fst (audit_entries env depth n xs out b)) \<le> length out + n"
proof (induction xs arbitrary: n out b)
  case (Cons p xs)
  obtain k x where p: "p = (k, x)" by (cases p)
  show ?case
  proof (cases n)
    case (Suc m)
    have "length (fst (audit_entries env depth m xs (dset (take 120 k) y out) b1)) \<le> length out + n" for y b1
      using Cons [of m "dset (take 120 k) y out" b1] length_dset_le [of "take 120 k" y out] Suc by linarith
    then show ?thesis by (simp add: p Suc case_prod_beta)
  qed (simp add: p)
qed simp

lemma audit_meta_length: "length (audit_meta env d) \<le> max_meta_keys"
proof -
  have "\<not> sensitive []" by (simp add: sensitive_def normalized_key_def py_lower_def sensitive_keys_def suffix_of_def)
  then have "audit_meta env d = fst (audit_entries env 1 100 d [] 9999)"
    by (simp add: audit_meta_def audited_def audit_value.simps audit_budget_def max_audit_depth_def max_audit_items_def case_prod_beta)
  then show ?thesis using audit_entries_length [of env 1 100 d "[]" 9999] by (simp add: max_meta_keys_def)
qed

text \<open>What the fields of a valid node satisfy; the metadata may grow beyond its limit before it is saved.\<close>

definition node_ok :: "string \<Rightarrow> node_info \<Rightarrow> bool" where
  "node_ok i n \<longleftrightarrow> nd_id n = i \<and> node_id_ok i \<and> py_strip (nd_name n) \<noteq> [] \<and> length (nd_name n) \<le> 80 \<and> token_hash_ok (nd_token_hash n)
     \<and> capabilities_ok (nd_capabilities n) \<and> length (nd_roots n) \<le> max_roots \<and> list_all root_ok (nd_roots n)
     \<and> 0 \<le> nd_created n \<and> nd_created n \<le> 9223372036854775807
     \<and> (case nd_last_seen n of None \<Rightarrow> True | Some t \<Rightarrow> 0 \<le> t \<and> t \<le> 9223372036854775807) \<and> length (nd_meta n) \<le> max_meta_keys"

definition canonical_info :: "remote_env \<Rightarrow> node_info \<Rightarrow> node_info" where
  "canonical_info env n = n\<lparr>nd_name := collapse_spaces (nd_name n), nd_roots := map py_strip (nd_roots n), nd_meta := audit_meta env (nd_meta n)\<rparr>"

lemma last_seen_field:
  "(case case seen of None \<Rightarrow> PNone | Some t \<Rightarrow> PInt t of PNone \<Rightarrow> Inr None | t \<Rightarrow> rbind (millisecond_value t) (\<lambda>t. Inr (Some t)))
     = (if case seen of None \<Rightarrow> True | Some t \<Rightarrow> 0 \<le> t \<and> t \<le> 9223372036854775807 then Inr seen
        else Inl (registry_corrupt ''contains an invalid timestamp''))"
  by (cases seen) (auto simp: millisecond_value_def)

lemma validated_node_fields:
  assumes "get_or d ''node_id'' PNone = PStr i'" "get_or d ''name'' PNone = PStr name" "get_or d ''token_hash'' PNone = PStr digest"
    and "get_or d ''capabilities'' (PList (map PStr default_capabilities)) = PList (map PStr caps)"
    and "get_or d ''roots'' (PList []) = PList (map PStr roots)" "get_or d ''enabled'' (PBool True) = PBool enabled"
    and "get_or d ''meta'' (PDict []) = PDict meta" "get_or d ''created_ms'' (PInt 0) = PInt created"
    and "get_or d ''last_seen_ms'' PNone = (case seen of None \<Rightarrow> PNone | Some t \<Rightarrow> PInt t)"
  shows "validated_node env i (PDict d) = Inr m \<longleftrightarrow> i' = i \<and> node_id_ok i \<and> py_strip name \<noteq> [] \<and> length name \<le> 80 \<and> token_hash_ok digest
    \<and> capabilities_ok caps \<and> length roots \<le> max_roots \<and> list_all root_ok roots \<and> length meta \<le> max_meta_keys
    \<and> 0 \<le> created \<and> created \<le> 9223372036854775807 \<and> (case seen of None \<Rightarrow> True | Some t \<Rightarrow> 0 \<le> t \<and> t \<le> 9223372036854775807)
    \<and> m = \<lparr>nd_id = i, nd_name = collapse_spaces name, nd_token_hash = digest, nd_capabilities = caps, nd_roots = map py_strip roots,
        nd_enabled = enabled, nd_created = created, nd_last_seen = seen, nd_meta = audit_meta env meta\<rparr>"
  unfolding validated_node_def
  by (simp add: assms last_seen_field audited_PDict string_list_def millisecond_value_def not_less split del: option.split) auto

lemma validated_node_dict:
  "validated_node env i (node_dict n) = Inr m \<longleftrightarrow> node_ok i n \<and> m = canonical_info env n"
proof -
  have "canonical_info env n = \<lparr>nd_id = nd_id n, nd_name = collapse_spaces (nd_name n), nd_token_hash = nd_token_hash n, nd_capabilities = nd_capabilities n,
      nd_roots = map py_strip (nd_roots n), nd_enabled = nd_enabled n, nd_created = nd_created n, nd_last_seen = nd_last_seen n,
      nd_meta = audit_meta env (nd_meta n)\<rparr>"
    by (cases n) (simp add: canonical_info_def)
  then show ?thesis
    unfolding node_dict_def node_ok_def by (subst validated_node_fields) (simp_all add: get_or_def, blast)
qed


lemma strip_visible_start: "\<not> is_space c \<Longrightarrow> py_strip (c # s) \<noteq> []"
  by (auto simp: py_strip_def)

lemma strip_blank: "list_all is_space s \<Longrightarrow> py_strip s = []"
proof -
  assume "list_all is_space s"
  then have "dropWhile is_space s = []" by (simp add: list_all_iff)
  then show ?thesis by (simp only: py_strip_def) simp
qed

lemma split_words_visible: "\<not> list_all is_space s \<or> acc \<noteq> [] \<Longrightarrow> split_words acc s \<noteq> []"
  by (induction acc s rule: split_words.induct) (auto split: if_splits)

lemma collapse_visible:
  assumes "py_strip s \<noteq> []"
  shows "py_strip (collapse_spaces s) \<noteq> []"
proof -
  have "split_words [] s \<noteq> []" using assms strip_blank split_words_visible by blast
  then obtain w ws where w: "split_words [] s = w # ws" by (cases "split_words [] s") auto
  have "words_ok (w # ws)" using split_words_ok [of "[]" s] w by simp
  then obtain c t where "w = c # t" "\<not> is_space c" by (cases w) (auto simp: words_ok_def)
  then show ?thesis using w by (simp add: collapse_spaces_def join_words_Cons strip_visible_start)
qed

lemma collapse_shorter: "length (collapse_spaces s) \<le> length s"
  using collapse_length [of "[]" s] by (simp add: collapse_spaces_def)

lemma strip_shape:
  assumes "py_strip s \<noteq> []"
  obtains c t where "py_strip s = c # t" "\<not> is_space c"
proof -
  let ?a = "dropWhile is_space s"
  have "?a \<noteq> []"
  proof
    assume "?a = []"
    then have "py_strip s = []" unfolding py_strip_def by (simp only:) simp
    with assms show False by simp
  qed
  then obtain c t where a: "?a = c # t" by (cases ?a) auto
  have c: "\<not> is_space c" using hd_dropWhile [of is_space s] a by simp
  have "dropWhile is_space (rev t @ [c]) = dropWhile is_space (rev t) @ [c]"
    using c by (metis dropWhile.simps dropWhile_append3)
  then have "py_strip s = c # rev (dropWhile is_space (rev t))" by (simp add: py_strip_def a)
  with c that show thesis by blast
qed

lemma strip_stays: "py_strip s \<noteq> [] \<Longrightarrow> py_strip (py_strip s) \<noteq> []"
  by (metis strip_shape strip_visible_start)

lemma length_strip: "length (py_strip s) \<le> length s"
  unfolding py_strip_def by (metis length_dropWhile_le length_rev order_trans)

lemma canonical_info_ok: "node_ok i n \<Longrightarrow> node_ok i (canonical_info env n)"
  using audit_meta_length [of env "nd_meta n"] collapse_shorter [of "nd_name n"] length_strip
  by (auto simp: node_ok_def canonical_info_def collapse_visible root_ok_def list_all_iff strip_stays intro: order_trans)

lemma strings_of_Some: "strings_of vs = Some ss \<Longrightarrow> vs = map PStr ss"
  by (induction vs arbitrary: ss rule: strings_of.induct) auto

lemma millisecond_Inr: "millisecond_value v = Inr t \<Longrightarrow> 0 \<le> t \<and> t \<le> 9223372036854775807"
  by (auto simp: millisecond_value_def split: pyval.splits if_splits)

lemma node_ok_raw:
  assumes "node_id_ok i" "py_strip name \<noteq> []" "length name \<le> 80" "token_hash_ok digest" "capabilities_ok caps"
    and "length roots \<le> max_roots" "list_all root_ok roots" "audited env (PDict meta) = PDict meta'" "0 \<le> created \<and> created \<le> 9223372036854775807"
    and "case seen of None \<Rightarrow> True | Some t \<Rightarrow> 0 \<le> t \<and> t \<le> 9223372036854775807"
  shows "node_ok i \<lparr>nd_id = i, nd_name = collapse_spaces name, nd_token_hash = digest, nd_capabilities = caps, nd_roots = map py_strip roots,
        nd_enabled = enabled, nd_created = created, nd_last_seen = seen, nd_meta = meta'\<rparr>"
  using assms audit_meta_length [of env meta] collapse_shorter [of name] length_strip
  by (auto simp: node_ok_def collapse_visible root_ok_def list_all_iff strip_stays audited_PDict intro: order_trans)

lemma validated_node_ok: "validated_node env i v = Inr n \<Longrightarrow> node_ok i n"
  unfolding validated_node_def
  by (auto split: if_splits pyval.splits option.splits intro!: node_ok_raw dest!: millisecond_Inr)

lemma validated_nodes_ok: "validated_nodes env vs = Inr ns \<Longrightarrow> list_all (\<lambda>(i, n). node_ok i n) ns \<and> map fst ns = map fst vs"
  by (induction vs arbitrary: ns rule: validated_nodes.induct) (auto dest: validated_node_ok)

definition registry_ok :: "(string, node_info) dict \<Rightarrow> bool" where
  "registry_ok ns \<longleftrightarrow> list_all (\<lambda>(i, n). node_ok i n) ns \<and> length ns \<le> max_nodes"

definition canonical_nodes :: "remote_env \<Rightarrow> (string, node_info) dict \<Rightarrow> (string, node_info) dict" where
  "canonical_nodes env ns = map (\<lambda>(i, n). (i, canonical_info env n)) ns"

lemma validated_nodes_dict:
  "validated_nodes env (map (\<lambda>(i, n). (i, node_dict n)) ns) = Inr ms \<longleftrightarrow> list_all (\<lambda>(i, n). node_ok i n) ns \<and> ms = canonical_nodes env ns"
  by (induction ns arbitrary: ms) (auto simp: canonical_nodes_def validated_node_dict)

text \<open>The validation of a registry that the code itself assembled.\<close>

lemma validated_registry_value:
  "validated_registry env (registry_value ns) = Inr ms \<longleftrightarrow> registry_ok ns \<and> ms = canonical_nodes env ns"
  by (auto simp: validated_registry_def registry_value_def get_or_def validated_nodes_dict registry_ok_def not_less)

lemma canonical_registry_ok: "registry_ok ns \<Longrightarrow> registry_ok (canonical_nodes env ns)"
  by (auto simp: registry_ok_def canonical_nodes_def list_all_iff canonical_info_ok)

lemma dict_ok_sort [simp]: "dict_ok (sort_key fst ns) = dict_ok ns"
  unfolding dict_ok_def by (metis distinct_map distinct_sort set_sort)

lemma dict_ok_canonical [simp]: "dict_ok (canonical_nodes env ns) = dict_ok ns"
  by (simp add: dict_ok_def canonical_nodes_def comp_def case_prod_beta)

lemma map_of_sort: "dict_ok ns \<Longrightarrow> map_of (sort_key fst ns) = map_of ns"
proof
  fix k assume d: "dict_ok ns"
  show "map_of (sort_key fst ns) k = map_of ns k"
  proof (cases "map_of ns k")
    case None
    then have "k \<notin> fst ` set (sort_key fst ns)" by (simp add: map_of_eq_None_iff)
    with None show ?thesis by (metis map_of_eq_None_iff)
  next
    case (Some v)
    then have "(k, v) \<in> set (sort_key fst ns)" using map_of_SomeD by force
    moreover have "dict_ok (sort_key fst ns)" using d by simp
    ultimately have "map_of (sort_key fst ns) k = Some v" by (metis dict_ok_map_of)
    with Some show ?thesis by simp
  qed
qed

lemma map_of_canonical: "map_of (canonical_nodes env ns) k = map_option (canonical_info env) (map_of ns k)"
  unfolding canonical_nodes_def by (induction ns) auto

lemma stored_info_ok [simp]: "node_ok i (stored_info n) = node_ok i n"
  by (simp add: node_ok_def stored_info_def)

lemma stored_registry_ok: "registry_ok (stored_nodes ns) = registry_ok ns"
  by (auto simp: registry_ok_def stored_nodes_def list_all_iff)

lemma dict_ok_stored [simp]: "dict_ok (stored_nodes ns) = dict_ok ns"
proof -
  have "dict_ok (stored_nodes ns) = dict_ok (sort_key fst ns)" by (simp only: dict_ok_def stored_nodes_def list.map_comp comp_def fst_conv)
  then show ?thesis by simp
qed

lemma map_of_stored: "dict_ok ns \<Longrightarrow> map_of (stored_nodes ns) k = map_option stored_info (map_of ns k)"
proof -
  have "map_of (map (\<lambda>p. (fst p, stored_info (snd p))) xs) k = map_option stored_info (map_of xs k)" for xs by (induction xs) auto
  then show "dict_ok ns \<Longrightarrow> ?thesis" by (simp add: stored_nodes_def map_of_sort)
qed

text \<open>A node after it was written and read back.\<close>

definition reread_info :: "remote_env \<Rightarrow> node_info \<Rightarrow> node_info" where
  "reread_info env n = canonical_info env (stored_info (canonical_info env n))"

lemma save_nodes_effect:
  assumes "save_nodes env io ns disk = (r, disk')"
  shows "disk' = disk \<and> \<not> is_ok r
    \<or> registry_ok ns \<and> disk' = Stored (registry_value (stored_nodes (canonical_nodes env ns)))"
  using assms unfolding save_nodes_def
  by (cases "validated_registry env (registry_value ns)")
    (auto simp: validated_registry_value Let_def split: if_splits write_outcome.splits)

section \<open>Histories\<close>

definition registered :: "remote_env \<Rightarrow> remote_disk \<Rightarrow> (string, node_info) dict" where
  "registered env disk = (case disk of Stored v \<Rightarrow> (case validated_registry env v of Inr ns \<Rightarrow> ns | Inl _ \<Rightarrow> []) | _ \<Rightarrow> [])"

text \<open>The tokens drawn so far, each with the id that its enrollment put into the file.\<close>

definition new_ids :: "remote_env \<Rightarrow> remote_disk \<Rightarrow> remote_disk \<Rightarrow> string list" where
  "new_ids env disk disk' = filter (\<lambda>i. i \<notin> set (map fst (registered env disk))) (map fst (registered env disk'))"

inductive remote_reach :: "remote_env \<Rightarrow> remote_disk \<Rightarrow> (string \<times> string) list \<Rightarrow> bool" for env where
  reach_empty: "remote_reach env Absent []"
| reach_enroll: "remote_reach env disk issued \<Longrightarrow> enroll env io name roots caps disk = (r, disk') \<Longrightarrow>
    remote_reach env disk' (map (\<lambda>i. (i, ri_token io)) (new_ids env disk disk') @ issued)"
| reach_touch: "remote_reach env disk issued \<Longrightarrow> touch env io i meta disk = (r, disk') \<Longrightarrow> remote_reach env disk' issued"

definition disk_ok :: "remote_disk \<Rightarrow> bool" where
  "disk_ok disk \<longleftrightarrow> disk = Absent \<or> (\<exists>ns. disk = Stored (registry_value ns) \<and> dict_ok ns \<and> registry_ok ns)"

lemma disk_ok_registered:
  assumes "disk_ok disk"
  shows "dict_ok (registered env disk)" "registry_ok (registered env disk)"
    and "ri_reads io \<Longrightarrow> load_nodes env io disk = Inr (registered env disk)"
    and "load_nodes env io disk = Inr ns \<Longrightarrow> ns = registered env disk"
proof -
  consider "disk = Absent" | ns where "disk = Stored (registry_value ns)" "dict_ok ns" "registry_ok ns"
    using assms by (auto simp: disk_ok_def)
  then have "dict_ok (registered env disk) \<and> registry_ok (registered env disk)
    \<and> (ri_reads io \<longrightarrow> load_nodes env io disk = Inr (registered env disk)) \<and> (\<forall>ns. load_nodes env io disk = Inr ns \<longrightarrow> ns = registered env disk)"
  proof cases
    case 1
    then show ?thesis by (simp add: registered_def load_nodes_def registry_ok_def)
  next
    case (2 ns)
    have "validated_registry env (registry_value ns) = Inr (canonical_nodes env ns)" using 2 by (simp add: validated_registry_value)
    then show ?thesis using 2 by (simp add: registered_def load_nodes_def canonical_registry_ok)
  qed
  then show "dict_ok (registered env disk)" "registry_ok (registered env disk)"
    and "ri_reads io \<Longrightarrow> load_nodes env io disk = Inr (registered env disk)"
    and "load_nodes env io disk = Inr ns \<Longrightarrow> ns = registered env disk" by blast+
qed


lemma save_nodes_registered:
  assumes "disk_ok disk" "dict_ok ns" "save_nodes env io ns disk = (r, disk')"
  shows "disk_ok disk'"
    and "disk' = disk \<and> \<not> is_ok r \<or> registry_ok ns \<and> (\<forall>i. map_of (registered env disk') i = map_option (reread_info env) (map_of ns i))"
proof -
  from save_nodes_effect [OF assms(3)]
  have "disk_ok disk' \<and> (disk' = disk \<and> \<not> is_ok r
    \<or> registry_ok ns \<and> (\<forall>i. map_of (registered env disk') i = map_option (reread_info env) (map_of ns i)))"
  proof (elim disjE conjE)
    assume ok: "registry_ok ns" and d: "disk' = Stored (registry_value (stored_nodes (canonical_nodes env ns)))"
    have "registry_ok (stored_nodes (canonical_nodes env ns))" using ok by (simp add: stored_registry_ok canonical_registry_ok)
    then have v: "validated_registry env (registry_value (stored_nodes (canonical_nodes env ns)))
        = Inr (canonical_nodes env (stored_nodes (canonical_nodes env ns)))"
      and "disk_ok disk'"
      using assms(2) d unfolding validated_registry_value disk_ok_def by auto
    moreover have "registered env disk' = canonical_nodes env (stored_nodes (canonical_nodes env ns))"
      by (simp add: registered_def d v)
    ultimately have "disk_ok disk'" "registered env disk' = canonical_nodes env (stored_nodes (canonical_nodes env ns))" by blast+
    with ok show ?thesis using assms(2) by (simp add: map_of_canonical map_of_stored option.map_comp comp_def reread_info_def [abs_def])
  qed (use assms(1) in simp)
  then show "disk_ok disk'"
    and "disk' = disk \<and> \<not> is_ok r \<or> registry_ok ns \<and> (\<forall>i. map_of (registered env disk') i = map_option (reread_info env) (map_of ns i))"
    by blast+
qed

text \<open>What decides about an access; white space around roots does not count.\<close>

definition access :: "node_info \<Rightarrow> string \<times> bool \<times> string list" where
  "access n = (nd_token_hash n, nd_enabled n, nd_capabilities n)"

lemma access_reread [simp]: "access (reread_info env n) = access n"
  by (simp add: access_def canonical_info_def stored_info_def reread_info_def)

lemma access_touched [simp]: "access (touched env io meta n) = access n"
  by (simp add: access_def touched_def Let_def split: pyval.split)

lemma enroll_cases:
  assumes "disk_ok disk" "enroll env io name roots caps disk = (r, disk')"
  shows "disk_ok disk'"
    and "disk' = disk \<and> \<not> is_ok r \<or> (\<exists>info. map_of (registered env disk) (nd_id info) = None \<and> nd_token_hash info = re_sha env (ri_token io)
      \<and> nd_enabled info \<and> node_ok (nd_id info) info \<and> (\<forall>x. r = Inr x \<longrightarrow> x = (info, ri_token io))
      \<and> (\<forall>i. map_of (registered env disk') i
          = map_option (reread_info env) (if i = nd_id info then Some info else map_of (registered env disk) i)))"
proof -
  let ?P = "disk_ok disk' \<and> (disk' = disk \<and> \<not> is_ok r \<or> (\<exists>info. map_of (registered env disk) (nd_id info) = None
      \<and> nd_token_hash info = re_sha env (ri_token io) \<and> nd_enabled info \<and> node_ok (nd_id info) info \<and> (\<forall>x. r = Inr x \<longrightarrow> x = (info, ri_token io))
      \<and> (\<forall>i. map_of (registered env disk') i
          = map_option (reread_info env) (if i = nd_id info then Some info else map_of (registered env disk) i))))"
  have ?P
  proof (cases "rbind (enroll_name name) (\<lambda>n. rbind (enroll_capabilities caps) (\<lambda>cs. rbind (enroll_roots roots) (\<lambda>rs. Inr (n, cs, rs))))")
    case (Inl e)
    then show ?thesis using assms by (auto simp: enroll_def)
  next
    case (Inr args)
    obtain n cs rs where args: "args = (n, cs, rs)" by (rule prod_cases3)
    show ?thesis
    proof (cases "ri_locks io \<and> load_nodes env io disk = Inr (registered env disk) \<and> length (registered env disk) < max_nodes")
      case False
      have "load_nodes env io disk = Inr ns \<Longrightarrow> ns = registered env disk" for ns by (rule disk_ok_registered(4) [OF assms(1)])
      with False show ?thesis using assms Inr args
        by (cases "load_nodes env io disk") (auto simp: enroll_def registry_transaction_def split: if_splits)
    next
      case True
      let ?ns = "registered env disk"
      define info where "info = enrolled_node env io n cs rs (map fst ?ns)"
      have "enroll env io name roots caps disk = (case save_nodes env io (dset (nd_id info) info ?ns) disk of
          (Inl e, disk') \<Rightarrow> (Inl e, disk') | (Inr _, disk') \<Rightarrow> (Inr (info, ri_token io), disk'))"
      proof -
        have t: "ri_locks io" "load_nodes env io disk = Inr ?ns" "\<not> max_nodes \<le> length ?ns" using True by simp_all
        show ?thesis by (simp only: enroll_def registry_transaction_def Inr args info_def Let_def t if_True if_False sum.case prod.case)
      qed
      then have e: "(r, disk') = (case save_nodes env io (dset (nd_id info) info ?ns) disk of
          (Inl e, disk') \<Rightarrow> (Inl e, disk') | (Inr _, disk') \<Rightarrow> (Inr (info, ri_token io), disk'))" using assms(2) by simp
      obtain r1 d1 where s1: "save_nodes env io (dset (nd_id info) info ?ns) disk = (r1, d1)" by (rule prod.exhaust)
      have "d1 = disk'" and r: "r = (case r1 of Inl e \<Rightarrow> Inl e | Inr _ \<Rightarrow> Inr (info, ri_token io))"
        using e unfolding s1 by (cases r1; simp)+
      with s1 have s: "save_nodes env io (dset (nd_id info) info ?ns) disk = (r1, disk')" by simp
      have d: "dict_ok (dset (nd_id info) info ?ns)" using disk_ok_registered(1) [OF assms(1)] by blast
      have fresh: "map_of ?ns (nd_id info) = None"
        using fresh_id_fresh [of "node_slug n" "map fst ?ns"] by (simp add: map_of_eq_None_iff info_def enrolled_node_def)
      have f: "nd_token_hash info = re_sha env (ri_token io)" "nd_enabled info" by (simp_all add: info_def enrolled_node_def)
      from save_nodes_registered(2) [OF assms(1) d s] have ?thesis if "\<not> (disk' = disk \<and> \<not> is_ok r1)"
      proof -
        have ok: "registry_ok (dset (nd_id info) info ?ns)"
          and m: "\<forall>i. map_of (registered env disk') i = map_option (reread_info env) (map_of (dset (nd_id info) info ?ns) i)"
          using save_nodes_registered(2) [OF assms(1) d s] that by blast+
        have "(nd_id info, info) \<in> set (dset (nd_id info) info ?ns)" using d by (simp add: dict_ok_map_of)
        then have "node_ok (nd_id info) info" using ok by (auto simp: registry_ok_def list_all_iff)
        with fresh f m r save_nodes_registered(1) [OF assms(1) d s] show ?thesis
          by (intro conjI disjI2 exI [of _ info]) (simp_all split: sum.splits)
      qed
      moreover have ?thesis if "disk' = disk \<and> \<not> is_ok r1" using that r assms(1) by (cases r1) auto
      ultimately show ?thesis by blast
    qed
  qed
  then show "disk_ok disk'"
    and "disk' = disk \<and> \<not> is_ok r \<or> (\<exists>info. map_of (registered env disk) (nd_id info) = None \<and> nd_token_hash info = re_sha env (ri_token io)
      \<and> nd_enabled info \<and> node_ok (nd_id info) info \<and> (\<forall>x. r = Inr x \<longrightarrow> x = (info, ri_token io))
      \<and> (\<forall>i. map_of (registered env disk') i
          = map_option (reread_info env) (if i = nd_id info then Some info else map_of (registered env disk) i)))"
    by blast+
qed

text \<open>What the node of a successful enrollment was given.\<close>

lemma roots_stripped: "enroll_roots v = Inr rs \<Longrightarrow> map py_strip rs = rs"
  by (auto simp: enroll_roots_def Let_def split: pyval.splits option.splits if_splits intro!: map_idI)

lemma enroll_result:
  assumes "enroll env io name roots caps disk = (Inr (info, token), disk')"
  shows "enroll_name name = Inr (nd_name info) \<and> enroll_capabilities caps = Inr (nd_capabilities info) \<and> enroll_roots roots = Inr (nd_roots info)"
proof (cases "rbind (enroll_name name) (\<lambda>n. rbind (enroll_capabilities caps) (\<lambda>cs. rbind (enroll_roots roots) (\<lambda>rs. Inr (n, cs, rs))))")
  case (Inl e)
  then show ?thesis using assms by (simp add: enroll_def)
next
  case (Inr args)
  obtain n cs rs where args: "args = (n, cs, rs)" by (rule prod_cases3)
  have "enroll_name name = Inr n" "enroll_capabilities caps = Inr cs" "enroll_roots roots = Inr rs"
    using Inr args by (auto simp: rbind_def split: sum.splits)
  moreover have "\<exists>ks. info = enrolled_node env io n cs rs ks"
    using assms Inr args by (auto simp: enroll_def registry_transaction_def Let_def split: sum.splits if_splits prod.splits)
  ultimately show ?thesis by (auto simp: enrolled_node_def)
qed

lemma enroll_lookup:
  assumes "disk_ok disk" "enroll env io name roots caps disk = (r, disk')" "map_of (registered env disk') i = Some n"
  shows "(\<exists>m. map_of (registered env disk) i = Some m \<and> access m = access n)
    \<or> map_of (registered env disk) i = None \<and> nd_token_hash n = re_sha env (ri_token io)"
  using enroll_cases(2) [OF assms(1,2)]
proof (elim disjE exE conjE)
  fix info
  assume h: "map_of (registered env disk) (nd_id info) = None" "nd_token_hash info = re_sha env (ri_token io)"
    and m: "\<forall>i. map_of (registered env disk') i
        = map_option (reread_info env) (if i = nd_id info then Some info else map_of (registered env disk) i)"
  have e: "map_option (reread_info env) (if i = nd_id info then Some info else map_of (registered env disk) i) = Some n"
    using m assms(3) by metis
  show ?thesis
  proof (cases "i = nd_id info")
    case True
    then have "n = reread_info env info" using e by simp
    then show ?thesis using True h by (simp add: reread_info_def stored_info_def canonical_info_def)
  next
    case False
    then obtain m where "map_of (registered env disk) i = Some m" "n = reread_info env m" using e by auto
    then show ?thesis by simp
  qed
qed (use assms(3) in blast)

lemma touch_cases:
  assumes "disk_ok disk" "touch env io i meta disk = (r, disk')"
  shows "disk_ok disk'"
    and "map_option access (map_of (registered env disk') j) = map_option access (map_of (registered env disk) j)"
proof -
  let ?P = "disk_ok disk' \<and> (\<forall>j. map_option access (map_of (registered env disk') j) = map_option access (map_of (registered env disk) j))"
  have ?P
  proof (cases "ri_locks io \<and> load_nodes env io disk = Inr (registered env disk)")
    case False
    have "load_nodes env io disk = Inr ns \<Longrightarrow> ns = registered env disk" for ns by (rule disk_ok_registered(4) [OF assms(1)])
    with False show ?thesis using assms
      by (cases "load_nodes env io disk") (auto simp: touch_def registry_transaction_def split: if_splits)
  next
    case True
    let ?ns = "registered env disk"
    show ?thesis
    proof (cases "map_of ?ns i")
      case None
      then show ?thesis using assms True by (simp add: touch_def registry_transaction_def)
    next
      case (Some n)
      then have s: "save_nodes env io (dset i (touched env io meta n) ?ns) disk = (r, disk')"
        using assms(2) True by (simp add: touch_def registry_transaction_def)
      have d: "dict_ok (dset i (touched env io meta n) ?ns)" using disk_ok_registered(1) [OF assms(1)] by blast
      from save_nodes_registered(2) [OF assms(1) d s]
      have "map_option access (map_of (registered env disk') j) = map_option access (map_of ?ns j)" for j
        using Some by (auto simp: option.map_comp comp_def)
      with save_nodes_registered(1) [OF assms(1) d s] show ?thesis by blast
    qed
  qed
  then show "disk_ok disk'"
    and "map_option access (map_of (registered env disk') j) = map_option access (map_of (registered env disk) j)" by blast+
qed

lemma reach_disk_ok: "remote_reach env disk issued \<Longrightarrow> disk_ok disk"
proof (induction rule: remote_reach.induct)
  case reach_empty
  show ?case by (simp add: disk_ok_def)
qed (blast intro: enroll_cases(1) touch_cases(1))+

lemma reach_issued:
  "remote_reach env disk issued \<Longrightarrow> map_of (registered env disk) i = Some n \<Longrightarrow> \<exists>t. (i, t) \<in> set issued \<and> nd_token_hash n = re_sha env t"
proof (induction arbitrary: i n rule: remote_reach.induct)
  case reach_empty
  then show ?case by (simp add: registered_def)
next
  case (reach_enroll disk issued io name roots caps r disk')
  note ok = reach_disk_ok [OF reach_enroll.hyps(1)]
  from enroll_lookup [OF ok reach_enroll.hyps(2) reach_enroll.prems] show ?case
  proof (elim disjE exE conjE)
    fix m assume "map_of (registered env disk) i = Some m" "access m = access n"
    with reach_enroll.IH show ?thesis by (fastforce simp: access_def)
  next
    assume h: "map_of (registered env disk) i = None" "nd_token_hash n = re_sha env (ri_token io)"
    have "i \<notin> set (map fst (registered env disk))" using h(1) by (simp add: map_of_eq_None_iff)
    moreover have "i \<in> set (map fst (registered env disk'))" using reach_enroll.prems by (metis map_of_eq_None_iff option.distinct(1) set_map)
    ultimately have "i \<in> set (new_ids env disk disk')" by (simp add: new_ids_def)
    with h(2) show ?thesis by auto
  qed
next
  case (reach_touch disk issued io j meta r disk')
  have "map_option access (map_of (registered env disk) i) = Some (access n)"
    using touch_cases(2) [OF reach_disk_ok [OF reach_touch.hyps(1)] reach_touch.hyps(2), of i] reach_touch.prems by simp
  then obtain m where "map_of (registered env disk) i = Some m" "nd_token_hash m = nd_token_hash n" by (auto simp: access_def)
  with reach_touch.IH show ?case by metis
qed


section \<open>Redaction\<close>

text \<open>A value with everything under a sensitive key removed; keys count with their first 120 characters.\<close>

fun blanked :: "pyval \<Rightarrow> pyval" where
  "blanked (PDict d) = PDict (map (\<lambda>p. (fst p, if sensitive (take 120 (fst p)) then PNone else blanked (snd p))) d)"
| "blanked (PList xs) = PList (map blanked xs)"
| "blanked v = v"

lemma audit_sensitive: "sensitive k \<Longrightarrow> audit_value env k depth v b = audit_value env k depth w b"
  by (simp add: audit_value.simps)

lemma audit_blanked:
  "audit_value env k depth (blanked v) b = audit_value env k depth v b"
  "audit_items env depth n (map blanked xs) b = audit_items env depth n xs b"
  "audit_entries env depth n (map (\<lambda>p. (fst p, if sensitive (take 120 (fst p)) then PNone else blanked (snd p))) ps) out b
     = audit_entries env depth n ps out b"
proof (induction env k depth v b and env depth n xs b and env depth n ps out b
    rule: audit_value_audit_items_audit_entries.induct)
  case (1 env k depth v b)
  show ?case
  proof (cases "b = 0 \<or> max_audit_depth < depth \<or> sensitive k")
    case True
    then show ?thesis by (auto simp: audit_value.simps)
  next
    case False
    then show ?thesis using 1 by (cases v) (simp_all add: audit_value.simps [of env k depth])
  qed
next
  case (3 env depth n x xs b)
  show ?case
  proof (cases n)
    case (Suc m)
    obtain y b1 where y: "audit_value env [] depth x b = (y, b1)" by (rule prod.exhaust)
    show ?thesis using 3 Suc y by (simp add: case_prod_beta)
  qed simp
next
  case (5 env depth n k x xs out b)
  show ?case
  proof (cases n)
    case (Suc m)
    obtain y b1 where y: "audit_value env (take 120 k) depth x b = (y, b1)" by (rule prod.exhaust)
    have "audit_value env (take 120 k) depth (if sensitive (take 120 k) then PNone else blanked x) b = (y, b1)"
      using 5(1) Suc y audit_sensitive [of "take 120 k" env depth PNone b x] by simp
    then show ?thesis using 5(2) [OF _ y [symmetric] refl] Suc y
      by (simp only: list.map fst_conv snd_conv) (simp split del: if_split)
  qed simp
qed simp_all

lemma audited_blanked: "blanked v = blanked w \<Longrightarrow> audited env v = audited env w"
  unfolding audited_def by (metis audit_blanked(1))

section \<open>The audit log\<close>

definition log_bytes :: "jobs \<Rightarrow> string" where
  "log_bytes j = concat (jb_archives j) @ (case jb_current j of Regular_file s \<Rightarrow> s | _ \<Rightarrow> [])"

definition log_bounded :: "jobs \<Rightarrow> bool" where
  "log_bounded j \<longleftrightarrow> (case jb_current j of Regular_file s \<Rightarrow> length s \<le> max_audit_file | _ \<Rightarrow> True)"

lemma write_rest_effect:
  assumes "write_rest io k rest j = (r, j')" "jb_current j = Regular_file s"
  shows "\<exists>x y. rest = x @ y \<and> jb_archives j' = jb_archives j \<and> jb_current j' = Regular_file (s @ x) \<and> (is_ok r \<longrightarrow> y = [])"
  using assms
proof (induction io k rest j arbitrary: r j' s rule: write_rest.induct)
  case (1 io k rest j)
  show ?case
  proof (cases "rest = []")
    case True
    with "1.prems" show ?thesis by (auto simp: write_rest.simps)
  next
    case ne: False
    show ?thesis
    proof (cases "jo_writes io k")
      case None
      with "1.prems" ne show ?thesis by (auto simp: write_rest.simps)
    next
      case (Some n)
      show ?thesis
      proof (cases "n = 0")
        case True
        with "1.prems" ne Some show ?thesis by (auto simp: write_rest.simps)
      next
        case False
        have "write_rest io (Suc k) (drop n rest) (add_bytes (take n rest) j) = (r, j')"
          using "1.prems"(1) ne Some False by (simp add: write_rest.simps [of io k])
        moreover have "jb_current (add_bytes (take n rest) j) = Regular_file (s @ take n rest)" using "1.prems"(2) by (simp add: add_bytes_def)
        ultimately obtain x y where "drop n rest = x @ y" "jb_archives j' = jb_archives (add_bytes (take n rest) j)"
          "jb_current j' = Regular_file ((s @ take n rest) @ x)" "is_ok r \<longrightarrow> y = []"
          using "1.IH" [OF ne Some False] by blast
        moreover have "rest = (take n rest @ x) @ y" using calculation(1) by (metis append_assoc append_take_drop_id)
        ultimately show ?thesis by (intro exI [of _ "take n rest @ x"] exI [of _ y]) (simp add: add_bytes_def)
      qed
    qed
  qed
qed

lemma append_job_line_effect:
  assumes "append_job_line io payload j = (r, j')" "length payload \<le> max_audit_line"
  shows "\<exists>x y. payload = x @ y \<and> log_bytes j' = log_bytes j @ x \<and> (is_ok r \<longrightarrow> y = []) \<and> (log_bounded j \<longrightarrow> log_bounded j')"
proof (cases "jo_opens io \<and> jb_current j \<noteq> Other_file")
  case False
  then have "\<not> is_ok r" "j' = j" using assms(1) by (cases "jo_opens io"; auto simp: append_job_line_def)+
  then show ?thesis by (intro exI [of _ "[]"] exI [of _ payload]) simp
next
  case True
  define s where "s = (case jb_current j of Regular_file s \<Rightarrow> s | _ \<Rightarrow> [])"
  let ?j1 = "j\<lparr>jb_current := Regular_file s\<rparr>"
  have b: "log_bytes j = concat (jb_archives j) @ s" by (simp add: log_bytes_def s_def)
  have bd: "log_bounded j = (length s \<le> max_audit_file)" by (simp add: log_bounded_def s_def split: job_file.split)
  have e: "append_job_line io payload j =
      (if max_audit_file < length s + length payload then
         if \<not> jo_renames io then (Inl (OSError ''replace''), ?j1)
         else if \<not> jo_reopens io then (Inl (OSError ''open''), ?j1\<lparr>jb_archives := jb_archives ?j1 @ [s], jb_current := No_file\<rparr>)
         else write_rest io 0 payload (?j1\<lparr>jb_archives := jb_archives ?j1 @ [s], jb_current := Regular_file []\<rparr>)
       else write_rest io 0 payload ?j1)"
    using True by (cases "jb_current j") (simp_all add: append_job_line_def s_def Let_def)
  show ?thesis
  proof (cases "max_audit_file < length s + length payload")
    case False
    then have "write_rest io 0 payload ?j1 = (r, j')" using assms(1) e by simp
    from write_rest_effect [OF this, of s] obtain x y where "payload = x @ y" "jb_archives j' = jb_archives j"
      "jb_current j' = Regular_file (s @ x)" "is_ok r \<longrightarrow> y = []" by auto
    with False b bd show ?thesis by (intro exI [of _ x] exI [of _ y]) (auto simp: log_bytes_def log_bounded_def)
  next
    case full: True
    let ?j2 = "?j1\<lparr>jb_archives := jb_archives ?j1 @ [s], jb_current := Regular_file []\<rparr>"
    show ?thesis
    proof (cases "jo_renames io \<and> jo_reopens io")
      case False
      then have "\<not> is_ok r" "log_bytes j' = log_bytes j" "log_bounded j \<longrightarrow> log_bounded j'"
        using assms(1) full b bd unfolding e by (auto simp: log_bytes_def log_bounded_def split: if_splits)
      then show ?thesis by (intro exI [of _ "[]"] exI [of _ payload]) simp
    next
      case True
      then have "write_rest io 0 payload ?j2 = (r, j')" using assms(1) full e by simp
      from write_rest_effect [OF this, of "[]"] obtain x y where p: "payload = x @ y" "jb_archives j' = jb_archives j @ [s]"
        "jb_current j' = Regular_file x" "is_ok r \<longrightarrow> y = []" by auto
      have "length x \<le> max_audit_file" using p(1) assms(2) by (simp add: max_audit_line_def max_audit_file_def)
      with p b show ?thesis by (intro exI [of _ x] exI [of _ y]) (auto simp: log_bytes_def log_bounded_def)
    qed
  qed
qed

section \<open>Properties\<close>

text \<open>
  C13 Only issued tokens authenticate. In every history of enrollments and heartbeats of any number of processes, with any
  failure of the lock, of reading or of the replacement of the file: who is let in as a node presents the token that was
  drawn when exactly this node was enrolled, provided no token of the node collides with it under the digest.\<close>

theorem authenticate_only_issued:
  assumes "remote_reach env disk issued" "authenticate env io i token disk = (Inr (Some n), disk')"
    and "\<forall>t. (i, t) \<in> set issued \<longrightarrow> re_sha env t = re_sha env token \<longrightarrow> t = token"
  shows "(i, token) \<in> set issued \<and> nd_enabled n \<and> set (nd_capabilities n) \<subseteq> set default_capabilities"
proof -
  have ok: "disk_ok disk" by (rule reach_disk_ok [OF assms(1)])
  have "\<exists>d. get_node env io i disk = (Inr (Some n), d)" and n: "nd_enabled n" "nd_token_hash n = re_sha env token"
    using assms(2) by (auto simp: authenticate_def split: if_splits prod.splits sum.splits option.splits)
  then obtain ns where "load_nodes env io disk = Inr ns" "map_of ns i = Some n"
    by (auto simp: get_node_def registry_transaction_def split: if_splits)
  then have m: "map_of (registered env disk) i = Some n" using disk_ok_registered(4) [OF ok] by blast
  then obtain t where "(i, t) \<in> set issued" "nd_token_hash n = re_sha env t" using reach_issued [OF assms(1)] by blast
  then have "(i, token) \<in> set issued" using assms(3) n(2) by auto
  moreover have "node_ok i n" using disk_ok_registered(2) [OF ok, of env] map_of_SomeD [OF m] by (auto simp: registry_ok_def list_all_iff)
  ultimately show ?thesis using n(1) by (simp add: node_ok_def capabilities_ok_def)
qed

text \<open>
  C16 An enrolled node gets in. After a successful enrollment under a new id the returned token authenticates the new, enabled node
  with exactly the capabilities and root directories that were asked for (the defaults where none were given, without repetitions
  and white space), for any process that gets the lock and can read the file, and every other node keeps its digest, its
  capabilities and whether it is enabled. A drawn token is a text without white space of at most 4096 characters.\<close>

theorem enrolled_node_authenticates:
  assumes "remote_reach env disk issued" "enroll env io name roots caps disk = (Inr (info, token), disk')"
    and "token_shape_ok token" "ri_locks io'" "ri_reads io'"
  shows "(\<exists>n. authenticate env io' (nd_id info) token disk' = (Inr (Some n), disk') \<and> access n = access info \<and> nd_enabled n
        \<and> enroll_capabilities caps = Inr (nd_capabilities n) \<and> enroll_roots roots = Inr (nd_roots n))
    \<and> map_of (registered env disk) (nd_id info) = None
    \<and> (\<forall>j. j \<noteq> nd_id info \<longrightarrow> map_option access (map_of (registered env disk') j) = map_option access (map_of (registered env disk) j))"
proof -
  have ok: "disk_ok disk" by (rule reach_disk_ok [OF assms(1)])
  note E = enroll_cases [OF ok assms(2)]
  note A = enroll_result [OF assms(2)]
  have i: "nd_token_hash info = re_sha env token" "nd_enabled info" "node_ok (nd_id info) info" "map_of (registered env disk) (nd_id info) = None"
    and m: "\<And>i. map_of (registered env disk') i
      = map_option (reread_info env) (if i = nd_id info then Some info else map_of (registered env disk) i)"
    using E(2) by auto
  have l: "load_nodes env io' disk' = Inr (registered env disk')" by (rule disk_ok_registered(3) [OF E(1) assms(5)])
  let ?n = "reread_info env info"
  have "map_of (registered env disk') (nd_id info) = Some ?n" using m [of "nd_id info"] by simp
  then have "get_node env io' (nd_id info) disk' = (Inr (Some ?n), disk')"
    using i(3) l assms(4) by (simp add: get_node_def registry_transaction_def node_ok_def)
  moreover have "nd_enabled ?n" "nd_token_hash ?n = re_sha env token" "nd_capabilities ?n = nd_capabilities info"
    using i by (simp_all add: reread_info_def stored_info_def canonical_info_def)
  ultimately have "authenticate env io' (nd_id info) token disk' = (Inr (Some ?n), disk')" using assms(3) by (simp add: authenticate_def)
  moreover have "map_option access (map_of (registered env disk') j) = map_option access (map_of (registered env disk) j)" if "j \<noteq> nd_id info" for j
    using m [of j] that by (simp add: option.map_comp comp_def)
  moreover have "nd_enabled ?n" "nd_capabilities ?n = nd_capabilities info"
    using i(2) by (simp_all add: reread_info_def stored_info_def canonical_info_def)
  moreover have "nd_roots ?n = nd_roots info" using A roots_stripped [of roots "nd_roots info"] by (simp add: reread_info_def stored_info_def canonical_info_def comp_def)
  ultimately show ?thesis using A i(4) by auto
qed

text \<open>
  The registry never locks itself out. Whatever enrollments and heartbeats succeeded or failed, the file that is left
  passes the checks of the next reader, with distinct valid ids and within the limit of nodes; a heartbeat changes
  no node's digest, capabilities or whether it is enabled.\<close>

lemma registry_always_loads:
  assumes "remote_reach env disk issued" "ri_reads io"
  shows "(\<exists>ns. load_nodes env io disk = Inr ns \<and> distinct (map fst ns) \<and> length ns \<le> max_nodes \<and> list_all (\<lambda>(i, n). node_ok i n) ns)
    \<and> (\<forall>j. map_option access (map_of (registered env (snd (touch env io i meta disk))) j) = map_option access (map_of (registered env disk) j))"
proof -
  have ok: "disk_ok disk" by (rule reach_disk_ok [OF assms(1)])
  have "map_option access (map_of (registered env (snd (touch env io i meta disk))) j) = map_option access (map_of (registered env disk) j)" for j
    by (rule touch_cases(2) [OF ok]) (rule surjective_pairing)
  with disk_ok_registered(1,2) [OF ok, of env] disk_ok_registered(3) [OF ok assms(2)] show ?thesis by (simp add: dict_ok_def registry_ok_def)
qed

text \<open>
  C17 Secrets are not recorded. The record of a job does not depend on what the job and its result hold under sensitive
  keys, at any depth: two jobs that differ only there leave the same audit log.\<close>

theorem job_record_hides_secrets:
  assumes "blanked job = blanked job'" "blanked result = blanked result'"
  shows "record_job env io line now i job result j = record_job env io line now i job' result' j"
  using audited_blanked [OF assms(1)] audited_blanked [OF assms(2)] by (simp add: record_job_def job_record_def)

text \<open>
  The audit log only grows. Archives and current file together, a recorded job appends exactly its line, also when the
  log is rotated; a call that fails appends at most a beginning of the line, and the current file stays within its
  limit.\<close>

lemma job_log_only_grows:
  assumes "record_job env io line now i job result j = (r, j')"
  shows "\<exists>x y. line (job_record env now i job result) = x @ y \<and> log_bytes j' = log_bytes j @ x \<and> (is_ok r \<longrightarrow> y = [])
    \<and> (log_bounded j \<longrightarrow> log_bounded j')"
proof (cases "length (line (job_record env now i job result)) \<le> max_audit_line \<and> jo_locks io")
  case True
  then have "append_job_line io (line (job_record env now i job result)) j = (r, j')" using assms by (simp add: record_job_def)
  with append_job_line_effect True show ?thesis by blast
next
  case False
  then have "\<not> is_ok r" "j' = j" using assms by (auto simp: record_job_def Let_def split: if_splits)
  then show ?thesis by (intro exI [of _ "[]"] exI [of _ "line (job_record env now i job result)"]) simp
qed


section \<open>Examples\<close>

definition demo_remote :: remote_env where
  "demo_remote = \<lparr>re_redact = id, re_mark = ''...'',
     re_sha = (\<lambda>t. replicate 64 (if t = ''nxn_a'' then CHR ''a'' else CHR ''b'')), re_bytes = length\<rparr>"

definition demo_remote_call :: remote_io where
  "demo_remote_call = \<lparr>ri_locks = True, ri_reads = True, ri_now = 5, ri_token = ''nxn_a'', ri_write = Written, ri_size = \<lambda>v. 100\<rparr>"

definition demo_node :: node_info where
  "demo_node = \<lparr>nd_id = ''box'', nd_name = ''box'', nd_token_hash = replicate 64 (CHR ''a''), nd_capabilities = [''read''], nd_roots = [''/srv''],
     nd_enabled = True, nd_created = 5, nd_last_seen = None, nd_meta = []\<rparr>"

definition demo_registry :: remote_disk where
  "demo_registry = Stored (registry_value [(''box'', demo_node)])"

lemma demo_node_ok: "node_ok ''box'' demo_node" "canonical_info demo_remote demo_node = demo_node"
proof -
  have "audit_meta demo_remote [] = []"
    by (simp add: audit_meta_def audited_def audit_value.simps sensitive_def normalized_key_def py_lower_def sensitive_keys_def suffix_of_def
        audit_budget_def)
  then show "canonical_info demo_remote demo_node = demo_node"
    by (simp add: canonical_info_def demo_node_def collapse_spaces_def is_space_def py_strip_def)
  show "node_ok ''box'' demo_node"
    by (simp add: node_ok_def demo_node_def node_id_ok_def node_char_def py_strip_def is_space_def token_hash_ok_def hex_char_def
        list_all_iff capabilities_ok_def default_capabilities_def max_roots_def root_ok_def max_root_chars_def)
qed

lemma demo_slug: "node_slug ''box'' = ''box''"
  by (simp add: node_slug_def py_lower_def lower_char_def alnum_def strip_dashes_def)

lemma demo_enroll:
  "enroll demo_remote demo_remote_call (PStr ''box'') (PList [PStr ''/srv'']) (PList [PStr ''read'']) Absent = (Inr (demo_node, ''nxn_a''), demo_registry)"
proof -
  have args: "enroll_name (PStr ''box'') = Inr ''box''" "enroll_capabilities (PList [PStr ''read'']) = Inr [''read'']"
    "enroll_roots (PList [PStr ''/srv'']) = Inr [''/srv'']"
    by (simp_all add: enroll_name_def collapse_spaces_def is_space_def enroll_capabilities_def default_capabilities_def enroll_roots_def
        py_strip_def max_roots_def max_root_chars_def)
  have node: "enrolled_node demo_remote demo_remote_call ''box'' [''read''] [''/srv''] [] = demo_node"
    by (simp add: enrolled_node_def demo_slug fresh_id_def demo_node_def demo_remote_def demo_remote_call_def)
  have "validated_registry demo_remote (registry_value [(''box'', demo_node)]) = Inr [(''box'', demo_node)]"
    by (simp add: validated_registry_value registry_ok_def demo_node_ok canonical_nodes_def max_nodes_def)
  moreover have "stored_nodes [(''box'', demo_node)] = [(''box'', demo_node)]" by (simp add: stored_nodes_def stored_info_def demo_node_def)
  ultimately have "save_nodes demo_remote demo_remote_call [(''box'', demo_node)] Absent = (Inr (), demo_registry)"
    by (simp add: save_nodes_def max_registry_bytes_def demo_remote_call_def demo_registry_def)
  moreover have "nd_id demo_node = ''box''" by (simp add: demo_node_def)
  moreover have "ri_locks demo_remote_call" "ri_token demo_remote_call = ''nxn_a''" by (simp_all add: demo_remote_call_def)
  ultimately show ?thesis by (simp add: enroll_def args registry_transaction_def load_nodes_def max_nodes_def node)
qed

lemma demo_history: "remote_reach demo_remote demo_registry [(''box'', ''nxn_a'')]"
proof -
  have "registered demo_remote demo_registry = [(''box'', demo_node)]"
    by (simp add: registered_def demo_registry_def validated_registry_value [THEN iffD2, of _ "[(''box'', demo_node)]"] registry_ok_def demo_node_ok
        canonical_nodes_def max_nodes_def)
  then have "new_ids demo_remote Absent demo_registry = [''box'']" by (simp add: new_ids_def registered_def)
  with reach_enroll [OF reach_empty demo_enroll] show ?thesis by (simp add: demo_remote_call_def)
qed

lemma demo_token_shape: "token_shape_ok ''nxn_a''"
  by (simp add: token_shape_ok_def is_space_def)

lemma demo_access: "\<exists>n. authenticate demo_remote demo_remote_call ''box'' ''nxn_a'' demo_registry = (Inr (Some n), demo_registry)"
proof -
  have "load_nodes demo_remote demo_remote_call demo_registry = Inr [(''box'', demo_node)]"
    by (simp add: load_nodes_def demo_registry_def demo_remote_call_def validated_registry_value [THEN iffD2, of _ "[(''box'', demo_node)]"]
        registry_ok_def demo_node_ok canonical_nodes_def max_nodes_def)
  then show ?thesis
    using demo_token_shape by (simp add: authenticate_def get_node_def registry_transaction_def demo_remote_call_def demo_remote_def node_id_ok_def node_char_def demo_node_def)
qed

theorem authenticate_only_issued_witness:
  "\<exists>n. authenticate demo_remote demo_remote_call ''box'' ''nxn_a'' demo_registry = (Inr (Some n), demo_registry) \<and> nd_enabled n"
proof -
  obtain n where n: "authenticate demo_remote demo_remote_call ''box'' ''nxn_a'' demo_registry = (Inr (Some n), demo_registry)" using demo_access by blast
  from authenticate_only_issued [OF demo_history n] n show ?thesis by simp
qed

theorem enrolled_node_authenticates_witness:
  "\<exists>n. authenticate demo_remote demo_remote_call ''box'' ''nxn_a'' demo_registry = (Inr (Some n), demo_registry) \<and> nd_capabilities n = [''read'']"
  using enrolled_node_authenticates [OF reach_empty demo_enroll demo_token_shape, of demo_remote_call]
  by (auto simp: demo_remote_call_def access_def demo_node_def)

lemma registry_always_loads_witness: "\<exists>ns. load_nodes demo_remote demo_remote_call demo_registry = Inr ns \<and> length ns \<le> max_nodes"
proof -
  have "ri_reads demo_remote_call" by (simp add: demo_remote_call_def)
  from registry_always_loads [OF demo_history this] show ?thesis by blast
qed

definition demo_log :: jobs where
  "demo_log = \<lparr>jb_current = Regular_file ''one'', jb_archives = []\<rparr>"

definition demo_job_io :: job_io where
  "demo_job_io = \<lparr>jo_locks = True, jo_opens = True, jo_renames = True, jo_reopens = True, jo_writes = \<lambda>k. Some 2\<rparr>"

theorem job_record_hides_secrets_witness:
  "record_job demo_remote demo_job_io (\<lambda>v. ''two'') 5 ''box'' (PDict [(''api-token'', PStr ''s3cret'')]) PNone demo_log
     = record_job demo_remote demo_job_io (\<lambda>v. ''two'') 5 ''box'' (PDict [(''api-token'', PStr ''other'')]) PNone demo_log"
proof -
  have "sensitive ''api-token''"
    by (simp add: sensitive_def normalized_key_def py_lower_def lower_char_def suffix_of_def)
  then have "blanked (PDict [(''api-token'', PStr ''s3cret'')]) = blanked (PDict [(''api-token'', PStr ''other'')])" by simp
  from job_record_hides_secrets [OF this refl] show ?thesis .
qed

lemma job_log_only_grows_witness:
  "\<exists>x. log_bytes (snd (record_job demo_remote demo_job_io (\<lambda>v. ''two'') 5 ''box'' PNone PNone demo_log)) = ''one'' @ x"
proof -
  have "log_bytes demo_log = ''one''" by (simp add: log_bytes_def demo_log_def)
  with job_log_only_grows [OF surjective_pairing, where env = demo_remote and io = demo_job_io and line = "\<lambda>v. ''two''" and now = 5
      and i = "''box''" and job = PNone and result = PNone and j = demo_log]
  show ?thesis by auto
qed

text \<open>
  A name that begins with an underscore passes the checks of \<open>enroll\<close>, but its id is none that the registry accepts: the call
  fails as if the registry were corrupt.\<close>

lemma underscore_name_rejected:
  assumes "ri_locks io"
  shows "enroll env io (PStr ''_x'') PNone PNone Absent = (Inl (registry_corrupt ''contains an invalid node id''), Absent)"
proof -
  have slug: "node_slug ''_x'' = ''_x''" by (simp add: node_slug_def py_lower_def lower_char_def alnum_def strip_dashes_def)
  have args: "enroll_name (PStr ''_x'') = Inr ''_x''" "enroll_capabilities PNone = Inr default_capabilities" "enroll_roots PNone = Inr []"
    by (simp_all add: enroll_name_def collapse_spaces_def is_space_def enroll_capabilities_def enroll_roots_def)
  have i: "nd_id (enrolled_node env io ''_x'' default_capabilities [] []) = ''_x''" by (simp add: enrolled_node_def slug fresh_id_def)
  have "validated_registry env (registry_value [(''_x'', n)]) = Inl (registry_corrupt ''contains an invalid node id'')" for n
    by (simp add: validated_registry_def registry_value_def get_or_def max_nodes_def validated_node_def node_id_ok_def node_char_def)
  then have "save_nodes env io [(''_x'', n)] Absent = (Inl (registry_corrupt ''contains an invalid node id''), Absent)" for n
    by (simp add: save_nodes_def)
  then show ?thesis using assms by (simp add: enroll_def args registry_transaction_def load_nodes_def max_nodes_def i)
qed

end
