(* ===== verification/Reminders.thy ===== *)
theory Reminders
  imports Atomic Multi_Agent "HOL-Library.List_Lexorder" "HOL-Library.Char_ord"
begin

text \<open>
  The reminders of \<open>norax/runtime/reminders.py\<close>: one JSON file per reminder, scheduled by a call and delivered by a tick that
  walks the files in the order of their names, migrates old records, sends what is due and writes the outcome back. Times
  are seconds (\<^typ>\<open>real\<close>); reading and printing ISO dates, integer literals, \<open>str\<close> of a value and the size of a JSON text
  (an error where \<open>json.dumps\<close> refuses the value, as it does for NaN) are parameters.
\<close>

section \<open>Files\<close>

definition max_reminder_bytes :: nat where "max_reminder_bytes = 65536"
definition max_reminder_files :: nat where "max_reminder_files = 4096"
definition max_reminder_text :: nat where "max_reminder_text = 16384"
definition max_route_chars :: nat where "max_route_chars = 256"

text \<open>A directory entry: a regular file with a JSON value, one that does not parse or is too large, or no regular file.\<close>

datatype rfile = Json pyval | Broken | Not_file

type_synonym rdir = "(string, rfile) dict"

definition name_char :: "char \<Rightarrow> bool" where
  "name_char c = (let n = (of_char c :: nat) in (65 \<le> n \<and> n \<le> 90) \<or> (97 \<le> n \<and> n \<le> 122) \<or> (48 \<le> n \<and> n \<le> 57) \<or> n = 95 \<or> n = 45)"

definition reminder_filename :: "string \<Rightarrow> bool" where
  "reminder_filename s = (let body = take (length s - 14) (drop 9 s) in
     s = ''reminder-'' @ body @ ''.json'' \<and> 1 \<le> length body \<and> length body \<le> 192 \<and> list_all name_char body)"

definition reminder_paths :: "rdir \<Rightarrow> string list" where
  "reminder_paths dir = sort (map fst (filter (\<lambda>(s, f). reminder_filename s \<and> f \<noteq> Not_file) (take max_reminder_files dir)))"

text \<open>\<open>str.isprintable\<close> of a code point below 256.\<close>

definition printable_char :: "char \<Rightarrow> bool" where
  "printable_char c = (let n = (of_char c :: nat) in (32 \<le> n \<and> n \<le> 126) \<or> (161 \<le> n \<and> n \<noteq> 173))"

definition bounded_text_field :: "nat \<Rightarrow> string \<Rightarrow> pyval \<Rightarrow> string res" where
  "bounded_text_field maximum label v = (case v of
     PStr s \<Rightarrow> let t = py_strip s in
       if t = [] \<or> maximum < length t \<or> list_ex (\<lambda>c. \<not> printable_char c) t
       then Inl (ValueError (label @ '' must contain printable characters'')) else Inr t
   | _ \<Rightarrow> Inl (ValueError (label @ '' must be a string'')))"

section \<open>Environment\<close>

record remind_env =
  rm_utc :: "string \<Rightarrow> real res"
  rm_iso :: "real \<Rightarrow> string"
  rm_parse :: "string \<Rightarrow> int option"
  rm_str :: "pyval \<Rightarrow> string"
  rm_size :: "pyval \<Rightarrow> nat res"
  rm_channel :: string
  rm_target :: "string option"

text \<open>How a send ends.\<close>

datatype send_end = Sent pyval | Send_timeout | Send_raised string | Send_cancelled

text \<open>One tick: the clock, whether the root directory opens, which files open, how each send ends, and the outcome of the
  first write of a file (a migration) and of the second (the result of an attempt).\<close>

record tick_io =
  ti_now :: real
  ti_root :: bool
  ti_reads :: "string \<Rightarrow> bool"
  ti_send :: "string \<Rightarrow> send_end"
  ti_migrate :: "string \<Rightarrow> write_outcome"
  ti_write :: "string \<Rightarrow> write_outcome"

record tick =
  tk_dir :: rdir
  tk_sent :: "(string \<times> string \<times> string \<times> string) list"
  tk_due :: "real option"
  tk_count :: nat

definition KeyError :: "string \<Rightarrow> py_exn" where "KeyError s = OtherError ''KeyError'' s"
definition AttributeError :: "string \<Rightarrow> py_exn" where "AttributeError s = OtherError ''AttributeError'' s"

text \<open>The exceptions that the loop over the files turns into a warning.\<close>

definition tick_catches :: "py_exn \<Rightarrow> bool" where
  "tick_catches e = (case e of ValueError _ \<Rightarrow> True | TypeError _ \<Rightarrow> True | OSError _ \<Rightarrow> True | TimeoutError _ \<Rightarrow> True
     | OtherError k _ \<Rightarrow> k = ''KeyError'' | _ \<Rightarrow> False)"

section \<open>Reading and writing one file\<close>

definition read_reminder :: "tick_io \<Rightarrow> rdir \<Rightarrow> string \<Rightarrow> (string, pyval) dict option" where
  "read_reminder io dir s = (case map_of dir s of
     Some (Json (PDict d)) \<Rightarrow> if ti_reads io s then Some d else None
   | _ \<Rightarrow> None)"

definition write_reminder :: "remind_env \<Rightarrow> write_outcome \<Rightarrow> string \<Rightarrow> (string, pyval) dict \<Rightarrow> rdir \<Rightarrow> unit res \<times> rdir" where
  "write_reminder env out s d dir =
     (if map_of dir s = Some Not_file then (Inl (OSError ''reminder files must not be symbolic links''), dir)
      else case rm_size env (PDict d) of
        Inl e \<Rightarrow> (Inl e, dir)
      | Inr n \<Rightarrow>
          if max_reminder_bytes < n then (Inl (ValueError ''reminder exceeds 64 KiB''), dir)
          else (case out of
            Not_written \<Rightarrow> (Inl (OSError ''write''), dir)
          | Written \<Rightarrow> (Inr (), dset s (Json (PDict d)) dir)
          | Written_unconfirmed \<Rightarrow> (Inl (OSError ''fsync''), dset s (Json (PDict d)) dir)))"

section \<open>Reading a record\<close>

definition utc_of :: "remind_env \<Rightarrow> pyval \<Rightarrow> real res" where
  "utc_of env v = (case v of PStr s \<Rightarrow> rm_utc env s | _ \<Rightarrow> Inl (AttributeError ''replace''))"

definition item_of :: "(string, pyval) dict \<Rightarrow> string \<Rightarrow> pyval res" where
  "item_of d k = (case map_of d k of Some v \<Rightarrow> Inr v | None \<Rightarrow> Inl (KeyError k))"

definition counted :: "pyval \<Rightarrow> int" where
  "counted v = (case v of PInt i \<Rightarrow> if i < 0 then 0 else i | _ \<Rightarrow> 0)"

definition legacy_record :: "remind_env \<Rightarrow> real \<Rightarrow> (string, pyval) dict \<Rightarrow> (string, pyval) dict res" where
  "legacy_record env now d =
     rbind (item_of d ''when_iso'') (\<lambda>w. rbind (utc_of env w) (\<lambda>due.
       let d1 = dset ''schema_version'' (PInt 2) d;
           d2 = dset ''channel'' (por (get_or d1 ''channel'' PNone) (PStr (rm_channel env))) d1;
           d3 = dset ''target'' (por (get_or d2 ''target'' PNone) (case rm_target env of Some t \<Rightarrow> PStr t | None \<Rightarrow> PNone)) d2;
           d4 = dset ''attempts'' (PInt (min 1000000 (counted (get_or d3 ''attempts'' (PInt 0))))) d3;
           delivered = (get_or d4 ''delivered'' (get_or d4 ''fired'' (PBool False)) = PBool True);
           d5 = dset ''delivered'' (PBool delivered) d4;
           d6 = dset ''next_attempt_at'' (por (get_or d5 ''next_attempt_at'' PNone) (PStr (rm_iso env due))) d5 in
       Inr (if \<not> delivered \<and> due < now - 86400
            then dset ''last_result'' (PDict [(''ok'', PBool False), (''error'', PStr ''expired_legacy_reminder'')])
              (dset ''expired_at'' (PStr (rm_iso env now)) (dset ''expired'' (PBool True) (dset ''delivered'' (PBool True) d6)))
            else d6)))"

definition next_attempt :: "remind_env \<Rightarrow> (string, pyval) dict \<Rightarrow> real res" where
  "next_attempt env d = (let v = get_or d ''next_attempt_at'' PNone in
     if truthy v then utc_of env v else rbind (item_of d ''when_iso'') (utc_of env))"

text \<open>The route and text of a record, in the order in which they are checked.\<close>

definition message_of :: "(string, pyval) dict \<Rightarrow> (string \<times> string \<times> string) res" where
  "message_of d = rbind (bounded_text_field max_route_chars ''reminder channel'' (get_or d ''channel'' PNone)) (\<lambda>c.
     rbind (bounded_text_field max_route_chars ''reminder target'' (get_or d ''target'' PNone)) (\<lambda>t.
     rbind (bounded_text_field max_reminder_text ''reminder text'' (get_or d ''text'' PNone)) (\<lambda>x. Inr (c, t, x))))"

section \<open>The outcome of an attempt\<close>

definition safe_result :: "remind_env \<Rightarrow> pyval \<Rightarrow> (string, pyval) dict" where
  "safe_result env v = (case v of
     PDict r \<Rightarrow> foldl (\<lambda>out k. let item = get_or r k PNone in if item \<noteq> PNone then dset k (PStr (take 1000 (rm_str env item))) out else out)
         [(''ok'', PBool (get_or r ''ok'' PNone = PBool True))] [''message_id'', ''error'', ''status'', ''detail'']
   | _ \<Rightarrow> [(''ok'', PBool False), (''error'', PStr ''invalid outbound result'')])"

definition send_result :: "remind_env \<Rightarrow> send_end \<Rightarrow> (string, pyval) dict res" where
  "send_result env e = (case e of
     Sent v \<Rightarrow> Inr (safe_result env v)
   | Send_timeout \<Rightarrow> Inr (safe_result env (PDict [(''ok'', PBool False), (''error'', PStr ''delivery_timeout'')]))
   | Send_raised s \<Rightarrow> Inr (safe_result env (PDict [(''ok'', PBool False), (''error'', PStr (take 500 s))]))
   | Send_cancelled \<Rightarrow> Inl CancelledError)"

definition retry_delay :: "int \<Rightarrow> real" where
  "retry_delay attempts = min 300 (2 ^ nat (min attempts 8))"

definition sooner :: "real \<Rightarrow> real option \<Rightarrow> real option" where
  "sooner t due = (case due of None \<Rightarrow> Some t | Some u \<Rightarrow> if t < u then Some t else Some u)"

definition delivery_ok :: "(string, pyval) dict \<Rightarrow> bool" where
  "delivery_ok r \<longleftrightarrow> get_or r ''ok'' PNone = PBool True"

definition attempted :: "remind_env \<Rightarrow> real \<Rightarrow> (string, pyval) dict \<Rightarrow> (string, pyval) dict \<Rightarrow> (string, pyval) dict" where
  "attempted env now result d =
     (let attempts = min 1000000 (counted (get_or d ''attempts'' (PInt 0)) + 1);
          d1 = dset ''last_result'' (PDict result) (dset ''attempts'' (PInt attempts) d) in
      if delivery_ok result then dset ''delivered_at'' (PStr (rm_iso env now)) (dset ''delivered'' (PBool True) d1)
      else dset ''next_attempt_at'' (PStr (rm_iso env (now + retry_delay attempts))) d1)"

section \<open>A tick\<close>

text \<open>One record that is up to date: the part of the loop body after the migration.\<close>

definition deliver_record :: "remind_env \<Rightarrow> tick_io \<Rightarrow> string \<Rightarrow> (string, pyval) dict \<Rightarrow> tick \<Rightarrow> unit res \<times> tick" where
  "deliver_record env io s d t =
     (if get_or d ''delivered'' PNone = PBool True then (Inr (), t)
      else case next_attempt env d of
        Inl e \<Rightarrow> (Inl e, t)
      | Inr na \<Rightarrow>
          if ti_now io < na then (Inr (), t\<lparr>tk_due := sooner na (tk_due t)\<rparr>)
          else (case message_of d of
            Inl e \<Rightarrow> (Inl e, t)
          | Inr (c, target, x) \<Rightarrow>
              let t1 = t\<lparr>tk_sent := tk_sent t @ [(s, c, target, ''Reminder: '' @ x)]\<rparr> in
              (case send_result env (ti_send io s) of
                Inl e \<Rightarrow> (Inl e, t1)
              | Inr result \<Rightarrow>
                  let d1 = attempted env (ti_now io) result d;
                      attempts = min 1000000 (counted (get_or d ''attempts'' (PInt 0)) + 1);
                      t2 = (if delivery_ok result then t1\<lparr>tk_count := tk_count t1 + 1\<rparr>
                            else t1\<lparr>tk_due := sooner (ti_now io + retry_delay attempts) (tk_due t1)\<rparr>);
                      (r, dir) = write_reminder env (ti_write io s) s d1 (tk_dir t2) in
                  (r, t2\<lparr>tk_dir := dir\<rparr>))))"

definition deliver_file :: "remind_env \<Rightarrow> tick_io \<Rightarrow> string \<Rightarrow> tick \<Rightarrow> unit res \<times> tick" where
  "deliver_file env io s t = (case read_reminder io (tk_dir t) s of
     None \<Rightarrow> (Inr (), t)
   | Some d \<Rightarrow> (case to_int (rm_parse env) (get_or d ''schema_version'' (PInt 1)) of
       Inl e \<Rightarrow> (Inl e, t)
     | Inr v \<Rightarrow>
         if v < 2 then (case legacy_record env (ti_now io) d of
           Inl e \<Rightarrow> (Inl e, t)
         | Inr d1 \<Rightarrow> (case write_reminder env (ti_migrate io s) s d1 (tk_dir t) of
             (Inl e, dir) \<Rightarrow> (Inl e, t\<lparr>tk_dir := dir\<rparr>)
           | (Inr _, dir) \<Rightarrow> deliver_record env io s d1 (t\<lparr>tk_dir := dir\<rparr>)))
         else deliver_record env io s d t))"

fun deliver_files :: "remind_env \<Rightarrow> tick_io \<Rightarrow> string list \<Rightarrow> tick \<Rightarrow> unit res \<times> tick" where
  "deliver_files env io [] t = (Inr (), t)"
| "deliver_files env io (s # ss) t = (case deliver_file env io s t of
     (Inl e, t') \<Rightarrow> if tick_catches e then deliver_files env io ss t' else (Inl e, t')
   | (Inr _, t') \<Rightarrow> deliver_files env io ss t')"

definition deliver_due :: "remind_env \<Rightarrow> tick_io \<Rightarrow> rdir \<Rightarrow> nat res \<times> tick" where
  "deliver_due env io dir =
     (let t = \<lparr>tk_dir = dir, tk_sent = [], tk_due = None, tk_count = 0\<rparr> in
      if \<not> ti_root io then (Inl (OSError ''reminder root''), t)
      else case deliver_files env io (reminder_paths dir) t of
        (Inl e, t') \<Rightarrow> (Inl e, t')
      | (Inr _, t') \<Rightarrow> (Inr (tk_count t'), t'))"

text \<open>How long the loop sleeps after a tick that ended with \<open>r\<close> in \<open>t\<close>, when its clock shows \<open>later\<close>; a call of \<open>schedule\<close> ends
  the sleep.\<close>

definition poll_interval :: "real \<Rightarrow> real" where
  "poll_interval p = min 60 (max (1 / 10) p)"

definition loop_delay :: "real \<Rightarrow> nat res \<Rightarrow> tick \<Rightarrow> real \<Rightarrow> real" where
  "loop_delay poll r t later = (case r of
     Inl _ \<Rightarrow> poll_interval poll
   | Inr _ \<Rightarrow> (case tk_due t of None \<Rightarrow> 60 | Some u \<Rightarrow> max (1 / 20) (u - later)))"

section \<open>Scheduling\<close>

text \<open>\<open>schedule\<close>: a reply with an error, or the id of the new reminder. \<open>token\<close> is the random part of the id, \<open>has\<close> the
  channels the outbound registry knows.\<close>

datatype reply = Refused_reminder string | Scheduled string

definition new_reminder :: "remind_env \<Rightarrow> string \<Rightarrow> real \<Rightarrow> real \<Rightarrow> string \<Rightarrow> string \<Rightarrow> string \<Rightarrow> (string, pyval) dict" where
  "new_reminder env i now due text channel target =
     [(''schema_version'', PInt 2), (''id'', PStr i), (''when_iso'', PStr (rm_iso env due)), (''text'', PStr text),
      (''channel'', PStr channel), (''target'', PStr target), (''created_at'', PStr (rm_iso env now)), (''attempts'', PInt 0),
      (''delivered'', PBool False), (''next_attempt_at'', PStr (rm_iso env due))]"

definition whole_seconds :: "real \<Rightarrow> int" where
  "whole_seconds t = (if 0 \<le> t then \<lfloor>t\<rfloor> else \<lceil>t\<rceil>)"

definition schedule_reminder :: "remind_env \<Rightarrow> (string \<Rightarrow> bool) \<Rightarrow> bool \<Rightarrow> write_outcome \<Rightarrow> string \<Rightarrow> real \<Rightarrow> (int \<Rightarrow> string)
    \<Rightarrow> pyval \<Rightarrow> pyval \<Rightarrow> string \<Rightarrow> string \<Rightarrow> rdir \<Rightarrow> reply res \<times> rdir" where
  "schedule_reminder env has opens out token now dec when_iso text channel target dir =
     (case when_iso of
       PStr w \<Rightarrow>
         if 128 < length w then (Inr (Refused_reminder ''invalid ISO datetime''), dir)
         else (case rm_utc env w of
           Inl (ValueError _) \<Rightarrow> (Inr (Refused_reminder ''invalid ISO datetime''), dir)
         | Inl (TypeError _) \<Rightarrow> (Inr (Refused_reminder ''invalid ISO datetime''), dir)
         | Inl e \<Rightarrow> (Inl e, dir)
         | Inr due \<Rightarrow> (case bounded_text_field max_reminder_text ''reminder text'' text of
             Inl e \<Rightarrow> (Inr (Refused_reminder ''reminder text''), dir)
           | Inr x \<Rightarrow> (case bounded_text_field max_route_chars ''reminder channel'' (PStr (if channel \<noteq> [] then channel else rm_channel env)) of
               Inl e \<Rightarrow> (Inr (Refused_reminder ''reminder channel''), dir)
             | Inr c \<Rightarrow>
                 let raw = (if target \<noteq> [] then target else case rm_target env of Some t \<Rightarrow> t | None \<Rightarrow> []) in
                 if py_strip raw = [] then (Inr (Refused_reminder ''reminder_target_required''), dir)
                 else (case bounded_text_field max_route_chars ''reminder target'' (PStr (py_strip raw)) of
                   Inl e \<Rightarrow> (Inr (Refused_reminder ''reminder target''), dir)
                 | Inr tg \<Rightarrow>
                     if \<not> has c then (Inr (Refused_reminder ''channel_not_registered''), dir)
                     else if \<not> opens then (Inr (Refused_reminder ''reminder_root_is_symlink''), dir)
                     else if max_reminder_files \<le> length (reminder_paths dir) then (Inr (Refused_reminder ''reminder_capacity_reached''), dir)
                     else let i = ''reminder-'' @ dec (whole_seconds due) @ ''-'' @ token in
                       (case write_reminder env out (i @ ''.json'') (new_reminder env i now due x c tg) dir of
                         (Inl e, dir') \<Rightarrow> (Inl e, dir')
                       | (Inr _, dir') \<Rightarrow> (Inr (Scheduled i), dir'))))))
     | _ \<Rightarrow> (Inr (Refused_reminder ''invalid ISO datetime''), dir))"


section \<open>What a file's turn changes\<close>

lemma write_reminder_frame:
  "write_reminder env out s d dir = (r, dir') \<Longrightarrow> dir' = dir \<or> dir' = dset s (Json (PDict d)) dir"
  by (auto simp: write_reminder_def split: if_splits sum.splits write_outcome.splits)

text \<open>Only the file itself may change, and at most one message is sent for it.\<close>

definition turn_frame :: "string \<Rightarrow> tick \<Rightarrow> tick \<Rightarrow> bool" where
  "turn_frame s t t' \<longleftrightarrow> (\<forall>s'. s' \<noteq> s \<longrightarrow> map_of (tk_dir t') s' = map_of (tk_dir t) s')
     \<and> (tk_sent t' = tk_sent t \<or> (\<exists>m. tk_sent t' = tk_sent t @ [(s, m)]))"

lemma write_frame: "write_reminder env out s d dir = (r, dir') \<Longrightarrow> s' \<noteq> s \<Longrightarrow> map_of dir' s' = map_of dir s'"
  using write_reminder_frame by (metis fun_upd_other map_of_dset)

lemma deliver_record_frame:
  assumes "deliver_record env io s d t = (r, t')"
  shows "turn_frame s t t'"
proof (cases "get_or d ''delivered'' PNone = PBool True")
  case False
  show ?thesis
  proof (cases "next_attempt env d")
    case (Inr na)
    show ?thesis
    proof (cases "ti_now io < na")
      case late: False
      show ?thesis
      proof (cases "message_of d")
        case m: (Inr m)
        obtain c tg x where mm: "m = (c, tg, x)" by (rule prod_cases3)
        show ?thesis
        proof (cases "send_result env (ti_send io s)")
          case (Inl e)
          then show ?thesis using assms False Inr late m mm by (auto simp: deliver_record_def turn_frame_def)
        next
          case res: (Inr result)
          let ?d = "attempted env (ti_now io) result d"
          obtain r1 dir where w: "write_reminder env (ti_write io s) s ?d (tk_dir t) = (r1, dir)" by (rule prod.exhaust)
          have "tk_dir t' = dir \<and> tk_sent t' = tk_sent t @ [(s, c, tg, ''Reminder: '' @ x)]"
            using assms False Inr late m mm res w by (cases "delivery_ok result") (auto simp: deliver_record_def Let_def)
          then show ?thesis using write_frame [OF w] by (auto simp: turn_frame_def)
        qed
      qed (use assms False Inr late in \<open>auto simp: deliver_record_def turn_frame_def\<close>)
    qed (use assms False Inr in \<open>auto simp: deliver_record_def turn_frame_def\<close>)
  qed (use assms False in \<open>auto simp: deliver_record_def turn_frame_def\<close>)
qed (use assms in \<open>auto simp: deliver_record_def turn_frame_def\<close>)

lemma frame_dir: "turn_frame s (t\<lparr>tk_dir := dir\<rparr>) t' \<Longrightarrow> (\<And>s'. s' \<noteq> s \<Longrightarrow> map_of dir s' = map_of (tk_dir t) s') \<Longrightarrow> turn_frame s t t'"
  by (auto simp: turn_frame_def)

lemma deliver_file_frame:
  assumes "deliver_file env io s t = (r, t')"
  shows "turn_frame s t t'"
proof (cases "read_reminder io (tk_dir t) s")
  case (Some d)
  show ?thesis
  proof (cases "to_int (rm_parse env) (get_or d ''schema_version'' (PInt 1))")
    case (Inr v)
    show ?thesis
    proof (cases "v < 2")
      case True
      show ?thesis
      proof (cases "legacy_record env (ti_now io) d")
        case d1: (Inr d1)
        obtain r1 dir where w: "write_reminder env (ti_migrate io s) s d1 (tk_dir t) = (r1, dir)" by (rule prod.exhaust)
        note f = write_frame [OF w]
        show ?thesis
        proof (cases r1)
          case (Inl e)
          then show ?thesis using assms Some Inr True d1 w f by (auto simp: deliver_file_def turn_frame_def)
        next
          case r1: (Inr u)
          then have "deliver_record env io s d1 (t\<lparr>tk_dir := dir\<rparr>) = (r, t')"
            using assms Some Inr True d1 w by (auto simp: deliver_file_def)
          from deliver_record_frame [OF this] f show ?thesis by (rule frame_dir)
        qed
      qed (use assms Some Inr True in \<open>auto simp: deliver_file_def turn_frame_def\<close>)
    next
      case False
      then have "deliver_record env io s d t = (r, t')" using assms Some Inr by (simp add: deliver_file_def)
      then show ?thesis by (rule deliver_record_frame)
    qed
  qed (use assms Some in \<open>auto simp: deliver_file_def turn_frame_def\<close>)
qed (use assms in \<open>auto simp: deliver_file_def turn_frame_def\<close>)

lemma deliver_files_frame:
  assumes "deliver_files env io ss t = (r, t')"
  shows "(\<forall>s. s \<notin> set ss \<longrightarrow> map_of (tk_dir t') s = map_of (tk_dir t) s)
    \<and> (\<exists>new. tk_sent t' = tk_sent t @ new \<and> set (map fst new) \<subseteq> set ss \<and> (distinct ss \<longrightarrow> distinct (map fst new)))"
  using assms
proof (induction ss arbitrary: t)
  case (Cons s ss)
  obtain r1 t1 where f: "deliver_file env io s t = (r1, t1)" by (rule prod.exhaust)
  note F = deliver_file_frame [OF f, unfolded turn_frame_def]
  show ?case
  proof (cases "deliver_files env io ss t1 = (r, t')")
    case True
    from Cons.IH [OF True] obtain new where new: "tk_sent t' = tk_sent t1 @ new" "set (map fst new) \<subseteq> set ss"
      "distinct ss \<longrightarrow> distinct (map fst new)" and d: "\<forall>s. s \<notin> set ss \<longrightarrow> map_of (tk_dir t') s = map_of (tk_dir t1) s" by blast
    have dir: "\<forall>x. x \<notin> set (s # ss) \<longrightarrow> map_of (tk_dir t') x = map_of (tk_dir t) x" using F d by simp
    from F consider "tk_sent t1 = tk_sent t" | m where "tk_sent t1 = tk_sent t @ [(s, m)]" by blast
    then show ?thesis
    proof cases
      case 1
      then have "tk_sent t' = tk_sent t @ new" using new(1) by simp
      moreover have "set (map fst new) \<subseteq> set (s # ss)" "distinct (s # ss) \<longrightarrow> distinct (map fst new)" using new by auto
      ultimately show ?thesis using dir by blast
    next
      case (2 m)
      then have "tk_sent t' = tk_sent t @ ((s, m) # new)" using new(1) by simp
      moreover have "set (map fst ((s, m) # new)) \<subseteq> set (s # ss)" "distinct (s # ss) \<longrightarrow> distinct (map fst ((s, m) # new))" using new by auto
      ultimately show ?thesis using dir by blast
    qed
  next
    case False
    then have "t' = t1" using Cons.prems f by (auto split: sum.splits if_splits)
    with F show ?thesis by (auto intro: exI [of _ "[]"])
  qed
qed (auto intro: exI [of _ "[]"])

lemma reminder_paths_distinct:
  assumes "dict_ok dir"
  shows "distinct (reminder_paths dir)"
proof -
  have "distinct (map fst (take max_reminder_files dir))" using assms by (simp add: dict_ok_def take_map [symmetric])
  then have "distinct (map fst (filter (\<lambda>(s, f). reminder_filename s \<and> f \<noteq> Not_file) (take max_reminder_files dir)))" by (rule distinct_map_filter)
  then show ?thesis by (simp add: reminder_paths_def)
qed

section \<open>A settled reminder\<close>

definition settled_reminder :: "remind_env \<Rightarrow> (string, pyval) dict \<Rightarrow> bool" where
  "settled_reminder env d \<longleftrightarrow> (case to_int (rm_parse env) (get_or d ''schema_version'' (PInt 1)) of Inr v \<Rightarrow> 2 \<le> v | Inl _ \<Rightarrow> False)
     \<and> get_or d ''delivered'' PNone = PBool True"

definition settled_in :: "remind_env \<Rightarrow> rdir \<Rightarrow> string \<Rightarrow> bool" where
  "settled_in env dir s \<longleftrightarrow> (\<exists>d. map_of dir s = Some (Json (PDict d)) \<and> settled_reminder env d)"

lemma settled_file:
  assumes "settled_in env (tk_dir t) s"
  shows "deliver_file env io s t = (Inr (), t)"
proof -
  obtain d where d: "map_of (tk_dir t) s = Some (Json (PDict d))" "settled_reminder env d" using assms by (auto simp: settled_in_def)
  then obtain v where v: "to_int (rm_parse env) (get_or d ''schema_version'' (PInt 1)) = Inr v" "2 \<le> v" "get_or d ''delivered'' PNone = PBool True"
    by (auto simp: settled_reminder_def split: sum.splits)
  show ?thesis
    using d(1) v by (cases "ti_reads io s") (simp_all add: deliver_file_def read_reminder_def deliver_record_def)
qed

lemma settled_files:
  assumes "deliver_files env io ss t = (r, t')" "settled_in env (tk_dir t) s"
  shows "settled_in env (tk_dir t') s \<and> (\<exists>new. tk_sent t' = tk_sent t @ new \<and> s \<notin> fst ` set new)"
  using assms
proof (induction ss arbitrary: t)
  case (Cons x ss)
  obtain r1 t1 where f: "deliver_file env io x t = (r1, t1)" by (rule prod.exhaust)
  have t1: "settled_in env (tk_dir t1) s \<and> (\<exists>new. tk_sent t1 = tk_sent t @ new \<and> s \<notin> fst ` set new)"
  proof (cases "x = s")
    case True
    then have "t1 = t" using settled_file [OF Cons.prems(2), of io] f by simp
    with Cons.prems(2) show ?thesis by auto
  next
    case False
    then show ?thesis using deliver_file_frame [OF f] Cons.prems(2) by (auto simp: turn_frame_def settled_in_def)
  qed
  show ?case
  proof (cases "deliver_files env io ss t1 = (r, t')")
    case True
    from Cons.IH [OF True] t1 obtain new1 new2 where "settled_in env (tk_dir t') s" "tk_sent t' = tk_sent t1 @ new2" "s \<notin> fst ` set new2"
      "tk_sent t1 = tk_sent t @ new1" "s \<notin> fst ` set new1" by blast
    then have "tk_sent t' = tk_sent t @ (new1 @ new2)" "s \<notin> fst ` set (new1 @ new2)" by auto
    with \<open>settled_in env (tk_dir t') s\<close> show ?thesis by blast
  next
    case False
    then have "t' = t1" using Cons.prems(1) f by (auto split: sum.splits if_splits)
    with t1 show ?thesis by simp
  qed
qed auto


definition fresh_tick :: "rdir \<Rightarrow> tick" where
  "fresh_tick dir = \<lparr>tk_dir = dir, tk_sent = [], tk_due = None, tk_count = 0\<rparr>"

lemma deliver_due_files:
  assumes "deliver_due env io dir = (r, t)"
  shows "t = fresh_tick dir \<or> (\<exists>r1. deliver_files env io (reminder_paths dir) (fresh_tick dir) = (r1, t)
    \<and> (case r of Inr n \<Rightarrow> r1 = Inr () \<and> n = tk_count t | Inl e \<Rightarrow> r1 = Inl e))"
proof (cases "ti_root io")
  case True
  obtain r1 t1 where f: "deliver_files env io (reminder_paths dir) (fresh_tick dir) = (r1, t1)" by (rule prod.exhaust)
  then show ?thesis using assms True by (cases r1) (auto simp: deliver_due_def fresh_tick_def)
qed (use assms in \<open>auto simp: deliver_due_def fresh_tick_def\<close>)

lemma deliver_due_frame:
  assumes "deliver_due env io dir = (r, t)" "dict_ok dir"
  shows "distinct (map fst (tk_sent t))" "settled_in env dir s \<Longrightarrow> settled_in env (tk_dir t) s \<and> s \<notin> fst ` set (tk_sent t)"
proof -
  from deliver_due_files [OF assms(1)]
  have "distinct (map fst (tk_sent t)) \<and> (settled_in env dir s \<longrightarrow> settled_in env (tk_dir t) s \<and> s \<notin> fst ` set (tk_sent t))"
  proof (elim disjE exE conjE)
    fix r1 assume f: "deliver_files env io (reminder_paths dir) (fresh_tick dir) = (r1, t)"
    from deliver_files_frame [OF f] reminder_paths_distinct [OF assms(2)] have "distinct (map fst (tk_sent t))"
      by (auto simp: fresh_tick_def)
    moreover have "settled_in env (tk_dir t) s \<and> s \<notin> fst ` set (tk_sent t)" if "settled_in env dir s"
      using settled_files [OF f, of s] that by (auto simp: fresh_tick_def)
    ultimately show ?thesis by blast
  qed (simp add: fresh_tick_def)
  then show "distinct (map fst (tk_sent t))" "settled_in env dir s \<Longrightarrow> settled_in env (tk_dir t) s \<and> s \<notin> fst ` set (tk_sent t)" by blast+
qed

lemma write_dict_ok: "write_reminder env out s d dir = (r, dir') \<Longrightarrow> dict_ok dir \<Longrightarrow> dict_ok dir'"
  using write_reminder_frame by blast

lemma deliver_record_dict_ok: "deliver_record env io s d t = (r, t') \<Longrightarrow> dict_ok (tk_dir t) \<Longrightarrow> dict_ok (tk_dir t')"
  by (auto simp: deliver_record_def Let_def split: if_splits sum.splits prod.splits dest!: write_dict_ok)

lemma deliver_file_dict_ok: "deliver_file env io s t = (r, t') \<Longrightarrow> dict_ok (tk_dir t) \<Longrightarrow> dict_ok (tk_dir t')"
  by (auto simp: deliver_file_def Let_def split: if_splits option.splits sum.splits prod.splits dest!: deliver_record_dict_ok write_dict_ok)

lemma deliver_files_dict_ok: "deliver_files env io ss t = (r, t') \<Longrightarrow> dict_ok (tk_dir t) \<Longrightarrow> dict_ok (tk_dir t')"
proof (induction ss arbitrary: t)
  case (Cons s ss)
  obtain r1 t1 where f: "deliver_file env io s t = (r1, t1)" by (rule prod.exhaust)
  then have "dict_ok (tk_dir t1)" using deliver_file_dict_ok Cons.prems(2) by blast
  then show ?case using Cons.IH [of t1] Cons.prems(1) f by (auto split: sum.splits if_splits)
qed auto

lemma deliver_due_dict_ok: "deliver_due env io dir = (r, t) \<Longrightarrow> dict_ok dir \<Longrightarrow> dict_ok (tk_dir t)"
  using deliver_due_files deliver_files_dict_ok by (fastforce simp: fresh_tick_def)

section \<open>Histories\<close>

lemma schedule_effect:
  assumes "schedule_reminder env has opens out token now dec when_iso text channel target dir = (r, dir')"
  shows "dir' = dir \<or> (\<exists>k d. dir' = dset (''reminder-'' @ k @ ''-'' @ token @ ''.json'') (Json (PDict d)) dir)"
  using assms
  by (auto simp: schedule_reminder_def Let_def split: pyval.splits if_splits sum.splits py_exn.splits prod.splits dest!: write_reminder_frame)

text \<open>
  The list has an entry for every message sent: the reminder, and whether its file said "delivered" after the tick. The random
  part of a new reminder's id is one that no present file has.\<close>

inductive remind_reach :: "remind_env \<Rightarrow> rdir \<Rightarrow> (string \<times> bool) list \<Rightarrow> bool" for env where
  remind_start: "dict_ok dir \<Longrightarrow> remind_reach env dir []"
| remind_tick: "remind_reach env dir sends \<Longrightarrow> deliver_due env io dir = (r, t) \<Longrightarrow>
    remind_reach env (tk_dir t) (sends @ map (\<lambda>(s, m). (s, settled_in env (tk_dir t) s)) (tk_sent t))"
| remind_schedule: "remind_reach env dir sends \<Longrightarrow>
    schedule_reminder env has opens out token now dec when_iso text channel target dir = (r, dir') \<Longrightarrow>
    \<forall>k. map_of dir (''reminder-'' @ k @ ''-'' @ token @ ''.json'') = None \<Longrightarrow> remind_reach env dir' sends"

definition log_ok :: "remind_env \<Rightarrow> rdir \<Rightarrow> (string \<times> bool) list \<Rightarrow> bool" where
  "log_ok env dir sends \<longleftrightarrow> dict_ok dir \<and> (\<forall>s. (s, True) \<in> set sends \<longrightarrow> settled_in env dir s)
     \<and> (\<forall>xs ys s b. sends = xs @ (s, True) # ys \<longrightarrow> (s, b) \<notin> set ys)"

lemma remind_reach_log_ok: "remind_reach env dir sends \<Longrightarrow> log_ok env dir sends"
proof (induction rule: remind_reach.induct)
  case (remind_start dir)
  then show ?case by (simp add: log_ok_def)
next
  case (remind_tick dir sends io r t)
  let ?new = "map (\<lambda>(s, m). (s, settled_in env (tk_dir t) s)) (tk_sent t)"
  have ok: "dict_ok dir" using remind_tick.IH by (simp add: log_ok_def)
  note F = deliver_due_frame [OF remind_tick.hyps(2) ok]
  have d: "distinct (map fst ?new)" using F(1) by (simp add: comp_def case_prod_beta)
  have old: "settled_in env (tk_dir t) s \<and> (\<forall>b. (s, b) \<notin> set ?new)" if "(s, True) \<in> set sends" for s
  proof -
    have "settled_in env dir s" using remind_tick.IH that by (simp add: log_ok_def)
    from F(2) [OF this] show ?thesis by force
  qed
  have "(s, b) \<notin> set ys" if e: "sends @ ?new = xs @ (s, True) # ys" for xs ys s b
  proof -
    from e consider us where "sends = xs @ us" "us @ ?new = (s, True) # ys" | us where "sends @ us = xs" "?new = us @ (s, True) # ys"
      by (auto simp: append_eq_append_conv2)
    then show ?thesis
    proof cases
      case (1 us)
      show ?thesis
      proof (cases us)
        case Nil
        with 1 d have "distinct (map fst ((s, True) # ys))" by (metis append_Nil)
        then have "s \<notin> fst ` set ys" by simp
        then show ?thesis by (metis fst_conv image_eqI)
      next
        case (Cons u us')
        then have l: "sends = xs @ (s, True) # us'" and ys: "ys = us' @ ?new" using 1 by auto
        have a: "(s, b) \<notin> set us'" using remind_tick.IH l unfolding log_ok_def by blast
        have "(s, True) \<in> set sends" by (simp only: l set_append set_simps Un_iff insert_iff simp_thms)
        then have n: "(s, b) \<notin> set ?new" using old by blast
        show ?thesis by (simp only: ys set_append Un_iff a n simp_thms not_False_eq_True)
      qed
    next
      case (2 us)
      with d have "distinct (map fst (us @ (s, True) # ys))" by argo
      then have "s \<notin> fst ` set ys" by (simp add: image_Un)
      then show ?thesis by (metis fst_conv image_eqI)
    qed
  qed
  moreover have "settled_in env (tk_dir t) s" if "(s, True) \<in> set (sends @ ?new)" for s using that old by auto
  ultimately show ?case using deliver_due_dict_ok [OF remind_tick.hyps(2) ok] unfolding log_ok_def by blast
next
  case (remind_schedule dir sends has1 accessible out token now dec w1 txt1 channel target r dir')
  have ok: "dict_ok dir" "\<And>s. (s, True) \<in> set sends \<Longrightarrow> settled_in env dir s" using remind_schedule.IH by (simp_all add: log_ok_def)
  from schedule_effect [OF remind_schedule.hyps(2)]
  have "dict_ok dir' \<and> (\<forall>s. (s, True) \<in> set sends \<longrightarrow> settled_in env dir' s)"
  proof (elim disjE exE)
    fix k d assume e: "dir' = dset (''reminder-'' @ k @ ''-'' @ token @ ''.json'') (Json (PDict d)) dir"
    have "settled_in env dir' s" if "(s, True) \<in> set sends" for s
    proof -
      have st: "settled_in env dir s" by (rule ok(2) [OF that])
      then have "map_of dir s \<noteq> None" by (auto simp: settled_in_def)
      then have "s \<noteq> ''reminder-'' @ k @ ''-'' @ token @ ''.json''" using remind_schedule.hyps(3) by metis
      with st show ?thesis by (simp add: e settled_in_def del: append_Cons)
    qed
    with ok(1) show ?thesis by (auto simp: e)
  qed (use ok in simp)
  with remind_schedule.IH show ?case unfolding log_ok_def by blast
qed

section \<open>Every due reminder is tried\<close>

lemma sooner_le: "\<exists>u. sooner t due = Some u \<and> u \<le> t" "due = Some v \<Longrightarrow> \<exists>u. sooner t due = Some u \<and> u \<le> v"
  by (auto simp: sooner_def split: option.split)

lemma due_record:
  "deliver_record env io s d t = (r, t') \<Longrightarrow> tk_due t = Some v \<Longrightarrow> \<exists>u. tk_due t' = Some u \<and> u \<le> v"
  using sooner_le(2) by (fastforce simp: deliver_record_def Let_def split: if_splits sum.splits prod.splits)

lemma due_file:
  assumes "deliver_file env io s t = (r, t')" "tk_due t = Some v"
  shows "\<exists>u. tk_due t' = Some u \<and> u \<le> v"
  using assms due_record [of env io s _ _ r t' v]
  by (auto simp: deliver_file_def split: option.splits sum.splits if_splits prod.splits)

lemma due_files: "deliver_files env io ss t = (r, t') \<Longrightarrow> tk_due t = Some v \<Longrightarrow> \<exists>u. tk_due t' = Some u \<and> u \<le> v"
proof (induction ss arbitrary: t v)
  case (Cons s ss)
  obtain r1 t1 where f: "deliver_file env io s t = (r1, t1)" by (rule prod.exhaust)
  obtain u where u: "tk_due t1 = Some u" "u \<le> v" using due_file [OF f Cons.prems(2)] by blast
  show ?case
  proof (cases "deliver_files env io ss t1 = (r, t')")
    case True
    from Cons.IH [OF True u(1)] u(2) show ?thesis by fastforce
  next
    case False
    then have "t' = t1" using Cons.prems(1) f by (auto split: sum.splits if_splits)
    with u show ?thesis by blast
  qed
qed auto

text \<open>A record that a tick can act on: it is up to date, not delivered, and its time, route and text are readable.\<close>

definition open_reminder :: "remind_env \<Rightarrow> (string, pyval) dict \<Rightarrow> real \<Rightarrow> string \<times> string \<times> string \<Rightarrow> bool" where
  "open_reminder env d na m \<longleftrightarrow> (case to_int (rm_parse env) (get_or d ''schema_version'' (PInt 1)) of Inr v \<Rightarrow> 2 \<le> v | Inl _ \<Rightarrow> False)
     \<and> get_or d ''delivered'' PNone \<noteq> PBool True \<and> next_attempt env d = Inr na \<and> message_of d = Inr m"

lemma open_file:
  assumes "open_reminder env d na (c, tg, x)" "read_reminder io (tk_dir t) s = Some d" "deliver_file env io s t = (r, t')"
  shows "if na \<le> ti_now io then tk_sent t' = tk_sent t @ [(s, c, tg, ''Reminder: '' @ x)] else \<exists>u. tk_due t' = Some u \<and> u \<le> na"
proof -
  obtain v where v: "to_int (rm_parse env) (get_or d ''schema_version'' (PInt 1)) = Inr v" "\<not> v < 2"
    using assms(1) by (auto simp: open_reminder_def split: sum.splits)
  then have dr: "deliver_record env io s d t = (r, t')" using assms(2,3) by (simp add: deliver_file_def)
  have o: "get_or d ''delivered'' PNone \<noteq> PBool True" "next_attempt env d = Inr na" "message_of d = Inr (c, tg, x)"
    using assms(1) by (simp_all add: open_reminder_def)
  show ?thesis
  proof (cases "na \<le> ti_now io")
    case True
    have "tk_sent t' = tk_sent t @ [(s, c, tg, ''Reminder: '' @ x)]"
    proof (cases "send_result env (ti_send io s)")
      case (Inl e)
      with dr o True show ?thesis by (auto simp: deliver_record_def)
    next
      case (Inr result)
      obtain r1 dir where "write_reminder env (ti_write io s) s (attempted env (ti_now io) result d) (tk_dir t) = (r1, dir)" by (rule prod.exhaust)
      with dr o True Inr show ?thesis by (cases "delivery_ok result") (auto simp: deliver_record_def Let_def)
    qed
    with True show ?thesis by simp
  next
    case False
    with dr o show ?thesis using sooner_le(1) [of na "tk_due t"] by (auto simp: deliver_record_def)
  qed
qed


text \<open>The turn of one file in a tick that comes to its end: what it starts from, and that the later turns leave its file and
  messages alone and only bring the next wake-up forward.\<close>

lemma turn_of_file:
  assumes "deliver_files env io ss t = (Inr u, t')" "s \<in> set ss" "distinct ss"
  shows "\<exists>t1 r t2. deliver_file env io s t1 = (r, t2) \<and> map_of (tk_dir t1) s = map_of (tk_dir t) s
    \<and> map_of (tk_dir t') s = map_of (tk_dir t2) s \<and> set (tk_sent t2) \<subseteq> set (tk_sent t')
    \<and> (\<forall>v. tk_due t2 = Some v \<longrightarrow> (\<exists>w. tk_due t' = Some w \<and> w \<le> v))"
  using assms
proof (induction ss arbitrary: t)
  case (Cons x ss)
  obtain r1 t1 where f: "deliver_file env io x t = (r1, t1)" by (rule prod.exhaust)
  then have rest: "deliver_files env io ss t1 = (Inr u, t')" using Cons.prems(1) by (auto split: sum.splits if_splits)
  show ?case
  proof (cases "x = s")
    case True
    then have "s \<notin> set ss" using Cons.prems(3) by simp
    then have "map_of (tk_dir t') s = map_of (tk_dir t1) s" "set (tk_sent t1) \<subseteq> set (tk_sent t')"
      using deliver_files_frame [OF rest] by auto
    then show ?thesis using f True due_files [OF rest] by blast
  next
    case False
    then have "map_of (tk_dir t1) s = map_of (tk_dir t) s" using deliver_file_frame [OF f] by (simp add: turn_frame_def)
    then show ?thesis using Cons.IH [OF rest] Cons.prems(2,3) False by auto
  qed
qed simp

lemma read_same: "map_of dir s = map_of dir' s \<Longrightarrow> read_reminder io dir s = read_reminder io dir' s"
  by (simp add: read_reminder_def)

lemma turn_in_tick:
  assumes "deliver_due env io dir = (Inr n, t)" "dict_ok dir" "s \<in> set (reminder_paths dir)"
  obtains t1 r t2 where "deliver_file env io s t1 = (r, t2)" "map_of (tk_dir t1) s = map_of dir s"
    "map_of (tk_dir t) s = map_of (tk_dir t2) s" "set (tk_sent t2) \<subseteq> set (tk_sent t)"
    "\<forall>v. tk_due t2 = Some v \<longrightarrow> (\<exists>w. tk_due t = Some w \<and> w \<le> v)"
proof -
  have "ti_root io" using assms(1) by (auto simp: deliver_due_def Let_def split: if_splits)
  then obtain u where f: "deliver_files env io (reminder_paths dir) (fresh_tick dir) = (Inr u, t)"
    using assms(1) by (auto simp: deliver_due_def fresh_tick_def Let_def split: sum.splits prod.splits)
  from turn_of_file [OF f assms(3) reminder_paths_distinct [OF assms(2)]] show ?thesis
    using that by (auto simp: fresh_tick_def)
qed

lemma attempted_fields:
  "get_or (attempted env now r d) ''schema_version'' v = get_or d ''schema_version'' v"
  "delivery_ok r \<Longrightarrow> get_or (attempted env now r d) ''delivered'' v = PBool True"
  "\<not> delivery_ok r \<Longrightarrow> get_or (attempted env now r d) ''delivered'' v = get_or d ''delivered'' v"
  by (simp_all add: attempted_def Let_def get_or_def)

lemma written_file:
  assumes "open_reminder env d na m" "na \<le> ti_now io" "read_reminder io (tk_dir t) s = Some d" "deliver_file env io s t = (r, t')"
    "send_result env (ti_send io s) = Inr result" "ti_write io s = Written"
    "rm_size env (PDict (attempted env (ti_now io) result d)) = Inr k" "k \<le> max_reminder_bytes"
  shows "map_of (tk_dir t') s = Some (Json (PDict (attempted env (ti_now io) result d)))
    \<and> (\<not> delivery_ok result \<longrightarrow>
       (\<exists>u. tk_due t' = Some u \<and> u \<le> ti_now io + retry_delay (min 1000000 (counted (get_or d ''attempts'' (PInt 0)) + 1))))"
proof -
  obtain c tg x where m: "m = (c, tg, x)" by (rule prod_cases3)
  obtain v where v: "to_int (rm_parse env) (get_or d ''schema_version'' (PInt 1)) = Inr v" "\<not> v < 2"
    using assms(1) by (auto simp: open_reminder_def split: sum.splits)
  then have dr: "deliver_record env io s d t = (r, t')" using assms(3,4) by (simp add: deliver_file_def)
  have o: "get_or d ''delivered'' PNone \<noteq> PBool True" "next_attempt env d = Inr na" "message_of d = Inr (c, tg, x)"
    using assms(1) m by (simp_all add: open_reminder_def)
  have nf: "map_of (tk_dir t) s \<noteq> Some Not_file" using assms(3) by (auto simp: read_reminder_def split: option.splits)
  have "write_reminder env (ti_write io s) s (attempted env (ti_now io) result d) (tk_dir t)
      = (Inr (), dset s (Json (PDict (attempted env (ti_now io) result d))) (tk_dir t))"
    using assms(6-8) nf by (simp add: write_reminder_def)
  then show ?thesis using dr o assms(2,5) sooner_le(1) by (cases "delivery_ok result") (auto simp: deliver_record_def Let_def)
qed


section \<open>Scheduling a reminder\<close>

lemma bounded_text_field_again:
  "bounded_text_field k l v = Inr x \<Longrightarrow> bounded_text_field k l' (PStr x) = Inr x"
  by (auto simp: bounded_text_field_def Let_def split: pyval.splits if_splits)

lemma new_reminder_open:
  assumes "bounded_text_field max_reminder_text ''reminder text'' v = Inr x"
    "bounded_text_field max_route_chars ''reminder channel'' v1 = Inr c"
    "bounded_text_field max_route_chars ''reminder target'' v2 = Inr tg"
    "rm_utc env (rm_iso env due) = Inr due" "rm_iso env due \<noteq> []"
  shows "open_reminder env (new_reminder env i now due x c tg) due (c, tg, x)"
  using assms
  by (simp add: open_reminder_def new_reminder_def get_or_def next_attempt_def utc_of_def message_of_def
      bounded_text_field_again [OF assms(1)] bounded_text_field_again [OF assms(2)] bounded_text_field_again [OF assms(3)])

lemma reminder_filenameI:
  assumes "list_all name_char b" "b \<noteq> []" "length b \<le> 192"
  shows "reminder_filename (''reminder-'' @ b @ ''.json'')"
  using assms by (simp add: reminder_filename_def Suc_le_eq)

text \<open>The channel and the target a new reminder is for.\<close>

definition channel_or_default :: "remind_env \<Rightarrow> string \<Rightarrow> string" where
  "channel_or_default env channel = (if channel \<noteq> [] then channel else rm_channel env)"

definition target_or_default :: "remind_env \<Rightarrow> string \<Rightarrow> string" where
  "target_or_default env target = (if target \<noteq> [] then target else case rm_target env of Some t \<Rightarrow> t | None \<Rightarrow> [])"

lemma bounded_text_field_strips: "bounded_text_field k l v = Inr x \<Longrightarrow> \<exists>s. v = PStr s \<and> x = py_strip s"
  by (auto simp: bounded_text_field_def Let_def split: pyval.splits if_splits)

lemma schedule_cases:
  assumes "schedule_reminder env has opens out token now dec when_iso text channel target dir = (Inr (Scheduled i), dir')"
  obtains w due x c tg where "when_iso = PStr w" "rm_utc env w = Inr due"
    "bounded_text_field max_reminder_text ''reminder text'' text = Inr x"
    "bounded_text_field max_route_chars ''reminder channel'' (PStr (channel_or_default env channel)) = Inr c" "has c"
    "bounded_text_field max_route_chars ''reminder target'' (PStr (py_strip (target_or_default env target))) = Inr tg"
    "i = ''reminder-'' @ dec (whole_seconds due) @ ''-'' @ token"
    "write_reminder env out (i @ ''.json'') (new_reminder env i now due x c tg) dir = (Inr (), dir')"
  using assms that unfolding channel_or_default_def target_or_default_def
  by (auto simp: schedule_reminder_def Let_def simp del: append_Cons append_assoc split: pyval.splits if_splits sum.splits py_exn.splits prod.splits)


lemma retry_delay_band: "1 \<le> a \<Longrightarrow> 2 \<le> retry_delay a \<and> retry_delay a \<le> 300"
proof -
  assume "1 \<le> a"
  then have "(2::real) ^ 1 \<le> 2 ^ nat (min a 8)" by (intro power_increasing) (auto simp: min_def)
  then show ?thesis by (simp add: retry_delay_def)
qed

section \<open>Properties\<close>

text \<open>Times that the demonstrations use: every text is read as 5 except ''s'', which is 50 and the text that every time prints as.\<close>

definition clock_demo :: remind_env where
  "clock_demo = \<lparr>rm_utc = (\<lambda>w. Inr (if w = ''s'' then 50 else 5)), rm_iso = (\<lambda>_. ''s''), rm_parse = (\<lambda>_. None), rm_str = (\<lambda>_. []),
     rm_size = (\<lambda>_. Inr 100), rm_channel = ''c'', rm_target = Some ''t''\<rparr>"

definition remind_demo_io :: "real \<Rightarrow> pyval \<Rightarrow> tick_io" where
  "remind_demo_io now v = \<lparr>ti_now = now, ti_root = True, ti_reads = (\<lambda>_. True), ti_send = (\<lambda>_. Sent v), ti_migrate = (\<lambda>_. Written),
     ti_write = (\<lambda>_. Written)\<rparr>"

definition demo_reminder :: "pyval \<Rightarrow> (string, pyval) dict" where
  "demo_reminder v = [(''schema_version'', PInt 2), (''text'', PStr ''x''), (''channel'', PStr ''c''), (''target'', PStr ''t''),
     (''delivered'', PBool False), (''next_attempt_at'', v)]"

definition remind_demo_dir :: "pyval \<Rightarrow> rdir" where
  "remind_demo_dir v = [(''reminder-1.json'', Json (PDict (demo_reminder v))), (''reminder-2.json'', Json (PDict (demo_reminder (PStr ''n''))))]"

lemma demo_paths: "reminder_paths (remind_demo_dir v) = [''reminder-1.json'', ''reminder-2.json'']"
  by (simp add: reminder_paths_def remind_demo_dir_def reminder_filename_def name_char_def Let_def max_reminder_files_def)

lemma demo_open: "rm_utc clock_demo w = Inr na \<Longrightarrow> w \<noteq> [] \<Longrightarrow> open_reminder clock_demo (demo_reminder (PStr w)) na (''c'', ''t'', ''x'')"
  by (simp add: open_reminder_def demo_reminder_def next_attempt_def utc_of_def message_of_def get_or_def bounded_text_field_def Let_def
      py_strip_def is_space_def printable_char_def max_route_chars_def max_reminder_text_def)

text \<open>
  C10 A reminder whose delivery was confirmed and recorded is never sent again: in any history of scheduling calls and ticks,
  with sends and writes that may fail in any way, once a message for a file was sent and the tick left the file marked
  delivered, no later message is sent for that file, whatever happens to it afterwards.\<close>

theorem reminder_sent_once:
  assumes "remind_reach env dir sends" "sends = xs @ (s, True) # ys"
  shows "(s, b) \<notin> set ys"
  using remind_reach_log_ok [OF assms(1)] assms(2) by (simp add: log_ok_def)

definition demo_tick :: "nat res \<times> tick" where
  "demo_tick = deliver_due clock_demo (remind_demo_io 10 (PDict [(''ok'', PBool True)])) (remind_demo_dir (PStr ''n''))"

lemma remind_demo_record:
  assumes "rm_utc clock_demo w = Inr na" "w \<noteq> []" "na \<le> now"
  shows "deliver_record clock_demo (remind_demo_io now (PDict [(''ok'', PBool True)])) s (demo_reminder (PStr w)) t =
    (let d = attempted clock_demo now [(''ok'', PBool True)] (demo_reminder (PStr w));
         (r, dir) = write_reminder clock_demo Written s d (tk_dir t) in
      (r, t\<lparr>tk_sent := tk_sent t @ [(s, ''c'', ''t'', ''Reminder: x'')], tk_count := tk_count t + 1, tk_dir := dir\<rparr>))"
proof -
  have o: "open_reminder clock_demo (demo_reminder (PStr w)) na (''c'', ''t'', ''x'')" by (rule demo_open [OF assms(1,2)])
  have r: "send_result clock_demo (ti_send (remind_demo_io now (PDict [(''ok'', PBool True)])) s) = Inr [(''ok'', PBool True)]"
    "delivery_ok [(''ok'', PBool True)]"
    by (simp_all add: send_result_def remind_demo_io_def safe_result_def get_or_def delivery_ok_def)
  show ?thesis
    using o assms(3) r
    by (auto simp: deliver_record_def open_reminder_def Let_def remind_demo_io_def split: prod.splits)
qed

lemma demo_tick_eq:
  "demo_tick = (Inr 2, \<lparr>tk_dir = [(''reminder-1.json'', Json (PDict (attempted clock_demo 10 [(''ok'', PBool True)] (demo_reminder (PStr ''n''))))),
      (''reminder-2.json'', Json (PDict (attempted clock_demo 10 [(''ok'', PBool True)] (demo_reminder (PStr ''n'')))))],
    tk_sent = [(''reminder-1.json'', ''c'', ''t'', ''Reminder: x''), (''reminder-2.json'', ''c'', ''t'', ''Reminder: x'')],
    tk_due = None, tk_count = 2\<rparr>)"
proof -
  have n: "rm_utc clock_demo ''n'' = Inr 5" by (simp add: clock_demo_def)
  have v: "to_int (rm_parse clock_demo) (get_or (demo_reminder u) ''schema_version'' (PInt 1)) = Inr 2" for u
    by (simp add: demo_reminder_def get_or_def)
  have b: "rm_size clock_demo u = Inr 100" for u by (simp add: clock_demo_def)
  have i: "ti_root (remind_demo_io k u)" "ti_reads (remind_demo_io k u) s" for k u s by (simp_all add: remind_demo_io_def)
  show ?thesis
    by (simp add: demo_tick_def deliver_due_def demo_paths [unfolded remind_demo_dir_def] i deliver_file_def read_reminder_def remind_demo_dir_def v
        remind_demo_record [OF n] write_reminder_def b max_reminder_bytes_def)
qed


lemma remind_demo_history: "remind_reach clock_demo (tk_dir (snd demo_tick)) [(''reminder-1.json'', True), (''reminder-2.json'', True)]"
proof -
  have "dict_ok (remind_demo_dir (PStr ''n''))" by (simp add: remind_demo_dir_def dict_ok_def)
  then have h: "remind_reach clock_demo (remind_demo_dir (PStr ''n'')) []" by (rule remind_start)
  have "deliver_due clock_demo (remind_demo_io 10 (PDict [(''ok'', PBool True)])) (remind_demo_dir (PStr ''n'')) = (fst demo_tick, snd demo_tick)"
    by (simp add: demo_tick_def)
  from remind_tick [OF h this] show ?thesis
    by (simp add: demo_tick_eq settled_in_def settled_reminder_def attempted_fields delivery_ok_def)
      (simp add: get_or_def demo_reminder_def attempted_def Let_def delivery_ok_def)
qed

theorem reminder_sent_once_witness:
  "(''reminder-1.json'', False) \<notin> set [(''reminder-2.json'', True)]"
  by (rule reminder_sent_once [OF remind_demo_history, of "[]"]) simp

text \<open>
  C11 No due reminder that the tick looks at is starved: in a tick that comes to its end, every reminder file among the first
  4096 entries of the directory (a tick scans no further; scheduling refuses new reminders beyond that many) that can be acted on (readable, up to
  date, not delivered, with a readable time, route and text) is either due and its text is sent to its channel and target, or
  it is not due yet and the loop then sleeps no longer than until its time (or its minimum of 50 ms). What happens to the other files of the tick,
  malformed ones and failed sends and writes included, does not matter.\<close>

theorem tick_serves_every_reminder:
  assumes "deliver_due env io dir = (Inr n, t)" "dict_ok dir" "s \<in> set (reminder_paths dir)"
    "read_reminder io dir s = Some d" "open_reminder env d na (c, tg, x)"
  shows "if na \<le> ti_now io then (s, c, tg, ''Reminder: '' @ x) \<in> set (tk_sent t)
    else loop_delay poll (Inr n) t later \<le> max (1 / 20) (na - later)"
proof -
  obtain t1 r t2 where f: "deliver_file env io s t1 = (r, t2)" "map_of (tk_dir t1) s = map_of dir s"
    "set (tk_sent t2) \<subseteq> set (tk_sent t)" "\<forall>v. tk_due t2 = Some v \<longrightarrow> (\<exists>w. tk_due t = Some w \<and> w \<le> v)"
    using turn_in_tick [OF assms(1-3)] by metis
  have "read_reminder io (tk_dir t1) s = Some d" using assms(4) read_same [OF f(2)] by simp
  from open_file [OF assms(5) this f(1)]
  have "if na \<le> ti_now io then (s, c, tg, ''Reminder: '' @ x) \<in> set (tk_sent t) else \<exists>u. tk_due t = Some u \<and> u \<le> na"
    using f(3,4) by (fastforce split: if_splits)
  then show ?thesis by (auto simp: loop_delay_def split: if_splits)
qed

theorem tick_serves_every_reminder_witness:
  "(''reminder-2.json'', ''c'', ''t'', ''Reminder: x'') \<in> set (tk_sent (snd demo_tick))"
proof -
  have t: "deliver_due clock_demo (remind_demo_io 10 (PDict [(''ok'', PBool True)])) (remind_demo_dir (PStr ''n'')) = (Inr 2, snd demo_tick)"
    by (simp add: demo_tick_def [symmetric] demo_tick_eq)
  have k: "dict_ok (remind_demo_dir (PStr ''n''))" by (simp add: remind_demo_dir_def dict_ok_def)
  have r: "read_reminder (remind_demo_io 10 (PDict [(''ok'', PBool True)])) (remind_demo_dir (PStr ''n'')) ''reminder-2.json'' = Some (demo_reminder (PStr ''n''))"
    by (simp add: read_reminder_def remind_demo_dir_def remind_demo_io_def)
  have o: "open_reminder clock_demo (demo_reminder (PStr ''n'')) 5 (''c'', ''t'', ''x'')" by (rule demo_open) (simp_all add: clock_demo_def)
  from tick_serves_every_reminder [OF t k _ r o] show ?thesis by (simp add: demo_paths remind_demo_io_def)
qed

text \<open>
  C12 What an attempt leaves behind: when a tick came to its end and a due reminder
  among the files it looked at was tried, the attempt did not get cancelled, the date of the next attempt is printed so that
  it reads back as the same time, the record fits the
  size limit and the write succeeded, the file holds the record with one more attempt and the result. If the result is ok the record is delivered (and so
  never sent again); otherwise its next attempt is between two seconds and five minutes after the tick, and the loop
  sleeps no longer than until then (or its minimum of 50 ms).\<close>

theorem attempt_is_recorded:
  assumes "deliver_due env io dir = (Inr n, t)" "dict_ok dir" "s \<in> set (reminder_paths dir)"
    "read_reminder io dir s = Some d" "open_reminder env d na m" "na \<le> ti_now io" "send_result env (ti_send io s) = Inr result"
    "ti_write io s = Written" "rm_size env (PDict (attempted env (ti_now io) result d)) = Inr k" "k \<le> max_reminder_bytes"
    "a = min 1000000 (counted (get_or d ''attempts'' (PInt 0)) + 1)" "rm_iso env (ti_now io + retry_delay a) \<noteq> []"
    "rm_utc env (rm_iso env (ti_now io + retry_delay a)) = Inr (ti_now io + retry_delay a)"
  shows "map_of (tk_dir t) s = Some (Json (PDict (attempted env (ti_now io) result d)))
    \<and> (if delivery_ok result then settled_in env (tk_dir t) s
       else next_attempt env (attempted env (ti_now io) result d) = Inr (ti_now io + retry_delay a) \<and> 2 \<le> retry_delay a \<and> retry_delay a \<le> 300
         \<and> loop_delay poll (Inr n) t later \<le> max (1 / 20) (ti_now io + retry_delay a - later))"
proof -
  obtain t1 r t2 where f: "deliver_file env io s t1 = (r, t2)" "map_of (tk_dir t1) s = map_of dir s" "map_of (tk_dir t) s = map_of (tk_dir t2) s"
    "\<forall>v. tk_due t2 = Some v \<longrightarrow> (\<exists>w. tk_due t = Some w \<and> w \<le> v)"
    using turn_in_tick [OF assms(1-3)] by metis
  have "read_reminder io (tk_dir t1) s = Some d" using assms(4) read_same [OF f(2)] by simp
  note wf = written_file [OF assms(5,6) this f(1) assms(7-10)]
  from wf f(3) have w: "map_of (tk_dir t) s = Some (Json (PDict (attempted env (ti_now io) result d)))" by simp
  show ?thesis
  proof (cases "delivery_ok result")
    case True
    have "settled_reminder env (attempted env (ti_now io) result d)"
      using assms(5) True by (simp add: settled_reminder_def open_reminder_def attempted_fields)
    with w True show ?thesis by (simp add: settled_in_def)
  next
    case False
    have "next_attempt env (attempted env (ti_now io) result d) = Inr (ti_now io + retry_delay a)"
      using False assms(11-13) by (simp add: next_attempt_def attempted_def Let_def get_or_def utc_of_def)
    moreover have "1 \<le> a" by (auto simp: assms(11) counted_def split: pyval.splits)
    moreover obtain u where "tk_due t = Some u" "u \<le> ti_now io + retry_delay a"
      using wf f(4) False unfolding assms(11) [symmetric] by fastforce
    then have "loop_delay poll (Inr n) t later \<le> max (1 / 20) (ti_now io + retry_delay a - later)" by (auto simp: loop_delay_def)
    ultimately show ?thesis using w False retry_delay_band by auto
  qed
qed


definition lone_dir :: "pyval \<Rightarrow> rdir" where
  "lone_dir v = [(''reminder-1.json'', Json (PDict (demo_reminder v)))]"

definition failed_demo :: "nat res \<times> tick" where
  "failed_demo = deliver_due clock_demo (remind_demo_io 48 (PDict [(''ok'', PBool False)])) (lone_dir (PStr ''n''))"

lemma demo_path1: "reminder_paths (lone_dir v) = [''reminder-1.json'']"
  by (simp add: reminder_paths_def lone_dir_def reminder_filename_def name_char_def Let_def max_reminder_files_def)

lemma demo_file1: "map_of (lone_dir v) ''reminder-1.json'' = Some (Json (PDict (demo_reminder v)))" "dict_ok (lone_dir v)"
  by (simp_all add: lone_dir_def dict_ok_def)

lemma demo_failed: "send_result clock_demo (Sent (PDict [(''ok'', PBool False)])) = Inr [(''ok'', PBool False)]"
  by (simp add: send_result_def safe_result_def get_or_def)

lemma failed_demo_ends: "\<exists>t. failed_demo = (Inr 0, t)"
proof -
  have o: "open_reminder clock_demo (demo_reminder (PStr ''n'')) 5 (''c'', ''t'', ''x'')" by (rule demo_open) (simp_all add: clock_demo_def)
  have w: "write_reminder clock_demo Written s e dir = (Inr (), dset s (Json (PDict e)) dir)" if "map_of dir s \<noteq> Some Not_file" for s e dir
    using that by (simp add: write_reminder_def clock_demo_def max_reminder_bytes_def)
  have root: "ti_root (remind_demo_io u z)" for u z by (simp add: remind_demo_io_def)
  have nok: "\<not> delivery_ok [(''ok'', PBool False)]" by (simp add: delivery_ok_def get_or_def)
  obtain t where "deliver_record clock_demo (remind_demo_io 48 (PDict [(''ok'', PBool False)])) ''reminder-1.json'' (demo_reminder (PStr ''n''))
      (fresh_tick (lone_dir (PStr ''n''))) = (Inr (), t) \<and> tk_count t = 0"
    using o demo_failed w nok
    by (auto simp: deliver_record_def open_reminder_def Let_def remind_demo_io_def fresh_tick_def demo_file1)
  then have "deliver_files clock_demo (remind_demo_io 48 (PDict [(''ok'', PBool False)])) [''reminder-1.json''] (fresh_tick (lone_dir (PStr ''n'')))
      = (Inr (), t) \<and> tk_count t = 0"
    by (simp add: deliver_file_def read_reminder_def fresh_tick_def demo_file1 remind_demo_io_def) (simp add: demo_reminder_def get_or_def)
  then show ?thesis
    by (auto simp: failed_demo_def deliver_due_def demo_path1 fresh_tick_def [symmetric] root)
qed

theorem attempt_is_recorded_witness:
  "map_of (tk_dir (snd failed_demo)) ''reminder-1.json''
     = Some (Json (PDict (attempted clock_demo 48 [(''ok'', PBool False)] (demo_reminder (PStr ''n'')))))
   \<and> next_attempt clock_demo (attempted clock_demo 48 [(''ok'', PBool False)] (demo_reminder (PStr ''n''))) = Inr 50
   \<and> loop_delay 1 (Inr 0) (snd failed_demo) 49 \<le> 1"
proof -
  let ?io = "remind_demo_io 48 (PDict [(''ok'', PBool False)])"
  have t: "deliver_due clock_demo ?io (lone_dir (PStr ''n'')) = (Inr 0, snd failed_demo)"
    using failed_demo_ends by (auto simp: failed_demo_def)
  have r: "read_reminder ?io (lone_dir (PStr ''n'')) ''reminder-1.json'' = Some (demo_reminder (PStr ''n''))"
    by (simp only: read_reminder_def demo_file1) (simp add: remind_demo_io_def)
  have o: "open_reminder clock_demo (demo_reminder (PStr ''n'')) 5 (''c'', ''t'', ''x'')" by (rule demo_open) (simp_all add: clock_demo_def)
  have a: "(1::int) = min 1000000 (counted (get_or (demo_reminder (PStr ''n'')) ''attempts'' (PInt 0)) + 1)"
    by (simp add: demo_reminder_def get_or_def counted_def)
  have n: "ti_now ?io = 48" "ti_write ?io s = Written" for s by (simp_all add: remind_demo_io_def)
  have sd: "send_result clock_demo (ti_send ?io ''reminder-1.json'') = Inr [(''ok'', PBool False)]" using demo_failed by (simp add: remind_demo_io_def)
  have z: "retry_delay 1 = 2" by (simp add: retry_delay_def)
  have "\<not> delivery_ok [(''ok'', PBool False)]" by (simp add: delivery_ok_def get_or_def)
  then show ?thesis
    using attempt_is_recorded [OF t demo_file1(2) _ r o _ sd n(2) _ _ a, of 100 1 49]
    by (simp add: demo_path1 n z) (simp add: clock_demo_def max_reminder_bytes_def)
qed

text \<open>
  C39 One malformed file stops all reminders: if the first reminder file of a tick is up to date and not delivered, but its
  next attempt is a number instead of a text, reading the time raises an error that the loop over the files does not catch. The
  tick ends with that error, nothing is sent and no file changes, so the next tick starts from the same files.\<close>

theorem malformed_reminder_blocks_all:
  assumes "reminder_paths dir = s # ss" "ti_root io" "read_reminder io dir s = Some d"
    "get_or d ''schema_version'' (PInt 1) = PInt 2" "get_or d ''delivered'' PNone \<noteq> PBool True"
    "get_or d ''next_attempt_at'' PNone = PInt k" "k \<noteq> 0"
  shows "deliver_due env io dir = (Inl (AttributeError ''replace''), fresh_tick dir)"
  using assms
  by (simp add: deliver_due_def deliver_file_def fresh_tick_def [symmetric])
    (simp add: fresh_tick_def deliver_record_def next_attempt_def utc_of_def tick_catches_def AttributeError_def)

theorem malformed_reminder_blocks_all_witness:
  "deliver_due clock_demo (remind_demo_io 10 PNone) (remind_demo_dir (PInt 7)) = (Inl (AttributeError ''replace''), fresh_tick (remind_demo_dir (PInt 7)))"
  by (rule malformed_reminder_blocks_all [OF demo_paths, where d = "demo_reminder (PInt 7)" and k = 7])
    (simp_all add: remind_demo_io_def read_reminder_def remind_demo_dir_def demo_reminder_def get_or_def)

text \<open>
  C38 A reminder that was scheduled is one that ticks will serve: when scheduling answers with an id, the text was a string, the
  reminder's file is among those a tick looks at, and it holds an open record whose time is the requested one, whose text is the
  given text and whose channel and target are the given ones (the configured defaults where they are empty), each stripped of
  white space around it; that channel is one that can send. This is for a directory with fewer than 4096 entries, an ISO printer whose
  output reads back as the same time, and a time and random part of plain characters that fit a file name.\<close>

theorem scheduled_reminder_is_open:
  assumes "schedule_reminder env has opens out token now dec when_iso text channel target dir = (Inr (Scheduled i), dir')"
    "when_iso = PStr w" "rm_utc env w = Inr due" "rm_utc env (rm_iso env due) = Inr due" "rm_iso env due \<noteq> []"
    "list_all name_char (dec (whole_seconds due) @ token)" "length (dec (whole_seconds due) @ token) < 192"
    "length dir < max_reminder_files"
  shows "\<exists>d u. map_of dir' (i @ ''.json'') = Some (Json (PDict d)) \<and> i @ ''.json'' \<in> set (reminder_paths dir') \<and> text = PStr u
    \<and> open_reminder env d due (py_strip (channel_or_default env channel), py_strip (target_or_default env target), py_strip u)
    \<and> has (py_strip (channel_or_default env channel))"
proof -
  from assms(1) obtain x c tg where f:
    "bounded_text_field max_reminder_text ''reminder text'' text = Inr x"
    "bounded_text_field max_route_chars ''reminder channel'' (PStr (channel_or_default env channel)) = Inr c" "has c"
    "bounded_text_field max_route_chars ''reminder target'' (PStr (py_strip (target_or_default env target))) = Inr tg"
    "i = ''reminder-'' @ dec (whole_seconds due) @ ''-'' @ token"
    and wr: "write_reminder env out (i @ ''.json'') (new_reminder env i now due x c tg) dir = (Inr (), dir')"
    using assms(2,3) by (elim schedule_cases) auto
  have dir: "dir' = dset (i @ ''.json'') (Json (PDict (new_reminder env i now due x c tg))) dir"
    using wr by (auto simp: write_reminder_def split: if_splits sum.splits write_outcome.splits)
  have nm: "reminder_filename (i @ ''.json'')"
    using reminder_filenameI [of "dec (whole_seconds due) @ ''-'' @ token"] assms(6,7) by (simp add: f(5) name_char_def)
  have m: "map_of dir' (i @ ''.json'') = Some (Json (PDict (new_reminder env i now due x c tg)))" by (simp add: dir)
  have "length dir' \<le> max_reminder_files" using assms(8) by (simp add: dir length_dset)
  then have p: "i @ ''.json'' \<in> set (reminder_paths dir')"
    using map_of_SomeD [OF m] nm by (force simp: reminder_paths_def)
  obtain u where u: "text = PStr u" "x = py_strip u" using bounded_text_field_strips [OF f(1)] by blast
  have "c = py_strip (channel_or_default env channel)" "tg = py_strip (target_or_default env target)"
    using bounded_text_field_strips [OF f(2)] bounded_text_field_strips [OF f(4)] by auto
  with m p u new_reminder_open [OF f(1,2,4) assms(4,5)] f(3) show ?thesis by blast
qed

lemma scheduled_demo:
  "schedule_reminder clock_demo (\<lambda>_. True) True Written ''f'' 1 (\<lambda>_. ''9'') (PStr ''s'') (PStr ''x'') [] [] []
    = (Inr (Scheduled ''reminder-9-f''), [(''reminder-9-f.json'', Json (PDict (new_reminder clock_demo ''reminder-9-f'' 1 50 ''x'' ''c'' ''t'')))])"
  by (simp add: schedule_reminder_def clock_demo_def bounded_text_field_def Let_def py_strip_def is_space_def printable_char_def
      max_route_chars_def max_reminder_text_def reminder_paths_def max_reminder_files_def write_reminder_def max_reminder_bytes_def)

theorem scheduled_reminder_is_open_witness:
  "\<exists>d u. map_of [(''reminder-9-f.json'', Json (PDict (new_reminder clock_demo ''reminder-9-f'' 1 50 ''x'' ''c'' ''t'')))]
      (''reminder-9-f'' @ ''.json'') = Some (Json (PDict d))
    \<and> ''reminder-9-f'' @ ''.json'' \<in> set (reminder_paths [(''reminder-9-f.json'', Json (PDict (new_reminder clock_demo ''reminder-9-f'' 1 50 ''x'' ''c'' ''t'')))])
    \<and> PStr ''x'' = PStr u \<and> open_reminder clock_demo d 50 (py_strip (channel_or_default clock_demo []), py_strip (target_or_default clock_demo []), py_strip u)
    \<and> True"
  by (rule scheduled_reminder_is_open [OF scheduled_demo refl]) (simp_all add: clock_demo_def name_char_def max_reminder_files_def)

end
