(* ===== verification/Checkpoint.thy ===== *)
theory Checkpoint
  imports Reminders Remote_Registry Event_Values "HOL-Library.Product_Lexorder"
begin

text \<open>
  The turn checkpoints of \<open>norax/runtime/checkpoint.py\<close>: one directory per channel, one bounded JSON file per turn, the newest
  ten kept, the latest readable one offered after a restart until it is marked as resumed. The size of a JSON text (or the
  error of writing it), SHA-256 digests, \<open>float\<close> of a text and \<open>dict\<close> of a non-empty list are parameters.
\<close>

section \<open>Bounded values\<close>

definition max_checkpoints :: nat where "max_checkpoints = 10"
definition max_messages :: nat where "max_messages = 200"
definition max_trace_entries :: nat where "max_trace_entries = 200"
definition max_checkpoint_bytes :: nat where "max_checkpoint_bytes = 2097152"
definition max_files_scanned :: nat where "max_files_scanned = 1024"
definition max_channel_dirs :: nat where "max_channel_dirs = 1024"

text \<open>\<open>_bounded_json_value\<close> with the budget of nodes passed along; \<open>skip\<close> entries of a list are left out at its front.\<close>

fun bound_json :: "nat \<Rightarrow> pyval \<Rightarrow> nat \<Rightarrow> pyval \<times> nat"
  and bound_items :: "nat \<Rightarrow> nat \<Rightarrow> pyval list \<Rightarrow> nat \<Rightarrow> pyval list \<times> nat"
  and bound_fields :: "nat \<Rightarrow> nat \<Rightarrow> (string \<times> pyval) list \<Rightarrow> (string, pyval) dict \<Rightarrow> nat \<Rightarrow> (string, pyval) dict \<times> nat" where
  "bound_json depth v b =
     (if b = 0 then (PStr ''[checkpoint truncated]'', 0)
      else case v of
        PFloat f \<Rightarrow> (if finite_float f then v else PNone, b - 1)
      | PStr s \<Rightarrow> (PStr (take 2000 s), b - 1)
      | PList xs \<Rightarrow>
          if 8 \<le> depth then (PStr ''[checkpoint depth truncated]'', b - 1)
          else (let (out, b') = bound_items (Suc depth) (length xs - 200) xs (b - 1) in (PList out, b'))
      | PDict d \<Rightarrow>
          if 8 \<le> depth then (PStr ''[checkpoint depth truncated]'', b - 1)
          else (let (out, b') = bound_fields (Suc depth) 200 d [] (b - 1) in (PDict out, b'))
      | _ \<Rightarrow> (v, b - 1))"
| "bound_items depth skip [] b = ([], b)"
| "bound_items depth skip (x # xs) b =
     (if 0 < skip then bound_items depth (skip - 1) xs b
      else if b = 0 then ([PDict [(''_checkpoint_truncated'', PBool True)]], b)
      else let (y, b1) = bound_json depth x b; (ys, b2) = bound_items depth 0 xs b1 in (y # ys, b2))"
| "bound_fields depth n [] out b = (out, b)"
| "bound_fields depth n ((k, x) # es) out b =
     (if n = 0 then (out, b)
      else if b = 0 then (dset ''_checkpoint_truncated'' (PBool True) out, b)
      else let (y, b1) = bound_json depth x b in bound_fields depth (n - 1) es (dset (take 128 k) y out) b1)"

declare bound_json.simps [simp del]

definition checkpoint_budget :: nat where "checkpoint_budget = 900"

section \<open>Names\<close>

record checkpoint_env =
  ce_sha :: "string \<Rightarrow> string"
  ce_size :: "pyval \<Rightarrow> nat res"
  ce_float :: "string \<Rightarrow> pyfloat option"
  ce_pairs :: "pyval list \<Rightarrow> (string, pyval) dict res"

definition safe_component :: "checkpoint_env \<Rightarrow> string \<Rightarrow> pyval \<Rightarrow> string res" where
  "safe_component env label v = (case v of
     PStr s \<Rightarrow> let t = py_strip s in
       if t = [] \<or> 512 < length t then Inl (ValueError (label @ '' must contain 1-512 characters''))
       else if list_all name_char t \<and> length t \<le> 128 then Inr t
       else let slug = take 64 (map (\<lambda>c. if alnum c \<or> c = CHR ''-'' \<or> c = CHR ''_'' then c else CHR ''_'') t) in
         Inr ((if slug \<noteq> [] then slug else ''id'') @ ''-'' @ take 16 (ce_sha env t))
   | _ \<Rightarrow> Inl (TypeError (label @ '' must be a string'')))"

definition checkpoint_filename :: "string \<Rightarrow> bool" where
  "checkpoint_filename s = (let body = take (length s - 16) (drop 11 s) in
     s = ''checkpoint_'' @ body @ ''.json'' \<and> 1 \<le> length body \<and> length body \<le> 128 \<and> list_all name_char body)"

section \<open>Directories\<close>

text \<open>A directory entry is a regular file, whose content is read as \<open>rfile\<close>, or a symbolic link (\<open>cf_link\<close>) or a directory, which both
  have the content \<open>Not_file\<close>.\<close>

record centry =
  cf_content :: rfile
  cf_mtime :: nat
  cf_link :: bool

type_synonym cdir = "(string, centry) dict"

datatype cslot = Channel_dir cdir | Link_dir

type_synonym croot = "(string, cslot) dict"

definition candidates :: "cdir \<Rightarrow> (nat \<times> string) list" where
  "candidates dir = map (\<lambda>(s, e). (cf_mtime e, s))
     (filter (\<lambda>(s, e). checkpoint_filename s \<and> cf_content e \<noteq> Not_file) (take max_files_scanned dir))"

definition checkpoint_files :: "nat \<Rightarrow> cdir \<Rightarrow> string list" where
  "checkpoint_files limit dir = map snd (take limit (rev (sort (candidates dir))))"

definition read_bounded :: "pyval \<Rightarrow> (string, pyval) dict option" where
  "read_bounded v = (case v of
     PDict d \<Rightarrow> (case fst (bound_json 0 (PDict d) checkpoint_budget) of PDict d' \<Rightarrow> Some d' | _ \<Rightarrow> None)
   | _ \<Rightarrow> None)"

definition read_checkpoint :: "(string \<Rightarrow> bool) \<Rightarrow> cdir \<Rightarrow> string \<Rightarrow> (string, pyval) dict option" where
  "read_checkpoint opens dir s = (case map_of dir s of
     Some e \<Rightarrow> (case cf_content e of Json v \<Rightarrow> if opens s then read_bounded v else None | _ \<Rightarrow> None)
   | None \<Rightarrow> None)"

fun first_some :: "('a \<Rightarrow> 'b option) \<Rightarrow> 'a list \<Rightarrow> 'b option" where
  "first_some f [] = None"
| "first_some f (x # xs) = (case f x of Some y \<Rightarrow> Some y | None \<Rightarrow> first_some f xs)"

definition latest_in :: "(string \<Rightarrow> bool) \<Rightarrow> cdir \<Rightarrow> (string, pyval) dict option" where
  "latest_in opens dir = first_some (read_checkpoint opens dir) (checkpoint_files max_checkpoints dir)"

definition is_pending :: "checkpoint_env \<Rightarrow> real \<Rightarrow> real \<Rightarrow> (string, pyval) dict \<Rightarrow> bool" where
  "is_pending env now max_age cp = (case to_float (ce_float env) (get_or cp ''timestamp'' (PInt 0)) of
     Inr (Fin t) \<Rightarrow> 0 \<le> now - t \<and> now - t \<le> max_age
       \<and> get_or cp ''resumed'' PNone \<noteq> PBool True \<and> get_or cp ''status'' (PStr ''in_progress'') \<noteq> PStr ''complete''
   | _ \<Rightarrow> False)"

text \<open>\<open>_cleanup_old\<close>; \<open>gone s\<close> says that the file \<open>s\<close> can be unlinked.\<close>

definition cleanup_old :: "(string \<Rightarrow> bool) \<Rightarrow> cdir \<Rightarrow> cdir" where
  "cleanup_old gone dir = (let cs = checkpoint_files max_files_scanned dir in
     if length cs \<le> max_checkpoints then dir
     else filter (\<lambda>(s, e). \<not> (s \<in> set (drop max_checkpoints cs) \<and> gone s)) dir)"

section \<open>Sanitizing\<close>

definition last_n :: "nat \<Rightarrow> 'a list \<Rightarrow> 'a list" where
  "last_n n xs = drop (length xs - n) xs"

definition as_dict :: "checkpoint_env \<Rightarrow> pyval \<Rightarrow> (string, pyval) dict res" where
  "as_dict env v = (case v of
     PDict d \<Rightarrow> Inr d
   | PList [] \<Rightarrow> Inr []
   | PList xs \<Rightarrow> ce_pairs env xs
   | PStr [] \<Rightarrow> Inr []
   | PStr _ \<Rightarrow> Inl (ValueError ''dictionary update sequence element'')
   | _ \<Rightarrow> Inl (TypeError ''object is not iterable''))"

definition sanitize_call :: "checkpoint_env \<Rightarrow> pyval \<Rightarrow> pyval res" where
  "sanitize_call env tc = rbind (as_dict env tc) (\<lambda>d.
     (case get_or d ''function'' (PDict []) of
       PDict fn \<Rightarrow> (case get_or fn ''arguments'' (PStr []) of
         PStr a \<Rightarrow> Inr (PDict (if 500 < length a
             then dset ''function'' (PDict (dset ''arguments'' (PStr (take 500 a @ ''...[truncated]'')) fn)) d else d))
       | _ \<Rightarrow> Inr (PDict d))
     | _ \<Rightarrow> Inl (AttributeError ''get'')))"

definition sanitize_message :: "checkpoint_env \<Rightarrow> (string, pyval) dict \<Rightarrow> pyval res" where
  "sanitize_message env d =
     (let m = (case get_or d ''content'' PNone of
         PStr c \<Rightarrow> if 2000 < length c
           then dset ''content'' (PStr (take 2000 c @ [CHR 0x0A] @ ''...[truncated, '' @ decimal (length c) @ '' total chars]'')) d else d
       | _ \<Rightarrow> d) in
      case get_or m ''tool_calls'' PNone of
        PList tcs \<Rightarrow> rbind (run_all (sanitize_call env) tcs) (\<lambda>out. Inr (PDict (dset ''tool_calls'' (PList out) m)))
      | _ \<Rightarrow> Inr (PDict m))"

definition dicts_of :: "pyval list \<Rightarrow> (string, pyval) dict list" where
  "dicts_of xs = concat (map (\<lambda>v. case v of PDict d \<Rightarrow> [d] | _ \<Rightarrow> []) xs)"

definition sanitize_messages :: "checkpoint_env \<Rightarrow> pyval list \<Rightarrow> pyval list res" where
  "sanitize_messages env messages = run_all (sanitize_message env) (dicts_of (last_n max_messages messages))"

definition shorten_field :: "(string, pyval) dict \<Rightarrow> string \<Rightarrow> (string, pyval) dict" where
  "shorten_field r k = (case get_or r k PNone of
     PStr s \<Rightarrow> if 1000 < length s then dset k (PStr (take 1000 s @ ''...[truncated, '' @ decimal (length s) @ '' total]'')) r else r
   | _ \<Rightarrow> r)"

definition sanitize_entry :: "(string, pyval) dict \<Rightarrow> pyval" where
  "sanitize_entry d = PDict (case get_or d ''result'' PNone of
     PDict r \<Rightarrow> dset ''result'' (PDict (foldl shorten_field r [''content'', ''stdout'', ''stderr'', ''text''])) d
   | PStr s \<Rightarrow> if 1000 < length s then dset ''result'' (PStr (take 1000 s @ ''...[truncated]'')) d else d
   | _ \<Rightarrow> d)"

definition sanitize_trace :: "pyval list \<Rightarrow> pyval list" where
  "sanitize_trace trace = map sanitize_entry (dicts_of (last_n max_trace_entries trace))"

section \<open>Saving\<close>

record save_io =
  sv_now :: real
  sv_mtime :: nat
  sv_mkdir :: bool
  sv_write :: write_outcome
  sv_gone :: "string \<Rightarrow> bool"

text \<open>The arguments of \<open>save_checkpoint\<close>.\<close>

record save_args =
  sa_channel :: pyval
  sa_turn :: pyval
  sa_messages :: pyval
  sa_trace :: pyval
  sa_task_state :: pyval
  sa_rounds :: pyval
  sa_model :: pyval
  sa_status :: pyval
  sa_response :: pyval
  sa_delivery :: pyval

fun dict_or_none :: "pyval \<Rightarrow> bool" where
  "dict_or_none PNone = True"
| "dict_or_none (PDict _) = True"
| "dict_or_none _ = False"

definition status_ok :: "string \<Rightarrow> bool" where
  "status_ok s = (case s of [] \<Rightarrow> False
   | c # cs \<Rightarrow> (let n = (of_char c :: nat) in 97 \<le> n \<and> n \<le> 122) \<and> length cs \<le> 63
       \<and> list_all (\<lambda>c. let n = (of_char c :: nat) in (97 \<le> n \<and> n \<le> 122) \<or> (48 \<le> n \<and> n \<le> 57) \<or> n = 95 \<or> n = 45) cs)"

definition check_save :: "save_args \<Rightarrow> (pyval list \<times> pyval list) res" where
  "check_save a = (case (sa_messages a, sa_trace a) of
     (PList ms, PList tr) \<Rightarrow>
       if \<not> dict_or_none (sa_task_state a) then Inl (TypeError ''task_state must be an object or None'')
       else if \<not> dict_or_none (sa_response a) then Inl (TypeError ''response must be an object or None'')
       else if \<not> dict_or_none (sa_delivery a) then Inl (TypeError ''delivery must be an object or None'')
       else if \<not> (case sa_rounds a of PInt i \<Rightarrow> 0 \<le> i \<and> i \<le> 1000000 | _ \<Rightarrow> False)
       then Inl (ValueError ''rounds must be an integer between 0 and 1000000'')
       else if \<not> (case sa_model a of PStr m \<Rightarrow> py_strip m \<noteq> [] \<and> length m \<le> 512 | _ \<Rightarrow> False)
       then Inl (ValueError ''model must contain 1-512 characters'')
       else if \<not> (case sa_status a of PStr s \<Rightarrow> status_ok s | _ \<Rightarrow> False)
       then Inl (ValueError ''status contains unsupported characters'')
       else Inr (ms, tr)
   | _ \<Rightarrow> Inl (TypeError ''messages and trace must be lists''))"

definition payload_fields :: "save_args \<Rightarrow> real \<Rightarrow> pyval list \<Rightarrow> pyval list \<Rightarrow> (string, pyval) dict" where
  "payload_fields a now ms tr = [(''channel'', sa_channel a), (''turn_id'', sa_turn a), (''timestamp'', PFloat (Fin now)),
     (''model'', case sa_model a of PStr m \<Rightarrow> PStr (py_strip m) | v \<Rightarrow> v), (''rounds'', sa_rounds a), (''status'', sa_status a),
     (''response'', sa_response a), (''delivery'', sa_delivery a), (''task_state'', sa_task_state a),
     (''messages'', PList ms), (''trace'', PList tr)]"

definition checkpoint_payload :: "checkpoint_env \<Rightarrow> save_args \<Rightarrow> real \<Rightarrow> pyval list \<times> pyval list \<Rightarrow> pyval res" where
  "checkpoint_payload env a now m = rbind (sanitize_messages env (fst m)) (\<lambda>ms.
     (case fst (bound_json 0 (PDict (payload_fields a now ms (sanitize_trace (snd m)))) checkpoint_budget) of
        PDict d \<Rightarrow> Inr (PDict d)
      | _ \<Rightarrow> Inl (RuntimeError ''checkpoint serialization produced an invalid payload'')))"

text \<open>\<open>_checkpoint_dir\<close>: the name of the directory and, when it exists, its entries.\<close>

definition channel_dir :: "checkpoint_env \<Rightarrow> croot \<Rightarrow> pyval \<Rightarrow> (string \<times> cdir option) res" where
  "channel_dir env store channel = rbind (safe_component env ''channel'' channel) (\<lambda>c.
     (case map_of store c of
        Some Link_dir \<Rightarrow> Inl (OSError ''checkpoint directories must not be symbolic links'')
      | Some (Channel_dir dir) \<Rightarrow> Inr (c, Some dir)
      | None \<Rightarrow> Inr (c, None)))"

definition link_at :: "cdir \<Rightarrow> string \<Rightarrow> bool" where
  "link_at dir s = (case map_of dir s of Some e \<Rightarrow> cf_content e = Not_file \<and> cf_link e | None \<Rightarrow> False)"

definition directory_at :: "cdir \<Rightarrow> string \<Rightarrow> bool" where
  "directory_at dir s = (case map_of dir s of Some e \<Rightarrow> cf_content e = Not_file \<and> \<not> cf_link e | None \<Rightarrow> False)"

definition checkpoint_name :: "string \<Rightarrow> string" where
  "checkpoint_name t = ''checkpoint_'' @ t @ ''.json''"

definition checked_size :: "checkpoint_env \<Rightarrow> pyval \<Rightarrow> unit res" where
  "checked_size env v = rbind (ce_size env v) (\<lambda>n.
     guard (n \<le> max_checkpoint_bytes) (ValueError ''checkpoint exceeds the 2 MiB serialized limit''))"

text \<open>A file cannot replace a directory.\<close>

definition put_file :: "write_outcome \<Rightarrow> nat \<Rightarrow> string \<Rightarrow> pyval \<Rightarrow> cdir \<Rightarrow> unit res \<times> cdir" where
  "put_file out mtime s v dir = (let dir' = dset s \<lparr>cf_content = Json v, cf_mtime = mtime, cf_link = False\<rparr> dir in
     if directory_at dir s then (Inl (OSError ''is a directory''), dir)
     else case out of Not_written \<Rightarrow> (Inl (OSError ''write''), dir) | Written \<Rightarrow> (Inr (), dir')
     | Written_unconfirmed \<Rightarrow> (Inl (OSError ''fsync''), dir'))"

definition save_checkpoint :: "checkpoint_env \<Rightarrow> save_io \<Rightarrow> save_args \<Rightarrow> croot \<Rightarrow> (string \<times> string) res \<times> croot" where
  "save_checkpoint env io a store =
     (case check_save a of Inl e \<Rightarrow> (Inl e, store)
      | Inr m \<Rightarrow> (case channel_dir env store (sa_channel a) of Inl e \<Rightarrow> (Inl e, store)
      | Inr (c, slot) \<Rightarrow>
          if \<not> sv_mkdir io then (Inl (OSError ''mkdir''), store)
          else let dir = (case slot of Some d \<Rightarrow> d | None \<Rightarrow> []); store1 = dset c (Channel_dir dir) store in
          (case safe_component env ''turn_id'' (sa_turn a) of Inl e \<Rightarrow> (Inl e, store1)
           | Inr t \<Rightarrow> let s = checkpoint_name t in
             if link_at dir s then (Inl (OSError ''checkpoint files must not be symbolic links''), store1)
             else (case checkpoint_payload env a (sv_now io) m of Inl e \<Rightarrow> (Inl e, store1)
             | Inr v \<Rightarrow> (case checked_size env v of Inl e \<Rightarrow> (Inl e, store1)
             | Inr _ \<Rightarrow> (case put_file (sv_write io) (sv_mtime io) s v dir of
                 (Inl e, dir') \<Rightarrow> (Inl e, dset c (Channel_dir dir') store1)
               | (Inr _, dir') \<Rightarrow> (Inr (c, s), dset c (Channel_dir (cleanup_old (sv_gone io) dir')) store1)))))))"

section \<open>Loading\<close>

definition load_latest :: "checkpoint_env \<Rightarrow> (string \<Rightarrow> bool) \<Rightarrow> pyval \<Rightarrow> croot \<Rightarrow> (string, pyval) dict option res" where
  "load_latest env opens channel store = rbind (channel_dir env store channel) (\<lambda>(c, slot).
     Inr (case slot of None \<Rightarrow> None | Some dir \<Rightarrow> latest_in opens dir))"

definition checkpoint_path :: "checkpoint_env \<Rightarrow> croot \<Rightarrow> pyval \<Rightarrow> pyval \<Rightarrow> (string \<times> cdir \<times> string) res" where
  "checkpoint_path env store channel turn = rbind (channel_dir env store channel) (\<lambda>(c, slot).
     rbind (safe_component env ''turn_id'' turn) (\<lambda>t.
       let dir = (case slot of Some d \<Rightarrow> d | None \<Rightarrow> []); s = checkpoint_name t in
       if link_at dir s then Inl (OSError ''checkpoint files must not be symbolic links'') else Inr (c, dir, s)))"

definition load_checkpoint :: "checkpoint_env \<Rightarrow> (string \<Rightarrow> bool) \<Rightarrow> pyval \<Rightarrow> pyval \<Rightarrow> croot \<Rightarrow> (string, pyval) dict option res" where
  "load_checkpoint env opens channel turn store = rbind (checkpoint_path env store channel turn) (\<lambda>(c, dir, s).
     Inr (if map_of dir s = None then None else read_checkpoint opens dir s))"

record checkpoint_summary =
  cs_turn :: pyval
  cs_timestamp :: pyval
  cs_rounds :: pyval
  cs_model :: pyval
  cs_trace_count :: nat
  cs_message_count :: nat
  cs_path :: string

definition list_size :: "pyval \<Rightarrow> nat" where
  "list_size v = (case v of PList xs \<Rightarrow> length xs | _ \<Rightarrow> 0)"

definition summary_of :: "string \<Rightarrow> (string, pyval) dict \<Rightarrow> checkpoint_summary" where
  "summary_of s d = \<lparr>cs_turn = get_or d ''turn_id'' (PStr []), cs_timestamp = get_or d ''timestamp'' (PInt 0),
     cs_rounds = get_or d ''rounds'' (PInt 0), cs_model = get_or d ''model'' (PStr []),
     cs_trace_count = list_size (get_or d ''trace'' (PList [])), cs_message_count = list_size (get_or d ''messages'' (PList [])), cs_path = s\<rparr>"

definition list_checkpoints :: "checkpoint_env \<Rightarrow> (string \<Rightarrow> bool) \<Rightarrow> pyval \<Rightarrow> croot \<Rightarrow> checkpoint_summary list res" where
  "list_checkpoints env opens channel store = rbind (channel_dir env store channel) (\<lambda>(c, slot).
     Inr (case slot of None \<Rightarrow> [] | Some dir \<Rightarrow>
       List.map_filter (\<lambda>s. map_option (summary_of s) (read_checkpoint opens dir s)) (checkpoint_files max_checkpoints dir)))"

text \<open>The pattern \<open>checkpoint_*.json\<close> of the shell.\<close>

definition glob_checkpoint :: "string \<Rightarrow> bool" where
  "glob_checkpoint s \<longleftrightarrow> 16 \<le> length s \<and> take 11 s = ''checkpoint_'' \<and> drop (length s - 5) s = ''.json''"

definition clear_checkpoints :: "checkpoint_env \<Rightarrow> (string \<Rightarrow> bool) \<Rightarrow> pyval \<Rightarrow> croot \<Rightarrow> nat res \<times> croot" where
  "clear_checkpoints env gone channel store = (case channel_dir env store channel of
     Inl e \<Rightarrow> (Inl e, store)
   | Inr (c, None) \<Rightarrow> (Inr 0, store)
   | Inr (c, Some dir) \<Rightarrow>
       let doomed = (\<lambda>(s, e). glob_checkpoint s \<and> cf_content e \<noteq> Not_file \<and> gone s) in
       (Inr (length (filter doomed dir)), dset c (Channel_dir (filter (\<lambda>x. \<not> doomed x) dir)) store))"

definition has_pending :: "checkpoint_env \<Rightarrow> (string \<Rightarrow> bool) \<Rightarrow> real \<Rightarrow> real \<Rightarrow> pyval \<Rightarrow> croot \<Rightarrow> bool res" where
  "has_pending env opens now max_age channel store = rbind (load_latest env opens channel store) (\<lambda>cp.
     Inr (case cp of None \<Rightarrow> False | Some d \<Rightarrow> is_pending env now max_age d))"

definition stamp :: "checkpoint_env \<Rightarrow> (string, pyval) dict \<Rightarrow> real" where
  "stamp env d = (case to_float (ce_float env) (get_or d ''timestamp'' (PInt 0)) of Inr (Fin t) \<Rightarrow> t | _ \<Rightarrow> 0)"

definition list_pending :: "checkpoint_env \<Rightarrow> (string \<Rightarrow> bool) \<Rightarrow> real \<Rightarrow> real \<Rightarrow> croot \<Rightarrow> (string, pyval) dict list" where
  "list_pending env opens now max_age store = sort_key (\<lambda>d. - stamp env d)
     (List.map_filter (\<lambda>(c, slot). case slot of Link_dir \<Rightarrow> None
       | Channel_dir dir \<Rightarrow> (case latest_in opens dir of Some d \<Rightarrow> if is_pending env now max_age d then Some d else None | None \<Rightarrow> None))
       (take max_channel_dirs store))"

text \<open>\<open>mark_resumed\<close>: errors after the path has been checked are only logged.\<close>

definition mark_resumed :: "checkpoint_env \<Rightarrow> (string \<Rightarrow> bool) \<Rightarrow> write_outcome \<Rightarrow> nat \<Rightarrow> pyval \<Rightarrow> pyval \<Rightarrow> croot \<Rightarrow> unit res \<times> croot" where
  "mark_resumed env opens out mtime channel turn store = (case checkpoint_path env store channel turn of
     Inl e \<Rightarrow> (Inl e, store)
   | Inr (c, dir, s) \<Rightarrow> (case read_checkpoint opens dir s of
       None \<Rightarrow> (Inr (), store)
     | Some d \<Rightarrow> let v = PDict (dset ''resumed'' (PBool True) d) in
         (case checked_size env v of Inl e \<Rightarrow> (Inr (), store)
          | Inr _ \<Rightarrow> (Inr (), dset c (Channel_dir (snd (put_file out mtime s v dir))) store))))"


section \<open>Values that fit are kept\<close>

text \<open>A value within all limits but the number of nodes, at a depth.\<close>

fun small :: "nat \<Rightarrow> pyval \<Rightarrow> bool" where
  "small depth (PFloat f) = finite_float f"
| "small depth (PStr s) = (length s \<le> 2000)"
| "small depth (PList xs) = (depth < 8 \<and> length xs \<le> 200 \<and> list_all (small (Suc depth)) xs)"
| "small depth (PDict d) = (depth < 8 \<and> length d \<le> 200 \<and> dict_ok d \<and> list_all (\<lambda>p. length (fst p) \<le> 128 \<and> small (Suc depth) (snd p)) d)"
| "small depth _ = True"

lemma nodes_pos: "0 < nodes v"
  by (cases v) simp_all

lemma bound_small:
  "small depth v \<Longrightarrow> nodes v \<le> b \<Longrightarrow> bound_json depth v b = (v, b - nodes v)"
  "list_all (small depth) xs \<Longrightarrow> sum_list (map nodes xs) \<le> b \<Longrightarrow> skip = 0 \<Longrightarrow>
     bound_items depth skip xs b = (xs, b - sum_list (map nodes xs))"
  "list_all (\<lambda>p. length (fst p) \<le> 128 \<and> small depth (snd p)) es \<Longrightarrow> dict_ok (out @ es) \<Longrightarrow> length es \<le> n \<Longrightarrow>
     sum_list (map (\<lambda>p. nodes (snd p)) es) \<le> b \<Longrightarrow>
     bound_fields depth n es out b = (out @ es, b - sum_list (map (\<lambda>p. nodes (snd p)) es))"
proof (induction depth v b and depth skip xs b and depth n es out b rule: bound_json_bound_items_bound_fields.induct)
  case (1 depth v b)
  have b: "b \<noteq> 0" using 1(4) nodes_pos [of v] by simp
  show ?case
  proof (cases v)
    case (PList xs)
    with 1 b have "bound_items (Suc depth) (length xs - 200) xs (b - 1) = (xs, b - 1 - sum_list (map nodes xs))" by auto
    with 1 b PList show ?thesis by (simp add: bound_json.simps [of _ "PList _"])
  next
    case (PDict d)
    with 1 b have "bound_fields (Suc depth) 200 d [] (b - 1) = ([] @ d, b - 1 - sum_list (map (\<lambda>p. nodes (snd p)) d))" by auto
    with 1 b PDict show ?thesis by (simp add: bound_json.simps [of _ "PDict _"])
  qed (use 1 b in \<open>simp_all add: bound_json.simps\<close>)
next
  case (3 depth skip x xs b)
  have b: "b \<noteq> 0" using 3(5) nodes_pos [of x] by simp
  have x: "bound_json depth x b = (x, b - nodes x)" using 3 b by auto
  have "bound_items depth 0 xs (b - nodes x) = (xs, b - nodes x - sum_list (map nodes xs))" using 3 b x by auto
  with x b 3(6) show ?case by simp
next
  case (5 depth n k x es out b)
  have b: "b \<noteq> 0" using 5(6) nodes_pos [of x] by simp
  have n: "n \<noteq> 0" using 5(5) by simp
  have x: "bound_json depth x b = (x, b - nodes x)" using 5 b n by auto
  have k: "take 128 k = k" using 5(3) by simp
  have "k \<notin> fst ` set out" using 5(4) by (force simp: dict_ok_def dkeys_def)
  then have ds: "dset (take 128 k) x out = out @ [(k, x)]" by (simp add: k dset_absent)
  have "bound_fields depth (n - 1) es (out @ [(k, x)]) (b - nodes x) = ((out @ [(k, x)]) @ es, b - nodes x - sum_list (map (\<lambda>p. nodes (snd p)) es))"
    using 5(2) [OF n b refl x [symmetric]] 5(3-6) ds by auto
  with x b n ds show ?case by simp
qed auto

lemma read_small:
  "small 0 (PDict d) \<Longrightarrow> nodes (PDict d) \<le> checkpoint_budget \<Longrightarrow> read_bounded (PDict d) = Some d"
  using bound_small(1) [of 0 "PDict d"] by (simp add: read_bounded_def del: small.simps nodes.simps)

text \<open>A field that follows when the budget is spent does not get into the result.\<close>

lemma fields_spent:
  "snd (bound_fields depth n es out b) = 0 \<Longrightarrow> fst (bound_fields depth n (es @ [(k, v)]) out b) \<in>
     {fst (bound_fields depth n es out b), dset ''_checkpoint_truncated'' (PBool True) (fst (bound_fields depth n es out b))}"
proof (induction es arbitrary: n out b)
  case Nil
  then show ?case by simp
next
  case (Cons e es)
  obtain k1 x where e: "e = (k1, x)" by (rule prod.exhaust)
  obtain y b1 where x: "bound_json depth x b = (y, b1)" by (rule prod.exhaust)
  show ?case
  proof (cases "n = 0 \<or> b = 0")
    case False
    with Cons.prems e x have "snd (bound_fields depth (n - 1) es (dset (take 128 k1) y out) b1) = 0" by simp
    from Cons.IH [OF this] False e x show ?thesis by (simp del: insert_iff)
  qed (auto simp: e)
qed

section \<open>The newest files\<close>

lemma fst_candidates: "s \<in> snd ` set (candidates dir) \<Longrightarrow> s \<in> fst ` set dir"
  by (force simp: candidates_def dest: in_set_takeD)

lemma candidates_distinct:
  assumes "dict_ok dir"
  shows "distinct (map snd (candidates dir))"
proof -
  have "distinct (map fst (take max_files_scanned dir))" using assms by (simp add: dict_ok_def dkeys_def take_map [symmetric])
  then have "distinct (map fst (filter (\<lambda>(s, e). checkpoint_filename s \<and> cf_content e \<noteq> Not_file) (take max_files_scanned dir)))"
    by (rule distinct_map_filter)
  then show ?thesis by (simp add: candidates_def comp_def case_prod_beta)
qed

definition ranking :: "cdir \<Rightarrow> string list" where
  "ranking dir = map snd (rev (sort (candidates dir)))"

lemma files_ranking: "checkpoint_files n dir = take n (ranking dir)"
  by (simp add: checkpoint_files_def ranking_def take_map)

lemma set_ranking: "set (ranking dir) = snd ` set (candidates dir)"
  by (simp add: ranking_def)

lemma ranking_distinct: "dict_ok dir \<Longrightarrow> distinct (ranking dir)"
proof -
  assume "dict_ok dir"
  then have "distinct (map snd (candidates dir))" by (rule candidates_distinct)
  then have "distinct (map snd (sort (candidates dir)))"
    by (metis distinct_map distinct_sort set_sort)
  then show ?thesis by (simp add: ranking_def rev_map [symmetric])
qed

lemma length_ranking: "length dir \<le> max_files_scanned \<Longrightarrow> length (ranking dir) \<le> max_files_scanned"
  by (simp add: ranking_def candidates_def) (meson length_filter_le order_trans)

lemma ranking_filter:
  assumes "length dir \<le> max_files_scanned"
  shows "ranking (filter (\<lambda>(s, e). Q s) dir) = filter Q (ranking dir)"
proof -
  have "length (filter (\<lambda>(s, e). Q s) dir) \<le> max_files_scanned" using assms by (meson length_filter_le order_trans)
  then have "candidates (filter (\<lambda>(s, e). Q s) dir) = filter (\<lambda>p. Q (snd p)) (candidates dir)"
    using assms by (simp add: candidates_def filter_map comp_def case_prod_beta conj_commute)
  then show ?thesis
    by (simp add: ranking_def filter_sort [of _ "\<lambda>x. x", symmetric] rev_filter [symmetric] filter_map comp_def)
qed

lemma take_filter_front:
  assumes "\<forall>x \<in> set (take n xs). Q x"
  shows "take n (filter Q xs) = take n xs"
proof -
  have "filter Q (take n xs) = take n xs" using assms by (simp add: filter_True)
  then have f: "filter Q xs = take n xs @ filter Q (drop n xs)" by (metis append_take_drop_id filter_append)
  show ?thesis
  proof (cases "length xs \<le> n")
    case False
    then show ?thesis by (simp add: f)
  qed (simp add: f)
qed

lemma cleanup_filter:
  assumes "dict_ok dir" "length dir \<le> max_files_scanned"
  obtains Q where "cleanup_old gone dir = filter (\<lambda>(s, e). Q s) dir" "\<forall>s \<in> set (take max_checkpoints (ranking dir)). Q s"
    "(\<forall>s. gone s) \<Longrightarrow> filter Q (ranking dir) = take max_checkpoints (ranking dir)"
proof -
  let ?cs = "ranking dir"
  have cs: "checkpoint_files max_files_scanned dir = ?cs" using length_ranking [OF assms(2)] by (simp add: files_ranking)
  have d: "distinct (take max_checkpoints ?cs @ drop max_checkpoints ?cs)" using ranking_distinct [OF assms(1)] by simp
  show ?thesis
  proof (cases "length ?cs \<le> max_checkpoints")
    case True
    then show ?thesis by (intro that [of "\<lambda>_. True"]) (simp_all add: cleanup_old_def cs)
  next
    case False
    let ?Q = "\<lambda>s. \<not> (s \<in> set (drop max_checkpoints ?cs) \<and> gone s)"
    have keep: "\<forall>s \<in> set (take max_checkpoints ?cs). ?Q s" using d by (metis disjoint_iff distinct_append)
    have "filter ?Q ?cs = take max_checkpoints ?cs" if g: "\<forall>s. gone s"
    proof -
      have "filter ?Q (take max_checkpoints ?cs @ drop max_checkpoints ?cs) = filter ?Q (take max_checkpoints ?cs) @ []"
        unfolding filter_append using g by (simp add: filter_empty_conv)
      then show ?thesis using keep by (simp add: filter_True)
    qed
    with keep False show ?thesis by (intro that [of ?Q]) (simp_all add: cleanup_old_def cs Let_def)
  qed
qed


lemma map_of_filter_key: "Q s \<Longrightarrow> map_of (filter (\<lambda>(s, e). Q s) dir) s = map_of dir s"
  by (induction dir) auto

lemma first_some_cong: "\<forall>x \<in> set xs. f x = g x \<Longrightarrow> first_some f xs = first_some g xs"
  by (induction xs) (auto split: option.split)

lemma read_filter: "Q s \<Longrightarrow> read_checkpoint opens (filter (\<lambda>(s, e). Q s) dir) s = read_checkpoint opens dir s"
  by (simp add: read_checkpoint_def map_of_filter_key)

lemma cleanup_facts:
  assumes "dict_ok dir" "length dir \<le> max_files_scanned"
  shows "checkpoint_files max_checkpoints (cleanup_old gone dir) = checkpoint_files max_checkpoints dir"
    "s \<in> set (checkpoint_files max_checkpoints dir) \<Longrightarrow> map_of (cleanup_old gone dir) s = map_of dir s"
    "(\<forall>s. gone s) \<Longrightarrow> length (ranking (cleanup_old gone dir)) \<le> max_checkpoints"
proof -
  obtain Q where Q: "cleanup_old gone dir = filter (\<lambda>(s, e). Q s) dir" "\<forall>s \<in> set (take max_checkpoints (ranking dir)). Q s"
    "(\<forall>s. gone s) \<Longrightarrow> filter Q (ranking dir) = take max_checkpoints (ranking dir)"
    using cleanup_filter [OF assms] by metis
  note r = ranking_filter [OF assms(2), of Q, folded Q(1)]
  show "checkpoint_files max_checkpoints (cleanup_old gone dir) = checkpoint_files max_checkpoints dir"
    by (simp only: files_ranking r take_filter_front [OF Q(2)])
  show "map_of (cleanup_old gone dir) s = map_of dir s" if "s \<in> set (checkpoint_files max_checkpoints dir)"
    using that Q(2) unfolding Q(1) by (intro map_of_filter_key) (simp add: files_ranking)
  show "length (ranking (cleanup_old gone dir)) \<le> max_checkpoints" if "\<forall>s. gone s"
    by (simp add: r Q(3) [OF that])
qed

lemma cleanup_latest:
  assumes "dict_ok dir" "length dir \<le> max_files_scanned"
  shows "latest_in opens (cleanup_old gone dir) = latest_in opens dir"
  unfolding latest_in_def cleanup_facts(1) [OF assms]
  by (intro first_some_cong ballI) (simp add: read_checkpoint_def cleanup_facts(2) [OF assms])

text \<open>A file written later than all others comes first.\<close>

lemma ranking_newest:
  assumes "(m, s) \<in> set (candidates dir)" "\<forall>e \<in> snd ` set dir. cf_mtime e \<le> m" "\<forall>e. (s, e) \<in> set dir \<longrightarrow> cf_mtime e = m"
    "\<forall>(s', e) \<in> set dir. cf_mtime e = m \<longrightarrow> s' = s"
  shows "\<exists>rest. ranking dir = s # rest"
proof -
  have top: "p \<le> (m, s)" if "p \<in> set (candidates dir)" for p
  proof -
    obtain s' e where e: "p = (cf_mtime e, s')" "(s', e) \<in> set dir" using \<open>p \<in> set (candidates dir)\<close>
      by (auto simp: candidates_def dest: in_set_takeD)
    then have "cf_mtime e \<le> m" using assms(2) by force
    moreover have "cf_mtime e = m \<Longrightarrow> s' = s" using assms(4) e(2) by blast
    ultimately show ?thesis by (cases "cf_mtime e = m") (auto simp: e(1) less_eq_prod_def)
  qed
  let ?xs = "sort (candidates dir)"
  have ne: "?xs \<noteq> []" using assms(1) by (metis empty_iff empty_set set_sort)
  have split: "butlast ?xs @ [last ?xs] = ?xs" using ne by (rule append_butlast_last_id)
  then have "sorted (butlast ?xs @ [last ?xs])" by simp
  then have "\<forall>x \<in> set (butlast ?xs @ [last ?xs]). x \<le> last ?xs" by (auto simp: sorted_append)
  then have "(m, s) \<le> last ?xs" using assms(1) by (simp add: split)
  moreover have "last ?xs \<le> (m, s)" using top [of "last ?xs"] last_in_set [OF ne] by simp
  ultimately have "last ?xs = (m, s)" by simp
  then have "rev ?xs = rev (butlast ?xs @ [(m, s)])" using split by simp
  then have "map snd (rev ?xs) = s # map snd (rev (butlast ?xs))" by (simp only: rev_append rev.simps append_Nil append_Cons list.map snd_conv)
  then show ?thesis unfolding ranking_def by (rule exI)
qed


section \<open>After saving\<close>

lemma save_cases:
  assumes "save_checkpoint env io a store = (Inr (c, s), store')"
  obtains m slot dir t v where "check_save a = Inr m" "channel_dir env store (sa_channel a) = Inr (c, slot)"
    "dir = (case slot of Some d \<Rightarrow> d | None \<Rightarrow> [])" "safe_component env ''turn_id'' (sa_turn a) = Inr t" "s = checkpoint_name t"
    "checkpoint_payload env a (sv_now io) m = Inr v"
    "store' = dset c (Channel_dir (cleanup_old (sv_gone io) (dset s \<lparr>cf_content = Json v, cf_mtime = sv_mtime io, cf_link = False\<rparr> dir)))
       (dset c (Channel_dir dir) store)"
proof -
  obtain m where m: "check_save a = Inr m" using assms by (cases "check_save a") (auto simp: save_checkpoint_def)
  obtain c1 slot where c: "channel_dir env store (sa_channel a) = Inr (c1, slot)"
    using assms m by (cases "channel_dir env store (sa_channel a)") (auto simp: save_checkpoint_def)
  obtain t where t: "safe_component env ''turn_id'' (sa_turn a) = Inr t"
    using assms m c by (cases "safe_component env ''turn_id'' (sa_turn a)") (auto simp: save_checkpoint_def Let_def split: if_splits)
  obtain v where v: "checkpoint_payload env a (sv_now io) m = Inr v"
    using assms m c t by (cases "checkpoint_payload env a (sv_now io) m") (auto simp: save_checkpoint_def Let_def split: if_splits)
  define dir where "dir = (case slot of Some d \<Rightarrow> d | None \<Rightarrow> [])"
  have "sv_write io = Written"
    using assms m c t v by (cases "sv_write io") (auto simp: save_checkpoint_def Let_def put_file_def split: if_splits sum.splits)
  then have "c1 = c \<and> s = checkpoint_name t
      \<and> store' = dset c (Channel_dir (cleanup_old (sv_gone io) (dset s \<lparr>cf_content = Json v, cf_mtime = sv_mtime io, cf_link = False\<rparr> dir)))
          (dset c (Channel_dir dir) store)"
    using assms m c t v by (auto simp: save_checkpoint_def Let_def put_file_def dir_def split: if_splits sum.splits)
  then show ?thesis using that m c t v dir_def by blast
qed

lemma channel_dir_name: "channel_dir env store channel = Inr (c, slot) \<Longrightarrow> safe_component env ''channel'' channel = Inr c"
  by (auto simp: channel_dir_def rbind_def split: sum.splits option.splits cslot.splits)

lemma channel_dir_slot:
  "channel_dir env store channel = Inr (c, slot) \<Longrightarrow> slot = (case map_of store c of Some (Channel_dir d) \<Rightarrow> Some d | _ \<Rightarrow> None)"
  by (auto simp: channel_dir_def rbind_def split: sum.splits option.splits cslot.splits)

lemma channel_dir_dset:
  "safe_component env ''channel'' channel = Inr c \<Longrightarrow> channel_dir env (dset c (Channel_dir dir) store) channel = Inr (c, Some dir)"
  by (simp add: channel_dir_def rbind_def)

lemma safe_component_chars:
  assumes "safe_component env label v = Inr t"
  shows "t \<noteq> []" "length t \<le> 128"
  using assms by (auto simp: safe_component_def Let_def split: pyval.splits if_splits)

lemma checkpoint_name_ok:
  "checkpoint_filename (checkpoint_name t) \<longleftrightarrow> 1 \<le> length t \<and> length t \<le> 128 \<and> list_all name_char t"
  by (auto simp: checkpoint_filename_def checkpoint_name_def)

lemma set_candidates: "length dir \<le> max_files_scanned \<Longrightarrow>
    set (candidates dir) = {(cf_mtime e, s) | s e. (s, e) \<in> set dir \<and> checkpoint_filename s \<and> cf_content e \<noteq> Not_file}"
  by (auto simp: candidates_def)

text \<open>A new file with the newest time is the first of the ranking, also after the clean-up.\<close>

lemma new_file_first:
  fixes v :: pyval
  assumes "dict_ok dir" "length dir < max_files_scanned" "\<forall>(s', e) \<in> set dir. s' \<noteq> s \<longrightarrow> cf_mtime e < m" "checkpoint_filename s"
  defines "dir' \<equiv> dset s \<lparr>cf_content = Json v, cf_mtime = m, cf_link = False\<rparr> dir"
  shows "latest_in opens (cleanup_old gone dir') = first_some (read_checkpoint opens dir') (s # drop 1 (checkpoint_files max_checkpoints dir'))"
    "map_of (cleanup_old gone dir') s = Some \<lparr>cf_content = Json v, cf_mtime = m, cf_link = False\<rparr>"
    "latest_in opens dir' = first_some (read_checkpoint opens dir') (s # drop 1 (checkpoint_files max_checkpoints dir'))"
proof -
  have ok: "dict_ok dir'" "length dir' \<le> max_files_scanned" using assms(1,2) by (auto simp: dir'_def length_dset)
  have e: "(s', e) \<in> set dir' \<longleftrightarrow> (s' = s \<and> e = \<lparr>cf_content = Json v, cf_mtime = m, cf_link = False\<rparr>) \<or> ((s', e) \<in> set dir \<and> s' \<noteq> s)" for s' e
    using set_dset [OF assms(1), of s "\<lparr>cf_content = Json v, cf_mtime = m, cf_link = False\<rparr>"] by (auto simp: dir'_def)
  have old: "cf_mtime e < m" if "(s', e) \<in> set dir" "s' \<noteq> s" for s' e using assms(3) that by blast
  have c: "(m, s) \<in> set (candidates dir')" using assms(4) by (force simp: set_candidates [OF ok(2)] e)
  have "\<exists>rest. ranking dir' = s # rest"
  proof (rule ranking_newest [OF c])
    show "\<forall>x \<in> snd ` set dir'. cf_mtime x \<le> m" using old by (fastforce simp: e)
    show "\<forall>x. (s, x) \<in> set dir' \<longrightarrow> cf_mtime x = m" by (simp add: e)
    show "\<forall>(s', x) \<in> set dir'. cf_mtime x = m \<longrightarrow> s' = s" using old by (fastforce simp: e)
  qed
  then obtain rest where r: "ranking dir' = s # rest" by blast
  have f: "checkpoint_files max_checkpoints dir' = s # take 9 rest" by (simp add: files_ranking r max_checkpoints_def)
  show "latest_in opens (cleanup_old gone dir') = first_some (read_checkpoint opens dir') (s # drop 1 (checkpoint_files max_checkpoints dir'))"
    unfolding cleanup_latest [OF ok] by (simp add: latest_in_def f)
  show "latest_in opens dir' = first_some (read_checkpoint opens dir') (s # drop 1 (checkpoint_files max_checkpoints dir'))"
    by (simp add: latest_in_def f)
  show "map_of (cleanup_old gone dir') s = Some \<lparr>cf_content = Json v, cf_mtime = m, cf_link = False\<rparr>"
    using cleanup_facts(2) [OF ok, of s gone] f by (simp add: dir'_def)
qed


text \<open>The channels of a store: every directory is a dictionary with room for a new file, and all files are older than \<open>m\<close>.\<close>

definition channels_ok :: "nat \<Rightarrow> croot \<Rightarrow> bool" where
  "channels_ok m store \<longleftrightarrow> (\<forall>c dir. map_of store c = Some (Channel_dir dir) \<longrightarrow>
     dict_ok dir \<and> length dir < max_files_scanned \<and> (\<forall>e \<in> snd ` set dir. cf_mtime e < m))"

section \<open>After marking\<close>

lemma path_cases:
  assumes "checkpoint_path env store channel turn = Inr (c, dir, s)"
  obtains slot t where "channel_dir env store channel = Inr (c, slot)" "dir = (case slot of Some d \<Rightarrow> d | None \<Rightarrow> [])"
    "safe_component env ''turn_id'' turn = Inr t" "s = checkpoint_name t" "\<not> link_at dir s"
  using assms that by (auto simp: checkpoint_path_def rbind_def Let_def split: sum.splits if_splits)

text \<open>What is read after the mark was written: the latest checkpoint of the channel is the marked one, bounded once more.\<close>

lemma marked_latest:
  assumes "checkpoint_path env store channel turn = Inr (c, dir, s)" "read_checkpoint opens dir s = Some d" "checkpoint_filename s"
    "channels_ok m store" "checked_size env (PDict (dset ''resumed'' (PBool True) d)) = Inr ()"
    "read_bounded (PDict (dset ''resumed'' (PBool True) d)) = Some d'"
  defines "store' \<equiv> snd (mark_resumed env opens Written m channel turn store)"
  shows "load_latest env opens channel store' = Inr (Some d')" "load_checkpoint env opens channel turn store' = Inr (Some d')"
proof -
  obtain slot t where f: "channel_dir env store channel = Inr (c, slot)" "dir = (case slot of Some d \<Rightarrow> d | None \<Rightarrow> [])"
    "safe_component env ''turn_id'' turn = Inr t" "s = checkpoint_name t"
    using path_cases [OF assms(1)] by metis
  let ?v = "PDict (dset ''resumed'' (PBool True) d)"
  have nd: "\<not> directory_at dir s" using assms(2) by (auto simp: directory_at_def read_checkpoint_def split: option.splits)
  let ?dir' = "dset s \<lparr>cf_content = Json ?v, cf_mtime = m, cf_link = False\<rparr> dir"
  have st: "store' = dset c (Channel_dir ?dir') store"
    unfolding store'_def by (simp add: mark_resumed_def assms(1,2,5) Let_def put_file_def nd)
  have dd: "dict_ok dir" "length dir < max_files_scanned" "\<forall>(s', e) \<in> set dir. s' \<noteq> s \<longrightarrow> cf_mtime e < m"
    using assms(4) channel_dir_slot [OF f(1)] f(2)
    by (fastforce simp: channels_ok_def max_files_scanned_def split: option.splits cslot.splits)+
  note N = new_file_first [OF dd assms(3), where v = ?v]
  have op: "opens s" using assms(2) by (auto simp: read_checkpoint_def split: option.splits rfile.splits if_splits)
  have r: "read_checkpoint opens ?dir' s = Some d'" using assms(6) op by (simp add: read_checkpoint_def)
  have cd: "channel_dir env store' channel = Inr (c, Some ?dir')"
    unfolding st by (rule channel_dir_dset [OF channel_dir_name [OF f(1)]])
  show "load_latest env opens channel store' = Inr (Some d')" using N(3) r by (simp add: load_latest_def cd rbind_def)
  show "load_checkpoint env opens channel turn store' = Inr (Some d')"
    using r by (simp add: load_checkpoint_def checkpoint_path_def cd rbind_def f(3) f(4) [symmetric] link_at_def)
qed

lemma read_bounded_fields: "read_bounded (PDict d) = Some (fst (bound_fields 1 200 d [] 899))"
  by (simp add: read_bounded_def bound_json.simps checkpoint_budget_def case_prod_beta)

lemma spent_fields: "snd (bound_json 0 (PDict d) checkpoint_budget) = snd (bound_fields 1 200 d [] 899)"
  by (simp add: bound_json.simps checkpoint_budget_def case_prod_beta)

lemma pending_truncated: "is_pending env now age (dset ''_checkpoint_truncated'' v d) = is_pending env now age d"
  by (auto simp: is_pending_def get_or_def split: sum.split pyfloat.split)

section \<open>Properties\<close>

definition turn_env :: checkpoint_env where
  "turn_env = \<lparr>ce_sha = (\<lambda>_. ''0''), ce_size = (\<lambda>_. Inr 100), ce_float = (\<lambda>_. None), ce_pairs = (\<lambda>_. Inr [])\<rparr>"

definition turn_args :: save_args where
  "turn_args = \<lparr>sa_channel = PStr ''c'', sa_turn = PStr ''t'', sa_messages = PList [PDict [(''role'', PStr ''user'')]], sa_trace = PList [],
     sa_task_state = PNone, sa_rounds = PInt 1, sa_model = PStr ''m'', sa_status = PStr ''done'', sa_response = PNone, sa_delivery = PNone\<rparr>"

definition turn_io :: save_io where
  "turn_io = \<lparr>sv_now = 5, sv_mtime = 1, sv_mkdir = True, sv_write = Written, sv_gone = (\<lambda>_. True)\<rparr>"

lemma turn_component: "safe_component turn_env l (PStr ''t'') = Inr ''t''" "safe_component turn_env l (PStr ''c'') = Inr ''c''"
  by (simp_all add: safe_component_def Let_def py_strip_def is_space_def name_char_def)

definition turn_fields :: "(string, pyval) dict" where
  "turn_fields = payload_fields turn_args 5 [PDict [(''role'', PStr ''user'')]] []"

lemma turn_saved_small: "small 0 (PDict turn_fields)" "nodes (PDict turn_fields) \<le> checkpoint_budget"
  by (simp_all add: turn_fields_def payload_fields_def turn_args_def dict_ok_def dkeys_def py_strip_def is_space_def checkpoint_budget_def)

lemma turn_checks: "check_save turn_args = Inr ([PDict [(''role'', PStr ''user'')]], [])"
  "sanitize_messages turn_env [PDict [(''role'', PStr ''user'')]] = Inr [PDict [(''role'', PStr ''user'')]]"
  "sanitize_trace [] = []"
  by (simp_all add: check_save_def turn_args_def status_ok_def py_strip_def is_space_def sanitize_messages_def dicts_of_def last_n_def
      max_messages_def sanitize_message_def get_or_def rbind_def sanitize_trace_def)

lemma turn_payload: "checkpoint_payload turn_env turn_args 5 ([PDict [(''role'', PStr ''user'')]], []) = Inr (PDict turn_fields)"
  using bound_small(1) [OF turn_saved_small]
  by (simp add: checkpoint_payload_def turn_checks rbind_def turn_fields_def [symmetric])

definition turn_saved :: "(string \<times> string) res \<times> croot" where
  "turn_saved = save_checkpoint turn_env turn_io turn_args []"

lemma turn_saved_ok: "turn_saved = (Inr (''c'', ''checkpoint_t.json''), snd turn_saved)"
proof -
  have "channel_dir turn_env [] (sa_channel turn_args) = Inr (''c'', None)"
    by (simp add: channel_dir_def turn_args_def turn_component rbind_def)
  moreover have "safe_component turn_env ''turn_id'' (sa_turn turn_args) = Inr ''t''" by (simp add: turn_args_def turn_component)
  moreover have "checked_size turn_env v = Inr ()" for v
    by (simp add: checked_size_def turn_env_def rbind_def guard_def max_checkpoint_bytes_def)
  ultimately show ?thesis
    by (simp add: turn_saved_def save_checkpoint_def turn_checks turn_io_def Let_def turn_payload link_at_def directory_at_def put_file_def checkpoint_name_def)
qed

definition marked_demo :: "nat \<Rightarrow> (string, pyval) dict" where
  "marked_demo n = [(''timestamp'', PFloat (Fin 5)), (''messages'', PList (replicate n (PList (replicate 6 PNone)))), (''status'', PStr ''done'')]"

definition marked_store :: "nat \<Rightarrow> croot" where
  "marked_store n = [(''c'', Channel_dir [(''checkpoint_t.json'', \<lparr>cf_content = Json (PDict (marked_demo n)), cf_mtime = 0, cf_link = False\<rparr>)])]"

lemma marked_small: "n \<le> 128 \<Longrightarrow> small 0 (PDict (marked_demo n))" "nodes (PDict (marked_demo n)) = 4 + 7 * n"
  by (auto simp: marked_demo_def dict_ok_def dkeys_def list_all_iff map_replicate sum_list_replicate)

lemma marked_facts:
  "checkpoint_path turn_env (marked_store n) (PStr ''c'') (PStr ''t'')
     = Inr (''c'', [(''checkpoint_t.json'', \<lparr>cf_content = Json (PDict (marked_demo n)), cf_mtime = 0, cf_link = False\<rparr>)], ''checkpoint_t.json'')"
  "channels_ok 1 (marked_store n)" "checked_size turn_env v = Inr ()" "checkpoint_filename ''checkpoint_t.json''"
proof -
  have c: "channel_dir turn_env (marked_store n) (PStr ''c'')
      = Inr (''c'', Some [(''checkpoint_t.json'', \<lparr>cf_content = Json (PDict (marked_demo n)), cf_mtime = 0, cf_link = False\<rparr>)])"
    by (simp add: channel_dir_def turn_component rbind_def marked_store_def)
  show "checkpoint_path turn_env (marked_store n) (PStr ''c'') (PStr ''t'')
     = Inr (''c'', [(''checkpoint_t.json'', \<lparr>cf_content = Json (PDict (marked_demo n)), cf_mtime = 0, cf_link = False\<rparr>)], ''checkpoint_t.json'')"
    by (simp add: checkpoint_path_def c turn_component rbind_def Let_def link_at_def checkpoint_name_def)
  show "channels_ok 1 (marked_store n)" by (simp add: channels_ok_def marked_store_def dict_ok_def dkeys_def max_files_scanned_def)
  show "checked_size turn_env v = Inr ()"
    by (simp add: checked_size_def turn_env_def rbind_def guard_def max_checkpoint_bytes_def)
  show "checkpoint_filename ''checkpoint_t.json''" by (simp add: checkpoint_filename_def name_char_def)
qed

lemma marked_read:
  assumes "n \<le> 128"
  shows "read_checkpoint (\<lambda>_. True) [(''checkpoint_t.json'', \<lparr>cf_content = Json (PDict (marked_demo n)), cf_mtime = 0, cf_link = False\<rparr>)] ''checkpoint_t.json''
    = Some (marked_demo n)"
proof -
  have "nodes (PDict (marked_demo n)) \<le> checkpoint_budget" using marked_small(2) [of n] assms by (simp add: checkpoint_budget_def)
  from read_small [OF marked_small(1) [OF assms] this] show ?thesis by (simp add: read_checkpoint_def)
qed

text \<open>
  C14 A checkpoint that was saved is the one found after a restart: when saving returns, the channel has only older files,
  fewer than 1024, the turn id is a plain name and the payload is within the limits, then loading the latest checkpoint of the channel and loading
  the checkpoint of the turn both give exactly the fields that were saved, whatever the clean-up deleted.\<close>

theorem saved_checkpoint_is_latest:
  assumes "save_checkpoint env io a store = (Inr (c, s), store')" "check_save a = Inr (ms0, tr0)" "sanitize_messages env ms0 = Inr ms"
    "saved = payload_fields a (sv_now io) ms (sanitize_trace tr0)" "small 0 (PDict saved)" "nodes (PDict saved) \<le> checkpoint_budget"
    "channels_ok (sv_mtime io) store" "safe_component env ''turn_id'' (sa_turn a) = Inr t" "list_all name_char t" "opens s"
  shows "load_latest env opens (sa_channel a) store' = Inr (Some saved)
    \<and> load_checkpoint env opens (sa_channel a) (sa_turn a) store' = Inr (Some saved)"
proof -
  obtain slot dir v where f: "channel_dir env store (sa_channel a) = Inr (c, slot)"
    "dir = (case slot of Some d \<Rightarrow> d | None \<Rightarrow> [])" "s = checkpoint_name t" "checkpoint_payload env a (sv_now io) (ms0, tr0) = Inr v"
    "store' = dset c (Channel_dir (cleanup_old (sv_gone io) (dset s \<lparr>cf_content = Json v, cf_mtime = sv_mtime io, cf_link = False\<rparr> dir)))
       (dset c (Channel_dir dir) store)"
    using save_cases [OF assms(1)] assms(2,8) by (metis sum.inject(2))
  let ?dir' = "dset s \<lparr>cf_content = Json v, cf_mtime = sv_mtime io, cf_link = False\<rparr> dir"
  have v: "v = PDict saved"
    using f(4) assms(3-6) bound_small(1) [of 0 "PDict saved" checkpoint_budget]
    by (simp add: checkpoint_payload_def rbind_def del: small.simps nodes.simps)
  have d: "dict_ok dir" "length dir < max_files_scanned" "\<forall>(s', e) \<in> set dir. s' \<noteq> s \<longrightarrow> cf_mtime e < sv_mtime io"
    using assms(7) channel_dir_slot [OF f(1)] f(2)
    by (fastforce simp: channels_ok_def max_files_scanned_def split: option.splits cslot.splits)+
  have n: "checkpoint_filename s" using assms(9) safe_component_chars [OF assms(8)] by (cases t) (simp_all add: f(3) checkpoint_name_ok)
  note N = new_file_first [OF d n, where v = v]
  have rd: "read_bounded v = Some saved" using read_small [OF assms(5,6)] by (simp add: v)
  have r: "read_checkpoint opens ?dir' s = Some saved" using rd assms(10) by (simp add: read_checkpoint_def)
  have r': "read_checkpoint opens (cleanup_old (sv_gone io) ?dir') s = Some saved"
    using rd assms(10) N(2) by (simp add: read_checkpoint_def)
  have cd: "channel_dir env store' (sa_channel a) = Inr (c, Some (cleanup_old (sv_gone io) ?dir'))"
    unfolding f(5) by (rule channel_dir_dset [OF channel_dir_name [OF f(1)]])
  have "load_latest env opens (sa_channel a) store' = Inr (Some saved)"
    using N(1) r by (simp add: load_latest_def cd rbind_def)
  moreover have "load_checkpoint env opens (sa_channel a) (sa_turn a) store' = Inr (Some saved)"
    using r' N(2) by (simp add: load_checkpoint_def checkpoint_path_def cd rbind_def assms(8) f(3) [symmetric] link_at_def)
  ultimately show ?thesis by blast
qed

theorem saved_checkpoint_is_latest_witness:
  "load_latest turn_env (\<lambda>_. True) (sa_channel turn_args) (snd turn_saved) = Inr (Some turn_fields)
   \<and> load_checkpoint turn_env (\<lambda>_. True) (sa_channel turn_args) (sa_turn turn_args) (snd turn_saved) = Inr (Some turn_fields)"
proof (rule saved_checkpoint_is_latest)
  show "save_checkpoint turn_env turn_io turn_args [] = (Inr (''c'', ''checkpoint_t.json''), snd turn_saved)"
    using turn_saved_ok by (simp add: turn_saved_def)
  show "check_save turn_args = Inr ([PDict [(''role'', PStr ''user'')]], [])" by (rule turn_checks)
  show "turn_fields = payload_fields turn_args (sv_now turn_io) [PDict [(''role'', PStr ''user'')]] (sanitize_trace [])"
    by (simp add: turn_fields_def turn_checks turn_io_def)
  show "safe_component turn_env ''turn_id'' (sa_turn turn_args) = Inr ''t''" by (simp add: turn_args_def turn_component)
qed (simp_all add: turn_checks turn_saved_small channels_ok_def name_char_def del: small.simps nodes.simps)


text \<open>
  C15 A checkpoint that was marked as resumed is not offered again: when the checkpoint and the mark are within the limits, its file
  has a plain name (letters, digits, underscore and hyphen; others are never listed), all files of the channel are older than the
  mark and fewer than 1024, and the mark was written, then the channel has no pending checkpoint, and the turn's checkpoint is what
  it was with the mark added.\<close>

theorem resumed_checkpoint_not_offered:
  assumes "checkpoint_path env store channel turn = Inr (c, dir, s)" "read_checkpoint opens dir s = Some d" "checkpoint_filename s"
    "channels_ok m store" "checked_size env (PDict (dset ''resumed'' (PBool True) d)) = Inr ()"
    "small 0 (PDict d)" "length d < 200" "nodes (PDict d) < checkpoint_budget"
  shows "has_pending env opens now age channel (snd (mark_resumed env opens Written m channel turn store)) = Inr False
    \<and> load_checkpoint env opens channel turn (snd (mark_resumed env opens Written m channel turn store))
      = Inr (Some (dset ''resumed'' (PBool True) d))"
proof -
  have "small 0 (PDict (dset ''resumed'' (PBool True) d))"
    using assms(6,7) by (auto simp: length_dset intro!: list_all_dset)
  moreover have "nodes (PDict (dset ''resumed'' (PBool True) d)) \<le> checkpoint_budget"
    using assms(8) sum_dset_le [of nodes "''resumed''" "PBool True" d] by simp
  ultimately have r: "read_bounded (PDict (dset ''resumed'' (PBool True) d)) = Some (dset ''resumed'' (PBool True) d)" by (rule read_small)
  have "\<not> is_pending env now age (dset ''resumed'' (PBool True) d)"
    by (auto simp: is_pending_def get_or_def split: sum.splits pyfloat.splits)
  with marked_latest [OF assms(1-5) r] show ?thesis by (simp add: has_pending_def rbind_def)
qed

theorem resumed_checkpoint_not_offered_witness:
  "has_pending turn_env (\<lambda>_. True) 6 60 (PStr ''c'') (snd (mark_resumed turn_env (\<lambda>_. True) Written 1 (PStr ''c'') (PStr ''t'') (marked_store 2))) = Inr False"
proof -
  have r: "read_checkpoint (\<lambda>_. True) [(''checkpoint_t.json'', \<lparr>cf_content = Json (PDict (marked_demo 2)), cf_mtime = 0, cf_link = False\<rparr>)] ''checkpoint_t.json''
    = Some (marked_demo 2)" by (rule marked_read) simp
  have s: "small 0 (PDict (marked_demo 2))" by (rule marked_small) simp
  from resumed_checkpoint_not_offered [OF marked_facts(1) r marked_facts(4) marked_facts(2,3) s] show ?thesis
    by (simp add: marked_small(2) checkpoint_budget_def del: nodes.simps) (simp add: marked_demo_def)
qed

text \<open>
  C40 The mark is lost on a large checkpoint: when reading a pending checkpoint with a plain name, in a channel of older files only,
  uses up its budget of nodes, the mark, which is the
  last field, is cut off each time the file is read, and the channel still has a pending checkpoint after it was marked as
  resumed.\<close>

theorem resume_mark_lost:
  assumes "checkpoint_path env store channel turn = Inr (c, dir, s)" "read_checkpoint opens dir s = Some d" "checkpoint_filename s"
    "channels_ok m store" "checked_size env (PDict (dset ''resumed'' (PBool True) d)) = Inr ()"
    "map_of d ''resumed'' = None" "snd (bound_json 0 (PDict d) checkpoint_budget) = 0"
    "read_bounded (PDict d) = Some d'" "is_pending env now age d'"
  shows "has_pending env opens now age channel (snd (mark_resumed env opens Written m channel turn store)) = Inr True"
proof -
  have app: "dset ''resumed'' (PBool True) d = d @ [(''resumed'', PBool True)]" using assms(6) by (intro dset_absent) (simp add: map_of_eq_None_iff)
  let ?d = "fst (bound_fields 1 200 (d @ [(''resumed'', PBool True)]) [] 899)"
  have "?d \<in> {d', dset ''_checkpoint_truncated'' (PBool True) d'}"
    using fields_spent [of 1 200 d "[]" 899 "''resumed''" "PBool True"] assms(7,8) by (simp add: spent_fields read_bounded_fields)
  then have "is_pending env now age ?d" using assms(9) by (auto simp: pending_truncated)
  with marked_latest(1) [OF assms(1-5) read_bounded_fields] show ?thesis by (simp add: has_pending_def rbind_def app)
qed

theorem resume_mark_lost_witness:
  "has_pending turn_env (\<lambda>_. True) 6 60 (PStr ''c'') (snd (mark_resumed turn_env (\<lambda>_. True) Written 1 (PStr ''c'') (PStr ''t'') (marked_store 128))) = Inr True"
proof -
  have r: "read_checkpoint (\<lambda>_. True) [(''checkpoint_t.json'', \<lparr>cf_content = Json (PDict (marked_demo 128)), cf_mtime = 0, cf_link = False\<rparr>)] ''checkpoint_t.json''
    = Some (marked_demo 128)" by (rule marked_read) simp
  have s: "small 0 (PDict (marked_demo 128))" by (rule marked_small) simp
  have n: "nodes (PDict (marked_demo 128)) = checkpoint_budget" by (simp only: marked_small(2)) (simp add: checkpoint_budget_def)
  have b: "snd (bound_json 0 (PDict (marked_demo 128)) checkpoint_budget) = 0" using bound_small(1) [OF s] n by (simp only: order_refl snd_conv diff_self_eq_0)
  have rb: "read_bounded (PDict (marked_demo 128)) = Some (marked_demo 128)" using read_small [OF s] n by (simp only: order_refl)
  have a: "map_of (marked_demo 128) ''resumed'' = None" "is_pending turn_env 6 60 (marked_demo 128)"
    by (simp_all add: marked_demo_def is_pending_def get_or_def)
  show ?thesis by (rule resume_mark_lost [OF marked_facts(1) r marked_facts(4) marked_facts(2,3) a(1) b rb a(2)])
qed

end
