(* ===== verification/Spec2Isabelle.thy ===== *)
theory Spec2Isabelle
  imports Obs_Circuit Backoff Dispatcher Event_Log Task_Ledger Payment_Store Interrupts Context_Window Turn_Queue Multi_Agent Remote_Registry Reminders Checkpoint
begin

text \<open>
  A verification library for the Norax runtime (the Python package \<open>norax\<close>): a personal agent server whose turns are driven
  by a language model that calls tools. The library models the parts whose correctness does not rest on a model's answers:
  the gates a tool call passes, the records that must survive crashes and concurrent workers, and the payment books.

  \<^bold>\<open>How the parts interact.\<close> A turn hands each tool call to \<open>Dispatcher.dispatch\<close> (\<open>norax/dispatch/__init__.py\<close>). It repairs the
  arguments, resolves the tool name, asks the risk gate, looks for the result of the same request id, joins a running
  duplicate, asks the budget and the loop guard, and only then runs the tool. Around it a circuit breaker per tool, retry with
  backoff and the human approvals decide whether a call is made at all. What happened is appended to a hash-chained event log
  that a separate verifier reads. Tasks, paid sessions and windows are files that are replaced atomically and shared by workers.

  \<^bold>\<open>Theories and sources.\<close>
  \<^item> \<open>Prelude\<close>, \<open>PyDict\<close>: dynamic values, exceptions and results, Python dictionaries, generic list facts, and the locale
    \<open>machine\<close> of step machines that the stateful components interpret.
  \<^item> \<open>Breaker_Contract\<close>, \<open>Circuit_Breaker\<close>, \<open>Obs_Circuit\<close>: the contract of a circuit breaker, the breaker of
    \<open>runtime/circuit_breaker.py\<close> with its registry, the windowed breaker of \<open>observability/circuit.py\<close>.
  \<^item> \<open>Backoff\<close>: \<open>runtime/backoff.py\<close>, \<open>observability/retry.py\<close>. \<open>Loop_Guard\<close>, \<open>Idempotency\<close>, \<open>Budget\<close>, \<open>Risk\<close>: the modules of
    \<open>dispatch\<close> of the same names, the tool names of \<open>dispatch/router.py\<close> with \<open>Risk\<close>. \<open>Tool_Args\<close>: \<open>dispatch/input_coercion.py\<close> and
    \<open>normalize_tool_args\<close> of \<open>dispatch/tools.py\<close>.
  \<^item> \<open>Dispatcher\<close>: \<open>dispatch/__init__.py\<close>, cut at its awaits, with a step relation over concurrent calls.
  \<^item> \<open>Event_Values\<close>, \<open>Event_Chain\<close>, \<open>Event_Log\<close>: \<open>observability/log.py\<close> and \<open>verify_event_chain.py\<close>.
  \<^item> \<open>Atomic\<close>: \<open>atomic.py\<close> over names and inodes, every intermediate file system in the trace.
  \<^item> \<open>Task_Ledger\<close>: \<open>runtime/task_ledger.py\<close>. \<open>Payment_Token\<close>, \<open>Payment_Store\<close>: \<open>commerce/payment_gate.py\<close>.
  \<^item> \<open>Interrupts\<close>: \<open>runtime/interrupts.py\<close>, the human approval of tool calls.
  \<^item> \<open>Context_Window\<close>: \<open>context/window.py\<close>, the conversation of a channel with its archive and saved form.
  \<^item> \<open>Turn_Queue\<close>: the turn queues of \<open>runtime/lifecycle.py\<close> with the stop command of \<open>runtime/session.py\<close>, as a step relation.
  \<^item> \<open>Multi_Agent\<close>: \<open>brain/multi_agent.py\<close>, the scheduler of sub-agents as a recursion and as the interleaving of its tasks.
  \<^item> \<open>Remote_Registry\<close>: \<open>remote/registry.py\<close>, the nodes that may run remote jobs, their tokens and the audit log of the jobs.
  \<^item> \<open>Reminders\<close>: \<open>runtime/reminders.py\<close>, reminder files, the tick that delivers them, and retries.
  \<^item> \<open>Checkpoint\<close>: \<open>runtime/checkpoint.py\<close>, bounded turn checkpoints, their clean-up and the mark of a resumed one.

  Within a theory the definitions follow the module: its data as records and datatypes, its methods in the order of the
  source, each taking and returning the state of its object. A method that can raise has the type \<open>op\<close>: the result is a
  sum of the exception and the value, and the state is the one left behind on that path.

  \<^bold>\<open>What the lemmas show.\<close> Each component has an invariant that all of its operations keep, through an interpretation
  of \<open>machine\<close> or a reachability predicate with rule induction, and its properties rest on it. The breakers fail fast, recover
  and refine their contract. The dispatcher runs a request id at most once, replays its result in every later run within the lifetime and the capacity of
  its cache, wakes its duplicates and runs nothing that risk gate and budget have not admitted. The verifier accepts what the writer writes, up to its limits of size and number of files, and rejects any other
  history of the same anchor. A reader of an atomically written file sees the old or the new text in every crash. A payment
  buys one session in every interleaving of workers with failing writes, and credits are conserved. Workers of the task ledger
  see one table. An approval answers one retry of exactly the call it was given for. The context window loses no frame, as long as the identifiers of the calls in its body are not reused, and never separates
  a call from its result. The turns of a channel are started in the order of their arrival and the pending ones are counted
  exactly, in every interleaving; two theorems over all reachable states say when a rejected message makes the queue lose the
  next accepted turn and when a stop lets two turns of a channel overlap.
  The schedule of sub-agents ends, computes what running them in batches computes, and calls each once after its predecessors.
  A reminder that can be delivered is never starved or sent again, except by a file that stops the tick. A saved checkpoint is the
  one found after a restart, and marking it takes it back unless it is too large. Only a token issued for a remote node authenticates it, and the audit log of its jobs does not depend on secrets. This theory composes the dispatcher with
  its risk gate and budget.

  \<^bold>\<open>Bounds and termination.\<close> All recursions are total: structural, or with a measure (records left, bytes left to
  write, attempts left). No fuel is used. The limits of the code (token, record, line and file sizes) are the literal constants.

  \<^bold>\<open>Assumptions.\<close> A float that has been checked to be finite is a real number; rounding is not modelled, the end of the
  range where the code meets it is. One operation reads the clock once. SHA-256, HMAC, regular expressions, JSON text, path
  resolution and fresh names are parameters; where a theorem needs it, digests are assumed injective on the values compared
  and fresh names unused. Writing a JSON value and reading it back is the identity, except where a writer sorts the keys and a reader
  depends on their order (the remote registry), where \<open>json.dumps\<close> refuses a value (reminders), and where the reader splits lines at
  a character that the writer leaves unescaped (the task ledger). File locks serialise writers, as the
  operating system documents. Clocks do not run backwards and no two states of a file
  have the same signature where a theorem speaks of later calls. Strings are lists of code points below 256.

  \<^bold>\<open>Not modelled.\<close> The agent loop, the turn pipeline and the cognition modules decide by model output and text heuristics,
  gateway clients, adapters, tools, MCP and remote execution by the answers of external services, the memory stores by a
  database engine and embedding models: their behaviour is not determined by the code in this repository. Desktop tools,
  scripts, benchmarks and training are programs beside the runtime. Log calls, statistics and singletons are left out
  everywhere.
\<close>

section \<open>Dispatch across its gates\<close>

lemma start_runs_admit:
  assumes "dispatch_start env today now name a0 cl rid st = (Runs c, st')"
  shows "\<exists>a key st1. authorized env name a0 cl a \<and> dp_budget st1 = dp_budget st \<and>
    dispatch_admit env today (normalize_tool_name name) a cl
      (risk_check (de_risk env) (normalize_tool_name name) (PDict a) (cl_tier cl)) key st1 = (Runs c, st')"
proof (cases "\<exists>a. authorized env name a0 cl a")
  case False
  then show ?thesis using start_unauthorized [OF False, of today now rid st] assms by auto
next
  case True
  then obtain a where a: "authorized env name a0 cl a" ..
  show ?thesis
  proof (cases rid)
    case None
    then show ?thesis using start_anonymous [OF a] assms a by metis
  next
    case (Some r)
    show ?thesis
    proof (cases "validate_request_id r")
      case (Inl e)
      then show ?thesis using start_bad_id [OF Inl] assms Some by (metis Pair_inject started.distinct(5))
    next
      case (Inr k)
      obtain got cache where g: "idem_get now k (Some (de_scope env (normalize_tool_name name) a cl)) (dp_cache st) = (got, cache)"
        by force
      have "dispatch_admit env today (normalize_tool_name name) a cl
          (risk_check (de_risk env) (normalize_tool_name name) (PDict a) (cl_tier cl))
          (Some (k, de_scope env (normalize_tool_name name) a cl)) (st\<lparr>dp_cache := cache\<rparr>) = (Runs c, st')"
        using start_keyed [OF a Inr g, of today] assms Some
        by (auto split: sum.splits option.splits if_splits prod.splits)
      with a show ?thesis by (intro exI [of _ a] exI conjI) auto
    qed
  qed
qed

lemma admit_runs:
  assumes "dispatch_admit env today tool a cl d key st = (Runs c, st')"
  shows "rc_tool c = tool \<and> rc_args c = a \<and> rc_tier c = rd_tier d
    \<and> rc_zone c = bz_zone (fst (assess (cl_id cl) (cl_tier cl) today (dp_budget st)))
    \<and> rc_zone c \<noteq> Hard_block \<and> (rc_zone c = Red \<longrightarrow> rc_tier c = T0)"
  using assms by (auto simp: dispatch_admit_def read_only_def Let_def
      split: prod.splits if_splits sum.splits option.splits)

lemma assess_usage [simp]: "used_today (snd (assess caller tier today b)) c0 today = used_today b c0 today"
  by (simp add: assess_def Let_def case_prod_beta)

lemma admit_budget:
  "dp_budget (snd (dispatch_admit env today tool a cl d key st)) = snd (assess (cl_id cl) (cl_tier cl) today (dp_budget st))"
  by (auto simp: dispatch_admit_def Let_def split: prod.split sum.split option.split)

lemma start_budget:
  "dp_budget (snd (dispatch_start env today now name a0 cl rid st)) \<in>
    {dp_budget st, snd (assess (cl_id cl) (cl_tier cl) today (dp_budget st))}"
proof (cases "\<exists>a. authorized env name a0 cl a")
  case False
  then show ?thesis using start_unauthorized [OF False, of today now rid st] by auto
next
  case True
  then obtain a where a: "authorized env name a0 cl a" ..
  show ?thesis
  proof (cases rid)
    case None
    then show ?thesis using start_anonymous [OF a] by (simp add: admit_budget)
  next
    case (Some r)
    show ?thesis
    proof (cases "validate_request_id r")
      case (Inl e)
      then show ?thesis using start_bad_id [OF Inl] Some by (metis insertI1 snd_conv)
    next
      case (Inr k)
      obtain got cache where g: "idem_get now k (Some (de_scope env (normalize_tool_name name) a cl)) (dp_cache st) = (got, cache)"
        by force
      show ?thesis using start_keyed [OF a Inr g, of today] Some
        by (auto simp: admit_budget split: sum.split option.split prod.split)
    qed
  qed
qed

lemma record_one_usage:
  "us_requests (used_today (snd (record_usage caller (PFloat (Fin 0)) (PInt 0) (PInt 1) today b)) c0 today)
     = us_requests (used_today b c0 today) + (if c0 = caller then 1 else 0)"
proof (cases "c0 = caller")
  case True
  then show ?thesis
    by (simp add: record_usage_def nonneg_int_field_def case_prod_beta used_today_same used_today_def [symmetric])
next
  case False
  then show ?thesis
    by (simp add: record_usage_def nonneg_int_field_def case_prod_beta used_today_other)
qed

lemma finish_budget:
  "dp_budget (snd (dispatch_finish now today outcome c st)) =
    (case outcome of Inl e \<Rightarrow> dp_budget st
     | Inr v \<Rightarrow> snd (record_usage (cl_id (rc_caller c)) (PFloat (Fin 0)) (PInt 0) (PInt 1) today (dp_budget st)))"
proof -
  have "dp_budget (snd (finish_body now today outcome c st)) =
    (case outcome of Inl e \<Rightarrow> dp_budget st
     | Inr v \<Rightarrow> snd (record_usage (cl_id (rc_caller c)) (PFloat (Fin 0)) (PInt 0) (PInt 1) today (dp_budget st)))"
    by (auto simp: finish_body_def Let_def split: sum.split option.split prod.split)
  then show ?thesis by (auto simp: dispatch_finish_def Let_def split: option.split prod.split sum.split)
qed

text \<open>
  C25 A tool runs only what was authorized: a call that is refused for its name, its arguments or
  its authority leaves no trace, whatever the cache holds; a call that runs is of a registered
  tool whose tier the caller may use, in a budget zone that admits it (never past a hard block,
  only tier T0 in the read-only zone), and the command string that an \<open>exec\<close> or \<open>shell\<close> call
  hands to the tool is free of the dangerous patterns or an inert inspection.
\<close>

theorem dispatch_runs_only_authorized:
  "((\<exists>a. authorized env name a0 cl a)
      \<or> (\<exists>e. dispatch_start env today now name a0 cl rid st = (Refused e, st)))
   \<and> (\<forall>c. fst (dispatch_start env today now name a0 cl rid st) = Runs c \<longrightarrow>
        de_registered env (rc_tool c) \<and> classify (rc_tool c) \<in> allowed_tiers (cl_tier cl)
        \<and> rc_zone c \<noteq> Hard_block \<and> (rc_zone c = Red \<longrightarrow> classify (rc_tool c) = T0)
        \<and> (rc_tool c \<in> {''exec'', ''shell''} \<longrightarrow>
             (case dget (rc_args c) ''command'' of
                PStr s \<Rightarrow> s \<noteq> [] \<longrightarrow> is_inert_literal_inspection (de_risk env) s
                                    \<or> first_hit (re_dangerous (de_risk env)) s = None
              | PNone \<Rightarrow> True | _ \<Rightarrow> False)))"
proof (intro conjI allI impI)
  show "(\<exists>a. authorized env name a0 cl a) \<or> (\<exists>e. dispatch_start env today now name a0 cl rid st = (Refused e, st))"
    using start_unauthorized by blast
  fix c assume "fst (dispatch_start env today now name a0 cl rid st) = Runs c"
  note run = fst_pairD [OF this]
  obtain a key st1 where au: "authorized env name a0 cl a" and
    ad: "dispatch_admit env today (normalize_tool_name name) a cl
      (risk_check (de_risk env) (normalize_tool_name name) (PDict a) (cl_tier cl)) key st1 = (Runs c, snd (dispatch_start env today now name a0 cl rid st))"
    using start_runs_admit [OF run] by blast
  note c = admit_runs [OF ad]
  note g = au [unfolded authorized_def risk_check_allowed]
  show "de_registered env (rc_tool c)" "classify (rc_tool c) \<in> allowed_tiers (cl_tier cl)"
    "rc_zone c \<noteq> Hard_block" "rc_zone c = Red \<Longrightarrow> classify (rc_tool c) = T0"
    using g c by auto
  assume t: "rc_tool c \<in> {''exec'', ''shell''}"
  then have "str_or_none (dget (rc_args c) ''command'')"
    using normalize_exec [of "rc_tool c" "de_parse env" a0 a] clean_timeout_dget [of _ _ _ "''command''"] clean_command_str g c
    by fastforce
  moreover have "is_inert_literal_inspection (de_risk env) s \<or> first_hit (re_dangerous (de_risk env)) s = None"
    if "dget (rc_args c) ''command'' = PStr s" "s \<noteq> []" for s
  proof -
    have "pget (PDict a) ''command'' = PStr s" using that(1) c by (simp add: dget_def split: option.splits)
    then have "command_text (de_risk env) (PDict a) = s"
      using that(2) by (simp add: command_text_def por_def str_of_def)
    moreover have "normalize_tool_name name \<in> shell_tools" using t c by (auto simp: shell_tools_def)
    ultimately show ?thesis using g by auto
  qed
  ultimately show "case dget (rc_args c) ''command'' of
      PStr s \<Rightarrow> s \<noteq> [] \<longrightarrow> is_inert_literal_inspection (de_risk env) s \<or> first_hit (re_dangerous (de_risk env)) s = None
    | PNone \<Rightarrow> True | _ \<Rightarrow> False"
    by (auto simp: str_or_none_def)
qed

theorem dispatch_runs_only_authorized_witness:
  "classify (rc_tool demo_call) \<in> allowed_tiers ''owner''"
  using dispatch_runs_only_authorized [of demo_dispatch_env "''status''" "[]" demo_caller 1 0 "Some ''r1''" demo_dispatcher]
    demo_start_runs by (simp add: demo_start_def demo_caller_def)

text \<open>
  What a dispatch costs: starting a call, whatever comes of it, changes nobody's usage of the
  day; finishing it adds exactly one request to its caller when the tool returned and nothing
  when it raised or was cancelled, also when the result is for a request id already cached.
\<close>

lemma dispatch_counts_requests:
  "us_requests (used_today (dp_budget (snd (dispatch_start env today now name a0 cl rid st))) c0 today)
     = us_requests (used_today (dp_budget st) c0 today)
   \<and> us_requests (used_today (dp_budget (snd (dispatch_finish now today outcome c st))) c0 today)
     = us_requests (used_today (dp_budget st) c0 today)
       + (if is_ok outcome \<and> c0 = cl_id (rc_caller c) then 1 else 0)"
proof
  show "us_requests (used_today (dp_budget (snd (dispatch_start env today now name a0 cl rid st))) c0 today)
     = us_requests (used_today (dp_budget st) c0 today)"
    using start_budget [of env today now name a0 cl rid st] by auto
  show "us_requests (used_today (dp_budget (snd (dispatch_finish now today outcome c st))) c0 today)
     = us_requests (used_today (dp_budget st) c0 today) + (if is_ok outcome \<and> c0 = cl_id (rc_caller c) then 1 else 0)"
    by (cases outcome) (simp_all add: finish_budget record_one_usage)
qed

end
